(* ===== verification/C_Prelude.thy ===== *)
theory C_Prelude
  imports Main "HOL-Library.Word" "HOL-Library.Signed_Division"
begin

unbundle bit_operations_syntax

section \<open>C machine arithmetic shared by the components\<close>

text \<open>
  The C code computes with fixed-width integers. Pointers are values of \<open>64 word\<close>.
  Small unsigned quantities (ranks, indices, counters) are natural numbers on which the
  wrap-around of the C type is written out: \<open>u8\<close> and \<open>u32\<close> truncate, \<open>add32\<close>, \<open>sub32\<close>,
  \<open>mul32\<close>, \<open>shl32\<close> and \<open>xor32\<close> are the operators of \<open>unsigned int\<close>.
  The collection \<open>c_arith\<close> holds the rules that remove the wrap-around where the operands
  are known to be small.
\<close>

named_theorems c_arith \<open>unsigned operators without wrap-around\<close>

type_synonym ptr = "64 word"

definition u8 :: "nat \<Rightarrow> nat" where "u8 n = n mod 2 ^ 8"
definition u32 :: "nat \<Rightarrow> nat" where "u32 n = n mod 2 ^ 32"

definition add32 :: "nat \<Rightarrow> nat \<Rightarrow> nat" where "add32 a b = u32 (a + b)"
definition sub32 :: "nat \<Rightarrow> nat \<Rightarrow> nat" where "sub32 a b = u32 (a + (2 ^ 32 - u32 b))"
definition mul32 :: "nat \<Rightarrow> nat \<Rightarrow> nat" where "mul32 a b = u32 (a * b)"
definition shl32 :: "nat \<Rightarrow> nat \<Rightarrow> nat" where "shl32 a n = u32 (a * 2 ^ n)"
definition xor32 :: "nat \<Rightarrow> nat \<Rightarrow> nat" where "xor32 a b = u32 a XOR u32 b"

lemma u8_small [c_arith]: "n < 256 \<Longrightarrow> u8 n = n"
  by (simp add: u8_def)

lemma u32_small [c_arith]: "n < 2 ^ 32 \<Longrightarrow> u32 n = n"
  by (simp add: u32_def)

lemma u8_less [simp]: "u8 n < 256"
  by (simp add: u8_def)

lemma u32_less [simp]: "u32 n < 2 ^ 32"
  by (simp add: u32_def)

lemma add32_small [c_arith]: "a + b < 2 ^ 32 \<Longrightarrow> add32 a b = a + b"
  by (simp add: add32_def u32_small)

lemma sub32_small [c_arith]: "b \<le> a \<Longrightarrow> a < 2 ^ 32 \<Longrightarrow> sub32 a b = a - b"
proof -
  assume ba: "b \<le> a" and a: "a < 2 ^ 32"
  then have "a + (2 ^ 32 - u32 b) = (a - b) + 2 ^ 32"
    by (simp add: u32_small)
  then have "sub32 a b = (a - b) mod 2 ^ 32"
    by (simp only: sub32_def u32_def mod_add_self2)
  with a show ?thesis by simp
qed

lemma mul32_small [c_arith]: "a * b < 2 ^ 32 \<Longrightarrow> mul32 a b = a * b"
  by (simp add: mul32_def u32_small)

lemma shl32_small [c_arith]: "a * 2 ^ n < 2 ^ 32 \<Longrightarrow> shl32 a n = a * 2 ^ n"
  by (simp add: shl32_def u32_small)

lemma xor32_1: "a < 2 ^ 32 \<Longrightarrow> xor32 a 1 = (if even a then a + 1 else a - 1)"
  by (simp add: xor32_def u32_small xor_Suc_0_eq)

text \<open>A counting loop \<open>for (i = lo; i < hi; ++i)\<close> whose body transforms the state.\<close>

definition for_range :: "nat \<Rightarrow> nat \<Rightarrow> (nat \<Rightarrow> 's \<Rightarrow> 's) \<Rightarrow> 's \<Rightarrow> 's" where
  "for_range lo hi body = fold body [lo..<hi]"


subsection \<open>64-bit sizes and addresses\<close>

text \<open>
  In the malloc laboratory addresses and \<open>size_t\<close> values are natural numbers below \<open>2 ^ 64\<close>;
  \<open>add64\<close> and \<open>sub64\<close> are the operators of \<open>unsigned long\<close>, \<open>s32\<close> and \<open>s64\<close> reinterpret
  the low bits as a signed \<open>int\<close> or \<open>long\<close>.
\<close>

type_synonym addr = nat

definition u64 :: "nat \<Rightarrow> nat" where "u64 n = n mod 2 ^ 64"
definition add64 :: "nat \<Rightarrow> nat \<Rightarrow> nat" where "add64 a b = u64 (a + b)"
definition sub64 :: "nat \<Rightarrow> nat \<Rightarrow> nat" where "sub64 a b = u64 (a + (2 ^ 64 - u64 b))"
definition mul64 :: "nat \<Rightarrow> nat \<Rightarrow> nat" where "mul64 a b = u64 (a * b)"

definition s32 :: "nat \<Rightarrow> int" where
  "s32 n = (if u32 n < 2 ^ 31 then int (u32 n) else int (u32 n) - 2 ^ 32)"

definition s64 :: "nat \<Rightarrow> int" where
  "s64 n = (if u64 n < 2 ^ 63 then int (u64 n) else int (u64 n) - 2 ^ 64)"

text \<open>The bits of a negative \<open>int\<close> converted to \<open>size_t\<close> or \<open>unsigned int\<close>.\<close>

definition to_u64 :: "int \<Rightarrow> nat" where "to_u64 i = nat (i mod 2 ^ 64)"
definition to_u32 :: "int \<Rightarrow> nat" where "to_u32 i = nat (i mod 2 ^ 32)"

lemma u64_small [c_arith]: "n < 2 ^ 64 \<Longrightarrow> u64 n = n"
  by (simp add: u64_def)

lemma u64_less [simp]: "u64 n < 2 ^ 64"
  by (simp add: u64_def)

lemma add64_small [c_arith]: "a + b < 2 ^ 64 \<Longrightarrow> add64 a b = a + b"
  by (simp add: add64_def u64_small)

lemma sub64_small [c_arith]:
  assumes ba: "b \<le> a" and a: "a < 2 ^ 64"
  shows "sub64 a b = a - b"
proof -
  have "a + (2 ^ 64 - u64 b) = (a - b) + 2 ^ 64" using assms by (simp add: u64_small)
  then have "sub64 a b = (a - b) mod 2 ^ 64" by (simp only: sub64_def u64_def mod_add_self2)
  with a show ?thesis by simp
qed

lemma mul64_small [c_arith]: "a * b < 2 ^ 64 \<Longrightarrow> mul64 a b = a * b"
  by (simp add: mul64_def u64_small)

lemma s32_small [c_arith]: "n < 2 ^ 31 \<Longrightarrow> s32 n = int n"
  by (simp add: s32_def u32_small)

lemma s64_small [c_arith]: "n < 2 ^ 63 \<Longrightarrow> s64 n = int n"
  by (simp add: s64_def u64_small)

text \<open>The macro \<open>ALIGN\<close> of the allocators: rounding up to a multiple of eight.\<close>

definition ALIGN :: "nat \<Rightarrow> nat" where
  "ALIGN n = add64 n (8 - 1) AND to_u64 (- 8)"

lemma and_minus_8:
  assumes "x < 2 ^ 64"
  shows "x AND to_u64 (- 8) = x div 8 * 8"
proof -
  have "x AND to_u64 (- 8) = push_bit 3 (drop_bit 3 x)"
  proof (rule bit_eqI)
    fix n
    have "to_u64 (- 8) = push_bit 3 (mask 61)"
      by (simp add: to_u64_def push_bit_eq_mult mask_eq_exp_minus_1)
    moreover have "n < 64" if "bit x n"
    proof (rule ccontr)
      assume "\<not> n < 64"
      then have "x < 2 ^ n" by (intro less_le_trans [OF assms power_increasing]) auto
      then show False using that by (simp add: bit_iff_odd)
    qed
    ultimately show "bit (x AND to_u64 (- 8)) n = bit (push_bit 3 (drop_bit 3 x)) n"
      by (auto simp: bit_and_iff bit_push_bit_iff bit_drop_bit_eq bit_mask_iff not_less)
  qed
  then show ?thesis by (simp add: push_bit_eq_mult drop_bit_eq_div)
qed

lemma ALIGN_small [c_arith]: "n + 7 < 2 ^ 64 \<Longrightarrow> ALIGN n = (n + 7) div 8 * 8"
  by (simp add: ALIGN_def add64_small and_minus_8)

definition align8 :: "nat \<Rightarrow> nat" where "align8 n = (n + 7) div 8 * 8"

lemma align8_bounds: "n \<le> align8 n" "align8 n < n + 8" "8 dvd align8 n"
  unfolding align8_def by presburger+

end
