(* ===== verification/Buddy_Blocks.thy ===== *)
theory Buddy_Blocks
  imports C_Prelude
begin

section \<open>Tilings of a page range by buddy blocks\<close>

text \<open>
  The abstract state of the buddy allocator. A block of rank \<open>r\<close> starts at a page that is a
  multiple of \<open>2 ^ (r - 1)\<close> and has that many pages. A tiling maps the first page of each block
  to its use and rank. \<open>wf_tiling R A\<close> says that the blocks of \<open>A\<close> partition the
  \<open>2 ^ (R - 1)\<close> pages; \<open>no_buddies\<close> says that no two free blocks are buddies. The main
  result is \<open>free_maximal\<close>: in a tiling without free buddies every aligned range that
  meets no used block lies inside one free block, so the free blocks are determined by the used
  ones and an allocation fails only when no aligned range of the size is free.
\<close>

datatype use = Free | Used

type_synonym tiling = "nat \<rightharpoonup> use \<times> nat"

definition bsize :: "nat \<Rightarrow> nat" where "bsize r = 2 ^ (r - 1)"

definition buddy_page :: "nat \<Rightarrow> nat \<Rightarrow> nat" where
  "buddy_page p r = (if even (p div bsize r) then p + bsize r else p - bsize r)"

definition parent_page :: "nat \<Rightarrow> nat \<Rightarrow> nat" where
  "parent_page p r = (if even (p div bsize r) then p else p - bsize r)"

definition covers :: "nat \<Rightarrow> nat \<Rightarrow> nat \<Rightarrow> bool" where
  "covers p r q \<longleftrightarrow> p \<le> q \<and> q < p + bsize r"

definition wf_block :: "nat \<Rightarrow> nat \<Rightarrow> nat \<Rightarrow> bool" where
  "wf_block R p r \<longleftrightarrow> 1 \<le> r \<and> r \<le> R \<and> bsize r dvd p \<and> p < bsize R"

definition wf_tiling :: "nat \<Rightarrow> tiling \<Rightarrow> bool" where
  "wf_tiling R A \<longleftrightarrow>
     (\<forall>p u r. A p = Some (u, r) \<longrightarrow> wf_block R p r)
   \<and> (\<forall>q < bsize R. \<exists>p u r. A p = Some (u, r) \<and> covers p r q)
   \<and> (\<forall>p q u r v t. A p = Some (u, r) \<and> A q = Some (v, t) \<and> p < q \<longrightarrow> p + bsize r \<le> q)"

definition no_buddies :: "nat \<Rightarrow> tiling \<Rightarrow> bool" where
  "no_buddies R A \<longleftrightarrow>
     (\<forall>p r. A p = Some (Free, r) \<and> r < R \<longrightarrow> A (buddy_page p r) \<noteq> Some (Free, r))"

definition used_blocks :: "tiling \<Rightarrow> nat \<rightharpoonup> nat" where
  "used_blocks A p = (case A p of Some (Used, r) \<Rightarrow> Some r | _ \<Rightarrow> None)"

lemma used_blocks_Some [simp]: "used_blocks A p = Some r \<longleftrightarrow> A p = Some (Used, r)"
  by (auto simp: used_blocks_def split: option.splits use.splits)

subsection \<open>Arithmetic of ranks\<close>

lemma bsize_pos [simp]: "0 < bsize r"
  by (simp add: bsize_def)

lemma bsize_not_0 [simp]: "bsize r \<noteq> 0"
  by (simp add: bsize_def)

lemma bsize_ge_1 [simp]: "Suc 0 \<le> bsize r"
  by (simp add: bsize_def)

lemma bsize_1 [simp]: "bsize (Suc 0) = 1"
  by (simp add: bsize_def)

lemma bsize_Suc: "1 \<le> r \<Longrightarrow> bsize (Suc r) = 2 * bsize r"
  by (cases r) (auto simp: bsize_def)

lemma bsize_mono: "r \<le> t \<Longrightarrow> bsize r \<le> bsize t"
  by (simp add: bsize_def)

lemma bsize_dvd: "r \<le> t \<Longrightarrow> bsize r dvd bsize t"
  by (auto simp: bsize_def intro!: le_imp_power_dvd)

lemma dvd_less_add_le: "d dvd a \<Longrightarrow> d dvd b \<Longrightarrow> a < b \<Longrightarrow> a + d \<le> b" for a b d :: nat
  by (metis add_diff_inverse_nat add_le_cancel_left dvd_diff_nat dvd_imp_le less_imp_le
      less_imp_not_less zero_less_diff)

lemma wf_block_end: "wf_block R p r \<Longrightarrow> p + bsize r \<le> bsize R"
  unfolding wf_block_def by (meson bsize_dvd dvd_less_add_le)

lemma covers_start [simp]: "covers p r p"
  by (simp add: covers_def)

lemma bsize_dvd_Suc_even:
  assumes "1 \<le> r" and "bsize r dvd p"
  shows "bsize (Suc r) dvd p \<longleftrightarrow> even (p div bsize r)"
proof -
  from assms(2) obtain k where k: "p = bsize r * k" by (elim dvdE)
  have "bsize (Suc r) dvd p \<longleftrightarrow> bsize r * 2 dvd bsize r * k"
    using assms(1) by (simp add: k bsize_Suc mult.commute)
  also have "\<dots> \<longleftrightarrow> even k" by simp
  finally show ?thesis by (simp add: k)
qed

lemma buddy_cases:
  assumes "1 \<le> r" and "bsize r dvd p"
  obtains (left) "bsize (Suc r) dvd p" "buddy_page p r = p + bsize r" "parent_page p r = p"
  | (right) "\<not> bsize (Suc r) dvd p" "bsize r \<le> p" "buddy_page p r = p - bsize r"
      "parent_page p r = p - bsize r" "bsize (Suc r) dvd p - bsize r"
proof (cases "even (p div bsize r)")
  case True
  then show thesis
    using assms left by (simp add: bsize_dvd_Suc_even buddy_page_def parent_page_def)
next
  case False
  from assms(2) obtain k where k: "p = bsize r * k" by (elim dvdE)
  with False have odd: "odd k" by simp
  then have ge: "bsize r \<le> p" using k by (cases k) auto
  from k have "p - bsize r = bsize r * (k - 1)"
    by (simp add: right_diff_distrib')
  moreover from odd have "even (k - 1)" by simp
  ultimately have "bsize (Suc r) dvd p - bsize r"
    using assms(1) by (auto simp: bsize_Suc mult.commute elim!: evenE)
  with False ge show thesis
    using assms right by (simp add: bsize_dvd_Suc_even buddy_page_def parent_page_def)
qed

lemma wf_block_buddy:
  assumes "wf_block R p r" and "r < R"
  shows "wf_block R (buddy_page p r) r" "wf_block R (parent_page p r) (Suc r)"
    "buddy_page p r \<noteq> p"
proof -
  from assms(1) have r: "1 \<le> r" and d: "bsize r dvd p" and pR: "p < bsize R"
    by (auto simp: wf_block_def)
  from assms(2) have dR: "bsize (Suc r) dvd bsize R" by (simp add: bsize_dvd)
  have two: "bsize (Suc r) = 2 * bsize r" using r by (rule bsize_Suc)
  from r d show "wf_block R (buddy_page p r) r"
  proof (cases rule: buddy_cases)
    case left
    from dvd_less_add_le [OF left(1) dR pR] have "p + bsize r < bsize R"
      using two bsize_pos [of r] by linarith
    with left assms r d show ?thesis by (simp add: wf_block_def)
  next
    case right
    with assms r d pR show ?thesis by (simp add: wf_block_def)
  qed
  from r d show "wf_block R (parent_page p r) (Suc r)"
    using assms(2) pR by (cases rule: buddy_cases) (auto simp: wf_block_def)
  from r d show "buddy_page p r \<noteq> p"
  proof (cases rule: buddy_cases)
    case right
    with bsize_pos [of r] show ?thesis by linarith
  qed simp
qed

lemma buddy_involutive:
  assumes "1 \<le> r" and "bsize r dvd p"
  shows "buddy_page (buddy_page p r) r = p" "parent_page (buddy_page p r) r = parent_page p r"
proof -
  have two: "bsize (Suc r) = 2 * bsize r" using assms(1) by (rule bsize_Suc)
  have "buddy_page (buddy_page p r) r = p \<and> parent_page (buddy_page p r) r = parent_page p r"
    using assms
  proof (cases rule: buddy_cases)
    case left
    with assms have "odd ((p + bsize r) div bsize r)"
      by (simp add: bsize_dvd_Suc_even)
    with left show ?thesis
      by (simp add: buddy_page_def [of "p + bsize r"] parent_page_def [of "p + bsize r"])
  next
    case right
    from right(5) have "bsize r dvd p - bsize r" using two by (auto elim!: dvdE)
    with right(5) have "even ((p - bsize r) div bsize r)"
      using bsize_dvd_Suc_even [OF assms(1)] by blast
    with right show ?thesis
      by (simp add: buddy_page_def [of "p - bsize r"] parent_page_def [of "p - bsize r"])
  qed
  then show "buddy_page (buddy_page p r) r = p" "parent_page (buddy_page p r) r = parent_page p r"
    by auto
qed

subsection \<open>Well-formed tilings\<close>

lemma wf_tilingD:
  assumes "wf_tiling R A" and "A p = Some (u, r)"
  shows "wf_block R p r" "1 \<le> r" "r \<le> R" "bsize r dvd p" "p + bsize r \<le> bsize R" "p < bsize R"
  using assms wf_block_end [of R p r] by (auto simp: wf_tiling_def wf_block_def)

lemma wf_tiling_cover:
  assumes "wf_tiling R A" and "q < bsize R"
  obtains p u r where "A p = Some (u, r)" "covers p r q"
  using assms by (auto simp: wf_tiling_def)

lemma wf_tiling_disjoint:
  "wf_tiling R A \<Longrightarrow> A p = Some (u, r) \<Longrightarrow> A q = Some (v, t) \<Longrightarrow> p < q \<Longrightarrow> p + bsize r \<le> q"
  by (auto simp: wf_tiling_def)

lemma wf_tiling_unique:
  assumes "wf_tiling R A" "A p = Some (u, r)" "A p' = Some (u', r')"
    and "covers p r q" "covers p' r' q"
  shows "p = p'" "u = u'" "r = r'"
proof -
  show p: "p = p'"
    using wf_tiling_disjoint [OF assms(1,2,3)] wf_tiling_disjoint [OF assms(1,3,2)] assms(4,5)
    by (cases p p' rule: linorder_cases) (auto simp: covers_def)
  with assms(2,3) show "u = u'" "r = r'" by auto
qed

lemma wf_tiling_gap:
  assumes "wf_tiling R A" "A p = Some (u, r)" "p < q" "q < p + bsize r"
  shows "A q = None"
proof (rule ccontr)
  assume "A q \<noteq> None"
  then obtain v t where "A q = Some (v, t)" by auto
  from wf_tiling_disjoint [OF assms(1,2) this assms(3)] assms(4) show False by simp
qed

lemma wf_tiling_single: "1 \<le> R \<Longrightarrow> wf_tiling R [0 \<mapsto> (u, R)]"
  by (auto simp: wf_tiling_def wf_block_def covers_def)

lemma no_buddies_single: "no_buddies R [0 \<mapsto> (u, R)]"
  by (auto simp: no_buddies_def)

lemma wf_tiling_reuse:
  assumes "wf_tiling R A" "A p = Some (u, r)"
  shows "wf_tiling R (A(p \<mapsto> (v, r)))"
proof -
  have "\<exists>u'. A q = Some (u', t)" if "(A(p \<mapsto> (v, r))) q = Some (w, t)" for q w t
    using that assms(2) by (auto split: if_splits)
  moreover have "\<exists>w. (A(p \<mapsto> (v, r))) q = Some (w, t)" if "A q = Some (u', t)" for q u' t
    using that assms(2) by (cases "q = p") auto
  ultimately show ?thesis
    using assms(1) unfolding wf_tiling_def by meson
qed

text \<open>Splitting a block of rank \<open>r + 1\<close> into its two halves of rank \<open>r\<close>.\<close>

lemma wf_tiling_split:
  assumes wf: "wf_tiling R A" and Ap: "A p = Some (u, Suc r)" and r: "1 \<le> r"
  shows "wf_tiling R (A(p \<mapsto> (v, r), p + bsize r \<mapsto> (w, r)))" (is "wf_tiling R ?B")
proof -
  have two: "bsize (Suc r) = 2 * bsize r" using r by (rule bsize_Suc)
  note blk = wf_tilingD [OF wf Ap]
  have lt: "p < bsize R" "p + bsize r < bsize R"
    using blk(5) two bsize_pos [of r] by linarith+
  have half: "wf_block R p r" "wf_block R (p + bsize r) r"
    using blk r two lt by (auto simp: wf_block_def intro: dvd_mult_left)
  have disj: "p + bsize (Suc r) \<le> q \<or> q + bsize t \<le> p" if "A q = Some (x, t)" "q \<noteq> p" for q x t
    using wf_tiling_disjoint [OF wf Ap that(1)] wf_tiling_disjoint [OF wf that(1) Ap] that(2)
    by (cases q p rule: linorder_cases) auto
  show ?thesis unfolding wf_tiling_def
  proof (intro conjI allI impI)
    fix q x t assume "?B q = Some (x, t)"
    then show "wf_block R q t"
      using half wf_tilingD(1) [OF wf, of q x t] by (auto split: if_splits)
  next
    fix q assume "q < bsize R"
    then obtain q' x t where q': "A q' = Some (x, t)" "covers q' t q"
      using wf wf_tiling_cover by blast
    show "\<exists>p' u' r'. ?B p' = Some (u', r') \<and> covers p' r' q"
    proof (cases "q' = p")
      case True
      with q' Ap two show ?thesis
        by (intro exI [of _ "if q < p + bsize r then p else p + bsize r"])
          (auto simp: covers_def)
    next
      case False
      then have "?B q' = Some (x, t)"
        using q' disj [OF q'(1)] two bsize_pos [of t] by (auto simp del: bsize_pos)
      with q' show ?thesis by blast
    qed
  next
    fix a b x t y k assume "?B a = Some (x, t) \<and> ?B b = Some (y, k) \<and> a < b"
    then show "a + bsize t \<le> b"
      using disj [of a x t] disj [of b y k] wf_tiling_disjoint [OF wf, of a x t b y k] two
        bsize_pos [of r]
      by (auto split: if_splits)
  qed
qed

text \<open>Merging the two halves of rank \<open>r\<close> that start at \<open>l\<close> and \<open>l + bsize r\<close>.\<close>

lemma wf_tiling_join:
  assumes wf: "wf_tiling R A" and l: "A l = Some (u, r)" and h: "A (l + bsize r) = Some (v, r)"
    and al: "bsize (Suc r) dvd l" and rR: "r < R"
  shows "wf_tiling R (A(l + bsize r := None, l \<mapsto> (w, Suc r)))" (is "wf_tiling R ?B")
proof -
  have r: "1 \<le> r" using wf_tilingD(2) [OF wf l] .
  have two: "bsize (Suc r) = 2 * bsize r" using r by (rule bsize_Suc)
  have disj: "l + bsize (Suc r) \<le> q \<or> q + bsize t \<le> l"
    if "A q = Some (x, t)" "q \<noteq> l" "q \<noteq> l + bsize r" for q x t
    using wf_tiling_disjoint [OF wf l that(1)] wf_tiling_disjoint [OF wf that(1) l]
      wf_tiling_disjoint [OF wf h that(1)] wf_tiling_disjoint [OF wf that(1) h] that(2,3) two
    by (cases q l rule: linorder_cases; cases q "l + bsize r" rule: linorder_cases) auto
  show ?thesis unfolding wf_tiling_def
  proof (intro conjI allI impI)
    fix q x t assume "?B q = Some (x, t)"
    then show "wf_block R q t"
      using wf_tilingD [OF wf l] wf_tilingD(1) [OF wf, of q x t] al rR
      by (auto simp: wf_block_def split: if_splits)
  next
    fix q assume "q < bsize R"
    then obtain q' x t where q': "A q' = Some (x, t)" "covers q' t q"
      using wf wf_tiling_cover by blast
    show "\<exists>p' u' r'. ?B p' = Some (u', r') \<and> covers p' r' q"
    proof (cases "q' = l \<or> q' = l + bsize r")
      case True
      with q' l h two show ?thesis
        by (intro exI [of _ l]) (auto simp: covers_def)
    next
      case False
      with q' show ?thesis by (intro exI [of _ q']) auto
    qed
  next
    fix a b x t y k assume "?B a = Some (x, t) \<and> ?B b = Some (y, k) \<and> a < b"
    then show "a + bsize t \<le> b"
      using disj [of a x t] disj [of b y k] wf_tiling_disjoint [OF wf, of a x t b y k]
      by (auto split: if_splits)
  qed
qed

subsection \<open>Free buddies\<close>

lemma no_buddies_mono:
  assumes "no_buddies R A" and "\<And>p r. B p = Some (Free, r) \<Longrightarrow> A p = Some (Free, r)"
  shows "no_buddies R B"
  using assms unfolding no_buddies_def by blast

lemma no_buddies_use: "no_buddies R A \<Longrightarrow> no_buddies R (A(p \<mapsto> (Used, r)))"
  by (erule no_buddies_mono) (auto split: if_splits)

lemma no_buddies_free:
  assumes nb: "no_buddies R A" and wf: "wf_tiling R A" and Ap: "A p = Some (Used, r)"
    and buddy: "r < R \<Longrightarrow> A (buddy_page p r) \<noteq> Some (Free, r)"
  shows "no_buddies R (A(p \<mapsto> (Free, r)))"
  unfolding no_buddies_def
proof (intro allI impI)
  fix q t assume "(A(p \<mapsto> (Free, r))) q = Some (Free, t) \<and> t < R"
  then have q: "(A(p \<mapsto> (Free, r))) q = Some (Free, t)" and t: "t < R" by auto
  note blk = wf_tilingD [OF wf Ap]
  show "(A(p \<mapsto> (Free, r))) (buddy_page q t) \<noteq> Some (Free, t)"
  proof (cases "q = p")
    case True
    with q have "t = r" by simp
    with True t buddy wf_block_buddy(3) [OF blk(1)] show ?thesis by auto
  next
    case False
    with q have Aq: "A q = Some (Free, t)" by simp
    show ?thesis
    proof
      assume b: "(A(p \<mapsto> (Free, r))) (buddy_page q t) = Some (Free, t)"
      show False
      proof (cases "buddy_page q t = p")
        case True
        with b have "t = r" by simp
        with True Aq buddy t buddy_involutive(1) wf_tilingD [OF wf Aq] show False by auto
      next
        case False
        with b Aq t nb show False by (auto simp: no_buddies_def)
      qed
    qed
  qed
qed

text \<open>
  Shrinking a used block keeps its left half used and frees its right half. The right half has
  the used left half as its buddy.
\<close>

lemma no_buddies_shrink:
  assumes nb: "no_buddies R A" and wf: "wf_tiling R A" and Ap: "A p = Some (Used, Suc r)"
    and r: "1 \<le> r"
  shows "no_buddies R (A(p \<mapsto> (Used, r), p + bsize r \<mapsto> (Free, r)))"
proof -
  let ?h = "p + bsize r"
  let ?A' = "A(p \<mapsto> (Used, r), ?h \<mapsto> (Used, r))"
  have wf': "wf_tiling R ?A'" using wf_tiling_split [OF wf Ap r] .
  have al: "bsize (Suc r) dvd p" and rp: "bsize r dvd p"
    using wf_tilingD(4) [OF wf Ap] r by (auto simp: bsize_Suc intro: dvd_mult_right)
  then have "buddy_page p r = ?h"
    using buddy_cases [OF r rp] by metis
  then have "buddy_page ?h r = p"
    using buddy_involutive(1) [OF r rp] by simp
  then have "no_buddies R (?A'(?h \<mapsto> (Free, r)))"
    using nb wf' by (intro no_buddies_free) (auto intro: no_buddies_use)
  then show ?thesis by simp
qed

text \<open>Absorbing the free buddy of a used block (the merging step of a release).\<close>

definition absorb :: "tiling \<Rightarrow> nat \<Rightarrow> nat \<Rightarrow> tiling" where
  "absorb A p r =
     (A(p := None, buddy_page p r := None))(parent_page p r \<mapsto> (Used, Suc r))"

lemma absorb_wf:
  assumes wf: "wf_tiling R A" and Ap: "A p = Some (Used, r)"
    and Ab: "A (buddy_page p r) = Some (Free, r)" and rR: "r < R"
  shows "wf_tiling R (absorb A p r)" "absorb A p r (parent_page p r) = Some (Used, Suc r)"
proof -
  note blk = wf_tilingD [OF wf Ap]
  from blk(2,4) show "wf_tiling R (absorb A p r)"
  proof (cases rule: buddy_cases)
    case left
    with wf_tiling_join [OF wf Ap _ _ rR, of Free Used] Ab show ?thesis
      by (simp add: absorb_def fun_upd_twist)
  next
    case right
    then have p: "p = (p - bsize r) + bsize r" by simp
    with wf_tiling_join [OF wf _ _ right(5) rR, of Free Used Used] Ab Ap right show ?thesis
      by (simp add: absorb_def)
  qed
  show "absorb A p r (parent_page p r) = Some (Used, Suc r)" by (simp add: absorb_def)
qed

lemma absorb_no_buddies: "no_buddies R A \<Longrightarrow> no_buddies R (absorb A p r)"
  by (erule no_buddies_mono) (auto simp: absorb_def split: if_splits)

lemma used_blocks_drop2:
  assumes "l = p \<or> l = b" and "used_blocks A b = None"
  shows "(used_blocks ((A(p := None, b := None))(l \<mapsto> x)))(l := None) = (used_blocks A)(p := None)"
  using assms by (intro ext) (auto simp: used_blocks_def)

lemma absorb_used:
  assumes "wf_tiling R A" "A p = Some (Used, r)" "A (buddy_page p r) = Some (Free, r)"
  shows "(used_blocks (absorb A p r))(parent_page p r := None) = (used_blocks A)(p := None)"
proof -
  note blk = wf_tilingD [OF assms(1,2)]
  have "parent_page p r = p \<or> parent_page p r = buddy_page p r"
    using buddy_cases [OF blk(2,4)] by metis
  moreover have "used_blocks A (buddy_page p r) = None"
    using assms(3) by (simp add: used_blocks_def)
  ultimately show ?thesis
    unfolding absorb_def by (rule used_blocks_drop2)
qed

subsection \<open>Free blocks are maximal\<close>

definition meets_used :: "tiling \<Rightarrow> nat \<Rightarrow> nat \<Rightarrow> bool" where
  "meets_used A p r \<longleftrightarrow> (\<exists>p' r' q. A p' = Some (Used, r') \<and> covers p' r' q \<and> covers p r q)"

lemma aligned_inside:
  assumes "bsize r dvd p" "bsize r dvd p'" "r \<le> r'" "covers p' r' p"
  shows "p' \<le> p" "p + bsize r \<le> p' + bsize r'"
proof -
  show "p' \<le> p" using assms(4) by (simp add: covers_def)
  have "bsize r dvd p' + bsize r'" using assms(2,3) by (simp add: bsize_dvd)
  then show "p + bsize r \<le> p' + bsize r'"
    using assms(1,4) by (intro dvd_less_add_le) (auto simp: covers_def)
qed

lemma free_maximal:
  assumes wf: "wf_tiling R A" and nb: "no_buddies R A"
  shows "wf_block R p r \<Longrightarrow> \<not> meets_used A p r \<Longrightarrow>
    \<exists>p' r'. A p' = Some (Free, r') \<and> r \<le> r' \<and> p' \<le> p \<and> p + bsize r \<le> p' + bsize r'"
proof (induction r arbitrary: p)
  case 0
  then show ?case by (simp add: wf_block_def)
next
  case (Suc r)
  show ?case
  proof (cases "r = 0")
    case True
    from Suc.prems(1) have "p < bsize R" by (simp add: wf_block_def)
    with wf obtain p' u r' where c: "A p' = Some (u, r')" "covers p' r' p"
      by (rule wf_tiling_cover)
    with Suc.prems(2) have "u = Free"
      by (cases u) (auto simp: meets_used_def intro: covers_start)
    with c True wf_tilingD(2) [OF wf c(1)] show ?thesis
      by (intro exI [of _ p'] exI [of _ r']) (auto simp: covers_def)
  next
    case False
    then have r: "1 \<le> r" by simp
    have two: "bsize (Suc r) = 2 * bsize r" using r by (rule bsize_Suc)
    from Suc.prems(1) have al: "bsize (Suc r) dvd p" and rR: "r < R" and pR: "p < bsize R"
      by (auto simp: wf_block_def)
    have half_al: "bsize r dvd p" using al two by (auto intro: dvd_mult_right)
    have wb: "wf_block R p r" using r rR half_al pR by (simp add: wf_block_def)
    have hb: "buddy_page p r = p + bsize r" using buddy_cases [OF r half_al] al by metis
    have wh: "wf_block R (p + bsize r) r" using wf_block_buddy(1) [OF wb rR] hb by simp
    have sub: "covers p (Suc r) q" if "covers p r q \<or> covers (p + bsize r) r q" for q
      using that two by (auto simp: covers_def)
    then have nm: "\<not> meets_used A p r" "\<not> meets_used A (p + bsize r) r"
      using Suc.prems(2) unfolding meets_used_def by blast+
    obtain p1 r1 where 1: "A p1 = Some (Free, r1)" "r \<le> r1" "p1 \<le> p" "p + bsize r \<le> p1 + bsize r1"
      using Suc.IH [OF wb nm(1)] by blast
    obtain p2 r2 where 2: "A p2 = Some (Free, r2)" "r \<le> r2" "p2 \<le> p + bsize r"
        "p + bsize r + bsize r \<le> p2 + bsize r2"
      using Suc.IH [OF wh nm(2)] by blast
    consider (one) "Suc r \<le> r1" | (two) "Suc r \<le> r2" | (both) "r1 = r" "r2 = r"
      using 1(2) 2(2) by linarith
    then show ?thesis
    proof cases
      case one
      have "bsize (Suc r) dvd p1"
        using wf_tilingD(4) [OF wf 1(1)] bsize_dvd [OF one] by (rule dvd_trans [rotated])
      from aligned_inside [OF al this one] 1 one show ?thesis
        using bsize_pos [of r] by (auto simp: covers_def)
    next
      case two': two
      have d2: "bsize (Suc r) dvd p2"
        using wf_tilingD(4) [OF wf 2(1)] bsize_dvd [OF two'] by (rule dvd_trans [rotated])
      have "p2 \<le> p"
      proof (rule ccontr)
        assume "\<not> p2 \<le> p"
        with dvd_less_add_le [OF al d2] 2(3) two bsize_pos [of r] show False by linarith
      qed
      with 2 two' two show ?thesis
        by (intro exI [of _ p2] exI [of _ r2]) auto
    next
      case both
      with 1 2 have "p1 = p" "p2 = p + bsize r"
        by auto
      with 1(1) 2(1) both have "A p = Some (Free, r)" "A (buddy_page p r) = Some (Free, r)"
        by (simp_all add: hb)
      with nb rR show ?thesis by (auto simp: no_buddies_def)
    qed
  qed
qed

lemma meets_used_cong:
  "used_blocks A = used_blocks B \<Longrightarrow> meets_used A p r = meets_used B p r"
  unfolding meets_used_def by (metis used_blocks_Some)

lemma free_not_meets_used:
  "wf_tiling R A \<Longrightarrow> A p = Some (Free, r) \<Longrightarrow> \<not> meets_used A p r"
  unfolding meets_used_def by (metis use.distinct(1) wf_tiling_unique(2))

lemma bsize_inj: "1 \<le> r \<Longrightarrow> r \<le> t \<Longrightarrow> bsize t \<le> bsize r \<Longrightarrow> t = r"
  by (simp add: bsize_def)

lemma free_determined:
  assumes A: "wf_tiling R A" "no_buddies R A" and B: "wf_tiling R B" "no_buddies R B"
    and used: "used_blocks A = used_blocks B" and Ap: "A p = Some (Free, r)"
  shows "B p = Some (Free, r)"
proof -
  note blk = wf_tilingD [OF A(1) Ap]
  have "\<not> meets_used B p r"
    using free_not_meets_used [OF A(1) Ap] meets_used_cong [OF used] by simp
  then obtain p' r' where 1: "B p' = Some (Free, r')" "r \<le> r'" "p' \<le> p" "p + bsize r \<le> p' + bsize r'"
    using free_maximal [OF B blk(1)] by blast
  note blk' = wf_tilingD [OF B(1) 1(1)]
  have "\<not> meets_used A p' r'"
    using free_not_meets_used [OF B(1) 1(1)] meets_used_cong [OF used] by simp
  then obtain p'' r'' where 2: "A p'' = Some (Free, r'')" "r' \<le> r''" "p'' \<le> p'"
      "p' + bsize r' \<le> p'' + bsize r''"
    using free_maximal [OF A blk'(1)] by blast
  have "covers p'' r'' p"
    using 1 2 bsize_pos [of r] by (simp add: covers_def del: bsize_pos)
  with wf_tiling_unique [OF A(1) 2(1) Ap] have eq: "p'' = p" "r'' = r" by simp_all
  with 1 2 have "p' = p" by simp
  moreover have "r' = r" using 1 2 eq blk(2) by (auto intro: antisym)
  ultimately show ?thesis using 1 by simp
qed

theorem tiling_determined:
  assumes "wf_tiling R A" "no_buddies R A" "wf_tiling R B" "no_buddies R B"
    and "used_blocks A = used_blocks B"
  shows "A = B"
proof
  fix p
  have "A p = Some (Free, r) \<longleftrightarrow> B p = Some (Free, r)" for r
    using free_determined assms by metis
  moreover have "A p = Some (Used, r) \<longleftrightarrow> B p = Some (Used, r)" for r
    using assms(5) used_blocks_Some by metis
  ultimately have "A p = Some (u, r) \<longleftrightarrow> B p = Some (u, r)" for u r
    by (cases u) auto
  then show "A p = B p" by (metis option.exhaust surj_pair)
qed

text \<open>Counting: the blocks of a tiling have as many pages as the range.\<close>

definition block_rank :: "tiling \<Rightarrow> nat \<Rightarrow> nat" where
  "block_rank A p = (case A p of Some (u, r) \<Rightarrow> r | None \<Rightarrow> 0)"

lemma dom_tiling_finite: "wf_tiling R A \<Longrightarrow> finite (dom A)"
  by (rule finite_subset [of _ "{..<bsize R}"]) (auto dest: wf_tilingD(6))

lemma tiling_pages:
  assumes wf: "wf_tiling R A"
  shows "(\<Sum>p\<in>dom A. bsize (block_rank A p)) = bsize R"
proof -
  let ?I = "\<lambda>p. {p..<p + bsize (block_rank A p)}"
  have "(\<Union>p\<in>dom A. ?I p) = {..<bsize R}"
  proof (intro equalityI subsetI)
    fix q assume "q \<in> (\<Union>p\<in>dom A. ?I p)"
    then show "q \<in> {..<bsize R}"
      using wf_tilingD(5) [OF wf] by (fastforce simp: block_rank_def)
  next
    fix q assume "q \<in> {..<bsize R}"
    then obtain p u r where "A p = Some (u, r)" "covers p r q"
      using wf by (auto elim: wf_tiling_cover)
    then show "q \<in> (\<Union>p\<in>dom A. ?I p)"
      by (intro UN_I [of p]) (auto simp: block_rank_def covers_def)
  qed
  moreover have "card (\<Union>p\<in>dom A. ?I p) = (\<Sum>p\<in>dom A. card (?I p))"
  proof (rule card_UN_disjoint)
    show "finite (dom A)" using wf by (rule dom_tiling_finite)
    show "\<forall>p\<in>dom A. \<forall>q\<in>dom A. p \<noteq> q \<longrightarrow> ?I p \<inter> ?I q = {}"
    proof (intro ballI impI)
      fix p q assume d: "p \<in> dom A" "q \<in> dom A" "p \<noteq> q"
      then obtain u r v t where "A p = Some (u, r)" "A q = Some (v, t)" by fast
      then show "?I p \<inter> ?I q = {}"
        using d(3) wf_tiling_disjoint [OF wf, of p u r q v t] wf_tiling_disjoint [OF wf, of q v t p u r]
        by (cases p q rule: linorder_cases) (auto simp: block_rank_def)
    qed
  qed simp
  ultimately show ?thesis by simp
qed

end
