(* ===== verification/Buddy.thy ===== *)
theory Buddy
  imports Buddy_Blocks
begin

section \<open>The buddy page allocator (practice-2/practice\_2-1/buddy.c)\<close>

text \<open>
  The file-scope variables of buddy.c are the record \<open>buddy\<close>: the metadata array \<open>meta\<close>
  (one \<open>list_t\<close> per page; a \<open>list_t *\<close> is \<open>None\<close> for NULL and \<open>Some i\<close> for \<open>META(i)\<close>),
  the heads \<open>bucket\<close> of the free lists and the counters \<open>bcount\<close>. Every function takes the
  state and returns the new one. The search loop of \<open>alloc_pages\<close> and the merging loop of
  \<open>return_pages\<close> step an 8-bit rank, which could wrap for an absurd \<open>rank_num\<close>, so they are
  partial functions: \<open>None\<close> means that the loop does not end. The macro \<open>list_pop\<close> returns
  NULL from the function that uses it when the list is empty: \<open>Inl\<close> in the model.
\<close>

subsection \<open>Data\<close>

datatype page_status = UNDEF | UNUSED | USED

record list_t =
  pg_status :: page_status
  pg_rank :: nat
  pg_index :: nat
  pg_prev :: "nat option"
  pg_next :: "nat option"

definition LIST_INITIALIZER :: list_t where
  "LIST_INITIALIZER =
     \<lparr>pg_status = UNDEF, pg_rank = 0, pg_index = 0, pg_prev = None, pg_next = None\<rparr>"

record buddy =
  base_ptr :: ptr
  rank_num :: nat
  bcount :: "nat \<Rightarrow> nat"
  bucket :: "nat \<Rightarrow> nat option"
  meta :: "nat \<Rightarrow> list_t"

text \<open>The state before the first call: static storage is zero.\<close>

definition buddy_start :: buddy where
  "buddy_start = \<lparr>base_ptr = 0, rank_num = 0, bcount = (\<lambda>_. 0), bucket = (\<lambda>_. None),
     meta = (\<lambda>_. LIST_INITIALIZER)\<rparr>"

definition PAGE_SIZE :: nat where "PAGE_SIZE = 2 ^ 12"
definition OK :: int where "OK = 0"
definition EINVAL :: int where "EINVAL = 22"
definition ENOSPC :: int where "ENOSPC = 28"

definition err_ptr :: "int \<Rightarrow> ptr" where "err_ptr e = of_int e"

text \<open>\<open>IS_ERR\<close> of buddy.h: the value is in the last 4095 addresses.\<close>

definition IS_ERR :: "ptr \<Rightarrow> bool" where "IS_ERR p \<longleftrightarrow> (- 4095 :: ptr) \<le> p"

definition page_num :: "buddy \<Rightarrow> nat" where "page_num s = shl32 1 (rank_num s - 1)"

subsection \<open>The list macros\<close>

definition upd_meta :: "nat \<Rightarrow> (list_t \<Rightarrow> list_t) \<Rightarrow> buddy \<Rightarrow> buddy" where
  "upd_meta i f s = s\<lparr>meta := (meta s)(i := f (meta s i))\<rparr>"

definition upd_opt :: "nat option \<Rightarrow> (list_t \<Rightarrow> list_t) \<Rightarrow> buddy \<Rightarrow> buddy" where
  "upd_opt p f s = (case p of None \<Rightarrow> s | Some i \<Rightarrow> upd_meta i f s)"

definition set_bucket :: "nat \<Rightarrow> nat option \<Rightarrow> buddy \<Rightarrow> buddy" where
  "set_bucket r p s = s\<lparr>bucket := (bucket s)(r := p)\<rparr>"

definition set_count :: "nat \<Rightarrow> nat \<Rightarrow> buddy \<Rightarrow> buddy" where
  "set_count r n s = s\<lparr>bcount := (bcount s)(r := n)\<rparr>"

definition list_remove :: "nat \<Rightarrow> nat \<Rightarrow> buddy \<Rightarrow> buddy" where
  "list_remove r node s =
     (let s = upd_opt (pg_next (meta s node)) (\<lambda>m. m\<lparr>pg_prev := pg_prev (meta s node)\<rparr>) s;
          s = upd_opt (pg_prev (meta s node)) (\<lambda>m. m\<lparr>pg_next := pg_next (meta s node)\<rparr>) s
      in if Some node = bucket s r then set_bucket r (pg_next (meta s node)) s else s)"

definition list_pop :: "nat \<Rightarrow> buddy \<Rightarrow> buddy option" where
  "list_pop r s =
     (case bucket s r of
        None \<Rightarrow> None
      | Some h \<Rightarrow>
          (let s = upd_opt (pg_next (meta s h)) (\<lambda>m. m\<lparr>pg_prev := None\<rparr>) s
           in Some (set_bucket r (pg_next (meta s h)) s)))"

definition list_push :: "nat \<Rightarrow> nat \<Rightarrow> buddy \<Rightarrow> buddy" where
  "list_push r node s =
     (let s = upd_meta node (\<lambda>m. m\<lparr>pg_prev := None\<rparr>) s;
          s = upd_meta node (\<lambda>m. m\<lparr>pg_next := bucket s r\<rparr>) s;
          s = upd_opt (bucket s r) (\<lambda>m. m\<lparr>pg_prev := Some node\<rparr>) s
      in set_bucket r (Some node) s)"

subsection \<open>Tree indices, pages and pointers\<close>

function log2_loop :: "nat \<Rightarrow> nat \<Rightarrow> nat" where
  "log2_loop num ret = (if 1 < num then log2_loop (num div 2) (u8 (ret + 1)) else ret)"
  by pat_completeness auto
termination
  by (relation "measure fst") auto

declare log2_loop.simps [simp del]

definition log2u :: "nat \<Rightarrow> nat" where
  "log2u num = (if num = 0 then u8 (2 ^ 8 - 1) else log2_loop num 0)"

definition PARENT :: "nat \<Rightarrow> nat" where "PARENT node = sub32 node 1 div 2"
definition CHILD :: "nat \<Rightarrow> nat \<Rightarrow> nat" where
  "CHILD node sel = add32 (add32 (mul32 node 2) sel) 1"
definition BUDDY :: "nat \<Rightarrow> nat" where "BUDDY node = add32 (xor32 (sub32 node 1) 1) 1"

definition block_to_page :: "buddy \<Rightarrow> nat \<Rightarrow> nat \<Rightarrow> nat" where
  "block_to_page s block rank =
     shl32 (add32 (sub32 block (shl32 1 (rank_num s - rank))) 1) (rank - 1)"

definition block_to_ptr :: "buddy \<Rightarrow> nat \<Rightarrow> nat \<Rightarrow> ptr" where
  "block_to_ptr s block rank =
     base_ptr s + of_nat (mul32 (block_to_page s block rank) PAGE_SIZE)"

definition is_valid_ptr :: "buddy \<Rightarrow> ptr \<Rightarrow> bool" where
  "is_valid_ptr s p =
     (if p < base_ptr s then False
      else if sint (p - base_ptr s) smod int PAGE_SIZE \<noteq> 0 then False
      else sint (p - base_ptr s) sdiv int PAGE_SIZE \<le> int (page_num s))"

definition ptr_to_page :: "buddy \<Rightarrow> ptr \<Rightarrow> nat" where
  "ptr_to_page s p = u32 (unat (p - base_ptr s)) div PAGE_SIZE"

subsection \<open>The operations\<close>

definition init_page :: "ptr \<Rightarrow> int \<Rightarrow> buddy \<Rightarrow> int \<times> buddy" where
  "init_page p pgcount s =
     (let s = s\<lparr>base_ptr := p, rank_num := log2u (nat (pgcount mod 2 ^ 32)) + 1\<rparr>;
          s = for_range 1 (rank_num s + 1) (\<lambda>i. set_bucket i None) s;
          s = for_range 1 (rank_num s + 1) (\<lambda>i. set_count i 0) s;
          s = for_range 0 (nat pgcount) (\<lambda>i. upd_meta i (\<lambda>_. LIST_INITIALIZER)) s;
          s = upd_meta 0 (\<lambda>m. m\<lparr>pg_status := UNUSED\<rparr>) s;
          s = upd_meta 0 (\<lambda>m. m\<lparr>pg_rank := u8 (rank_num s)\<rparr>) s;
          s = upd_meta 0 (\<lambda>m. m\<lparr>pg_index := 0\<rparr>) s;
          s = list_push (rank_num s) 0 s;
          s = set_count (rank_num s) (add32 (bcount s (rank_num s)) 1) s
      in (OK, s))"

partial_function (option) find_rank :: "buddy \<Rightarrow> nat \<Rightarrow> nat option" where
  "find_rank s unused_rank =
     (if unused_rank \<le> rank_num s
      then if bucket s unused_rank \<noteq> None then Some unused_rank
           else find_rank s (u8 (unused_rank + 1))
      else Some unused_rank)"

declare find_rank.simps [code]

text \<open>One iteration of the splitting loop, for the block at the head of bucket \<open>split_rank\<close>.\<close>

definition split_block :: "nat \<Rightarrow> buddy \<Rightarrow> buddy + buddy" where
  "split_block split_rank s =
     (case bucket s split_rank of
        None \<Rightarrow> Inl s
      | Some block \<Rightarrow>
          (case list_pop split_rank s of
             None \<Rightarrow> Inl s
           | Some s \<Rightarrow>
               (let s = upd_meta block (\<lambda>m. m\<lparr>pg_status := UNDEF\<rparr>) s;
                    s = set_count split_rank (sub32 (bcount s split_rank) 1) s;
                    split_rank = split_rank - 1;
                    rchild = CHILD (pg_index (meta s block)) 1;
                    lchild = CHILD (pg_index (meta s block)) 0;
                    rmeta = block_to_page s rchild split_rank;
                    lmeta = block_to_page s lchild split_rank;
                    s = upd_meta rmeta (\<lambda>_. \<lparr>pg_status = UNUSED, pg_rank = split_rank,
                          pg_index = rchild, pg_prev = None, pg_next = None\<rparr>) s;
                    s = upd_meta lmeta (\<lambda>_. \<lparr>pg_status = UNUSED, pg_rank = split_rank,
                          pg_index = lchild, pg_prev = None, pg_next = None\<rparr>) s;
                    s = list_push split_rank rmeta s;
                    s = list_push split_rank lmeta s;
                    s = set_count split_rank (add32 (bcount s split_rank) 2) s
                in Inr s)))"

function split_loop :: "nat \<Rightarrow> nat \<Rightarrow> buddy \<Rightarrow> buddy + buddy" where
  "split_loop rank split_rank s =
     (if rank < split_rank
      then (case split_block split_rank s of
              Inl s' \<Rightarrow> Inl s'
            | Inr s' \<Rightarrow> split_loop rank (split_rank - 1) s')
      else Inr s)"
  by pat_completeness auto
termination
  by (relation "measure (\<lambda>(rank, split_rank, s). split_rank - rank)") auto

declare split_loop.simps [simp del]

definition take_block :: "nat \<Rightarrow> buddy \<Rightarrow> ptr \<times> buddy" where
  "take_block rank s =
     (case bucket s rank of
        None \<Rightarrow> (0, s)
      | Some block \<Rightarrow>
          (case list_pop rank s of
             None \<Rightarrow> (0, s)
           | Some s \<Rightarrow>
               (let s = upd_meta block (\<lambda>m. m\<lparr>pg_status := USED\<rparr>) s;
                    s = set_count rank (sub32 (bcount s rank) 1) s
                in (block_to_ptr s (pg_index (meta s block)) rank, s))))"

definition alloc_pages :: "int \<Rightarrow> buddy \<Rightarrow> (ptr \<times> buddy) option" where
  "alloc_pages rank s =
     (if rank < 1 \<or> int (rank_num s) < rank then Some (err_ptr (- EINVAL), s)
      else (case find_rank s (u8 (nat rank)) of
              None \<Rightarrow> None
            | Some unused_rank \<Rightarrow>
                if rank_num s < unused_rank then Some (err_ptr (- ENOSPC), s)
                else (case split_loop (nat rank) unused_rank s of
                        Inl s' \<Rightarrow> Some (0, s')
                      | Inr s' \<Rightarrow> Some (take_block (nat rank) s'))))"

text \<open>One iteration of the merging loop: \<open>None\<close> is the \<open>break\<close>.\<close>

definition merge_step :: "nat \<Rightarrow> nat \<Rightarrow> buddy \<Rightarrow> buddy option" where
  "merge_step rank index s =
     (let node = block_to_page s index rank;
          buddy = block_to_page s (BUDDY index) rank
      in if pg_rank (meta s buddy) \<noteq> rank \<or> pg_status (meta s buddy) \<noteq> UNUSED then None
         else (let s = upd_meta buddy (\<lambda>m. m\<lparr>pg_status := UNDEF\<rparr>) s;
                   s = upd_meta node (\<lambda>m. m\<lparr>pg_status := UNDEF\<rparr>) s;
                   s = list_remove rank buddy s;
                   s = set_count rank (sub32 (bcount s rank) 1) s
               in Some s))"

partial_function (option) merge_loop ::
  "nat \<Rightarrow> nat \<Rightarrow> buddy \<Rightarrow> (nat \<times> nat \<times> buddy) option" where
  "merge_loop rank index s =
     (if rank < rank_num s
      then (case merge_step rank index s of
              None \<Rightarrow> Some (rank, index, s)
            | Some s' \<Rightarrow> merge_loop (u8 (rank + 1)) (PARENT index) s')
      else Some (rank, index, s))"

declare merge_loop.simps [code]

definition release_block :: "nat \<Rightarrow> nat \<Rightarrow> buddy \<Rightarrow> buddy" where
  "release_block rank index s =
     (let node = block_to_page s index rank;
          s = upd_meta node (\<lambda>m. m\<lparr>pg_status := UNUSED\<rparr>) s;
          s = upd_meta node (\<lambda>m. m\<lparr>pg_rank := rank\<rparr>) s;
          s = upd_meta node (\<lambda>m. m\<lparr>pg_index := index\<rparr>) s;
          s = list_push rank node s
      in set_count rank (add32 (bcount s rank) 1) s)"

definition return_pages :: "ptr \<Rightarrow> buddy \<Rightarrow> (int \<times> buddy) option" where
  "return_pages p s =
     (if \<not> is_valid_ptr s p then Some (- EINVAL, s)
      else let node = ptr_to_page s p
           in if pg_status (meta s node) \<noteq> USED then Some (- EINVAL, s)
              else (case merge_loop (pg_rank (meta s node)) (pg_index (meta s node)) s of
                      None \<Rightarrow> None
                    | Some (rank, index, s) \<Rightarrow> Some (OK, release_block rank index s)))"

definition query_ranks :: "ptr \<Rightarrow> buddy \<Rightarrow> int" where
  "query_ranks p s =
     (if \<not> is_valid_ptr s p then - EINVAL
      else let node = ptr_to_page s p
           in if pg_status (meta s node) \<noteq> UNDEF then int (pg_rank (meta s node)) else - EINVAL)"

definition query_page_counts :: "int \<Rightarrow> buddy \<Rightarrow> int" where
  "query_page_counts rank s =
     (if rank < 1 \<or> int (rank_num s) < rank then - EINVAL
      else sint (of_nat (bcount s (nat rank)) :: 32 word))"

end
