(* ===== verification/Buddy_Index.thy ===== *)
theory Buddy_Index
  imports Buddy
begin

section \<open>Tree indices against pages\<close>

text \<open>
  The code numbers the blocks of the complete binary tree from the root 0, the nodes of rank
  \<open>r\<close> being \<open>2 ^ (R - r) - 1, \<dots>\<close>. The lemmas below compute the 32-bit index
  macros on the index \<open>block_index R p r\<close> of the block of rank \<open>r\<close> at page \<open>p\<close>; none of
  them wraps for \<open>R \<le> 20\<close>.
\<close>

definition block_index :: "nat \<Rightarrow> nat \<Rightarrow> nat \<Rightarrow> nat" where
  "block_index R p r = 2 ^ (R - r) - 1 + p div bsize r"

lemma bsize_split: "1 \<le> r \<Longrightarrow> r \<le> R \<Longrightarrow> bsize R = 2 ^ (R - r) * bsize r"
  by (simp add: bsize_def flip: power_add)

lemma bsize_R_less: "R \<le> 20 \<Longrightarrow> bsize R \<le> 2 ^ 19"
  unfolding bsize_def by (rule power_increasing) auto

lemma block_div_less:
  assumes "wf_block R p r"
  shows "p div bsize r < 2 ^ (R - r)"
proof -
  have "p < 2 ^ (R - r) * bsize r"
    using assms bsize_split [of r R] by (simp add: wf_block_def)
  then show ?thesis by (simp add: less_mult_imp_div_less)
qed

lemma pow_R_le: "1 \<le> r \<Longrightarrow> R \<le> 20 \<Longrightarrow> (2::nat) ^ (R - r) \<le> 2 ^ 19"
  by (rule power_increasing) auto

lemma block_index_less:
  assumes "wf_block R p r" "R \<le> 20"
  shows "block_index R p r < 2 ^ 20"
proof -
  have "(2::nat) ^ (R - r) \<le> 2 ^ 19"
    using assms by (intro pow_R_le) (auto simp: wf_block_def)
  then show ?thesis using block_div_less [OF assms(1)] by (simp add: block_index_def)
qed

lemma block_to_page_index [c_arith]:
  assumes R: "rank_num s = R" and wf: "wf_block R p r" "R \<le> 20"
  shows "block_to_page s (block_index R p r) r = p"
proof -
  let ?k = "p div bsize r"
  have r: "1 \<le> r" "r \<le> R" and p: "p = ?k * bsize r" and pR: "p < bsize R"
    using wf(1) by (auto simp: wf_block_def)
  have pw: "(2::nat) ^ (R - r) \<le> 2 ^ 19" using r(1) wf(2) by (rule pow_R_le)
  have i: "block_index R p r < 2 ^ 20" using wf by (rule block_index_less)
  have k: "?k < 2 ^ 19" using block_div_less [OF wf(1)] pw by linarith
  have "p < 2 ^ 19" using pR bsize_R_less [OF wf(2)] by linarith
  moreover have "shl32 1 (R - r) = 2 ^ (R - r)" using pw by (simp add: shl32_small)
  moreover have "add32 (sub32 (block_index R p r) (2 ^ (R - r))) 1 = ?k"
  proof (cases "?k = 0")
    case True
    then have "block_index R p r + (2 ^ 32 - 2 ^ (R - r)) = 2 ^ 32 - 1"
      using pw by (simp add: block_index_def)
    then have "sub32 (block_index R p r) (2 ^ (R - r)) = 2 ^ 32 - 1"
      using pw by (simp add: sub32_def u32_def)
    then show ?thesis using True by (simp add: add32_def u32_def)
  next
    case False
    then have "2 ^ (R - r) \<le> block_index R p r" by (simp add: block_index_def)
    moreover have "block_index R p r - 2 ^ (R - r) + 1 = ?k"
      using False by (simp add: block_index_def)
    ultimately show ?thesis using i k by (simp add: sub32_small add32_small)
  qed
  moreover have "shl32 ?k (r - 1) = ?k * bsize r"
  proof -
    have "p < 2 ^ 32" using \<open>p < 2 ^ 19\<close> by simp
    then have "?k * bsize r < 2 ^ 32" using p by linarith
    then show ?thesis unfolding bsize_def by (rule shl32_small)
  qed
  ultimately show ?thesis using p by (simp add: block_to_page_def R)
qed

lemma CHILD_index [c_arith]:
  assumes wf: "wf_block R p (Suc r)" and r: "1 \<le> r" and R: "R \<le> 20"
  shows "CHILD (block_index R p (Suc r)) 0 = block_index R p r"
    "CHILD (block_index R p (Suc r)) 1 = block_index R (p + bsize r) r"
proof -
  have i: "block_index R p (Suc r) < 2 ^ 20" using wf R by (rule block_index_less)
  have c: "CHILD (block_index R p (Suc r)) sel = 2 * block_index R p (Suc r) + sel + 1" if "sel \<le> 1" for sel
    using i that by (simp add: CHILD_def mul32_small add32_small)
  have "bsize (Suc r) dvd p" "Suc r \<le> R" using wf by (auto simp: wf_block_def)
  then obtain k where k: "p = bsize (Suc r) * k" by (elim dvdE)
  with r have k': "p div bsize r = 2 * k" "(p + bsize r) div bsize r = 2 * k + 1" "p div bsize (Suc r) = k"
    by (simp_all add: bsize_Suc)
  have "(2::nat) ^ (R - r) = 2 * 2 ^ (R - Suc r)"
    using \<open>Suc r \<le> R\<close> by (metis Suc_diff_Suc Suc_le_lessD power_Suc)
  moreover obtain X :: nat where "2 ^ (R - Suc r) = Suc X"
    by (metis not0_implies_Suc power_not_zero zero_neq_numeral)
  ultimately show "CHILD (block_index R p (Suc r)) 0 = block_index R p r"
    "CHILD (block_index R p (Suc r)) 1 = block_index R (p + bsize r) r"
    using c [of 0] c [of 1] k' by (auto simp: block_index_def)
qed

lemma BUDDY_PARENT_index [c_arith]:
  assumes wf: "wf_block R p r" and rR: "r < R" and R: "R \<le> 20"
  shows "BUDDY (block_index R p r) = block_index R (buddy_page p r) r"
    "PARENT (block_index R p r) = block_index R (parent_page p r) (Suc r)"
proof -
  let ?i = "block_index R p r" and ?k = "p div bsize r"
  have r: "1 \<le> r" and al: "bsize r dvd p" using wf by (auto simp: wf_block_def)
  have i: "?i < 2 ^ 20" using wf R by (rule block_index_less)
  have pw: "(2::nat) ^ (R - r) = 2 * 2 ^ (R - Suc r)"
    using rR by (metis Suc_diff_Suc power_Suc)
  obtain X :: nat where "2 ^ (R - Suc r) = Suc X"
    by (metis not0_implies_Suc power_not_zero zero_neq_numeral)
  with pw have i1: "1 \<le> ?i" "?i - 1 = 2 * (2 ^ (R - Suc r) - 1) + ?k"
    by (simp_all add: block_index_def)
  have b: "BUDDY ?i = (if even ?k then ?i + 1 else ?i - 1)"
    using i i1 xor32_1 [of "?i - 1"] by (auto simp: BUDDY_def sub32_small add32_small)
  have c: "PARENT ?i = (2 ^ (R - Suc r) - 1) + ?k div 2"
    using i i1 by (simp add: PARENT_def sub32_small)
  from r al have "BUDDY ?i = block_index R (buddy_page p r) r
      \<and> PARENT ?i = block_index R (parent_page p r) (Suc r)"
  proof (cases rule: buddy_cases)
    case left
    then have "even ?k" using bsize_dvd_Suc_even [OF r al] by simp
    moreover have "p div bsize (Suc r) = ?k div 2"
      using r by (simp add: bsize_Suc div_mult2_eq mult.commute)
    moreover have "(p + bsize r) div bsize r = Suc ?k"
      using div_add_self2 [of "bsize r" p] by simp
    ultimately show ?thesis using left b c by (simp add: block_index_def del: div_add_self2)
  next
    case right
    then have odd: "odd ?k" using bsize_dvd_Suc_even [OF r al] by simp
    from al obtain k where k: "p = bsize r * k" by (elim dvdE)
    have pk: "p - bsize r = bsize r * (k - 1)" "?k = k" by (simp_all add: k right_diff_distrib')
    have "(p - bsize r) div bsize r = ?k - 1" unfolding pk by simp
    moreover have "(p - bsize r) div bsize (Suc r) = ?k div 2"
      using r odd unfolding pk by (auto simp: bsize_Suc elim!: oddE)
    moreover have "1 \<le> ?k" using odd by (cases ?k) auto
    ultimately show ?thesis using right odd b c i1 by (simp add: block_index_def)
  qed
  then show "BUDDY ?i = block_index R (buddy_page p r) r"
    "PARENT ?i = block_index R (parent_page p r) (Suc r)" by auto
qed

text \<open>The root is the only block of rank \<open>R\<close>.\<close>

lemma block_index_root: "block_index R 0 R = 0"
  by (simp add: block_index_def)

subsection \<open>The logarithm\<close>

lemma log2_loop_bounds:
  "0 < num \<Longrightarrow> num < 2 ^ (256 - ret) \<Longrightarrow> ret < 256 \<Longrightarrow>
   \<exists>l. log2_loop num ret = ret + l \<and> ret + l < 256 \<and> 2 ^ l \<le> num \<and> num < 2 ^ Suc l"
proof (induction num ret rule: log2_loop.induct)
  case (1 num ret)
  show ?case
  proof (cases "1 < num")
    case True
    have "1 < 256 - ret"
    proof (rule ccontr)
      assume "\<not> 1 < 256 - ret"
      with "1.prems"(3) have "256 - ret = 1" by simp
      with "1.prems"(2) True show False by simp
    qed
    then have ret: "ret + 1 < 256" by simp
    then have "256 - ret = Suc (256 - Suc ret)" by simp
    then have "num div 2 < 2 ^ (256 - (ret + 1))"
      using "1.prems"(2) by (simp only: power_Suc) (simp add: less_mult_imp_div_less mult.commute)
    then obtain l where "log2_loop (num div 2) (ret + 1) = ret + 1 + l" "ret + 1 + l < 256"
        "2 ^ l \<le> num div 2" "num div 2 < 2 ^ Suc l"
      using "1.IH" [OF True] True ret by (auto simp: u8_small)
    with True ret show ?thesis
      by (intro exI [of _ "Suc l"]) (auto simp: log2_loop.simps [of num ret] u8_small)
  next
    case False
    with "1.prems" have "num = 1" by simp
    with "1.prems" show ?thesis by (simp add: log2_loop.simps)
  qed
qed

lemma log2u_bounds:
  assumes "0 < n" "n < 2 ^ 32"
  shows "2 ^ log2u n \<le> n" "n < 2 ^ Suc (log2u n)" "log2u n < 32"
proof -
  have "n < 2 ^ (256 - 0)" using assms(2) by (rule less_le_trans) simp
  then obtain l where l: "log2u n = l" "2 ^ l \<le> n" "n < 2 ^ Suc l"
    using log2_loop_bounds [of n 0] assms(1) by (auto simp: log2u_def)
  then show "2 ^ log2u n \<le> n" "n < 2 ^ Suc (log2u n)" by auto
  have "(2::nat) ^ l < 2 ^ 32" using l(2) assms(2) by linarith
  then show "log2u n < 32" using l(1) by (metis power_strict_increasing_iff one_less_numeral_iff semiring_norm(76))
qed

end
