(* ===== verification/Buddy_Lists.thy ===== *)
theory Buddy_Lists
  imports Buddy_Index
begin

section \<open>The free lists as doubly linked lists in the metadata array\<close>

text \<open>
  \<open>dseg m pv cu xs pv' nx\<close>: from the node \<open>cu\<close> the \<open>next\<close> fields lead through the nodes
  \<open>xs\<close> to \<open>nx\<close>, the \<open>prev\<close> fields lead back to \<open>pv\<close>, and \<open>pv'\<close> is the last node passed.
  \<open>dlist m h xs\<close> is a whole list with head \<open>h\<close>. The list macros are shown to push, pop and
  remove on \<open>dlist\<close>, to leave every disjoint list alone, and to touch only the link fields.
\<close>

primrec dseg ::
  "(nat \<Rightarrow> list_t) \<Rightarrow> nat option \<Rightarrow> nat option \<Rightarrow> nat list \<Rightarrow> nat option \<Rightarrow> nat option \<Rightarrow> bool"
where
  "dseg m pv cu [] pv' nx \<longleftrightarrow> pv = pv' \<and> cu = nx"
| "dseg m pv cu (x # xs) pv' nx \<longleftrightarrow>
     cu = Some x \<and> pg_prev (m x) = pv \<and> dseg m (Some x) (pg_next (m x)) xs pv' nx"

definition dlist :: "(nat \<Rightarrow> list_t) \<Rightarrow> nat option \<Rightarrow> nat list \<Rightarrow> bool" where
  "dlist m h xs \<longleftrightarrow> (\<exists>l. dseg m None h xs l None)"

lemma dseg_append:
  "dseg m pv cu (xs @ ys) pv' nx \<longleftrightarrow> (\<exists>p c. dseg m pv cu xs p c \<and> dseg m p c ys pv' nx)"
  by (induction xs arbitrary: pv cu) auto

lemma dseg_cong:
  assumes "\<And>x. x \<in> set xs \<Longrightarrow> pg_prev (m x) = pg_prev (m' x) \<and> pg_next (m x) = pg_next (m' x)"
  shows "dseg m pv cu xs pv' nx = dseg m' pv cu xs pv' nx"
  using assms by (induction xs arbitrary: pv cu) auto

lemma dseg_fun_upd [simp]:
  "a \<notin> set xs \<Longrightarrow> dseg (m(a := x)) pv cu xs pv' nx = dseg m pv cu xs pv' nx"
  by (rule dseg_cong) auto

lemma dlist_cong:
  assumes "\<And>x. x \<in> set xs \<Longrightarrow> pg_prev (m x) = pg_prev (m' x) \<and> pg_next (m x) = pg_next (m' x)"
  shows "dlist m h xs = dlist m' h xs"
  unfolding dlist_def using dseg_cong [OF assms] by simp

lemma dlist_fun_upd [simp]: "a \<notin> set xs \<Longrightarrow> dlist (m(a := x)) h xs = dlist m h xs"
  by (rule dlist_cong) auto

lemma dlist_Nil [simp]: "dlist m h [] \<longleftrightarrow> h = None"
  by (simp add: dlist_def)

lemma dlist_head: "dlist m h (x # xs) \<Longrightarrow> h = Some x"
  by (auto simp: dlist_def)

lemma dlist_Some: "dlist m (Some x) xs \<Longrightarrow> \<exists>ys. xs = x # ys"
  by (cases xs) (auto simp: dlist_def)

lemma dlist_None: "dlist m None xs \<Longrightarrow> xs = []"
  by (cases xs) (auto simp: dlist_def)

text \<open>The metadata outside the link fields.\<close>

definition same_payload :: "buddy \<Rightarrow> buddy \<Rightarrow> bool" where
  "same_payload s s' \<longleftrightarrow> base_ptr s' = base_ptr s \<and> rank_num s' = rank_num s \<and> bcount s' = bcount s
     \<and> (\<forall>p. pg_status (meta s' p) = pg_status (meta s p) \<and> pg_rank (meta s' p) = pg_rank (meta s p)
          \<and> pg_index (meta s' p) = pg_index (meta s p))"

lemmas list_op_defs = list_push_def list_pop_def list_remove_def upd_opt_def upd_meta_def
  set_bucket_def Let_def

lemma upd_meta_simps [simp]:
  "base_ptr (upd_meta i f s) = base_ptr s" "rank_num (upd_meta i f s) = rank_num s"
  "bcount (upd_meta i f s) = bcount s" "bucket (upd_meta i f s) = bucket s"
  "meta (upd_meta i f s) = (meta s)(i := f (meta s i))"
  by (simp_all add: upd_meta_def)

lemma set_count_simps [simp]:
  "base_ptr (set_count r n s) = base_ptr s" "rank_num (set_count r n s) = rank_num s"
  "bcount (set_count r n s) = (bcount s)(r := n)" "bucket (set_count r n s) = bucket s"
  "meta (set_count r n s) = meta s"
  by (simp_all add: set_count_def)

lemma set_bucket_simps [simp]:
  "base_ptr (set_bucket r x s) = base_ptr s" "rank_num (set_bucket r x s) = rank_num s"
  "bcount (set_bucket r x s) = bcount s" "bucket (set_bucket r x s) = (bucket s)(r := x)"
  "meta (set_bucket r x s) = meta s"
  by (simp_all add: set_bucket_def)

lemma same_payload_push: "same_payload s (list_push r n s)"
  by (auto simp: same_payload_def list_op_defs split: option.splits)

lemma same_payload_pop: "list_pop r s = Some s' \<Longrightarrow> same_payload s s'"
  by (auto simp: same_payload_def list_op_defs split: option.splits)

lemma same_payload_remove: "same_payload s (list_remove r n s)"
  by (auto simp: same_payload_def list_op_defs split: option.splits)

lemma list_push_simps [simp]:
  "base_ptr (list_push r n s) = base_ptr s" "rank_num (list_push r n s) = rank_num s"
  "bcount (list_push r n s) = bcount s"
  using same_payload_push [of s r n] by (simp_all add: same_payload_def)

lemma list_remove_simps [simp]:
  "base_ptr (list_remove r n s) = base_ptr s" "rank_num (list_remove r n s) = rank_num s"
  "bcount (list_remove r n s) = bcount s"
  using same_payload_remove [of s r n] by (simp_all add: same_payload_def)

subsection \<open>Push\<close>

lemma list_push_bucket: "bucket (list_push r n s) = (bucket s)(r := Some n)"
  by (auto simp: list_op_defs split: option.splits)

lemma list_push_meta_other:
  "x \<noteq> n \<Longrightarrow> bucket s r \<noteq> Some x \<Longrightarrow> meta (list_push r n s) x = meta s x"
  by (auto simp: list_op_defs split: option.splits)

lemma dlist_push:
  assumes "dlist (meta s) (bucket s r) xs" "n \<notin> set xs" "distinct xs"
  shows "dlist (meta (list_push r n s)) (Some n) (n # xs)"
proof (cases xs)
  case Nil
  with assms show ?thesis by (auto simp: dlist_def list_op_defs)
next
  case (Cons x ys)
  from assms(1) Cons obtain l where
    b: "bucket s r = Some x" and seg: "dseg (meta s) (Some x) (pg_next (meta s x)) ys l None"
    by (auto simp: dlist_def)
  from assms Cons have "n \<noteq> x" "n \<notin> set ys" "x \<notin> set ys" by auto
  then have "dseg (meta (list_push r n s)) (Some x) (pg_next (meta s x)) ys l None"
    using seg b dseg_cong [of ys "meta s" "meta (list_push r n s)"]
    by (metis list_push_meta_other option.inject)
  with \<open>n \<noteq> x\<close> b Cons show ?thesis by (auto simp: dlist_def list_op_defs)
qed

lemma dlist_push_other:
  assumes "dlist (meta s) (bucket s r) xs" "dlist (meta s) h ys" "n \<notin> set ys" "set xs \<inter> set ys = {}"
  shows "dlist (meta (list_push r n s)) h ys"
proof -
  have "meta (list_push r n s) x = meta s x" if "x \<in> set ys" for x
  proof (rule list_push_meta_other)
    show "x \<noteq> n" using that assms(3) by auto
    show "bucket s r \<noteq> Some x"
      using that assms(1,4) dlist_Some [of "meta s" x xs] by auto
  qed
  then show ?thesis using assms(2) dlist_cong [of ys "meta s" "meta (list_push r n s)"] by simp
qed

subsection \<open>Pop\<close>

lemma list_pop_Cons:
  assumes "dlist (meta s) (bucket s r) (x # xs)" "distinct (x # xs)"
  obtains s' where "list_pop r s = Some s'" "bucket s' = (bucket s)(r := bucket s' r)"
    "dlist (meta s') (bucket s' r) xs"
    "\<And>h ys. dlist (meta s) h ys \<Longrightarrow> set xs \<inter> set ys = {} \<Longrightarrow> dlist (meta s') h ys"
proof -
  from assms(1) obtain l where b: "bucket s r = Some x"
    and seg: "dseg (meta s) (Some x) (pg_next (meta s x)) xs l None"
    by (auto simp: dlist_def)
  define s' where "s' = set_bucket r (pg_next (meta s x))
      (upd_opt (pg_next (meta s x)) (\<lambda>m. m\<lparr>pg_prev := None\<rparr>) s)"
  have x: "(case pg_next (meta s x) of None \<Rightarrow> meta s | Some y \<Rightarrow> (meta s)(y := meta s y\<lparr>pg_prev := None\<rparr>)) x
      = meta s x \<or> pg_next (meta s x) = Some x"
    by (auto split: option.splits)
  have nx: "pg_next (meta s x) = None \<and> xs = [] \<or> (\<exists>y ys. pg_next (meta s x) = Some y \<and> xs = y # ys)"
    using seg by (cases xs) auto
  then have nxx: "pg_next (meta s x) \<noteq> Some x" using assms(2) by auto
  have pop: "list_pop r s = Some s'"
    using b nxx by (auto simp: s'_def list_op_defs split: option.splits)
  have other: "meta s' z = meta s z" if "z \<notin> set xs" for z
    using that nx by (auto simp: s'_def upd_opt_def)
  have bucket: "bucket s' = (bucket s)(r := pg_next (meta s x))"
    by (auto simp: s'_def upd_opt_def split: option.splits)
  have dl: "dlist (meta s') (pg_next (meta s x)) xs"
  proof (cases xs)
    case Nil
    with seg show ?thesis by (simp add: dlist_def)
  next
    case (Cons y ys)
    with assms(2) have "dseg (meta s) (Some y) (pg_next (meta s y)) ys l None"
        "\<And>z. z \<in> set ys \<Longrightarrow> meta s' z = meta s z" "pg_next (meta s' y) = pg_next (meta s y)"
        "pg_prev (meta s' y) = None"
      using seg by (auto simp: s'_def upd_opt_def)
    with Cons seg show ?thesis
      using dseg_cong [of ys "meta s" "meta s'"] by (auto simp: dlist_def)
  qed
  show thesis
  proof (rule that [of s'])
    fix h ys assume "dlist (meta s) h ys" "set xs \<inter> set ys = {}"
    then show "dlist (meta s') h ys"
      using other dlist_cong [of ys "meta s" "meta s'"] by (metis disjoint_iff)
  qed (use pop bucket dl in simp_all)
qed

subsection \<open>Remove\<close>

lemma dseg_set_next:
  assumes "dseg m pv cu (xs @ [a]) (Some a) nx" "a \<notin> set xs" "pg_next m' = nx'" "pg_prev m' = pg_prev (m a)"
  shows "dseg (m(a := m')) pv cu (xs @ [a]) (Some a) nx'"
proof -
  obtain c where "dseg m pv cu xs c (Some a)" "pg_prev (m a) = c"
    using assms(1) by (auto simp: dseg_append)
  then show ?thesis using assms(2-4) by (auto simp: dseg_append)
qed

lemma dseg_set_prev:
  assumes "dseg m pv (Some b) (b # ys) l nx" "b \<notin> set ys" "pg_prev m' = pv'" "pg_next m' = pg_next (m b)"
  shows "dseg (m(b := m')) pv' (Some b) (b # ys) l nx"
  using assms by auto

lemma dseg_last: "dseg m pv cu xs l nx \<Longrightarrow> l = (if xs = [] then pv else Some (last xs))"
  by (induction xs arbitrary: pv cu) auto

lemma dseg_first: "dseg m pv cu xs l nx \<Longrightarrow> cu = (case xs of [] \<Rightarrow> nx | x # _ \<Rightarrow> Some x)"
  by (cases xs) auto

lemma list_remove_dlist:
  assumes dl: "dlist (meta s) (bucket s r) (as @ n # bs)" and dist: "distinct (as @ n # bs)"
  shows "dlist (meta (list_remove r n s)) (bucket (list_remove r n s) r) (as @ bs)"
    and "bucket (list_remove r n s) = (bucket s)(r := bucket (list_remove r n s) r)"
    and "\<And>x. x \<notin> set (as @ bs) \<Longrightarrow> meta (list_remove r n s) x = meta s x"
proof -
  let ?m = "meta s" and ?p = "pg_prev (meta s n)" and ?q = "pg_next (meta s n)"
  obtain l where segs: "dseg ?m None (bucket s r) as ?p (Some n)" "dseg ?m (Some n) ?q bs l None"
    using dl by (auto simp: dlist_def dseg_append)
  have p: "?p = (if as = [] then None else Some (last as))" using dseg_last [OF segs(1)] .
  have q: "?q = (case bs of [] \<Rightarrow> None | b # _ \<Rightarrow> Some b)" using dseg_first [OF segs(2)] .
  have h: "bucket s r = (case as of [] \<Rightarrow> Some n | a # _ \<Rightarrow> Some a)" using dseg_first [OF segs(1)] .
  define m1 where "m1 = (case bs of [] \<Rightarrow> ?m | b # _ \<Rightarrow> ?m(b := ?m b\<lparr>pg_prev := ?p\<rparr>))"
  define m2 where "m2 = (if as = [] then m1 else m1(last as := m1 (last as)\<lparr>pg_next := ?q\<rparr>))"
  have npq: "?p \<noteq> Some n" "?q \<noteq> Some n"
    using p q dist by (auto split: list.splits if_splits)
  have meta': "meta (list_remove r n s) = m2"
    using p q npq dist by (auto simp: list_op_defs m1_def m2_def split: list.splits if_splits)
  have bucket': "bucket (list_remove r n s) = (bucket s)(r := (if as = [] then ?q else bucket s r))"
    using p q npq h dist by (auto simp: list_op_defs split: list.splits if_splits)
  have seg1: "dseg m1 None (bucket s r) as ?p (Some n)"
    using segs(1) dist by (auto simp: m1_def split: list.splits)
  obtain l' where seg2: "dseg m1 ?p ?q bs l' None"
  proof (cases bs)
    case Nil
    with q show thesis by (intro that [of ?p]) simp
  next
    case (Cons b ys)
    with segs(2) q dist dseg_set_prev [of ?m "Some n" b ys l None] show thesis
      by (intro that [of l]) (simp add: m1_def)
  qed
  show "dlist (meta (list_remove r n s)) (bucket (list_remove r n s) r) (as @ bs)"
  proof (cases as rule: rev_cases)
    case Nil
    with seg2 p show ?thesis unfolding meta' bucket' by (auto simp: dlist_def m2_def)
  next
    case (snoc as' a)
    with p have pa: "?p = Some a" by simp
    have m2: "m2 = m1(a := m1 a\<lparr>pg_next := ?q\<rparr>)" using snoc by (simp add: m2_def)
    have "dseg m2 None (bucket s r) as (Some a) ?q"
      unfolding m2 snoc using seg1 snoc pa dist by (intro dseg_set_next) auto
    moreover have "dseg m2 (Some a) ?q bs l' None"
      using seg2 pa dist snoc unfolding m2 by simp
    ultimately have "dseg m2 None (bucket s r) (as @ bs) l' None"
      unfolding dseg_append by blast
    moreover have "bucket (list_remove r n s) r = bucket s r"
      using snoc unfolding bucket' by simp
    ultimately show ?thesis unfolding meta' dlist_def by auto
  qed
  show "bucket (list_remove r n s) = (bucket s)(r := bucket (list_remove r n s) r)"
    unfolding bucket' by simp
  show "meta (list_remove r n s) x = meta s x" if "x \<notin> set (as @ bs)" for x
  proof -
    have "m1 x = ?m x" using that by (cases bs) (auto simp: m1_def)
    moreover have "as \<noteq> [] \<Longrightarrow> x \<noteq> last as" using that by auto
    ultimately show ?thesis unfolding meta' by (simp add: m2_def)
  qed
qed

end
