(* ===== verification/Buddy_Refine.thy ===== *)
theory Buddy_Refine
  imports Buddy_Lists
begin

section \<open>The allocator state represents a tiling\<close>

text \<open>
  \<open>repr D s A L\<close>: the state \<open>s\<close> represents the tiling \<open>A\<close> with the free lists \<open>L r\<close>. The
  pages in \<open>D\<close> are detached: an operation is working on their metadata, so nothing is said of
  it, and \<open>A\<close> counts their blocks as used. An operation detaches pages (\<open>detach_pop\<close>,
  \<open>detach_remove\<close>), retiles the detached range (\<open>repr_retile\<close>), writes the metadata
  (\<open>repr_upd_detached\<close>) and attaches the result (\<open>attach\<close>, \<open>settle\<close>).
\<close>

definition entry_ok :: "nat \<Rightarrow> list_t \<Rightarrow> nat \<Rightarrow> (use \<times> nat) option \<Rightarrow> bool" where
  "entry_ok R m p e \<longleftrightarrow>
     (case e of None \<Rightarrow> pg_status m = UNDEF
      | Some (u, r) \<Rightarrow> pg_status m = (case u of Free \<Rightarrow> UNUSED | Used \<Rightarrow> USED)
          \<and> pg_rank m = r \<and> pg_index m = block_index R p r)"

definition lists_ok :: "buddy \<Rightarrow> tiling \<Rightarrow> (nat \<Rightarrow> nat list) \<Rightarrow> bool" where
  "lists_ok s A L \<longleftrightarrow>
     (\<forall>r. 1 \<le> r \<longrightarrow> r \<le> rank_num s \<longrightarrow>
        dlist (meta s) (bucket s r) (L r) \<and> distinct (L r) \<and> set (L r) = {p. A p = Some (Free, r)})"

definition repr :: "nat set \<Rightarrow> buddy \<Rightarrow> tiling \<Rightarrow> (nat \<Rightarrow> nat list) \<Rightarrow> bool" where
  "repr D s A L \<longleftrightarrow>
     1 \<le> rank_num s \<and> rank_num s \<le> 20 \<and> wf_tiling (rank_num s) A
   \<and> pg_status (meta s (bsize (rank_num s))) = UNDEF
   \<and> (\<forall>p < bsize (rank_num s). p \<notin> D \<longrightarrow> entry_ok (rank_num s) (meta s p) p (A p))
   \<and> lists_ok s A L"

definition counts_ok :: "buddy \<Rightarrow> (nat \<Rightarrow> nat list) \<Rightarrow> bool" where
  "counts_ok s L \<longleftrightarrow> (\<forall>r. 1 \<le> r \<longrightarrow> r \<le> rank_num s \<longrightarrow> bcount s r = length (L r))"

lemma reprD:
  assumes "repr D s A L"
  shows "1 \<le> rank_num s" "rank_num s \<le> 20" "wf_tiling (rank_num s) A"
    "pg_status (meta s (bsize (rank_num s))) = UNDEF" "lists_ok s A L"
    "p < bsize (rank_num s) \<Longrightarrow> p \<notin> D \<Longrightarrow> entry_ok (rank_num s) (meta s p) p (A p)"
  using assms by (auto simp: repr_def)

lemma lists_okD:
  assumes "lists_ok s A L" "1 \<le> r" "r \<le> rank_num s"
  shows "dlist (meta s) (bucket s r) (L r)" "distinct (L r)" "set (L r) = {p. A p = Some (Free, r)}"
  using assms by (auto simp: lists_ok_def)

lemma repr_list:
  assumes "repr D s A L" "1 \<le> r" "r \<le> rank_num s"
  shows "dlist (meta s) (bucket s r) (L r)" "distinct (L r)" "set (L r) = {p. A p = Some (Free, r)}"
  using lists_okD [OF reprD(5) [OF assms(1)] assms(2,3)] .

lemma repr_bucket:
  assumes "repr D s A L" "1 \<le> r" "r \<le> rank_num s"
  shows "bucket s r = (case L r of [] \<Rightarrow> None | p # _ \<Rightarrow> Some p)"
  using repr_list(1) [OF assms] by (cases "L r") (auto dest: dlist_head)

lemma lists_length:
  assumes "repr D s A L" "1 \<le> r" "r \<le> rank_num s"
  shows "length (L r) \<le> 2 ^ 19"
proof -
  have "set (L r) \<subseteq> {..<bsize (rank_num s)}"
    using repr_list(3) [OF assms] wf_tilingD(6) [OF reprD(3) [OF assms(1)]] by auto
  then have "card (set (L r)) \<le> card {..<bsize (rank_num s)}"
    by (intro card_mono) auto
  then have "length (L r) \<le> bsize (rank_num s)"
    using repr_list(2) [OF assms] by (simp add: distinct_card)
  also have "\<dots> \<le> 2 ^ 19" using bsize_R_less [OF reprD(2) [OF assms(1)]] .
  finally show ?thesis .
qed

lemma repr_set_count [simp]: "repr D (set_count r n s) A L = repr D s A L"
  by (simp add: repr_def lists_ok_def)

lemma same_payload_entry:
  "same_payload s s' \<Longrightarrow> entry_ok R (meta s' p) p e = entry_ok R (meta s p) p e"
  by (auto simp: same_payload_def entry_ok_def split: option.splits)

text \<open>A state change that keeps the payload, with the new tiling and lists supplied.\<close>

lemma repr_relist:
  assumes "repr D s A L" "same_payload s s'" "wf_tiling (rank_num s) A'" "lists_ok s' A' L'"
    and "\<And>p. p < bsize (rank_num s) \<Longrightarrow> p \<notin> D' \<Longrightarrow> p \<in> D \<Longrightarrow> entry_ok (rank_num s) (meta s p) p (A' p)"
    and "\<And>p. p < bsize (rank_num s) \<Longrightarrow> p \<notin> D' \<Longrightarrow> p \<notin> D \<Longrightarrow> A' p = A p"
  shows "repr D' s' A' L'"
proof -
  have R: "rank_num s' = rank_num s" using assms(2) by (simp add: same_payload_def)
  have "entry_ok (rank_num s') (meta s' p) p (A' p)" if "p < bsize (rank_num s)" "p \<notin> D'" for p
  proof (cases "p \<in> D")
    case True
    with assms(5) that show ?thesis by (simp add: R same_payload_entry [OF assms(2)])
  next
    case False
    with assms(6) that reprD(6) [OF assms(1)] show ?thesis
      by (simp add: R same_payload_entry [OF assms(2)])
  qed
  then show ?thesis
    using assms(1-4) by (simp add: repr_def R same_payload_def)
qed

lemma detach_pop:
  assumes rp: "repr D s A L" and r: "1 \<le> r" "r \<le> rank_num s" and L: "L r = p # ps"
  obtains s1 where "bucket s r = Some p" "list_pop r s = Some s1" "same_payload s s1"
    "repr (insert p D) s1 (A(p \<mapsto> (Used, r))) (L(r := ps))"
proof -
  note lst = repr_list [OF rp r]
  obtain s1 where s1: "list_pop r s = Some s1" "bucket s1 = (bucket s)(r := bucket s1 r)"
    "dlist (meta s1) (bucket s1 r) ps"
    "\<And>h ys. dlist (meta s) h ys \<Longrightarrow> set ps \<inter> set ys = {} \<Longrightarrow> dlist (meta s1) h ys"
    using list_pop_Cons [of s r p ps] lst L by metis
  have sp: "same_payload s s1" using same_payload_pop [OF s1(1)] .
  have Ap: "A p = Some (Free, r)" and d: "distinct (p # ps)" using lst L by auto
  have "lists_ok s1 (A(p \<mapsto> (Used, r))) (L(r := ps))" unfolding lists_ok_def
  proof (intro allI impI)
    fix t assume t: "1 \<le> t" "t \<le> rank_num s1"
    then have t': "t \<le> rank_num s" using sp by (simp add: same_payload_def)
    note lt = repr_list [OF rp t(1) t']
    show "dlist (meta s1) (bucket s1 t) ((L(r := ps)) t) \<and> distinct ((L(r := ps)) t)
        \<and> set ((L(r := ps)) t) = {q. (A(p \<mapsto> (Used, r))) q = Some (Free, t)}"
    proof (cases "t = r")
      case True
      with s1(3) d lst(3) L show ?thesis by auto
    next
      case False
      then have "set (L r) \<inter> set (L t) = {}" using lst(3) lt(3) by auto
      then have "set ps \<inter> set (L t) = {}" "p \<notin> set (L t)" using L by auto
      then have "dlist (meta s1) (bucket s t) (L t)" using s1(4) [OF lt(1)] by simp
      moreover have "bucket s1 t = bucket s t" using False by (subst s1(2)) simp
      moreover have "{q. (A(p \<mapsto> (Used, r))) q = Some (Free, t)} = {q. A q = Some (Free, t)}"
        using False Ap by auto
      ultimately show ?thesis using False lt by simp
    qed
  qed
  then have "repr (insert p D) s1 (A(p \<mapsto> (Used, r))) (L(r := ps))"
    using rp sp wf_tiling_reuse [OF reprD(3) [OF rp] Ap] by (rule_tac repr_relist) auto
  with that s1(1) sp L repr_bucket [OF rp r] show thesis by auto
qed

lemma detach_remove:
  assumes rp: "repr D s A L" and Ab: "A b = Some (Free, r)"
  shows "repr (insert b D) (list_remove r b s) (A(b \<mapsto> (Used, r))) (L(r := remove1 b (L r)))"
    and "b \<in> set (L r)"
proof -
  have r: "1 \<le> r" "r \<le> rank_num s" using wf_tilingD [OF reprD(3) [OF rp] Ab] by auto
  note lst = repr_list [OF rp r]
  show b: "b \<in> set (L r)" using lst(3) Ab by simp
  then obtain as bs where L: "L r = as @ b # bs" by (auto dest: split_list)
  then have rem: "remove1 b (L r) = as @ bs" using lst(2) by (auto simp: remove1_append)
  let ?s = "list_remove r b s"
  have dl: "dlist (meta s) (bucket s r) (as @ b # bs)" "distinct (as @ b # bs)" using lst L by auto
  note rm = list_remove_dlist [OF dl]
  have sp: "same_payload s ?s" by (rule same_payload_remove)
  have "lists_ok ?s (A(b \<mapsto> (Used, r))) (L(r := as @ bs))" unfolding lists_ok_def
  proof (intro allI impI)
    fix t assume t: "1 \<le> t" "t \<le> rank_num ?s"
    then have t': "t \<le> rank_num s" using sp by (simp add: same_payload_def)
    note lt = repr_list [OF rp t(1) t']
    show "dlist (meta ?s) (bucket ?s t) ((L(r := as @ bs)) t) \<and> distinct ((L(r := as @ bs)) t)
        \<and> set ((L(r := as @ bs)) t) = {q. (A(b \<mapsto> (Used, r))) q = Some (Free, t)}"
    proof (cases "t = r")
      case True
      have "set (as @ bs) = {q. (A(b \<mapsto> (Used, r))) q = Some (Free, r)}"
        using lst(3) dl(2) unfolding L by auto
      with True rm(1) dl(2) show ?thesis by simp
    next
      case False
      then have "set (L r) \<inter> set (L t) = {}" using lst(3) lt(3) by auto
      then have dj: "b \<notin> set (L t)" "set (as @ bs) \<inter> set (L t) = {}" using L by auto
      then have "dlist (meta ?s) (bucket s t) (L t)"
        using lt(1) rm(3) dlist_cong [of "L t" "meta s" "meta ?s"] by (metis disjoint_iff)
      moreover have "bucket ?s t = bucket s t" using False by (subst rm(2)) simp
      moreover have "{q. (A(b \<mapsto> (Used, r))) q = Some (Free, t)} = {q. A q = Some (Free, t)}"
        using False Ab by auto
      ultimately show ?thesis using False lt by simp
    qed
  qed
  then show "repr (insert b D) ?s (A(b \<mapsto> (Used, r))) (L(r := remove1 b (L r)))"
    using rp sp wf_tiling_reuse [OF reprD(3) [OF rp] Ab] unfolding rem
    by (rule_tac repr_relist) auto
qed

lemma attach:
  assumes rp: "repr D s A L" and Ap: "A p = Some (Used, r)" and pD: "p \<in> D"
    and m: "pg_status (meta s p) = UNUSED" "pg_rank (meta s p) = r"
      "pg_index (meta s p) = block_index (rank_num s) p r"
  shows "repr (D - {p}) (list_push r p s) (A(p \<mapsto> (Free, r))) (L(r := p # L r))"
proof -
  have r: "1 \<le> r" "r \<le> rank_num s" using wf_tilingD [OF reprD(3) [OF rp] Ap] by auto
  note lst = repr_list [OF rp r]
  let ?s = "list_push r p s"
  have sp: "same_payload s ?s" by (rule same_payload_push)
  have np: "p \<notin> set (L t)" if "1 \<le> t" "t \<le> rank_num s" for t
    using repr_list(3) [OF rp that] Ap by auto
  have "lists_ok ?s (A(p \<mapsto> (Free, r))) (L(r := p # L r))" unfolding lists_ok_def
  proof (intro allI impI)
    fix t assume t: "1 \<le> t" "t \<le> rank_num ?s"
    then have t': "t \<le> rank_num s" using sp by (simp add: same_payload_def)
    note lt = repr_list [OF rp t(1) t']
    show "dlist (meta ?s) (bucket ?s t) ((L(r := p # L r)) t) \<and> distinct ((L(r := p # L r)) t)
        \<and> set ((L(r := p # L r)) t) = {q. (A(p \<mapsto> (Free, r))) q = Some (Free, t)}"
    proof (cases "t = r")
      case True
      have "set (p # L r) = {q. (A(p \<mapsto> (Free, r))) q = Some (Free, r)}" using lst(3) by auto
      with True dlist_push [OF lst(1) np [OF r] lst(2)] np [OF r] lst(2) show ?thesis
        by (simp add: list_push_bucket)
    next
      case False
      then have "set (L r) \<inter> set (L t) = {}" using lst(3) lt(3) by auto
      with dlist_push_other [OF lst(1) lt(1) np [OF t(1) t']]
      have "dlist (meta ?s) (bucket ?s t) (L t)" using False by (simp add: list_push_bucket)
      moreover have "{q. (A(p \<mapsto> (Free, r))) q = Some (Free, t)} = {q. A q = Some (Free, t)}"
        using False Ap by auto
      ultimately show ?thesis using False lt by simp
    qed
  qed
  then show ?thesis
    using wf_tiling_reuse [OF reprD(3) [OF rp] Ap] m pD
    by (intro repr_relist [OF rp sp]) (auto simp: entry_ok_def)
qed

lemma settle:
  assumes "repr D s A L" "entry_ok (rank_num s) (meta s p) p (A p)"
  shows "repr (D - {p}) s A L"
  using assms by (auto simp: repr_def)

lemma repr_upd_detached:
  assumes rp: "repr D s A L" and p: "p \<in> D" "p < bsize (rank_num s)" "\<And>r. A p \<noteq> Some (Free, r)"
  shows "repr D (upd_meta p f s) A L"
proof -
  have "lists_ok (upd_meta p f s) A L" unfolding lists_ok_def
  proof (intro allI impI)
    fix r assume "1 \<le> r" "r \<le> rank_num (upd_meta p f s)"
    then have r: "1 \<le> r" "r \<le> rank_num s" by simp_all
    note lst = repr_list [OF rp r]
    have "p \<notin> set (L r)" using lst(3) p(3) by simp
    then have "dlist (meta (upd_meta p f s)) (bucket s r) (L r)"
      using lst(1) by simp
    with lst show "dlist (meta (upd_meta p f s)) (bucket (upd_meta p f s) r) (L r)
        \<and> distinct (L r) \<and> set (L r) = {q. A q = Some (Free, r)}" by simp
  qed
  with rp p(1,2) show ?thesis by (auto simp: repr_def)
qed

lemma repr_retile:
  assumes rp: "repr D s A L" and wf: "wf_tiling (rank_num s) A'" and "D \<subseteq> D'"
    and same: "\<And>q. q \<notin> D' \<Longrightarrow> A' q = A q"
    and nfree: "\<And>q r. q \<in> D' \<Longrightarrow> A q \<noteq> Some (Free, r) \<and> A' q \<noteq> Some (Free, r)"
  shows "repr D' s A' L"
proof -
  have "{q. A' q = Some (Free, r)} = {q. A q = Some (Free, r)}" for r
    using same nfree by (metis (mono_tags, lifting))
  then have "lists_ok s A' L" using reprD(5) [OF rp] by (simp add: lists_ok_def)
  with assms show ?thesis by (auto simp: repr_def)
qed

subsection \<open>Splitting\<close>

lemma split_block_repr:
  assumes rp: "repr {} s A L" and cn: "counts_ok s L" and r: "1 \<le> r" "Suc r \<le> rank_num s"
    and L: "L (Suc r) = p # ps"
  obtains s' where "split_block (Suc r) s = Inr s'"
    "repr {} s' (A(p \<mapsto> (Free, r), p + bsize r \<mapsto> (Free, r)))
       (L(Suc r := ps, r := p # (p + bsize r) # L r))"
    "counts_ok s' (L(Suc r := ps, r := p # (p + bsize r) # L r))"
    "base_ptr s' = base_ptr s" "rank_num s' = rank_num s"
proof -
  let ?R = "rank_num s" and ?h = "p + bsize r"
  note R = reprD(1,2) [OF rp]
  have Sr: "1 \<le> Suc r" by simp
  obtain s1 where b: "bucket s (Suc r) = Some p" and s1: "list_pop (Suc r) s = Some s1"
    and sp1: "same_payload s s1"
    and r1: "repr {p} s1 (A(p \<mapsto> (Used, Suc r))) (L(Suc r := ps))"
    using detach_pop [OF rp Sr r(2) L] by metis
  have n1: "rank_num s1 = ?R" "base_ptr s1 = base_ptr s" "bcount s1 = bcount s"
    using sp1 by (auto simp: same_payload_def)
  have Ap: "A p = Some (Free, Suc r)" using repr_list(3) [OF rp Sr r(2)] L by auto
  have wfp: "wf_block ?R p (Suc r)" using wf_tilingD(1) [OF reprD(3) [OF rp] Ap] .
  have "entry_ok ?R (meta s p) p (A p)" using reprD(6) [OF rp] wfp by (auto simp: wf_block_def)
  then have idx: "pg_index (meta s1 p) = block_index ?R p (Suc r)"
    using Ap sp1 by (auto simp: entry_ok_def same_payload_def)
  have wfh: "wf_block ?R p r" "wf_block ?R ?h r" "p < bsize ?R" "?h < bsize ?R"
    using wf_tilingD(1) [OF wf_tiling_split [OF reprD(3) [OF rp] Ap r(1)], where p = p]
      wf_tilingD(1) [OF wf_tiling_split [OF reprD(3) [OF rp] Ap r(1)], where p = ?h]
    by (auto simp: wf_block_def split: if_splits)
  define s2 where "s2 = set_count (Suc r) (sub32 (bcount s (Suc r)) 1)
      (upd_meta p (\<lambda>m. m\<lparr>pg_status := UNDEF\<rparr>) s1)"
  have n2: "rank_num s2 = ?R" "base_ptr s2 = base_ptr s" by (simp_all add: s2_def n1)
  have "repr {p} s2 (A(p \<mapsto> (Used, Suc r))) (L(Suc r := ps))"
    unfolding s2_def using r1 wfh n1 by (simp add: repr_upd_detached)
  then have r2: "repr {p, ?h} s2 (A(p \<mapsto> (Used, r), ?h \<mapsto> (Used, r))) (L(Suc r := ps))"
  proof (rule repr_retile)
    have "wf_tiling ?R (A(p \<mapsto> (Used, Suc r), p \<mapsto> (Used, r), ?h \<mapsto> (Used, r)))"
      using wf_tiling_reuse [OF reprD(3) [OF rp] Ap] by (intro wf_tiling_split r) auto
    then show "wf_tiling (rank_num s2) (A(p \<mapsto> (Used, r), ?h \<mapsto> (Used, r)))"
      by (simp add: n2)
    have "A ?h = None"
      using wf_tiling_gap [OF reprD(3) [OF rp] Ap, where q = ?h] r bsize_Suc [of r] by simp
    then show "\<And>q t. q \<in> {p, ?h} \<Longrightarrow> (A(p \<mapsto> (Used, Suc r))) q \<noteq> Some (Free, t)
        \<and> (A(p \<mapsto> (Used, r), ?h \<mapsto> (Used, r))) q \<noteq> Some (Free, t)" by auto
  qed auto
  let ?new = "\<lambda>q. \<lparr>pg_status = UNUSED, pg_rank = r, pg_index = block_index ?R q r,
      pg_prev = None, pg_next = None\<rparr>"
  define s3 where "s3 = upd_meta p (\<lambda>_. ?new p) (upd_meta ?h (\<lambda>_. ?new ?h) s2)"
  have n3: "rank_num s3 = ?R" "base_ptr s3 = base_ptr s" by (simp_all add: s3_def n2)
  have r3: "repr {p, ?h} s3 (A(p \<mapsto> (Used, r), ?h \<mapsto> (Used, r))) (L(Suc r := ps))"
    unfolding s3_def using r2 wfh n2 by (intro repr_upd_detached) auto
  define s4 where "s4 = list_push r ?h s3"
  have sp4: "same_payload s3 s4" unfolding s4_def by (rule same_payload_push)
  have "repr ({p, ?h} - {?h}) s4 ((A(p \<mapsto> (Used, r), ?h \<mapsto> (Used, r)))(?h \<mapsto> (Free, r)))
      ((L(Suc r := ps))(r := ?h # (L(Suc r := ps)) r))"
    unfolding s4_def by (rule attach [OF r3]) (simp_all add: n3, simp_all add: s3_def)
  then have r4: "repr {p} s4 (A(p \<mapsto> (Used, r), ?h \<mapsto> (Free, r))) (L(Suc r := ps, r := ?h # L r))"
    by (simp add: insert_Diff_if)
  have n4: "rank_num s4 = ?R" "base_ptr s4 = base_ptr s"
    using sp4 n3 by (auto simp: same_payload_def)
  define s5 where "s5 = list_push r p s4"
  have sp5: "same_payload s4 s5" unfolding s5_def by (rule same_payload_push)
  have "repr ({p} - {p}) s5 ((A(p \<mapsto> (Used, r), ?h \<mapsto> (Free, r)))(p \<mapsto> (Free, r)))
      ((L(Suc r := ps, r := ?h # L r))(r := p # (L(Suc r := ps, r := ?h # L r)) r))"
    unfolding s5_def using sp4
    by (intro attach [OF r4]) (simp_all add: n4 same_payload_def, simp_all add: s3_def)
  then have r5: "repr {} s5 (A(p \<mapsto> (Free, r), ?h \<mapsto> (Free, r)))
      (L(Suc r := ps, r := p # ?h # L r))"
    by (simp add: fun_upd_twist)
  define s6 where "s6 = set_count r (add32 (bcount s5 r) 2) s5"
  have c5: "bcount s5 = (bcount s)(Suc r := sub32 (bcount s (Suc r)) 1)"
    using sp4 sp5 n1 by (simp add: same_payload_def s3_def s2_def)
  have n5: "rank_num s5 = ?R" "base_ptr s5 = base_ptr s"
    using sp5 n4 by (auto simp: same_payload_def)
  have ci: "CHILD (block_index ?R p (Suc r)) (Suc 0) = block_index ?R ?h r"
      "CHILD (block_index ?R p (Suc r)) 0 = block_index ?R p r"
    using CHILD_index [OF wfp r(1) R(2)] by simp_all
  have pg: "block_to_page t (block_index ?R ?h r) r = ?h" "block_to_page t (block_index ?R p r) r = p"
    if "rank_num t = ?R" for t
    using that wfh R by (simp_all add: block_to_page_index)
  have "split_block (Suc r) s = Inr s6"
    using b s1 by (simp add: split_block_def Let_def idx ci pg n1 s6_def s5_def s4_def s3_def s2_def)
  moreover have "repr {} s6 (A(p \<mapsto> (Free, r), ?h \<mapsto> (Free, r))) (L(Suc r := ps, r := p # ?h # L r))"
    using r5 by (simp add: s6_def)
  moreover have "counts_ok s6 (L(Suc r := ps, r := p # ?h # L r))"
    unfolding counts_ok_def
  proof (intro allI impI)
    fix t assume "1 \<le> t" "t \<le> rank_num s6"
    then have t: "1 \<le> t" "t \<le> ?R" by (simp_all add: s6_def n5)
    have "bcount s t = length (L t)" "length (L t) \<le> 2 ^ 19" "length (L r) \<le> 2 ^ 19"
      "length (L (Suc r)) \<le> 2 ^ 19" "bcount s r = length (L r)" "bcount s (Suc r) = Suc (length ps)"
      using cn t r lists_length [OF rp] lists_length [OF rp Sr r(2)] L
      by (simp_all add: counts_ok_def)
    then show "bcount s6 t = length ((L(Suc r := ps, r := p # ?h # L r)) t)"
      using L by (auto simp: s6_def c5 add32_small sub32_small)
  qed
  ultimately show thesis using that n5 by (simp add: s6_def)
qed

subsection \<open>Allocation\<close>

lemma find_rank_spec:
  assumes "1 \<le> u" "u \<le> Suc (rank_num s)" "rank_num s \<le> 20"
  obtains v where "find_rank s u = Some v" "u \<le> v" "v \<le> Suc (rank_num s)"
    "\<And>t. u \<le> t \<Longrightarrow> t < v \<Longrightarrow> bucket s t = None" "v \<le> rank_num s \<Longrightarrow> bucket s v \<noteq> None"
proof -
  have "\<exists>v. find_rank s u = Some v \<and> u \<le> v \<and> v \<le> Suc (rank_num s)
      \<and> (\<forall>t. u \<le> t \<and> t < v \<longrightarrow> bucket s t = None) \<and> (v \<le> rank_num s \<longrightarrow> bucket s v \<noteq> None)"
    using assms
  proof (induction "Suc (rank_num s) - u" arbitrary: u)
    case 0
    then show ?case by (intro exI [of _ u]) (auto simp: find_rank.simps)
  next
    case (Suc n)
    then have ur: "u \<le> rank_num s" by linarith
    show ?case
    proof (cases "bucket s u = None")
      case True
      have "n = Suc (rank_num s) - Suc u" "1 \<le> Suc u" "Suc u \<le> Suc (rank_num s)"
        using Suc by auto
      from Suc.hyps(1) [OF this Suc.prems(3)] obtain v where v: "find_rank s (Suc u) = Some v"
        "Suc u \<le> v" "v \<le> Suc (rank_num s)" "\<forall>t. Suc u \<le> t \<and> t < v \<longrightarrow> bucket s t = None"
        "v \<le> rank_num s \<longrightarrow> bucket s v \<noteq> None" by blast
      have "find_rank s u = Some v"
        using True v(1) ur Suc.prems by (subst find_rank.simps) (simp add: u8_small)
      moreover have "bucket s t = None" if "u \<le> t" "t < v" for t
        using that v(4) True by (cases "t = u") auto
      ultimately show ?thesis using v by (intro exI [of _ v]) auto
    next
      case False
      with Suc.hyps(2) show ?thesis
        by (intro exI [of _ u]) (auto simp: find_rank.simps [of s u])
    qed
  qed
  with that show thesis by blast
qed

lemma used_blocks_upd:
  "used_blocks (A(p \<mapsto> (Free, r))) = (used_blocks A)(p := None)"
  "used_blocks (A(p \<mapsto> (Used, r))) = (used_blocks A)(p \<mapsto> r)"
  by (auto simp: used_blocks_def)

definition good :: "buddy \<Rightarrow> tiling \<Rightarrow> (nat \<Rightarrow> nat list) \<Rightarrow> bool" where
  "good s A L \<longleftrightarrow> repr {} s A L \<and> counts_ok s L \<and> no_buddies (rank_num s) A"

lemma split_loop_repr:
  assumes "repr {} s A L" "counts_ok s L" "1 \<le> rank" "rank \<le> sr" "sr \<le> rank_num s"
    "L sr = p # ps" "no_buddies (rank_num s) (A(p \<mapsto> (Used, sr)))"
  shows "\<exists>s' A' L' ps'. split_loop rank sr s = Inr s' \<and> repr {} s' A' L' \<and> counts_ok s' L'
    \<and> L' rank = p # ps' \<and> no_buddies (rank_num s) (A'(p \<mapsto> (Used, rank)))
    \<and> used_blocks A' = used_blocks A \<and> base_ptr s' = base_ptr s \<and> rank_num s' = rank_num s"
  using assms
proof (induction "sr - rank" arbitrary: sr s A L ps)
  case 0
  then have "rank = sr" by simp
  with 0 show ?case by (auto simp: split_loop.simps)
next
  case (Suc n)
  then obtain r where r: "sr = Suc r" "rank \<le> r" "1 \<le> r"
    by (cases sr) auto
  let ?h = "p + bsize r"
  note rp = Suc.prems(1)
  have Sr: "1 \<le> Suc r" "Suc r \<le> rank_num s" "L (Suc r) = p # ps" using Suc.prems r by auto
  obtain s1 where s1: "split_block (Suc r) s = Inr s1"
    "repr {} s1 (A(p \<mapsto> (Free, r), ?h \<mapsto> (Free, r))) (L(Suc r := ps, r := p # ?h # L r))"
    "counts_ok s1 (L(Suc r := ps, r := p # ?h # L r))"
    "base_ptr s1 = base_ptr s" "rank_num s1 = rank_num s"
    using split_block_repr [OF rp Suc.prems(2) r(3) Sr(2,3)] by metis
  let ?A = "A(p \<mapsto> (Free, r), ?h \<mapsto> (Free, r))"
  have Ap: "A p = Some (Free, Suc r)" using repr_list(3) [OF rp Sr(1,2)] Sr(3) by auto
  have wf: "wf_tiling (rank_num s) (A(p \<mapsto> (Used, Suc r)))"
    using wf_tiling_reuse [OF reprD(3) [OF rp] Ap] .
  have nh: "?h \<noteq> p" by simp
  have Ah: "A ?h = None"
    using wf_tiling_gap [OF reprD(3) [OF rp] Ap, where q = ?h] r bsize_Suc [of r] by simp
  have "no_buddies (rank_num s) (A(p \<mapsto> (Used, Suc r), p \<mapsto> (Used, r), ?h \<mapsto> (Free, r)))"
    using Suc.prems(7) r wf by (intro no_buddies_shrink) auto
  then have nb: "no_buddies (rank_num s1) (?A(p \<mapsto> (Used, r)))"
    using nh s1(5) by (simp add: fun_upd_twist)
  have used: "used_blocks ?A = used_blocks A"
    using Ap Ah by (auto simp: used_blocks_def fun_eq_iff)
  have "n = r - rank" using Suc.hyps(2) r by simp
  from Suc.hyps(1) [OF this s1(2,3) Suc.prems(3) r(2) _ _ nb, of "?h # L r"] Sr(2) s1
  obtain s' A' L' ps' where "split_loop rank r s1 = Inr s'" "repr {} s' A' L'" "counts_ok s' L'"
    "L' rank = p # ps'" "no_buddies (rank_num s) (A'(p \<mapsto> (Used, rank)))"
    "used_blocks A' = used_blocks ?A" "base_ptr s' = base_ptr s" "rank_num s' = rank_num s"
    by auto
  then show ?case
    using s1(1) r used by (subst split_loop.simps) auto
qed

lemma take_block_repr:
  assumes rp: "repr {} s A L" and cn: "counts_ok s L" and r: "1 \<le> r" "r \<le> rank_num s"
    and L: "L r = p # ps" and nb: "no_buddies (rank_num s) (A(p \<mapsto> (Used, r)))"
  obtains s' where "take_block r s = (base_ptr s + of_nat (p * PAGE_SIZE), s')"
    "good s' (A(p \<mapsto> (Used, r))) (L(r := ps))" "base_ptr s' = base_ptr s" "rank_num s' = rank_num s"
proof -
  let ?R = "rank_num s"
  obtain s1 where b: "bucket s r = Some p" and s1: "list_pop r s = Some s1"
    and sp1: "same_payload s s1"
    and r1: "repr {p} s1 (A(p \<mapsto> (Used, r))) (L(r := ps))"
    using detach_pop [OF rp r L] by metis
  have n1: "rank_num s1 = ?R" "base_ptr s1 = base_ptr s" "bcount s1 = bcount s"
    using sp1 by (auto simp: same_payload_def)
  have Ap: "A p = Some (Free, r)" using repr_list(3) [OF rp r] L by auto
  note wfp = wf_tilingD [OF reprD(3) [OF rp] Ap]
  have en: "entry_ok ?R (meta s p) p (A p)" using reprD(6) [OF rp] wfp by auto
  then have idx: "pg_index (meta s1 p) = block_index ?R p r" "pg_rank (meta s1 p) = r"
    using Ap sp1 by (auto simp: entry_ok_def same_payload_def)
  define s2 where "s2 = upd_meta p (\<lambda>m. m\<lparr>pg_status := USED\<rparr>) s1"
  have "repr {p} s2 (A(p \<mapsto> (Used, r))) (L(r := ps))"
    unfolding s2_def using r1 wfp n1 by (intro repr_upd_detached) auto
  then have "repr ({p} - {p}) s2 (A(p \<mapsto> (Used, r))) (L(r := ps))"
    by (rule settle) (simp add: s2_def entry_ok_def idx n1)
  then have r2: "repr {} s2 (A(p \<mapsto> (Used, r))) (L(r := ps))" by simp
  define s3 where "s3 = set_count r (sub32 (bcount s2 r) 1) s2"
  have n3: "rank_num s3 = ?R" "base_ptr s3 = base_ptr s" by (simp_all add: s3_def s2_def n1)
  have "counts_ok s3 (L(r := ps))"
    using cn lists_length [OF rp r] L r
    by (auto simp: counts_ok_def s3_def s2_def n1 sub32_small)
  then have g: "good s3 (A(p \<mapsto> (Used, r))) (L(r := ps))"
    using r2 nb by (simp add: good_def s3_def s2_def n1)
  have "p < bsize ?R" "bsize ?R \<le> 2 ^ 19" using wfp bsize_R_less reprD(2) [OF rp] by auto
  then have "p * PAGE_SIZE < 2 ^ 19 * PAGE_SIZE" by (simp add: PAGE_SIZE_def)
  then have "mul32 p PAGE_SIZE = p * PAGE_SIZE" by (intro mul32_small) (simp add: PAGE_SIZE_def)
  then have "take_block r s = (base_ptr s + of_nat (p * PAGE_SIZE), s3)"
    using b s1 wfp(1) reprD(2) [OF rp] n1
    by (simp add: take_block_def Let_def block_to_ptr_def block_to_page_index idx s3_def s2_def)
  with that g n3 show thesis by blast
qed

text \<open>The three outcomes of an allocation, over the represented tiling.\<close>

lemma alloc_pages_invalid:
  "rank < 1 \<or> int (rank_num s) < rank \<Longrightarrow> alloc_pages rank s = Some (err_ptr (- EINVAL), s)"
  by (simp add: alloc_pages_def)

lemma alloc_pages_repr:
  assumes g: "good s A L" and r: "1 \<le> r" "r \<le> rank_num s"
  obtains (full) "alloc_pages (int r) s = Some (err_ptr (- ENOSPC), s)"
      "\<And>p t. A p = Some (Free, t) \<Longrightarrow> t < r"
  | (fit) p s' A' L' where
      "alloc_pages (int r) s = Some (base_ptr s + of_nat (p * PAGE_SIZE), s')"
      "good s' A' L'" "used_blocks A' = (used_blocks A)(p \<mapsto> r)" "A' p = Some (Used, r)"
      "p \<notin> dom (used_blocks A)" "base_ptr s' = base_ptr s" "rank_num s' = rank_num s"
      "\<exists>t. A p = Some (Free, t) \<and> r \<le> t \<and> (\<forall>p' t'. A p' = Some (Free, t') \<and> r \<le> t' \<longrightarrow> t \<le> t')"
proof -
  have rp: "repr {} s A L" and cn: "counts_ok s L" and nb: "no_buddies (rank_num s) A"
    using g by (auto simp: good_def)
  note R = reprD(1,2) [OF rp]
  obtain v where v: "find_rank s r = Some v" "r \<le> v" "v \<le> Suc (rank_num s)"
    "\<And>t. r \<le> t \<Longrightarrow> t < v \<Longrightarrow> bucket s t = None" "v \<le> rank_num s \<Longrightarrow> bucket s v \<noteq> None"
    using find_rank_spec [of r s] r R by auto
  have u8: "u8 (nat (int r)) = r" using r R by (simp add: u8_small)
  show thesis
  proof (cases "v \<le> rank_num s")
    case False
    then have "v = Suc (rank_num s)" using v(3) by simp
    then have empty: "bucket s t = None" if "r \<le> t" "t \<le> rank_num s" for t
      using v(4) that by simp
    have "t < r" if "A p = Some (Free, t)" for p t
    proof (rule ccontr)
      assume "\<not> t < r"
      moreover have "1 \<le> t" "t \<le> rank_num s" using wf_tilingD [OF reprD(3) [OF rp] that] by auto
      ultimately have "L t = []" using empty repr_bucket [OF rp, of t] by (auto split: list.splits)
      then show False using repr_list(3) [OF rp \<open>1 \<le> t\<close> \<open>t \<le> rank_num s\<close>] that by auto
    qed
    with False v(1) r u8 full show thesis by (simp add: alloc_pages_def)
  next
    case True
    have v1: "1 \<le> v" using r v(2) by simp
    then obtain p ps where L: "L v = p # ps"
      using v(5) True repr_bucket [OF rp v1 True] by (auto split: list.splits)
    have Ap: "A p = Some (Free, v)" using repr_list(3) [OF rp v1 True] L by auto
    obtain s1 A1 L1 ps1 where s1: "split_loop r v s = Inr s1" "repr {} s1 A1 L1" "counts_ok s1 L1"
      "L1 r = p # ps1" "no_buddies (rank_num s) (A1(p \<mapsto> (Used, r)))"
      "used_blocks A1 = used_blocks A" "base_ptr s1 = base_ptr s" "rank_num s1 = rank_num s"
      using split_loop_repr [OF rp cn r(1) v(2) True L no_buddies_use [OF nb]] by blast
    obtain s2 where s2: "take_block r s1 = (base_ptr s1 + of_nat (p * PAGE_SIZE), s2)"
      "good s2 (A1(p \<mapsto> (Used, r))) (L1(r := ps1))" "base_ptr s2 = base_ptr s1"
      "rank_num s2 = rank_num s1"
      using take_block_repr [OF s1(2,3) r(1) _ s1(4)] r s1(5,8) by metis
    have "p \<notin> dom (used_blocks A)" using Ap by (simp add: used_blocks_def domIff)
    moreover have "alloc_pages (int r) s = Some (base_ptr s + of_nat (p * PAGE_SIZE), s2)"
      using v(1) True r u8 s1(1,7) s2(1) by (simp add: alloc_pages_def)
    moreover have "v \<le> t'" if f: "A p' = Some (Free, t')" and t': "r \<le> t'" for p' t'
    proof (rule ccontr)
      assume "\<not> v \<le> t'"
      moreover have t: "1 \<le> t'" "t' \<le> rank_num s" using wf_tilingD [OF reprD(3) [OF rp] f] by auto
      ultimately have "L t' = []" using v(4) [of t'] t' repr_bucket [OF rp t] by (auto split: list.splits)
      then show False using repr_list(3) [OF rp t] f by auto
    qed
    ultimately show thesis
      using fit [of p s2 "A1(p \<mapsto> (Used, r))" "L1(r := ps1)"] s1 s2 Ap v(2)
      by (simp add: used_blocks_upd) blast
  qed
qed

subsection \<open>Release\<close>

lemma upd_meta_commute:
  "(\<And>m. f (g m) = g (f m)) \<Longrightarrow> upd_meta p f (upd_meta q g s) = upd_meta q g (upd_meta p f s)"
  by (cases "p = q") (simp_all add: upd_meta_def fun_upd_twist)

lemma upd_opt_commute:
  "(\<And>m. f (g m) = g (f m)) \<Longrightarrow> upd_opt p f (upd_meta q g s) = upd_meta q g (upd_opt p f s)"
  by (cases p) (simp_all add: upd_opt_def upd_meta_commute)

lemma set_bucket_commute: "set_bucket r x (upd_meta q g s) = upd_meta q g (set_bucket r x s)"
  by (simp add: set_bucket_def upd_meta_def)

lemma list_remove_status:
  "list_remove r n (upd_meta q (pg_status_update f) s) = upd_meta q (pg_status_update f) (list_remove r n s)"
proof -
  have links: "pg_next (meta (upd_meta q (pg_status_update f) t) n) = pg_next (meta t n)"
    "pg_prev (meta (upd_meta q (pg_status_update f) t) n) = pg_prev (meta t n)" for t
    by simp_all
  show ?thesis
    unfolding list_remove_def Let_def
    by (simp add: links upd_opt_commute set_bucket_commute del: upd_meta_simps(5))
qed

lemma merge_step_repr:
  assumes rp: "repr {p} s A L" and cn: "counts_ok s L" and Ap: "A p = Some (Used, r)"
    and rR: "r < rank_num s" and nb: "no_buddies (rank_num s) A"
  shows "if A (buddy_page p r) = Some (Free, r)
    then (\<exists>s' L'. merge_step r (block_index (rank_num s) p r) s = Some s'
           \<and> repr {parent_page p r} s' (absorb A p r) L' \<and> counts_ok s' L'
           \<and> base_ptr s' = base_ptr s \<and> rank_num s' = rank_num s)
    else merge_step r (block_index (rank_num s) p r) s = None"
proof -
  let ?R = "rank_num s" and ?b = "buddy_page p r" and ?l = "parent_page p r"
  note wfp = wf_tilingD [OF reprD(3) [OF rp] Ap]
  note R = reprD(1,2) [OF rp]
  note bud = wf_block_buddy [OF wfp(1) rR]
  have pgs: "block_to_page s (block_index ?R p r) r = p"
    "block_to_page s (BUDDY (block_index ?R p r)) r = ?b"
    using wfp(1) bud(1) R BUDDY_PARENT_index(1) [OF wfp(1) rR R(2)]
    by (simp_all add: block_to_page_index)
  have bR: "?b < bsize ?R" using bud(1) by (simp add: wf_block_def)
  have en: "entry_ok ?R (meta s ?b) ?b (A ?b)" using reprD(6) [OF rp bR] bud(3) by auto
  show ?thesis
  proof (cases "A ?b = Some (Free, r)")
    case False
    with en have "pg_rank (meta s ?b) \<noteq> r \<or> pg_status (meta s ?b) \<noteq> UNUSED"
      by (auto simp: entry_ok_def split: option.splits use.splits)
    with False show ?thesis by (simp add: merge_step_def Let_def pgs)
  next
    case True
    with en have t: "pg_rank (meta s ?b) = r" "pg_status (meta s ?b) = UNUSED"
      by (auto simp: entry_ok_def)
    have l: "?l = p \<or> ?l = ?b" using buddy_cases [OF wfp(2,4)] by metis
    let ?U = "\<lambda>m. m\<lparr>pg_status := UNDEF\<rparr>"
    let ?s2 = "upd_meta p ?U (upd_meta ?b ?U s)"
    let ?L = "L(r := remove1 ?b (L r))"
    define s' where "s' = set_count r (sub32 (bcount s r) 1) (list_remove r ?b ?s2)"
    have step: "merge_step r (block_index ?R p r) s = Some s'"
      using t by (simp add: merge_step_def Let_def pgs s'_def)
    have r1: "repr {p, ?b} (list_remove r ?b s) (A(?b \<mapsto> (Used, r))) ?L"
      using detach_remove(1) [OF rp True] by (simp add: insert_commute)
    let ?s3 = "upd_meta p ?U (upd_meta ?b ?U (list_remove r ?b s))"
    have "repr {p, ?b} ?s3 (A(?b \<mapsto> (Used, r))) ?L"
      using r1 wfp(6) bR Ap by (intro repr_upd_detached) auto
    then have r3: "repr {p, ?b} ?s3 (absorb A p r) ?L"
    proof (rule repr_retile)
      show "wf_tiling (rank_num ?s3) (absorb A p r)"
        using absorb_wf(1) [OF reprD(3) [OF rp] Ap True rR] by simp
      show "\<And>q. q \<notin> {p, ?b} \<Longrightarrow> absorb A p r q = (A(?b \<mapsto> (Used, r))) q"
        using l by (auto simp: absorb_def)
      show "\<And>q t. q \<in> {p, ?b} \<Longrightarrow> (A(?b \<mapsto> (Used, r))) q \<noteq> Some (Free, t)
          \<and> absorb A p r q \<noteq> Some (Free, t)"
        using Ap by (auto simp: absorb_def)
    qed simp
    define x where "x = (if ?l = p then ?b else p)"
    have x: "x \<in> {p, ?b}" "x \<noteq> ?l" "{p, ?b} - {x} = {?l}"
      using l bud(3) by (auto simp: x_def)
    have "absorb A p r x = None" using x by (auto simp: absorb_def)
    moreover have "pg_status (meta ?s3 x) = UNDEF" using x by auto
    ultimately have "repr ({p, ?b} - {x}) ?s3 (absorb A p r) ?L"
      by (intro settle [OF r3]) (simp add: entry_ok_def)
    then have r4: "repr {?l} s' (absorb A p r) ?L"
      unfolding s'_def by (simp add: x(3) list_remove_status)
    have len: "length (L r) \<le> 2 ^ 19" "?b \<in> set (L r)" "bcount s r = length (L r)"
      using lists_length [OF rp wfp(2,3)] detach_remove(2) [OF rp True] cn wfp(2,3)
      by (auto simp: counts_ok_def)
    then have "0 < length (L r)" by (cases "L r") auto
    with len(1) have "sub32 (length (L r)) 1 = length (L r) - 1" by (intro sub32_small) (auto simp: Suc_le_eq)
    with len cn have "counts_ok s' ?L"
      by (auto simp: counts_ok_def s'_def length_remove1)
    with r4 step True show ?thesis by (auto simp: s'_def)
  qed
qed

lemma merge_loop_repr:
  assumes "repr {p} s A L" "counts_ok s L" "A p = Some (Used, r)" "no_buddies (rank_num s) A"
  shows "\<exists>r' p' s' A' L'. merge_loop r (block_index (rank_num s) p r) s
        = Some (r', block_index (rank_num s) p' r', s')
    \<and> repr {p'} s' A' L' \<and> counts_ok s' L' \<and> A' p' = Some (Used, r')
    \<and> no_buddies (rank_num s) A' \<and> (r' < rank_num s \<longrightarrow> A' (buddy_page p' r') \<noteq> Some (Free, r'))
    \<and> (used_blocks A')(p' := None) = (used_blocks A)(p := None)
    \<and> base_ptr s' = base_ptr s \<and> rank_num s' = rank_num s"
  using assms
proof (induction "rank_num s - r" arbitrary: r p s A L)
  case 0
  then have "r = rank_num s" using wf_tilingD(3) [OF reprD(3) [OF 0(2)] 0(4)] by simp
  with 0 show ?case by (subst merge_loop.simps) auto
next
  case (Suc n)
  let ?R = "rank_num s"
  note rp = Suc.prems(1) and Ap = Suc.prems(3)
  note wfp = wf_tilingD [OF reprD(3) [OF rp] Ap]
  have rR: "r < ?R" using Suc.hyps(2) by simp
  note ms = merge_step_repr [OF rp Suc.prems(2) Ap rR Suc.prems(4)]
  show ?case
  proof (cases "A (buddy_page p r) = Some (Free, r)")
    case False
    with ms rR have "merge_loop r (block_index ?R p r) s = Some (r, block_index ?R p r, s)"
      by (subst merge_loop.simps) simp
    with Suc.prems False show ?thesis by blast
  next
    case True
    let ?l = "parent_page p r"
    obtain s1 L1 where s1: "merge_step r (block_index ?R p r) s = Some s1"
      "repr {?l} s1 (absorb A p r) L1" "counts_ok s1 L1" "base_ptr s1 = base_ptr s"
      "rank_num s1 = ?R"
      using ms True by auto
    have n: "n = rank_num s1 - Suc r" using Suc.hyps(2) s1(5) by simp
    have nb1: "no_buddies (rank_num s1) (absorb A p r)"
      using absorb_no_buddies [OF Suc.prems(4)] s1(5) by simp
    note Al = absorb_wf(2) [OF reprD(3) [OF rp] Ap True rR]
    note used = absorb_used [OF reprD(3) [OF rp] Ap True]
    have "merge_loop r (block_index ?R p r) s = merge_loop (Suc r) (block_index ?R ?l (Suc r)) s1"
      using rR s1(1) reprD(2) [OF rp] BUDDY_PARENT_index(2) [OF wfp(1) rR reprD(2) [OF rp]]
      by (subst merge_loop.simps) (simp add: u8_small)
    with Suc.hyps(1) [OF n s1(2,3) Al nb1] used s1(4,5) show ?thesis by simp
  qed
qed

lemma release_block_repr:
  assumes rp: "repr {p} s A L" and cn: "counts_ok s L" and Ap: "A p = Some (Used, r)"
    and nb: "no_buddies (rank_num s) A"
    and bd: "r < rank_num s \<Longrightarrow> A (buddy_page p r) \<noteq> Some (Free, r)"
  shows "good (release_block r (block_index (rank_num s) p r) s) (A(p \<mapsto> (Free, r))) (L(r := p # L r))"
    "base_ptr (release_block r (block_index (rank_num s) p r) s) = base_ptr s"
    "rank_num (release_block r (block_index (rank_num s) p r) s) = rank_num s"
proof -
  let ?R = "rank_num s"
  note wfp = wf_tilingD [OF reprD(3) [OF rp] Ap]
  have pg: "block_to_page s (block_index ?R p r) r = p"
    using wfp(1) reprD(2) [OF rp] by (simp add: block_to_page_index)
  define s1 where "s1 = upd_meta p (\<lambda>m. m\<lparr>pg_index := block_index ?R p r\<rparr>)
      (upd_meta p (\<lambda>m. m\<lparr>pg_rank := r\<rparr>) (upd_meta p (\<lambda>m. m\<lparr>pg_status := UNUSED\<rparr>) s))"
  have "repr {p} s1 A L"
    unfolding s1_def using rp wfp(6) Ap by (intro repr_upd_detached) auto
  then have "repr ({p} - {p}) (list_push r p s1) (A(p \<mapsto> (Free, r))) (L(r := p # L r))"
    using Ap by (intro attach) (auto simp: s1_def)
  moreover have rel: "release_block r (block_index ?R p r) s
      = set_count r (add32 (bcount s r) 1) (list_push r p s1)"
    by (simp add: release_block_def Let_def pg s1_def)
  moreover have "counts_ok (set_count r (add32 (bcount s r) 1) (list_push r p s1)) (L(r := p # L r))"
    using cn lists_length [OF rp wfp(2,3)] wfp(2,3)
    by (auto simp: counts_ok_def s1_def add32_small)
  moreover have "no_buddies ?R (A(p \<mapsto> (Free, r)))"
    using no_buddies_free [OF nb reprD(3) [OF rp] Ap] bd by simp
  ultimately show "good (release_block r (block_index ?R p r) s) (A(p \<mapsto> (Free, r))) (L(r := p # L r))"
    "base_ptr (release_block r (block_index ?R p r) s) = base_ptr s"
    "rank_num (release_block r (block_index ?R p r) s) = ?R"
    by (simp_all add: good_def s1_def)
qed

lemma release_repr:
  assumes g: "good s A L" and Ap: "A p = Some (Used, r)"
  obtains s' A' L' r' i where "merge_loop (pg_rank (meta s p)) (pg_index (meta s p)) s = Some (r', i, s')"
    "good (release_block r' i s') A' L'" "used_blocks A' = (used_blocks A)(p := None)"
    "base_ptr (release_block r' i s') = base_ptr s" "rank_num (release_block r' i s') = rank_num s"
proof -
  have rp: "repr {} s A L" and cn: "counts_ok s L" and nb: "no_buddies (rank_num s) A"
    using g by (auto simp: good_def)
  note wfp = wf_tilingD [OF reprD(3) [OF rp] Ap]
  have "entry_ok (rank_num s) (meta s p) p (A p)" using reprD(6) [OF rp wfp(6)] by simp
  then have m: "pg_rank (meta s p) = r" "pg_index (meta s p) = block_index (rank_num s) p r"
    using Ap by (simp_all add: entry_ok_def)
  have rp1: "repr {p} s A L" using rp by (auto simp: repr_def)
  obtain r' p' s' A' L' where x: "merge_loop r (block_index (rank_num s) p r) s
        = Some (r', block_index (rank_num s) p' r', s')"
    "repr {p'} s' A' L'" "counts_ok s' L'" "A' p' = Some (Used, r')" "no_buddies (rank_num s) A'"
    "r' < rank_num s \<longrightarrow> A' (buddy_page p' r') \<noteq> Some (Free, r')"
    "(used_blocks A')(p' := None) = (used_blocks A)(p := None)"
    "base_ptr s' = base_ptr s" "rank_num s' = rank_num s"
    using merge_loop_repr [OF rp1 cn Ap nb] by blast
  show thesis
    using that [OF _ release_block_repr(1) [OF x(2-4)]] release_block_repr(2,3) [OF x(2-4)] x m
    by (simp add: used_blocks_upd)
qed

end
