(* ===== verification/Buddy_Spec.thy ===== *)
theory Buddy_Spec
  imports Buddy_Refine
begin

section \<open>What the buddy allocator promises\<close>

text \<open>
  The observable state: \<open>used s\<close> maps the first page of every allocated block to its rank,
  \<open>free_at s p r\<close> says that a free block of rank \<open>r\<close> starts at page \<open>p\<close>. \<open>buddy_inv\<close> is the
  invariant every operation keeps: the state represents a well-formed tiling without free
  buddies, the counters agree with the free lists, and the managed range lies below the error
  values in the address space.
\<close>

definition used :: "buddy \<Rightarrow> nat \<rightharpoonup> nat" where
  "used s p = (if p < page_num s \<and> pg_status (meta s p) = USED then Some (pg_rank (meta s p)) else None)"

definition free_at :: "buddy \<Rightarrow> nat \<Rightarrow> nat \<Rightarrow> bool" where
  "free_at s p r \<longleftrightarrow> p < page_num s \<and> pg_status (meta s p) = UNUSED \<and> pg_rank (meta s p) = r"

definition page_ptr :: "buddy \<Rightarrow> nat \<Rightarrow> ptr" where
  "page_ptr s p = base_ptr s + of_nat (p * PAGE_SIZE)"

definition range_ok :: "buddy \<Rightarrow> bool" where
  "range_ok s \<longleftrightarrow> unat (base_ptr s) + page_num s * PAGE_SIZE < 2 ^ 64 - 4095"

definition buddy_inv :: "buddy \<Rightarrow> bool" where
  "buddy_inv s \<longleftrightarrow> range_ok s \<and> (\<exists>A L. good s A L)"

subsection \<open>Observations of a represented tiling\<close>

lemma page_num_bsize: "1 \<le> rank_num s \<Longrightarrow> rank_num s \<le> 20 \<Longrightarrow> page_num s = bsize (rank_num s)"
  using pow_R_le [of 1 "rank_num s"] by (simp add: page_num_def shl32_small bsize_def)

lemma goodD:
  assumes "good s A L"
  shows "repr {} s A L" "counts_ok s L" "no_buddies (rank_num s) A" "wf_tiling (rank_num s) A"
    "1 \<le> rank_num s" "rank_num s \<le> 20" "page_num s = bsize (rank_num s)"
proof -
  show r: "repr {} s A L" and "counts_ok s L" "no_buddies (rank_num s) A"
    using assms by (auto simp: good_def)
  show "wf_tiling (rank_num s) A" "1 \<le> rank_num s" "rank_num s \<le> 20"
    using reprD [OF r] by auto
  then show "page_num s = bsize (rank_num s)" by (intro page_num_bsize)
qed

lemma good_page_num_le: "good s A L \<Longrightarrow> page_num s \<le> 2 ^ 19"
  using goodD(6,7) bsize_R_less by metis

lemma good_entry:
  assumes g: "good s A L" and p: "p < page_num s"
  shows "entry_ok (rank_num s) (meta s p) p (A p)"
  using reprD(6) [OF goodD(1) [OF g]] p goodD(7) [OF g] by simp

lemma good_used:
  assumes g: "good s A L"
  shows "used s = used_blocks A"
proof
  fix p
  show "used s p = used_blocks A p"
  proof (cases "p < page_num s")
    case True
    with good_entry [OF g] show ?thesis
      by (fastforce simp: used_def used_blocks_def entry_ok_def split: option.splits use.splits)
  next
    case False
    then have "A p = None"
      using wf_tilingD(6) [OF goodD(4) [OF g], of p] goodD(7) [OF g] by (cases "A p") auto
    with False show ?thesis by (simp add: used_def used_blocks_def)
  qed
qed

lemma good_free:
  assumes g: "good s A L"
  shows "free_at s p r \<longleftrightarrow> A p = Some (Free, r)"
proof (cases "p < page_num s")
  case True
  with good_entry [OF g] show ?thesis
    by (fastforce simp: free_at_def entry_ok_def split: option.splits use.splits)
next
  case False
  then show ?thesis
    using wf_tilingD(6) [OF goodD(4) [OF g], of p] goodD(7) [OF g] by (auto simp: free_at_def)
qed

lemma buddy_invI: "good s A L \<Longrightarrow> range_ok s \<Longrightarrow> buddy_inv s"
  by (auto simp: buddy_inv_def)

lemma range_ok_cong:
  "range_ok s \<Longrightarrow> base_ptr s' = base_ptr s \<Longrightarrow> rank_num s' = rank_num s \<Longrightarrow> range_ok s'"
  by (simp add: range_ok_def page_num_def)

subsection \<open>Pointers\<close>

lemma unat_of_nat_ptr: "n < 2 ^ 64 \<Longrightarrow> unat (of_nat n :: ptr) = n"
  by (simp only: unat_of_nat take_bit_nat_eq_self len_bit0 len_num1) simp

lemma unat_page_ptr:
  assumes "range_ok s" "p \<le> page_num s"
  shows "unat (page_ptr s p) = unat (base_ptr s) + p * PAGE_SIZE"
    "unat (of_nat (p * PAGE_SIZE) :: ptr) = p * PAGE_SIZE"
proof -
  have le: "p * PAGE_SIZE \<le> page_num s * PAGE_SIZE" using assms(2) by simp
  then have lt: "p * PAGE_SIZE < 2 ^ 64" "unat (base_ptr s) + p * PAGE_SIZE < 2 ^ 64"
    using assms(1) unfolding range_ok_def by linarith+
  then show u: "unat (of_nat (p * PAGE_SIZE) :: ptr) = p * PAGE_SIZE"
    by (intro unat_of_nat_ptr)
  with lt show "unat (page_ptr s p) = unat (base_ptr s) + p * PAGE_SIZE"
    unfolding page_ptr_def by (subst unat_add_lem [THEN iffD1]) simp_all
qed

lemma page_ptr_not_err:
  assumes "range_ok s" "p < page_num s"
  shows "\<not> IS_ERR (page_ptr s p)"
proof -
  have "p * PAGE_SIZE \<le> page_num s * PAGE_SIZE" using assms(2) by simp
  then have "unat (page_ptr s p) < 2 ^ 64 - 4095"
    using unat_page_ptr(1) [of s p] assms unfolding range_ok_def by linarith
  then show ?thesis by (simp add: IS_ERR_def word_le_nat_alt)
qed

text \<open>The pointer test, for a pointer whose distance from the base fits a \<open>ptrdiff_t\<close>.\<close>

lemma sint_small:
  fixes d :: ptr
  assumes "unat d < 2 ^ 63"
  shows "sint d = int (unat d)"
proof -
  have "uint d < 2 ^ 63" using assms by (metis of_nat_less_iff of_nat_numeral of_nat_power uint_nat)
  moreover have "- (2 ^ 63) \<le> uint d" by (rule order_trans [OF _ uint_ge_0]) simp
  ultimately have "signed_take_bit 63 (uint d) = uint d" by (rule signed_take_bit_int_eq_self [rotated])
  then show ?thesis by (simp add: sint_uint)
qed

lemma sdiv_nonneg: "0 \<le> a \<Longrightarrow> 0 < b \<Longrightarrow> a sdiv b = a div b" for a b :: int
  by (cases "a = 0") (simp_all add: signed_divide_int_def)

lemma signed_page_test:
  "int n smod int PAGE_SIZE = 0 \<and> int n sdiv int PAGE_SIZE \<le> int m \<longleftrightarrow>
   n mod PAGE_SIZE = 0 \<and> n div PAGE_SIZE \<le> m"
proof -
  have "int n smod int PAGE_SIZE = int n mod int PAGE_SIZE"
    by (simp add: smod_mod_positive)
  moreover have "int n sdiv int PAGE_SIZE = int n div int PAGE_SIZE"
    by (rule sdiv_nonneg) (simp_all add: PAGE_SIZE_def)
  ultimately show ?thesis by (simp flip: of_nat_mod of_nat_div)
qed

lemma is_valid_ptr_iff:
  assumes "base_ptr s \<le> q" "unat (q - base_ptr s) < 2 ^ 63"
  shows "is_valid_ptr s q \<longleftrightarrow>
    (\<exists>i \<le> page_num s. q = page_ptr s i \<and> unat (q - base_ptr s) = i * PAGE_SIZE)"
proof -
  let ?d = "unat (q - base_ptr s)"
  have "is_valid_ptr s q \<longleftrightarrow>
      int ?d smod int PAGE_SIZE = 0 \<and> int ?d sdiv int PAGE_SIZE \<le> int (page_num s)"
    using assms by (simp only: is_valid_ptr_def sint_small not_less [symmetric]) simp
  also have "\<dots> \<longleftrightarrow> ?d mod PAGE_SIZE = 0 \<and> ?d div PAGE_SIZE \<le> page_num s"
    by (rule signed_page_test)
  also have "\<dots> \<longleftrightarrow> (\<exists>i \<le> page_num s. ?d = i * PAGE_SIZE)"
    by (auto simp: PAGE_SIZE_def elim!: dvdE)
  also have "\<dots> \<longleftrightarrow> (\<exists>i \<le> page_num s. q = page_ptr s i \<and> ?d = i * PAGE_SIZE)"
  proof -
    have "q = page_ptr s i" if "?d = i * PAGE_SIZE" for i
    proof -
      have "q - base_ptr s = of_nat (i * PAGE_SIZE)" by (simp flip: that)
      then show ?thesis by (simp add: page_ptr_def algebra_simps)
    qed
    then show ?thesis by auto
  qed
  finally show ?thesis .
qed


subsection \<open>Initialisation\<close>

lemma init_buckets:
  "for_range lo hi (\<lambda>i. set_bucket i None) s =
     s\<lparr>bucket := \<lambda>r. if lo \<le> r \<and> r < hi then None else bucket s r\<rparr>"
  by (induction hi) (auto intro!: buddy.equality simp: for_range_def set_bucket_def fun_eq_iff)

lemma init_counts:
  "for_range lo hi (\<lambda>i. set_count i 0) s =
     s\<lparr>bcount := \<lambda>r. if lo \<le> r \<and> r < hi then 0 else bcount s r\<rparr>"
  by (induction hi) (auto intro!: buddy.equality simp: for_range_def set_count_def fun_eq_iff)

lemma init_metas:
  "for_range lo hi (\<lambda>i. upd_meta i (\<lambda>_. x)) s =
     s\<lparr>meta := \<lambda>i. if lo \<le> i \<and> i < hi then x else meta s i\<rparr>"
  by (induction hi) (auto intro!: buddy.equality simp: for_range_def upd_meta_def fun_eq_iff)

lemma init_rank_num:
  "rank_num (for_range lo hi (\<lambda>i. set_bucket i None) s) = rank_num s"
  "rank_num (for_range lo hi (\<lambda>i. set_count i 0) s) = rank_num s"
  "rank_num (for_range lo hi (\<lambda>i. upd_meta i (\<lambda>_. x)) s) = rank_num s"
  by (simp_all add: init_buckets init_counts init_metas)

lemma init_good:
  assumes n: "1 \<le> n" "n < 2 ^ 20" and past: "pg_status (meta s n) = UNDEF"
  obtains s' L R where "init_page p (int n) s = (OK, s')" "good s' [0 \<mapsto> (Free, R)] L"
    "base_ptr s' = p" "rank_num s' = R" "page_num s' \<le> n" "n < 2 * page_num s'"
proof -
  define R where "R = Suc (log2u n)"
  have nm: "nat (int n mod 2 ^ 32) = n" using n(2) by simp
  have lb: "2 ^ log2u n \<le> n" "n < 2 ^ Suc (log2u n)" using log2u_bounds [of n] n by simp_all
  then have "(2::nat) ^ log2u n < 2 ^ 20" using n(2) by linarith
  then have R: "1 \<le> R" "R \<le> 20" using power_less_imp_less_exp [of "2::nat" "log2u n" 20] by (auto simp: R_def)
  have bs: "bsize R \<le> n" "n < 2 * bsize R" using lb by (simp_all add: R_def bsize_def)
  define s0 where "s0 = s\<lparr>base_ptr := p, rank_num := R,
    bucket := \<lambda>r. if 1 \<le> r \<and> r < R + 1 then None else bucket s r,
    bcount := \<lambda>r. if 1 \<le> r \<and> r < R + 1 then 0 else bcount s r,
    meta := \<lambda>i. if i < n then LIST_INITIALIZER else meta s i\<rparr>"
  define s1 where "s1 = s0\<lparr>meta := (meta s0)(0 := LIST_INITIALIZER\<lparr>pg_status := UNUSED, pg_rank := R\<rparr>)\<rparr>"
  define s' where "s' = set_count R (add32 (bcount (list_push R 0 s1) R) 1) (list_push R 0 s1)"
  let ?s = "s\<lparr>base_ptr := p, rank_num := R\<rparr>"
  let ?t = "upd_meta 0 (\<lambda>m. m\<lparr>pg_index := 0\<rparr>) (upd_meta 0 (\<lambda>m. m\<lparr>pg_rank := u8 R\<rparr>)
      (upd_meta 0 (\<lambda>m. m\<lparr>pg_status := UNUSED\<rparr>) (for_range 0 n (\<lambda>i. upd_meta i (\<lambda>_. LIST_INITIALIZER))
        (for_range 1 (R + 1) (\<lambda>i. set_count i 0) (for_range 1 (R + 1) (\<lambda>i. set_bucket i None) ?s)))))"
  have t: "?t = s1"
    unfolding init_buckets init_counts init_metas using R n
    by (intro buddy.equality)
      (simp_all add: s1_def s0_def fun_eq_iff LIST_INITIALIZER_def u8_small)
  have "rank_num s1 = R" by (simp add: s1_def s0_def)
  then have "init_page p (int n) s = (OK, s')"
    unfolding init_page_def nm Let_def
    by (simp add: R_def [symmetric] init_rank_num t [simplified] s'_def)
  moreover have rp: "repr {0} s1 [0 \<mapsto> (Used, R)] (\<lambda>_. [])"
    unfolding repr_def lists_ok_def
    using R wf_tiling_single [OF R(1), of Used] bs n past
    by (auto simp: s1_def s0_def LIST_INITIALIZER_def entry_ok_def dlist_def le_eq_less_or_eq)
  have "repr ({0} - {0}) (list_push R 0 s1) ([0 \<mapsto> (Used, R)](0 \<mapsto> (Free, R))) ((\<lambda>_. [])(R := [0]))"
    using attach [OF rp, of 0 R] by (simp add: s1_def s0_def LIST_INITIALIZER_def block_index_root)
  then have "good s' [0 \<mapsto> (Free, R)] ((\<lambda>_. [])(R := [0]))"
    using no_buddies_single by (simp add: good_def s'_def counts_ok_def s1_def s0_def add32_small R)
  moreover have "base_ptr s' = p" and rn: "rank_num s' = R" by (simp_all add: s'_def s1_def s0_def)
  moreover have "page_num s' = bsize R" using page_num_bsize [of s'] R rn by simp
  ultimately show thesis using that bs by metis
qed


subsection \<open>Allocation, in observable terms\<close>

text \<open>Two blocks share a page; a block of a rank fits at a page when it is aligned, inside
  the range and shares no page with an allocated block.\<close>

definition overlaps :: "nat \<Rightarrow> nat \<Rightarrow> nat \<Rightarrow> nat \<Rightarrow> bool" where
  "overlaps p r q t \<longleftrightarrow> p < q + bsize t \<and> q < p + bsize r"

definition fits :: "buddy \<Rightarrow> nat \<Rightarrow> nat \<Rightarrow> bool" where
  "fits s p r \<longleftrightarrow> bsize r dvd p \<and> p + bsize r \<le> page_num s \<and>
     (\<forall>q t. used s q = Some t \<longrightarrow> \<not> overlaps p r q t)"

lemma overlaps_covers: "overlaps p r q t \<longleftrightarrow> (\<exists>x. covers p r x \<and> covers q t x)"
proof
  assume "overlaps p r q t"
  then have "covers p r (max p q) \<and> covers q t (max p q)" by (auto simp: overlaps_def covers_def)
  then show "\<exists>x. covers p r x \<and> covers q t x" ..
qed (auto simp: overlaps_def covers_def)

lemma good_fits:
  assumes g: "good s A L" and r: "1 \<le> r" "r \<le> rank_num s"
  shows "fits s p r \<longleftrightarrow> wf_block (rank_num s) p r \<and> \<not> meets_used A p r"
proof -
  have "p + bsize r \<le> page_num s \<longleftrightarrow> p < bsize (rank_num s)" if "bsize r dvd p"
    using goodD(7) [OF g] wf_block_end [of "rank_num s" p r] r that bsize_pos [of r]
    by (auto simp: wf_block_def intro: less_le_trans simp del: bsize_pos)
  then show ?thesis
    using r by (auto simp: fits_def meets_used_def good_used [OF g] overlaps_covers wf_block_def)
qed

lemma used_block:
  assumes g: "good s A L" and u: "used s p = Some r"
  shows "A p = Some (Used, r)" "1 \<le> r" "r \<le> rank_num s" "bsize r dvd p" "p + bsize r \<le> page_num s"
    "p < page_num s"
proof -
  show Ap: "A p = Some (Used, r)" using u by (simp add: good_used [OF g])
  then show "1 \<le> r" "r \<le> rank_num s" "bsize r dvd p" "p + bsize r \<le> page_num s" "p < page_num s"
    using wf_tilingD [OF goodD(4) [OF g] Ap] goodD(7) [OF g] by simp_all
qed

lemma used_disjoint:
  assumes g: "good s A L" and u: "used s p = Some r" "used s q = Some t" "p \<noteq> q"
  shows "\<not> overlaps p r q t"
  using wf_tiling_disjoint [OF goodD(4) [OF g], of p Used r q Used t]
    wf_tiling_disjoint [OF goodD(4) [OF g], of q Used t p Used r] u
  by (cases "p < q") (auto simp: good_used [OF g] overlaps_def)

text \<open>The page starts a smallest free block among those that are large enough.\<close>

definition best_fit :: "buddy \<Rightarrow> nat \<Rightarrow> nat \<Rightarrow> bool" where
  "best_fit s p r \<longleftrightarrow> (\<exists>t. free_at s p t \<and> r \<le> t \<and> (\<forall>p' t'. free_at s p' t' \<and> r \<le> t' \<longrightarrow> t \<le> t'))"

lemma alloc_cases:
  assumes inv: "buddy_inv s" and r: "1 \<le> r" "r \<le> rank_num s"
  obtains (full) "alloc_pages (int r) s = Some (err_ptr (- ENOSPC), s)" "\<And>p. \<not> fits s p r"
  | (fit) p s' where "alloc_pages (int r) s = Some (page_ptr s p, s')" "fits s p r" "p < page_num s"
      "buddy_inv s'" "used s' = (used s)(p \<mapsto> r)" "base_ptr s' = base_ptr s" "rank_num s' = rank_num s"
      "best_fit s p r"
proof -
  obtain A L where g: "good s A L" and ok: "range_ok s" using inv by (auto simp: buddy_inv_def)
  note wf = goodD(4) [OF g]
  from g r show thesis
  proof (cases rule: alloc_pages_repr)
    case full
    have "\<not> fits s p r" for p
    proof
      assume "fits s p r"
      then obtain p' r' where "A p' = Some (Free, r')" "r \<le> r'"
        using free_maximal [OF wf goodD(3) [OF g]] good_fits [OF g r] by blast
      with full(2) show False by fastforce
    qed
    with full(1) show thesis by (rule that(1))
  next
    case (fit p s' A' L')
    have u': "used s' = (used s)(p \<mapsto> r)"
      using fit(3) by (simp add: good_used [OF g] good_used [OF fit(2)])
    have pn: "page_num s' = page_num s" using fit(7) by (simp add: page_num_def)
    have u: "used s' p = Some r" by (simp add: u')
    note blk = used_block [OF fit(2) u]
    have "\<not> overlaps p r q t" if "used s q = Some t" for q t
    proof -
      have "q \<noteq> p" using fit(5) that by (auto simp: good_used [OF g] domIff)
      then show ?thesis using used_disjoint [OF fit(2) u, of q t] that by (simp add: u')
    qed
    then have "fits s p r" using blk(4,5) pn by (simp add: fits_def)
    moreover have "buddy_inv s'" using fit(2) range_ok_cong [OF ok fit(6,7)] by (rule buddy_invI)
    moreover have "alloc_pages (int r) s = Some (page_ptr s p, s')"
      using fit(1) by (simp add: page_ptr_def)
    moreover have "best_fit s p r"
      using fit(8) by (simp add: best_fit_def good_free [OF g])
    ultimately show thesis using that(2) [of p s'] u' fit(6,7) blk(6) pn by simp
  qed
qed


subsection \<open>Return and queries, in observable terms\<close>

text \<open>A pointer of the lower half of the address space, or one below the range.\<close>

definition near_ptr :: "buddy \<Rightarrow> ptr \<Rightarrow> bool" where
  "near_ptr s q \<longleftrightarrow> base_ptr s \<le> q \<longrightarrow> unat (q - base_ptr s) < 2 ^ 63"

lemma page_ptr_ge: "range_ok s \<Longrightarrow> i \<le> page_num s \<Longrightarrow> base_ptr s \<le> page_ptr s i"
  using unat_page_ptr(1) [of s i] by (simp add: word_le_nat_alt)

lemma page_ptr_diff:
  assumes "range_ok s" "i \<le> page_num s"
  shows "unat (page_ptr s i - base_ptr s) = i * PAGE_SIZE"
  using unat_page_ptr(2) [OF assms] by (simp add: page_ptr_def)

lemma page_ptr_inj:
  assumes "range_ok s" "i \<le> page_num s" "j \<le> page_num s" "page_ptr s i = page_ptr s j"
  shows "i = j"
proof -
  have "i * PAGE_SIZE = j * PAGE_SIZE"
    unfolding page_ptr_diff [OF assms(1,2), symmetric] page_ptr_diff [OF assms(1,3), symmetric]
    by (simp only: assms(4))
  then show ?thesis by (simp add: PAGE_SIZE_def)
qed

lemma page_dist: "page_num s \<le> 2 ^ 19 \<Longrightarrow> i \<le> page_num s \<Longrightarrow> i * PAGE_SIZE < 2 ^ 32"
  by (simp add: PAGE_SIZE_def)

lemma small_page_ptr:
  assumes "page_num s \<le> 2 ^ 19" and ok: "range_ok s" and i: "i \<le> page_num s"
  shows "is_valid_ptr s (page_ptr s i)" "ptr_to_page s (page_ptr s i) = i" "near_ptr s (page_ptr s i)"
proof -
  note d = page_ptr_diff [OF ok i] page_dist [OF assms(1) i]
  have "unat (page_ptr s i - base_ptr s) < 2 ^ 63" unfolding d(1) by (rule less_trans [OF d(2)]) simp
  then show "is_valid_ptr s (page_ptr s i)" "near_ptr s (page_ptr s i)"
    using is_valid_ptr_iff [OF page_ptr_ge [OF ok i]] i d(1) by (auto simp: near_ptr_def)
  show "ptr_to_page s (page_ptr s i) = i"
    unfolding ptr_to_page_def d(1) u32_small [OF d(2)] by (simp add: PAGE_SIZE_def)
qed

lemmas valid_page_ptr = small_page_ptr [OF good_page_num_le]

lemma is_valid_near:
  assumes q: "near_ptr s q"
  shows "is_valid_ptr s q \<Longrightarrow> \<exists>i \<le> page_num s. q = page_ptr s i"
  using is_valid_ptr_iff [of s q] q by (auto simp: near_ptr_def is_valid_ptr_def split: if_splits)

lemma past_end: "good s A L \<Longrightarrow> pg_status (meta s (page_num s)) = UNDEF"
  using reprD(4) [OF goodD(1)] goodD(7) by metis

lemma page_lt: "good s A L \<Longrightarrow> i \<le> page_num s \<Longrightarrow> pg_status (meta s i) \<noteq> UNDEF \<Longrightarrow> i < page_num s"
  using past_end by (metis le_neq_implies_less)

lemma return_hit:
  assumes inv: "buddy_inv s" and u: "used s p = Some r"
  obtains s' where "return_pages (page_ptr s p) s = Some (OK, s')" "buddy_inv s'"
    "used s' = (used s)(p := None)" "base_ptr s' = base_ptr s" "rank_num s' = rank_num s"
proof -
  obtain A L where g: "good s A L" and ok: "range_ok s" using inv by (auto simp: buddy_inv_def)
  note blk = used_block [OF g u]
  note v = valid_page_ptr [OF g ok less_imp_le [OF blk(6)]]
  have st: "pg_status (meta s p) = USED" using u by (simp add: used_def split: if_splits)
  obtain s' A' L' r' i where m: "merge_loop (pg_rank (meta s p)) (pg_index (meta s p)) s = Some (r', i, s')"
    "good (release_block r' i s') A' L'" "used_blocks A' = (used_blocks A)(p := None)"
    "base_ptr (release_block r' i s') = base_ptr s" "rank_num (release_block r' i s') = rank_num s"
    using release_repr [OF g blk(1)] .
  have "return_pages (page_ptr s p) s = Some (OK, release_block r' i s')"
    using v(1,2) st m(1) by (simp add: return_pages_def Let_def)
  moreover have "used (release_block r' i s') = (used s)(p := None)"
    using m(3) by (simp add: good_used [OF g] good_used [OF m(2)])
  ultimately show thesis
    using that buddy_invI [OF m(2) range_ok_cong [OF ok m(4,5)]] m(4,5) by blast
qed

lemma return_miss:
  assumes inv: "buddy_inv s" and q: "near_ptr s q" and miss: "\<And>p. used s p \<noteq> None \<Longrightarrow> q \<noteq> page_ptr s p"
  shows "return_pages q s = Some (- EINVAL, s)"
proof (cases "is_valid_ptr s q")
  case True
  obtain A L where g: "good s A L" and ok: "range_ok s" using inv by (auto simp: buddy_inv_def)
  obtain i where i: "i \<le> page_num s" "q = page_ptr s i" using is_valid_near [OF q True] by blast
  have "pg_status (meta s i) \<noteq> USED"
  proof
    assume "pg_status (meta s i) = USED"
    then show False using miss [of i] i page_lt [OF g i(1)] by (simp add: used_def)
  qed
  with True i valid_page_ptr(2) [OF g ok i(1)] show ?thesis by (simp add: return_pages_def Let_def)
qed (simp add: return_pages_def)

lemma query_ranks_block:
  assumes inv: "buddy_inv s" and u: "used s p = Some r \<or> free_at s p r"
  shows "query_ranks (page_ptr s p) s = int r"
proof -
  obtain A L where g: "good s A L" and ok: "range_ok s" using inv by (auto simp: buddy_inv_def)
  have "p < page_num s" "pg_status (meta s p) \<noteq> UNDEF" "pg_rank (meta s p) = r"
    using u by (auto simp: used_def free_at_def split: if_splits)
  then show ?thesis
    using valid_page_ptr [OF g ok, of p] by (simp add: query_ranks_def Let_def)
qed

lemma query_ranks_miss:
  assumes inv: "buddy_inv s" and q: "near_ptr s q"
    and miss: "\<And>p r. used s p = Some r \<or> free_at s p r \<Longrightarrow> q \<noteq> page_ptr s p"
  shows "query_ranks q s = - EINVAL"
proof (cases "is_valid_ptr s q")
  case True
  obtain A L where g: "good s A L" and ok: "range_ok s" using inv by (auto simp: buddy_inv_def)
  obtain i where i: "i \<le> page_num s" "q = page_ptr s i" using is_valid_near [OF q True] by blast
  have "pg_status (meta s i) = UNDEF"
  proof (rule ccontr)
    assume a: "pg_status (meta s i) \<noteq> UNDEF"
    then have "i < page_num s" using page_lt [OF g i(1)] by blast
    then have "used s i = Some (pg_rank (meta s i)) \<or> free_at s i (pg_rank (meta s i))"
      using a by (cases "pg_status (meta s i)") (auto simp: used_def free_at_def)
    then show False using miss i(2) by blast
  qed
  with True i valid_page_ptr(2) [OF g ok i(1)] show ?thesis by (simp add: query_ranks_def Let_def)
qed (simp add: query_ranks_def)

subsection \<open>Counters and pages\<close>

lemma count_free:
  assumes g: "good s A L" and r: "1 \<le> r" "r \<le> rank_num s"
  shows "bcount s r = card {p. free_at s p r}" "bcount s r \<le> 2 ^ 19"
proof -
  have e: "{p. free_at s p r} = set (L r)"
    using repr_list(3) [OF goodD(1) [OF g] r] by (simp add: good_free [OF g])
  have d: "distinct (L r)" by (rule repr_list(2) [OF goodD(1) [OF g] r])
  have c: "bcount s r = length (L r)" using goodD(2) [OF g] r by (simp add: counts_ok_def)
  show "bcount s r = card {p. free_at s p r}" unfolding e c by (simp add: distinct_card d)
  have "set (L r) \<subseteq> {..<page_num s}" using e by (auto simp: free_at_def)
  then have "card (set (L r)) \<le> page_num s" by (metis card_lessThan card_mono finite_lessThan)
  then show "bcount s r \<le> 2 ^ 19" using c d good_page_num_le [OF g] by (simp add: distinct_card)
qed

lemma sint_of_nat_small:
  assumes "n < 2 ^ 31"
  shows "sint (of_nat n :: 32 word) = int n"
proof -
  have "signed_take_bit 31 (int n) = int n"
    using assms by (intro signed_take_bit_int_eq_self) simp_all
  then show ?thesis by (simp add: signed_of_nat)
qed


lemma pages_balance:
  assumes g: "good s A L"
  shows "(\<Sum>p\<in>dom (used s). bsize (the (used s p))) + (\<Sum>r = 1..rank_num s. bcount s r * bsize r)
    = page_num s"
proof -
  let ?R = "rank_num s"
  note wf = goodD(4) [OF g]
  note fin = dom_tiling_finite [OF wf]
  let ?F = "\<lambda>r. {p. A p = Some (Free, r)}"
  have finF: "finite (?F r)" for r by (rule finite_subset [OF _ fin]) auto
  have U: "dom (used s) = {p. \<exists>r. A p = Some (Used, r)}" by (auto simp: good_used [OF g] domIff dom_def)
  have Free: "(\<Union>r\<in>{1..?R}. ?F r) = {p. \<exists>r. A p = Some (Free, r)}"
    using wf_tilingD(2,3) [OF wf] by fastforce
  have split: "dom A = dom (used s) \<union> (\<Union>r\<in>{1..?R}. ?F r)"
    unfolding U Free by (auto simp: dom_def intro: use.exhaust)
  have disj: "dom (used s) \<inter> (\<Union>r\<in>{1..?R}. ?F r) = {}" unfolding U Free by auto
  have "(\<Sum>p\<in>dom A. bsize (block_rank A p))
      = (\<Sum>p\<in>dom (used s). bsize (block_rank A p)) + (\<Sum>p\<in>(\<Union>r\<in>{1..?R}. ?F r). bsize (block_rank A p))"
    unfolding split by (rule sum.union_disjoint) (use disj fin split finF in \<open>auto intro: finite_subset\<close>)
  also have "(\<Sum>p\<in>(\<Union>r\<in>{1..?R}. ?F r). bsize (block_rank A p))
      = (\<Sum>r = 1..?R. \<Sum>p\<in>?F r. bsize (block_rank A p))"
    by (rule sum.UNION_disjoint) (use finF in auto)
  also have "\<dots> = (\<Sum>r = 1..?R. bcount s r * bsize r)"
  proof (rule sum.cong)
    fix r assume "r \<in> {1..?R}"
    then have "bcount s r = card (?F r)" using count_free(1) [OF g, of r] by (simp add: good_free [OF g])
    then show "(\<Sum>p\<in>?F r. bsize (block_rank A p)) = bcount s r * bsize r"
      by (simp add: block_rank_def)
  qed simp
  also have "(\<Sum>p\<in>dom (used s). bsize (block_rank A p)) = (\<Sum>p\<in>dom (used s). bsize (the (used s p)))"
    by (rule sum.cong) (auto simp: good_used [OF g] used_blocks_def block_rank_def split: option.splits use.splits)
  finally show ?thesis using tiling_pages [OF wf] goodD(7) [OF g] by simp
qed

subsection \<open>The free blocks are determined by the allocated ones\<close>

lemma free_at_le:
  assumes "good s A L" "good s' A' L'" "rank_num s' = rank_num s" "used s' = used s" "free_at s p r"
  shows "free_at s' p r"
  using free_determined [OF goodD(4,3) [OF assms(1)], of A' p r] goodD(4,3) [OF assms(2)] assms
  by (simp add: good_used [OF assms(1)] good_used [OF assms(2)] good_free [OF assms(1)] good_free [OF assms(2)])

lemma free_at_unique:
  assumes "buddy_inv s" "buddy_inv s'" "rank_num s' = rank_num s" "used s' = used s"
  shows "free_at s' = free_at s"
  using assms free_at_le [of s _ _ s'] free_at_le [of s' _ _ s] unfolding buddy_inv_def fun_eq_iff by metis

lemma free_at_empty:
  assumes inv: "buddy_inv s" and u: "used s = Map.empty"
  shows "free_at s p r \<longleftrightarrow> p = 0 \<and> r = rank_num s"
proof -
  obtain A L where g: "good s A L" using inv by (auto simp: buddy_inv_def)
  let ?B = "[0 \<mapsto> (Free, rank_num s)]"
  have B: "wf_tiling (rank_num s) ?B" "no_buddies (rank_num s) ?B"
    using wf_tiling_single goodD(5) [OF g] no_buddies_single by blast+
  have ub: "used_blocks A = used_blocks ?B"
    using u good_used [OF g] by (auto simp: used_blocks_def fun_eq_iff)
  show ?thesis
    using free_determined [OF goodD(4,3) [OF g] B ub, of p r] free_determined [OF B goodD(4,3) [OF g] ub [symmetric], of 0 "rank_num s"]
    by (auto simp: good_free [OF g] split: if_splits)
qed

lemma free_not_buddies:
  assumes inv: "buddy_inv s" and "free_at s p r" "r < rank_num s"
  shows "\<not> free_at s (buddy_page p r) r"
proof -
  obtain A L where g: "good s A L" using inv by (auto simp: buddy_inv_def)
  show ?thesis using goodD(3) [OF g] assms(2,3) by (auto simp: no_buddies_def good_free [OF g])
qed

definition block_at :: "buddy \<Rightarrow> nat \<Rightarrow> nat \<Rightarrow> bool" where
  "block_at s p r \<longleftrightarrow> used s p = Some r \<or> free_at s p r"

lemma good_block: "good s A L \<Longrightarrow> block_at s p r \<longleftrightarrow> (\<exists>u. A p = Some (u, r))"
  by (auto simp: block_at_def good_used good_free intro: use.exhaust)

lemma pages_covered:
  assumes inv: "buddy_inv s" and x: "x < page_num s"
  shows "\<exists>!b. block_at s (fst b) (snd b) \<and> covers (fst b) (snd b) x"
proof -
  obtain A L where g: "good s A L" using inv by (auto simp: buddy_inv_def)
  note wf = goodD(4) [OF g]
  obtain p u r where c: "A p = Some (u, r)" "covers p r x"
    using wf_tiling_cover [OF wf, of x] x goodD(7) [OF g] by metis
  show ?thesis
  proof (rule ex1I [of _ "(p, r)"])
    show "block_at s (fst (p, r)) (snd (p, r)) \<and> covers (fst (p, r)) (snd (p, r)) x"
      using c by (auto simp: good_block [OF g])
    fix b assume "block_at s (fst b) (snd b) \<and> covers (fst b) (snd b) x"
    then show "b = (p, r)"
      using wf_tiling_unique [OF wf c(1) _ c(2)] by (cases b) (auto simp: good_block [OF g])
  qed
qed


subsection \<open>Sequences of requests\<close>

text \<open>A client: any sequence of calls of the two operations, results ignored.\<close>

datatype request = Alloc int | Return ptr

fun serve :: "request \<Rightarrow> buddy \<Rightarrow> buddy option" where
  "serve (Alloc rank) s = map_option snd (alloc_pages rank s)"
| "serve (Return q) s = map_option snd (return_pages q s)"

fun serve_all :: "request list \<Rightarrow> buddy \<Rightarrow> buddy option" where
  "serve_all [] s = Some s"
| "serve_all (x # xs) s = Option.bind (serve x s) (serve_all xs)"

lemma alloc_inv:
  assumes inv: "buddy_inv s"
  obtains q s' where "alloc_pages rank s = Some (q, s')" "buddy_inv s'"
    "base_ptr s' = base_ptr s" "rank_num s' = rank_num s"
proof (cases "rank < 1 \<or> int (rank_num s) < rank")
  case True
  with alloc_pages_invalid inv that show thesis by blast
next
  case False
  then obtain r where r: "rank = int r" "1 \<le> r" "r \<le> rank_num s"
    by (cases rank) auto
  from alloc_cases [OF inv r(2,3)] show thesis using that inv r(1) by metis
qed

lemma return_inv:
  assumes inv: "buddy_inv s" and q: "near_ptr s q"
  obtains e s' where "return_pages q s = Some (e, s')" "buddy_inv s'"
    "base_ptr s' = base_ptr s" "rank_num s' = rank_num s"
proof (cases "\<exists>p. used s p \<noteq> None \<and> q = page_ptr s p")
  case True
  then obtain p r where "used s p = Some r" "q = page_ptr s p" by auto
  with return_hit [OF inv] that show thesis by metis
next
  case False
  with return_miss [OF inv q] inv that show thesis by blast
qed

lemma serve_inv:
  assumes inv: "buddy_inv s" and q: "\<And>q. x = Return q \<Longrightarrow> near_ptr s q"
  obtains s' where "serve x s = Some s'" "buddy_inv s'" "base_ptr s' = base_ptr s" "rank_num s' = rank_num s"
proof (cases x)
  case (Alloc rank)
  obtain r s' where "alloc_pages rank s = Some (r, s')" "buddy_inv s'" "base_ptr s' = base_ptr s"
    "rank_num s' = rank_num s" using alloc_inv [OF inv] .
  then show thesis using that [of s'] Alloc by simp
next
  case (Return q)
  obtain e s' where "return_pages q s = Some (e, s')" "buddy_inv s'" "base_ptr s' = base_ptr s"
    "rank_num s' = rank_num s" using return_inv [OF inv assms(2) [OF Return]] .
  then show thesis using that [of s'] Return by simp
qed

lemma serve_all_inv:
  "buddy_inv s \<Longrightarrow> (\<And>q. Return q \<in> set xs \<Longrightarrow> near_ptr s q) \<Longrightarrow>
   \<exists>s'. serve_all xs s = Some s' \<and> buddy_inv s' \<and> base_ptr s' = base_ptr s \<and> rank_num s' = rank_num s"
proof (induction xs arbitrary: s)
  case (Cons x xs)
  have "\<And>q. x = Return q \<Longrightarrow> near_ptr s q" using Cons.prems(2) by simp
  then obtain s1 where s1: "serve x s = Some s1" "buddy_inv s1" "base_ptr s1 = base_ptr s" "rank_num s1 = rank_num s"
    using serve_inv [OF Cons.prems(1), of x] by metis
  then have "\<And>q. Return q \<in> set xs \<Longrightarrow> near_ptr s1 q"
    using Cons.prems(2) by (simp add: near_ptr_def)
  from Cons.IH [OF s1(2) this] s1 show ?case by auto
qed simp

end
