(* ===== verification/Buddy_Correct.thy ===== *)
theory Buddy_Correct
  imports Buddy_Spec "HOL-Library.Code_Target_Numeral"
begin

section \<open>Correctness of the buddy allocator\<close>

text \<open>
  The properties of buddy.c, stated on the observable state of \<open>Buddy_Spec\<close>. The witnesses run
  the model on a range of eight pages at address 0x80000000.
\<close>

lemma fits_unused: "fits s p r \<Longrightarrow> used s p = None"
  using bsize_pos unfolding fits_def overlaps_def by (metis less_add_same_cancel1 not_None_eq)

subsection \<open>Concrete states for the witnesses\<close>

definition demo0 :: buddy where "demo0 = snd (init_page 0x80000000 8 buddy_start)"
definition demo1 :: buddy where "demo1 = snd (the (alloc_pages 2 demo0))"
definition demo2 :: buddy where "demo2 = snd (the (return_pages 0x80000000 demo1))"

lemma demo0_inv: "buddy_inv demo0" "base_ptr demo0 = 0x80000000" "rank_num demo0 = 4"
  "page_num demo0 = 8" "\<exists>L R. good demo0 [0 \<mapsto> (Free, R)] L"
proof -
  have past: "pg_status (meta buddy_start 8) = UNDEF" by (simp add: buddy_start_def LIST_INITIALIZER_def)
  have "1 \<le> (8::nat)" "(8::nat) < 2 ^ 20" by simp_all
  from init_good [OF this past, of "0x80000000"]
  obtain s' L R where s: "init_page 0x80000000 (int 8) buddy_start = (OK, s')" "good s' [0 \<mapsto> (Free, R)] L"
    "base_ptr s' = 0x80000000" .
  then have d: "demo0 = s'" by (simp add: demo0_def)
  show "\<exists>L R. good demo0 [0 \<mapsto> (Free, R)] L" using s(2) d by blast
  show "base_ptr demo0 = 0x80000000" by (simp add: d s(3))
  show r: "rank_num demo0 = 4" by code_simp
  show p: "page_num demo0 = 8" by (simp add: page_num_def r shl32_def u32_def)
  show "buddy_inv demo0"
    unfolding d by (rule buddy_invI [OF s(2)]) (simp add: range_ok_def s(3) p [unfolded d] PAGE_SIZE_def)
qed

lemma err_ptr_IS_ERR [simp]: "IS_ERR (err_ptr (- EINVAL))" "IS_ERR (err_ptr (- ENOSPC))"
  by (simp_all add: IS_ERR_def err_ptr_def EINVAL_def ENOSPC_def)

lemma demo1_alloc: "alloc_pages 2 demo0 = Some (0x80000000, demo1)"
proof -
  have "map_option fst (alloc_pages 2 demo0) = Some 0x80000000" by code_simp
  then show ?thesis by (auto simp: demo1_def)
qed

lemma demo1_facts: "buddy_inv demo1" "base_ptr demo1 = 0x80000000" "rank_num demo1 = 4"
  "used demo1 = (used demo0)(0 \<mapsto> 2)" "used demo0 0 = None"
proof -
  have ok: "range_ok demo0" using demo0_inv(1) by (simp add: buddy_inv_def)
  have p0: "page_ptr demo0 0 = 0x80000000" by (simp add: page_ptr_def demo0_inv(2))
  have ne: "err_ptr (- ENOSPC) \<noteq> 0x80000000" by (simp add: err_ptr_def ENOSPC_def)
  have a: "alloc_pages (int 2) demo0 = Some (0x80000000, demo1)" using demo1_alloc by simp
  obtain p where p: "0x80000000 = page_ptr demo0 p" "p < page_num demo0" "fits demo0 p 2" "buddy_inv demo1"
    "used demo1 = (used demo0)(p \<mapsto> 2)" "base_ptr demo1 = base_ptr demo0" "rank_num demo1 = rank_num demo0"
    by (rule alloc_cases [OF demo0_inv(1), of 2]) (use a ne demo0_inv in auto)
  have z: "p = 0" using page_ptr_inj [OF ok, of p 0] p(1,2) p0 by simp
  show "buddy_inv demo1" "base_ptr demo1 = 0x80000000" "rank_num demo1 = 4"
    "used demo1 = (used demo0)(0 \<mapsto> 2)" "used demo0 0 = None"
    using p demo0_inv fits_unused [OF p(3)] by (simp_all add: z)
qed

lemmas demo1_inv = demo1_facts(1-3)

lemma demo1_used: "used demo1 0 = Some 2" by (simp add: demo1_facts)

lemma demo1_ptr: "page_ptr demo1 0 = 0x80000000"
  by (simp add: page_ptr_def demo1_inv(2))


subsection \<open>Signed arithmetic of far pointers\<close>

lemma sint_far:
  fixes d :: ptr
  assumes "unat d = n + 2 ^ 63" "n < 2 ^ 63"
  shows "sint d = int n - 2 ^ 63"
proof -
  have "sint d = signed_take_bit 63 (int (unat d))" by (simp add: sint_uint)
  also have "\<dots> = signed_take_bit 63 (int n + 2 ^ 63)" by (simp only: assms(1)) simp
  also have "\<dots> = int n - 2 ^ 63"
    using assms(2) by (simp add: signed_take_bit_eq_take_bit_shift take_bit_eq_mod)
  finally show ?thesis .
qed

lemma smod_dvd: "b dvd a \<Longrightarrow> a smod b = 0" for a b :: int
  by (auto simp: signed_modulo_int_def dvd_def abs_mult sgn_mult)

lemma sdiv_negative: "a < 0 \<Longrightarrow> 0 < b \<Longrightarrow> 0 \<le> c \<Longrightarrow> a sdiv b \<le> c" for a b c :: int
  by (simp add: signed_divide_int_def sgn_if) (smt (verit) pos_imp_zdiv_nonneg_iff)

subsection \<open>Properties\<close>

text \<open>C1: allocation. In a state that keeps the invariant, \<open>alloc_pages\<close> always returns, keeps the
  invariant, and is complete: an invalid rank is refused with \<open>-EINVAL\<close>; when some aligned range of
  \<open>2 ^ (rank - 1)\<close> pages meets no allocated block, such a range is returned, as a pointer that is not
  an error value, starts a smallest free block that is large enough, and becomes allocated while every
  other block stays as it was; otherwise the result
  is \<open>-ENOSPC\<close> and nothing changes.\<close>

theorem alloc_pages_correct:
  assumes "buddy_inv s"
  shows "\<exists>q s'. alloc_pages rank s = Some (q, s') \<and> buddy_inv s' \<and>
    base_ptr s' = base_ptr s \<and> rank_num s' = rank_num s \<and>
    (if rank < 1 \<or> int (rank_num s) < rank then q = err_ptr (- EINVAL) \<and> s' = s
     else if \<exists>p. fits s p (nat rank)
     then \<exists>p. q = page_ptr s p \<and> \<not> IS_ERR q \<and> fits s p (nat rank) \<and> best_fit s p (nat rank) \<and>
       used s' = (used s)(p \<mapsto> nat rank)
     else q = err_ptr (- ENOSPC) \<and> s' = s)"
proof (cases "rank < 1 \<or> int (rank_num s) < rank")
  case True
  then show ?thesis using alloc_pages_invalid [OF True] assms by simp
next
  case False
  then obtain r where r: "rank = int r" "1 \<le> r" "r \<le> rank_num s" by (cases rank) auto
  from assms r(2,3) show ?thesis
  proof (cases rule: alloc_cases)
    case full
    then show ?thesis using assms r by auto
  next
    case (fit p s')
    moreover have "\<not> IS_ERR (page_ptr s p)"
      using page_ptr_not_err fit(3) assms by (simp add: buddy_inv_def)
    ultimately show ?thesis using r by auto
  qed
qed

theorem alloc_pages_correct_witness:
  "\<exists>q s'. alloc_pages 2 demo0 = Some (q, s') \<and> buddy_inv s' \<and> rank_num s' = 4"
  using alloc_pages_correct [OF demo0_inv(1), of 2] demo0_inv(3) by auto



text \<open>C6: initialisation. For a page count from 1 to \<open>2 ^ 20 - 1\<close> and a range that ends below the
  error values, \<open>init_page\<close> answers \<open>OK\<close> and establishes the invariant: nothing is allocated and the
  largest power of two of pages that fits the count is one free block. The status of the entry after
  the last page must not be a stale one, as it is not in a first call.\<close>

theorem init_page_correct:
  assumes "1 \<le> n" "n < 2 ^ 20" "unat base + n * PAGE_SIZE < 2 ^ 64 - 4095"
    and "pg_status (meta s n) = UNDEF"
  shows "\<exists>s'. init_page base (int n) s = (OK, s') \<and> buddy_inv s' \<and> base_ptr s' = base \<and>
    used s' = Map.empty \<and> free_at s' 0 (rank_num s') \<and>
    page_num s' = 2 ^ (rank_num s' - 1) \<and> page_num s' \<le> n \<and> n < 2 * page_num s'"
proof -
  obtain s' L R where i: "init_page base (int n) s = (OK, s')" "good s' [0 \<mapsto> (Free, R)] L"
    "base_ptr s' = base" "rank_num s' = R" "page_num s' \<le> n" "n < 2 * page_num s'"
    using init_good [OF assms(1,2,4)] .
  have "page_num s' * PAGE_SIZE \<le> n * PAGE_SIZE" using i(5) by simp
  then have "range_ok s'" unfolding range_ok_def i(3) by (rule le_less_trans [OF add_left_mono assms(3)])
  moreover have "used s' = Map.empty" by (auto simp: good_used [OF i(2)] used_blocks_def)
  moreover have "free_at s' 0 (rank_num s')" by (simp add: good_free [OF i(2)] i(4))
  ultimately show ?thesis
    using i buddy_invI [OF i(2)] goodD(7) [OF i(2)] by (simp add: bsize_def)
qed

theorem init_page_correct_witness:
  "\<exists>s'. init_page 0x1000 100 buddy_start = (OK, s') \<and> buddy_inv s' \<and> page_num s' \<le> 100"
  using init_page_correct [of 100 "0x1000" buddy_start]
  by (auto simp: PAGE_SIZE_def buddy_start_def LIST_INITIALIZER_def)




text \<open>C4: the free blocks are a function of the allocated ones. Two states of the same size that keep
  the invariant and have the same allocated blocks have the same free blocks, whatever history of
  splits and merges led to them.\<close>

theorem free_blocks_canonical:
  assumes "buddy_inv s" "buddy_inv s'" "rank_num s' = rank_num s" "used s' = used s"
  shows "free_at s' = free_at s"
  using assms by (rule free_at_unique)

lemma demo2_facts: "buddy_inv demo2" "rank_num demo2 = rank_num demo0" "used demo2 = used demo0"
proof -
  obtain s' where s': "return_pages (page_ptr demo1 0) demo1 = Some (OK, s')" "buddy_inv s'"
    "used s' = (used demo1)(0 := None)" "rank_num s' = rank_num demo1"
    using return_hit [OF demo1_inv(1) demo1_used] .
  have d: "demo2 = s'" using s'(1) by (simp only: demo1_ptr demo2_def option.sel snd_conv)
  show "buddy_inv demo2" "rank_num demo2 = rank_num demo0" "used demo2 = used demo0"
    using s' demo1_facts demo0_inv by (auto simp: d)
qed

theorem free_blocks_canonical_witness: "free_at demo2 = free_at demo0"
  by (rule free_blocks_canonical [OF demo0_inv(1) demo2_facts(1)]) (simp_all add: demo2_facts)

text \<open>C5: round trip. Returning the block that an allocation has just handed out succeeds and restores
  the allocated and the free blocks exactly.\<close>

theorem alloc_return_roundtrip:
  assumes "buddy_inv s" and "alloc_pages rank s = Some (q, s')" and "\<not> IS_ERR q"
  shows "\<exists>s''. return_pages q s' = Some (OK, s'') \<and> used s'' = used s \<and> free_at s'' = free_at s"
proof (cases "rank < 1 \<or> int (rank_num s) < rank")
  case True
  then have "q = err_ptr (- EINVAL)" using alloc_pages_invalid [OF True] assms(2) by simp
  then show ?thesis using assms(3) by simp
next
  case False
  then obtain r where r: "rank = int r" "1 \<le> r" "r \<le> rank_num s" by (cases rank) auto
  from assms(1) r(2,3) show ?thesis
  proof (cases rule: alloc_cases)
    case full
    then have "q = err_ptr (- ENOSPC)" using assms(2) r(1) by simp
    then show ?thesis using assms(3) by simp
  next
    case (fit p s1)
    then have s1: "s1 = s'" "q = page_ptr s p" using assms(2) r(1) by simp_all
    have p: "page_ptr s' p = page_ptr s p" using fit(6) s1 by (simp add: page_ptr_def)
    obtain s'' where s'': "return_pages q s' = Some (OK, s'')" "buddy_inv s''"
      "used s'' = (used s')(p := None)" "rank_num s'' = rank_num s'"
      using return_hit [OF fit(4) [unfolded s1], of p r] fit(5) s1 p by (metis fun_upd_same)
    have "used s p = None" by (rule fits_unused [OF fit(2)])
    then have "used s'' = used s" using s''(3) fit(5) s1 by auto
    with free_at_unique [OF assms(1) s''(2)] s'' fit(7) s1 show ?thesis by auto
  qed
qed

theorem alloc_return_roundtrip_witness:
  "\<exists>s''. return_pages 0x80000000 demo1 = Some (OK, s'') \<and> free_at s'' = free_at demo0"
  using alloc_return_roundtrip [OF demo0_inv(1) demo1_alloc] by (auto simp: IS_ERR_def)


text \<open>The blocks tile the range and are coalesced. Every page of the range lies in exactly one block,
  allocated or free, and the buddy of a free block below the top rank is not free at the same rank.\<close>

lemma blocks_tile_range:
  assumes "buddy_inv s"
  shows "(\<forall>x < page_num s. \<exists>!b. block_at s (fst b) (snd b) \<and> covers (fst b) (snd b) x) \<and>
    (\<forall>p r. free_at s p r \<and> r < rank_num s \<longrightarrow> \<not> free_at s (buddy_page p r) r)"
  using pages_covered [OF assms] free_not_buddies [OF assms] by blast


text \<open>Page balance. The pages of the allocated blocks and the pages counted by the counters of the
  free lists add up to the size of the range: no page is lost or counted twice.\<close>

lemma pages_balanced:
  assumes "buddy_inv s"
  shows "(\<Sum>p\<in>dom (used s). 2 ^ (the (used s p) - 1)) + (\<Sum>r = 1..rank_num s. bcount s r * 2 ^ (r - 1))
    = page_num s"
  using assms pages_balance unfolding buddy_inv_def bsize_def by blast


text \<open>\<open>query_page_counts\<close> answers the number of free blocks of a valid rank, and \<open>-EINVAL\<close> for
  every other rank.\<close>

theorem query_page_counts_correct:
  assumes "buddy_inv s"
  shows "query_page_counts rank s =
    (if 1 \<le> rank \<and> rank \<le> int (rank_num s) then int (card {p. free_at s p (nat rank)}) else - EINVAL)"
proof (cases "1 \<le> rank \<and> rank \<le> int (rank_num s)")
  case True
  obtain A L where g: "good s A L" using assms by (auto simp: buddy_inv_def)
  have r: "1 \<le> nat rank" "nat rank \<le> rank_num s" using True by auto
  have "sint (of_nat (bcount s (nat rank)) :: 32 word) = int (bcount s (nat rank))"
    by (rule sint_of_nat_small, rule le_less_trans [OF count_free(2) [OF g r]]) simp
  then show ?thesis using True count_free(1) [OF g r] by (simp add: query_page_counts_def)
qed (auto simp: query_page_counts_def)

theorem query_page_counts_correct_witness: "query_page_counts 4 demo0 = int (card {p. free_at demo0 p 4})"
  using query_page_counts_correct [OF demo0_inv(1), of 4] demo0_inv(3) by simp

text \<open>\<open>query_ranks\<close> answers the rank of the block, allocated or free, that starts at the pointer, and
  \<open>-EINVAL\<close> for every other pointer less than half the address space above the base.\<close>

theorem query_ranks_correct:
  assumes "buddy_inv s" and "near_ptr s q"
  shows "(\<exists>p r. q = page_ptr s p \<and> block_at s p r \<and> query_ranks q s = int r) \<or>
    ((\<nexists>p r. q = page_ptr s p \<and> block_at s p r) \<and> query_ranks q s = - EINVAL)"
proof (cases "\<exists>p r. q = page_ptr s p \<and> block_at s p r")
  case True
  then show ?thesis using query_ranks_block [OF assms(1)] by (auto simp: block_at_def)
next
  case False
  then have "query_ranks q s = - EINVAL"
    by (intro query_ranks_miss [OF assms]) (auto simp: block_at_def)
  with False show ?thesis by blast
qed

theorem query_ranks_correct_witness:
  "query_ranks 0x80000000 demo1 = - EINVAL \<or> (\<exists>p r. block_at demo1 p r \<and> query_ranks 0x80000000 demo1 = int r)"
proof -
  have "near_ptr demo1 0x80000000" by (simp add: near_ptr_def demo1_inv)
  from query_ranks_correct [OF demo1_inv(1) this] show ?thesis by blast
qed

text \<open>Nothing leaks. When no block is allocated, the whole range is one free block of the top rank,
  so a request of any valid rank succeeds again.\<close>

lemma all_returned_all_free:
  assumes "buddy_inv s" and "used s = Map.empty"
  shows "(\<forall>p r. free_at s p r \<longleftrightarrow> p = 0 \<and> r = rank_num s) \<and>
    (\<forall>rank. 1 \<le> rank \<and> rank \<le> rank_num s \<longrightarrow>
      (\<exists>q s'. alloc_pages (int rank) s = Some (page_ptr s q, s')))"
proof (intro conjI allI impI)
  show "free_at s p r \<longleftrightarrow> p = 0 \<and> r = rank_num s" for p r by (rule free_at_empty [OF assms])
next
  fix rank assume "1 \<le> rank \<and> rank \<le> rank_num s"
  then have r: "1 \<le> rank" "rank \<le> rank_num s" by simp_all
  obtain A L where g: "good s A L" using assms(1) by (auto simp: buddy_inv_def)
  have "fits s 0 rank" using assms(2) bsize_mono [OF r(2)] goodD(7) [OF g] by (simp add: fits_def)
  then show "\<exists>q s'. alloc_pages (int rank) s = Some (page_ptr s q, s')"
    by (rule_tac alloc_cases [OF assms(1) r]) auto
qed

lemma demo0_used: "used demo0 = Map.empty"
  using demo0_inv(5) by (auto simp: good_used used_blocks_def)


subsection \<open>Where the pointer check is too weak\<close>

text \<open>A pointer half the address space above an allocated block passes the check, because the
  signed pointer difference is negative and only its upper end is compared; its page is computed from
  the low 32 bits, so \<open>return_pages\<close> frees the block although the pointer is not its address.\<close>

lemma far_pointer_accepted:
  assumes "buddy_inv s" and "used s p = Some r" and "unat (page_ptr s p) < 2 ^ 63"
  shows "page_ptr s p + 2 ^ 63 \<noteq> page_ptr s p \<and>
    return_pages (page_ptr s p + 2 ^ 63) s = return_pages (page_ptr s p) s \<and>
    (\<exists>s'. return_pages (page_ptr s p + 2 ^ 63) s = Some (OK, s'))"
proof -
  obtain A L where g: "good s A L" and ok: "range_ok s" using assms(1) by (auto simp: buddy_inv_def)
  have p: "p \<le> page_num s" using used_block(6) [OF g assms(2)] by simp
  let ?n = "p * PAGE_SIZE"
  let ?q = "page_ptr s p + 2 ^ 63"
  have n: "?n < 2 ^ 32" by (rule page_dist [OF good_page_num_le [OF g] p])
  have ud: "unat (?q - base_ptr s) = ?n + 2 ^ 63"
  proof -
    have "?q - base_ptr s = of_nat (?n + 2 ^ 63)" by (simp add: page_ptr_def)
    also have "unat \<dots> = ?n + 2 ^ 63" by (rule unat_of_nat_ptr) (use n in simp)
    finally show ?thesis .
  qed
  have ge: "base_ptr s \<le> ?q"
  proof -
    have "unat ?q = unat (page_ptr s p) + 2 ^ 63"
      using assms(3) by (subst unat_add_lem [THEN iffD1]) simp_all
    then show ?thesis using unat_page_ptr(1) [OF ok p] by (simp add: word_le_nat_alt)
  qed
  have "is_valid_ptr s ?q"
  proof -
    have "sint (?q - base_ptr s) = int ?n - 2 ^ 63" by (rule sint_far [OF ud]) (use n in simp)
    moreover have "(int ?n - 2 ^ 63) smod int PAGE_SIZE = 0"
      by (rule smod_dvd) (simp add: PAGE_SIZE_def)
    moreover have "(int ?n - 2 ^ 63) sdiv int PAGE_SIZE \<le> int (page_num s)"
      by (rule sdiv_negative) (use n in \<open>simp_all add: PAGE_SIZE_def\<close>)
    ultimately show ?thesis using ge by (simp add: is_valid_ptr_def)
  qed
  moreover have "ptr_to_page s ?q = p"
  proof -
    have "?n + 2 ^ 63 = ?n + 2 ^ 31 * 2 ^ 32" by simp
    then have "u32 (?n + 2 ^ 63) = ?n mod 2 ^ 32" by (simp only: u32_def mod_mult_self1)
    with n have "u32 (?n + 2 ^ 63) = ?n" by simp
    then show ?thesis unfolding ptr_to_page_def ud by (simp add: PAGE_SIZE_def)
  qed
  ultimately have "return_pages ?q s = return_pages (page_ptr s p) s"
    using valid_page_ptr [OF g ok p] by (simp add: return_pages_def)
  moreover obtain s' where "return_pages (page_ptr s p) s = Some (OK, s')"
    using return_hit [OF assms(1,2)] .
  moreover have "?q \<noteq> page_ptr s p" by simp
  ultimately show ?thesis by simp
qed

lemma far_pointer_accepted_witness:
  "\<exists>s'. return_pages (0x80000000 + 2 ^ 63) demo1 = Some (OK, s')"
proof -
  have "unat (page_ptr demo1 0) < 2 ^ 63" by (simp add: demo1_ptr)
  from far_pointer_accepted [OF demo1_inv(1) demo1_used this] show ?thesis unfolding demo1_ptr by blast
qed

text \<open>the address one past the last page passes the check too (the comparison with the number of
  pages is not strict), and if the entry after the last page holds the status of an earlier, larger
  initialisation, \<open>query_ranks\<close> reports that stale block.\<close>

theorem end_pointer_accepted:
  assumes "range_ok s" "1 \<le> rank_num s" "rank_num s \<le> 20"
  shows "is_valid_ptr s (page_ptr s (page_num s)) \<and>
    (pg_status (meta s (page_num s)) \<noteq> UNDEF \<longrightarrow>
      query_ranks (page_ptr s (page_num s)) s = int (pg_rank (meta s (page_num s))))"
proof -
  have "page_num s \<le> 2 ^ 19" using page_num_bsize [OF assms(2,3)] bsize_R_less [OF assms(3)] by simp
  note v = small_page_ptr [OF this assms(1) order_refl]
  then show ?thesis by (simp add: query_ranks_def Let_def)
qed

definition stale :: buddy where
  "stale = buddy_start\<lparr>base_ptr := 0x1000, rank_num := 3,
     meta := (\<lambda>_. LIST_INITIALIZER)(4 := LIST_INITIALIZER\<lparr>pg_status := USED, pg_rank := 1\<rparr>)\<rparr>"

theorem end_pointer_accepted_witness: "query_ranks (page_ptr stale (page_num stale)) stale = 1"
proof -
  have n: "page_num stale = 4" "rank_num stale = 3" by (simp_all add: stale_def page_num_def shl32_def u32_def)
  have "range_ok stale" unfolding range_ok_def n by (simp add: stale_def PAGE_SIZE_def)
  with end_pointer_accepted [of stale] show ?thesis by (simp add: n) (simp add: stale_def)
qed

end
