(* ===== verification/Buddy_Tests.thy ===== *)
theory Buddy_Tests
  imports Buddy_Spec "HOL-Library.Monad_Syntax"
begin

section \<open>The test program of the buddy allocator (practice-2/practice\_2-1/main.c)\<close>

text \<open>
  The phases of \<open>main\<close> as functions on the allocator: \<open>None\<close> when a check fails, as the program then
  exits, or when a call does not return; \<open>fake\_mode\<close> and \<open>cont\<close> are 0. The pointer \<open>q\<close> that walks over
  the pages is part of the state of the loops. The main result of this theory is that all checks hold for every
  range of pages that \<open>malloc\<close> can answer.
\<close>

subsection \<open>The program\<close>

definition MAXRANK :: nat where "MAXRANK = 16"
definition TESTSIZE :: nat where "TESTSIZE = 128"
definition MAXRANK0PAGE :: nat where "MAXRANK0PAGE = TESTSIZE * 1024 div 4"

function pow2f :: "int \<Rightarrow> nat" where
  "pow2f n = (if n \<le> 0 then 1 else 2 * pow2f (n - 1))"
  by pat_completeness auto
termination
  by (relation "measure nat") auto

declare pow2f.simps [simp del]

definition PTR_ERR :: "ptr \<Rightarrow> int" where "PTR_ERR p = sint p"

definition ok :: "bool \<Rightarrow> unit option" where "ok expr = (if expr then Some () else None)"

fun each :: "'a list \<Rightarrow> ('a \<Rightarrow> 's \<Rightarrow> 's option) \<Rightarrow> 's \<Rightarrow> 's option" where
  "each [] body s = Some s"
| "each (x # xs) body s = body x s \<bind> each xs body"

definition phase1 :: "ptr \<Rightarrow> buddy \<Rightarrow> buddy option" where
  "phase1 p s = (let (ret, s) = init_page p (int MAXRANK0PAGE) s in do { ok (ret = OK); Some s })"

definition phase2 :: "ptr \<Rightarrow> buddy \<Rightarrow> buddy option" where
  "phase2 p s = do {
     (q, s) \<leftarrow> each [0..<MAXRANK0PAGE] (\<lambda>_ (q, s). do {
       (r, s) \<leftarrow> alloc_pages 1 s;
       ok (r = q);
       Some (q + 1024 * 4, s) }) (p, s);
     (r, s) \<leftarrow> alloc_pages 1 s;
     ok (PTR_ERR r = - ENOSPC);
     Some s }"

definition phase3 :: "ptr \<Rightarrow> buddy \<Rightarrow> buddy option" where
  "phase3 p s = each [1..<MAXRANK + 1] (\<lambda>i s. do { ok (query_page_counts (int i) s = 0); Some s }) s"

definition phase4 :: "ptr \<Rightarrow> buddy \<Rightarrow> buddy option" where
  "phase4 p s = do {
     (e, s) \<leftarrow> return_pages 0 s;
     ok (PTR_ERR (of_int e) = - EINVAL);
     (e, s) \<leftarrow> return_pages (p + of_nat (TESTSIZE * 1024 * 1024) + 16) s;
     ok (PTR_ERR (of_int e) = - EINVAL);
     (q, s) \<leftarrow> each [0..<MAXRANK0PAGE] (\<lambda>_ (q, s). do {
       (ret, s) \<leftarrow> return_pages q s;
       ok (ret = OK);
       Some (q + 1024 * 4, s) }) (p, s);
     Some s }"

definition phase5 :: "ptr \<Rightarrow> buddy \<Rightarrow> buddy option" where
  "phase5 p s = do {
     s \<leftarrow> each [1..<MAXRANK] (\<lambda>i s. do { ok (query_page_counts (int i) s = 0); Some s }) s;
     ok (query_page_counts (int MAXRANK) s \<noteq> 0);
     Some s }"

definition phase6 :: "ptr \<Rightarrow> buddy \<Rightarrow> buddy option" where
  "phase6 p s = do { ok (query_ranks p s = int MAXRANK); Some s }"

definition phase7 :: "ptr \<Rightarrow> buddy \<Rightarrow> (ptr \<times> buddy) option" where
  "phase7 p s = each [0..<MAXRANK0PAGE] (\<lambda>_ (q, s). do {
     (r, s) \<leftarrow> alloc_pages 1 s;
     ok (query_ranks r s = 1);
     Some (q + 1024 * 4, s) }) (p, s)"

definition phase8a :: "ptr \<Rightarrow> ptr \<times> buddy \<Rightarrow> buddy option" where
  "phase8a p = (\<lambda>(q, s). do {
     (q, s) \<leftarrow> each [0..<MAXRANK0PAGE] (\<lambda>_ (q, s). do {
       (r, s) \<leftarrow> alloc_pages 1 s;
       Some (q + 1024 * 4, s) }) (q, s);
     ok (query_page_counts (int MAXRANK) s = 0);
     (q, s) \<leftarrow> each [1..<MAXRANK + 1] (\<lambda>currentRank (q, s). do {
       (q, s) \<leftarrow> each [0..<pow2f (int currentRank - 2)] (\<lambda>_ (q, s). do {
         (ret, s) \<leftarrow> return_pages q s;
         Some (q + 1024 * 4, s) }) (q, s);
       s \<leftarrow> each [1..<currentRank] (\<lambda>rankIdx s. do { ok (query_page_counts (int rankIdx) s = 0); Some s }) s;
       ok (query_page_counts (int currentRank) s = 1);
       Some (q, s) }) (p, s);
     Some s })"

definition phase8b :: "ptr \<Rightarrow> buddy \<Rightarrow> buddy option" where
  "phase8b p s = do {
     (q, s) \<leftarrow> each [0..<MAXRANK0PAGE] (\<lambda>_ (q, s). do {
       (r, s) \<leftarrow> alloc_pages 1 s;
       Some (q + 1024 * 4, s) }) (p, s);
     (q, freeCnt, s) \<leftarrow> each [0..<MAXRANK0PAGE div 2] (\<lambda>_ (q, freeCnt, s). do {
       (ret, s) \<leftarrow> return_pages q s;
       ok (query_page_counts 1 s = freeCnt + 1);
       Some (q + 1024 * 4 * 2, freeCnt + 1, s) }) (p, 0 :: int, s);
     (q, freeCnt, s) \<leftarrow> each [0..<MAXRANK0PAGE div 2] (\<lambda>_ (q, freeCnt, s). do {
       (ret, s) \<leftarrow> return_pages q s;
       ok (query_page_counts 1 s = freeCnt - 1);
       Some (q + 1024 * 4 * 2, freeCnt - 1, s) }) (p + 1024 * 4, freeCnt, s);
     ok (query_page_counts (int MAXRANK) s \<noteq> 0);
     Some s }"

definition test_main :: "ptr \<Rightarrow> buddy \<Rightarrow> buddy option" where
  "test_main p s = do {
     s \<leftarrow> phase1 p s; s \<leftarrow> phase2 p s; s \<leftarrow> phase3 p s; s \<leftarrow> phase4 p s;
     s \<leftarrow> phase5 p s; s \<leftarrow> phase6 p s; qs \<leftarrow> phase7 p s; s \<leftarrow> phase8a p qs; phase8b p s }"

subsection \<open>States with single pages allocated\<close>

text \<open>The pages \<open>W\<close> are allocated one by one in a range of \<open>2 ^ 15\<close> pages at \<open>p\<close>.\<close>

definition ones :: "nat set \<Rightarrow> nat \<rightharpoonup> nat" where "ones W i = (if i \<in> W then Some 1 else None)"

definition held :: "ptr \<Rightarrow> nat set \<Rightarrow> buddy \<Rightarrow> bool" where
  "held p W s \<longleftrightarrow> buddy_inv s \<and> base_ptr s = p \<and> rank_num s = 16 \<and> used s = ones W"

lemma ones_simps [simp]:
  "ones W i = Some r \<longleftrightarrow> i \<in> W \<and> r = 1" "ones W i = None \<longleftrightarrow> i \<notin> W"
  "(ones W)(i \<mapsto> Suc 0) = ones (insert i W)" "(ones W)(i := None) = ones (W - {i})"
  by (auto simp: ones_def fun_eq_iff)

lemma held_good:
  assumes "held p W s"
  obtains A L where "good s A L" "range_ok s" "page_num s = 2 ^ 15" "used_blocks A = ones W" "W \<subseteq> {..<2 ^ 15}"
proof -
  obtain A L where g: "good s A L" "range_ok s" using assms by (auto simp: held_def buddy_inv_def)
  have n: "page_num s = 2 ^ 15" using goodD(7) [OF g(1)] assms by (simp add: held_def bsize_def)
  have "W \<subseteq> {..<2 ^ 15}"
  proof
    fix i assume "i \<in> W"
    then have "used s i = Some 1" using assms by (simp add: held_def)
    then show "i \<in> {..<2 ^ 15}" using used_block(6) [OF g(1)] n by auto
  qed
  then show ?thesis using that g n good_used [OF g(1)] assms by (simp add: held_def)
qed

text \<open>The free blocks are the maximal aligned ranges without a page of \<open>W\<close>.\<close>

lemma held_free:
  assumes h: "held p W s"
  shows "free_at s q r \<longleftrightarrow> wf_block 16 q r \<and> (\<forall>x \<in> W. \<not> covers q r x) \<and>
    (r < 16 \<longrightarrow> (\<exists>x \<in> W. covers (parent_page q r) (Suc r) x))"
proof -
  obtain A L where g: "good s A L" and ub: "used_blocks A = ones W" using held_good [OF h] .
  have R: "rank_num s = 16" using h by (simp add: held_def)
  note wf = goodD(4) [OF g, unfolded R] and nb = goodD(3) [OF g, unfolded R]
  have meets: "meets_used A q r \<longleftrightarrow> (\<exists>x \<in> W. covers q r x)" for q r
  proof -
    have "A x = Some (Used, t) \<longleftrightarrow> x \<in> W \<and> t = 1" for x t
      using ub used_blocks_Some [of A x t] by simp
    moreover have "covers x 1 y \<longleftrightarrow> y = x" for x y by (auto simp: covers_def)
    ultimately show ?thesis unfolding meets_used_def by auto
  qed
  have free: "free_at s a b \<longleftrightarrow> A a = Some (Free, b)" for a b by (rule good_free [OF g])
  show ?thesis
  proof
    assume "free_at s q r"
    then have q: "A q = Some (Free, r)" by (simp add: free)
    note blk = wf_tilingD [OF wf q]
    have "meets_used A (parent_page q r) (Suc r)" if r: "r < 16"
    proof (rule ccontr)
      assume nm: "\<not> meets_used A (parent_page q r) (Suc r)"
      from free_maximal [OF wf nb wf_block_buddy(2) [OF blk(1) r] nm] obtain p' r' where
        m: "A p' = Some (Free, r')" "Suc r \<le> r'" "p' \<le> parent_page q r"
          "parent_page q r + bsize (Suc r) \<le> p' + bsize r'" by blast
      have "covers (parent_page q r) (Suc r) q"
        using buddy_cases [OF blk(2,4)] bsize_Suc [OF blk(2)] bsize_pos [of r] unfolding covers_def
        by (metis add_less_cancel_left diff_le_self le_add_diff_inverse2 less_add_same_cancel1 mult_2 order_refl trans_less_add1)
      then have "covers p' r' q" using m by (auto simp: covers_def)
      from wf_tiling_unique [OF wf m(1) q this covers_start] show False using m(2) by simp
    qed
    then show "wf_block 16 q r \<and> (\<forall>x \<in> W. \<not> covers q r x) \<and>
        (r < 16 \<longrightarrow> (\<exists>x \<in> W. covers (parent_page q r) (Suc r) x))"
      using blk(1) free_not_meets_used [OF wf q] meets by auto
  next
    assume a: "wf_block 16 q r \<and> (\<forall>x \<in> W. \<not> covers q r x) \<and>
        (r < 16 \<longrightarrow> (\<exists>x \<in> W. covers (parent_page q r) (Suc r) x))"
    then have w: "wf_block 16 q r" and nm: "\<not> meets_used A q r" using meets by auto
    from free_maximal [OF wf nb w nm] obtain p' r' where
      m: "A p' = Some (Free, r')" "r \<le> r'" "p' \<le> q" "q + bsize r \<le> p' + bsize r'" by blast
    note blk = wf_tilingD [OF wf m(1)]
    show "free_at s q r"
    proof (cases "r' = r")
      case True
      then show ?thesis using m by (simp add: free)
    next
      case False
      then have r: "Suc r \<le> r'" "r < 16" using m(2) blk by auto
      obtain x where x: "x \<in> W" "covers (parent_page q r) (Suc r) x" using a r by blast
      have pw: "wf_block 16 (parent_page q r) (Suc r)" by (rule wf_block_buddy(2) [OF w r(2)])
      have "parent_page q r \<le> q \<and> q < parent_page q r + bsize (Suc r)"
        using w buddy_cases [of r q] bsize_Suc [of r] bsize_pos [of r] unfolding wf_block_def
        by (metis add_less_cancel_left diff_le_self le_add_diff_inverse2 less_add_same_cancel1 mult_2 order_refl trans_less_add1)
      then have "p' < parent_page q r + bsize (Suc r)" "parent_page q r < p' + bsize r'"
        using m bsize_pos [of r] by linarith+
      moreover have "bsize (Suc r) dvd p'" "bsize (Suc r) dvd p' + bsize r'"
        using blk(4) bsize_dvd [OF r(1)] dvd_trans by (blast intro: dvd_add)+
      moreover have "bsize (Suc r) dvd parent_page q r" using pw by (simp add: wf_block_def)
      ultimately have "p' \<le> parent_page q r" "parent_page q r + bsize (Suc r) \<le> p' + bsize r'"
        using dvd_less_add_le [of "bsize (Suc r)" "parent_page q r" p'] dvd_less_add_le [of "bsize (Suc r)" "parent_page q r" "p' + bsize r'"]
        by (force simp: not_le [symmetric])+
      then have "covers p' r' x" using x(2) by (auto simp: covers_def)
      then have "meets_used A p' r'" using x(1) meets by auto
      then show ?thesis using free_not_meets_used [OF wf m(1)] by simp
    qed
  qed
qed

subsection \<open>The calls\<close>

lemma each_inv:
  assumes "m \<le> n" "\<And>i s. m \<le> i \<Longrightarrow> i < n \<Longrightarrow> I i s \<Longrightarrow> \<exists>s'. body i s = Some s' \<and> I (Suc i) s'" "I m s"
  obtains s' where "each [m..<n] body s = Some s'" "I n s'"
proof -
  have "\<exists>s'. each [m..<n] body s = Some s' \<and> I n s'"
    using assms
  proof (induction "n - m" arbitrary: m s)
    case (Suc k)
    then have m: "m < n" by simp
    then obtain s1 where s1: "body m s = Some s1" "I (Suc m) s1" using Suc.prems by blast
    have "\<exists>s'. each [Suc m..<n] body s1 = Some s' \<and> I n s'"
      using Suc.hyps(2) m s1(2) Suc.prems(2) by (intro Suc.hyps(1)) auto
    then show ?case using s1(1) m by (simp add: upt_conv_Cons)
  qed simp
  then show ?thesis using that by blast
qed

lemma each_check: "(\<And>i. i \<in> set xs \<Longrightarrow> P i s) \<Longrightarrow> each xs (\<lambda>i s. do { ok (P i s); Some s }) s = Some s"
  by (induction xs) (simp_all add: ok_def)

lemma ok_True [simp]: "ok True = Some ()" by (simp add: ok_def)

lemma held_page: "held p W s \<Longrightarrow> page_ptr s i = p + of_nat (i * PAGE_SIZE)"
  by (simp add: held_def page_ptr_def)

lemma held_return:
  assumes h: "held p W s" and i: "i \<in> W"
  obtains s' where "return_pages (p + of_nat (i * PAGE_SIZE)) s = Some (OK, s')" "held p (W - {i}) s'"
proof -
  have "used s i = Some 1" using h i by (simp add: held_def)
  then obtain s' where "return_pages (page_ptr s i) s = Some (OK, s')" "buddy_inv s'"
    "used s' = (used s)(i := None)" "base_ptr s' = base_ptr s" "rank_num s' = rank_num s"
    using return_hit h unfolding held_def by metis
  then show ?thesis using that h held_page [OF h, of i] by (simp add: held_def)
qed

lemma held_full:
  assumes h: "held p {..<2 ^ 15} s"
  shows "alloc_pages 1 s = Some (err_ptr (- ENOSPC), s)"
proof -
  have inv: "buddy_inv s" and r: "1 \<le> (1 :: nat)" "1 \<le> rank_num s" using h by (auto simp: held_def)
  show ?thesis
  proof (cases rule: alloc_cases [OF inv r])
    case 1
    then show ?thesis by simp
  next
    case (2 q s')
    obtain A L where n: "page_num s = 2 ^ 15" using held_good [OF h] .
    then have "q \<in> {..<2 ^ 15}" using 2(3) by simp
    then have "used s q = Some 1" using h by (simp add: held_def)
    then have "\<not> overlaps q 1 q 1" using 2(2) by (simp add: fits_def)
    then show ?thesis by (simp add: overlaps_def)
  qed
qed

text \<open>Without holes the first page behind the allocated ones is taken.\<close>

lemma held_alloc:
  assumes h: "held p {..<k} s" and k: "k < 2 ^ 15"
  obtains s' where "alloc_pages 1 s = Some (p + of_nat (k * PAGE_SIZE), s')" "held p {..<Suc k} s'"
proof -
  have inv: "buddy_inv s" and r: "1 \<le> (1 :: nat)" "1 \<le> rank_num s" using h by (auto simp: held_def)
  obtain A L where g: "good s A L" and n: "page_num s = 2 ^ 15" and ub: "used_blocks A = ones {..<k}"
    using held_good [OF h] .
  have R: "rank_num s = 16" using h by (simp add: held_def)
  note wf = goodD(4) [OF g, unfolded R]
  have first: "q = k" if best: "best_fit s q 1" for q
  proof (rule ccontr)
    assume qk: "q \<noteq> k"
    obtain t where t: "free_at s q t" "\<And>q' t'. free_at s q' t' \<Longrightarrow> 1 \<le> t' \<Longrightarrow> t \<le> t'"
      using best by (auto simp: best_fit_def)
    have f: "free_at s a b \<longleftrightarrow> A a = Some (Free, b)" for a b by (rule good_free [OF g])
    obtain p0 u t0 where c: "A p0 = Some (u, t0)" "covers p0 t0 k"
      using wf_tiling_cover [OF wf, of k] k by (auto simp: bsize_def)
    have u: "u = Free"
    proof (cases u)
      case Used
      then have "ones {..<k} p0 = Some t0" using c(1) ub used_blocks_Some [of A p0 t0] by simp
      then show ?thesis using c(2) by (simp add: covers_def)
    qed simp
    note F0 = held_free [OF h, of p0 t0]
    have f0: "free_at s p0 t0" using c u f by simp
    have p0: "p0 = k"
    proof (rule ccontr)
      assume "p0 \<noteq> k"
      then have "p0 \<in> {..<k}" using c(2) by (simp add: covers_def)
      then show False using f0 F0 covers_start by blast
    qed
    have tt: "t \<le> t0" using t(2) [OF f0] wf_tilingD(2) [OF wf c(1)] by simp
    have Fq: "wf_block 16 q t" "\<forall>x < k. \<not> covers q t x" "t < 16 \<longrightarrow> (\<exists>x < k. covers (parent_page q t) (Suc t) x)"
      using t(1) held_free [OF h, of q t] by auto
    have q: "k < q" using Fq(2) qk covers_start [of q t] by (meson linorder_neqE_nat)
    have Aq: "A q = Some (Free, t)" using t(1) f by simp
    have far: "k + bsize t0 \<le> q" using wf q c(1) Aq p0 unfolding wf_tiling_def by blast
    have t16: "t < 16"
    proof (rule ccontr)
      assume "\<not> t < 16"
      then have "bsize 16 dvd q" "q < bsize 16" using Fq(1) by (auto simp: wf_block_def)
      then show False using q by (simp add: nat_dvd_not_less)
    qed
    then obtain x where x: "x < k" "covers (parent_page q t) (Suc t) x" using Fq(3) by blast
    have t1: "1 \<le> t" "bsize t dvd q" using Fq(1) by (auto simp: wf_block_def)
    from t1 have "q < k + bsize t"
    proof (cases rule: buddy_cases)
      case left
      then show ?thesis using x q by (auto simp: covers_def)
    next
      case right
      then show ?thesis using x by (auto simp: covers_def)
    qed
    then show False using far bsize_mono [OF tt] by linarith
  qed
  show ?thesis
  proof (cases rule: alloc_cases [OF inv r])
    case 1
    have "fits s k 1"
      unfolding fits_def using n k h by (auto simp: held_def overlaps_def)
    then show ?thesis using 1(2) by blast
  next
    case (2 q s')
    have "q = k" by (rule first [OF 2(8)])
    moreover have "{..<Suc k} = insert k {..<k}" by auto
    ultimately have "held p {..<Suc k} s'" using 2 h by (simp add: held_def)
    then show ?thesis using that 2(1) \<open>q = k\<close> held_page [OF h] by simp
  qed
qed

subsection \<open>The counters\<close>

lemma held_count:
  assumes h: "held p W s" and r: "1 \<le> r" "r \<le> 16"
  shows "query_page_counts (int r) s = int (card {q. free_at s q r})"
proof -
  obtain A L where g: "good s A L" using held_good [OF h] .
  have R: "rank_num s = 16" using h by (simp add: held_def)
  note c = count_free [OF g r(1), unfolded R, OF r(2)]
  have "bcount s r < 2 ^ 31" using c(2) by simp
  then show ?thesis using r R c(1) by (simp add: query_page_counts_def sint_of_nat_small)
qed

lemma count_full:
  assumes h: "held p {..<2 ^ 15} s" and r: "1 \<le> r" "r \<le> 16"
  shows "query_page_counts (int r) s = 0"
proof -
  have "\<not> free_at s q r" for q
  proof
    assume "free_at s q r"
    then have "wf_block 16 q r" "\<forall>x \<in> {..<2 ^ 15}. \<not> covers q r x" using held_free [OF h] by blast+
    moreover then have "q \<in> {..<2 ^ 15}" by (simp add: wf_block_def bsize_def)
    ultimately show False using covers_start by blast
  qed
  then show ?thesis by (simp add: held_count [OF h r])
qed

text \<open>The first \<open>2 ^ (c - 1)\<close> pages are free.\<close>

lemma count_tail:
  assumes h: "held p {bsize c..<2 ^ 15} s" and c: "1 \<le> c" "c \<le> 16" and r: "1 \<le> r" "r \<le> 16"
  shows "query_page_counts (int r) s = (if r = c then 1 else 0)" "free_at s 0 c"
proof -
  obtain A L where g: "good s A L" using held_good [OF h] .
  have R: "rank_num s = 16" using h by (simp add: held_def)
  note wf = goodD(4) [OF g, unfolded R]
  have f: "free_at s a b \<longleftrightarrow> A a = Some (Free, b)" for a b by (rule good_free [OF g])
  have "\<exists>x \<in> {bsize c..<2 ^ 15}. covers (parent_page 0 c) (Suc c) x" if "c < 16"
  proof
    have "(2 :: nat) ^ (c - 1) < 2 ^ 15" using that c by (intro power_strict_increasing) auto
    then show "bsize c \<in> {bsize c..<2 ^ 15}" by (simp add: bsize_def)
    show "covers (parent_page 0 c) (Suc c) (bsize c)"
      using c by (simp add: covers_def parent_page_def bsize_Suc)
  qed
  then show free: "free_at s 0 c"
    unfolding held_free [OF h] using c by (auto simp: wf_block_def covers_def)
  have only: "q = 0 \<and> r' = c" if q: "free_at s q r'" for q r'
  proof -
    have w: "wf_block 16 q r'" and nc: "\<forall>x \<in> {bsize c..<2 ^ 15}. \<not> covers q r' x"
      using q held_free [OF h, of q r'] by blast+
    have "q < 2 ^ 15" using w by (simp add: wf_block_def bsize_def)
    then have "q < bsize c" using nc covers_start [of q r'] by (meson atLeastLessThan_iff not_le)
    then have cov: "covers 0 c q" by (simp add: covers_def)
    have A0: "A 0 = Some (Free, c)" and Aq: "A q = Some (Free, r')" using free q by (simp_all only: f)
    note uni = wf_tiling_unique [OF wf A0 Aq cov covers_start]
    show ?thesis using uni by simp
  qed
  have "{q. free_at s q r} = (if r = c then {0} else {})"
  proof (cases "r = c")
    case True
    have "{q. free_at s q c} = {0}" using free only by blast
    then show ?thesis using True by simp
  next
    case False
    then have "{q. free_at s q r} = {}" using only by blast
    then show ?thesis using False by simp
  qed
  then show "query_page_counts (int r) s = (if r = c then 1 else 0)" by (simp add: held_count [OF h r])
qed

lemma rank1_free:
  assumes h: "held p W s"
  shows "free_at s q 1 \<longleftrightarrow> q < 2 ^ 15 \<and> q \<notin> W \<and> ((if even q then q else q - 1) \<in> W \<or> Suc (if even q then q else q - 1) \<in> W)"
proof -
  have "covers a 1 x \<longleftrightarrow> x = a" "covers a (Suc 1) x \<longleftrightarrow> x = a \<or> x = Suc a" for a x
    by (auto simp: covers_def bsize_def)
  moreover have "wf_block 16 q 1 \<longleftrightarrow> q < 2 ^ 15" by (simp add: wf_block_def bsize_def)
  ultimately show ?thesis unfolding held_free [OF h] by (auto simp: parent_page_def)
qed

definition pages8 :: "nat \<Rightarrow> nat set" where "pages8 i = {x. x < 2 ^ 15 \<and> \<not> (even x \<and> x < 2 * i)}"
definition pages9 :: "nat \<Rightarrow> nat set" where "pages9 i = {x. x < 2 ^ 15 \<and> odd x \<and> 2 * i \<le> x}"

lemma card_evens: "card {q :: nat. even q \<and> 2 * a \<le> q \<and> q < 2 * b} = b - a"
proof -
  have "q \<in> (\<lambda>j. 2 * j) ` {a..<b}" if q: "even q" "2 * a \<le> q" "q < 2 * b" for q
  proof -
    obtain j where "q = 2 * j" using q(1) by (elim evenE)
    then show ?thesis using q by auto
  qed
  then have "{q :: nat. even q \<and> 2 * a \<le> q \<and> q < 2 * b} = (\<lambda>j. 2 * j) ` {a..<b}"
    by (intro subset_antisym subsetI) (blast, simp add: image_iff, elim bexE, simp)
  then show ?thesis by (simp add: card_image inj_on_def)
qed

lemma count_pages8:
  assumes h: "held p (pages8 i) s" and i: "i \<le> 2 ^ 14"
  shows "query_page_counts 1 s = int i"
proof -
  have f: "free_at s q 1 \<longleftrightarrow> even q \<and> 2 * 0 \<le> q \<and> q < 2 * i" for q
  proof (cases "even q")
    case True
    then obtain j where "q = 2 * j" by (elim evenE)
    then show ?thesis using i unfolding rank1_free [OF h] by (auto simp: pages8_def)
  next
    case False
    then show ?thesis unfolding rank1_free [OF h] by (auto simp: pages8_def)
  qed
  have "card {q. free_at s q 1} = i" unfolding f card_evens by simp
  then show ?thesis using held_count [OF h, of 1] by simp
qed

lemma count_pages9:
  assumes h: "held p (pages9 i) s" and i: "i \<le> 2 ^ 14"
  shows "query_page_counts 1 s = 2 ^ 14 - int i"
proof -
  have f: "free_at s q 1 \<longleftrightarrow> even q \<and> 2 * i \<le> q \<and> q < 2 * 2 ^ 14" for q
  proof (cases "even q")
    case True
    then obtain j where "q = 2 * j" by (elim evenE)
    then show ?thesis using i unfolding rank1_free [OF h] by (auto simp: pages9_def)
  next
    case False
    then obtain j where "q = Suc (2 * j)" by (elim oddE) simp
    then show ?thesis unfolding rank1_free [OF h] by (auto simp: pages9_def)
  qed
  have "card {q. free_at s q 1} = 2 ^ 14 - i" unfolding f by (rule card_evens)
  then show ?thesis using held_count [OF h, of 1] i by (simp add: of_nat_diff)
qed

lemma pages8_step: "i < 2 ^ 14 \<Longrightarrow> 2 * i \<in> pages8 i" "pages8 i - {2 * i} = pages8 (Suc i)"
  "pages8 0 = {..<2 ^ 15}" "pages8 (2 ^ 14) = pages9 0"
  by (auto simp: pages8_def pages9_def)

lemma pages9_step: "i < 2 ^ 14 \<Longrightarrow> Suc (2 * i) \<in> pages9 i" "pages9 i - {Suc (2 * i)} = pages9 (Suc i)"
  "pages9 (2 ^ 14) = {bsize 16..<2 ^ 15}"
  by (auto simp: pages9_def bsize_def elim!: oddE)

subsection \<open>The phases\<close>

definition page_at :: "ptr \<Rightarrow> nat \<Rightarrow> ptr" where "page_at p i = p + of_nat (i * PAGE_SIZE)"

lemma page_at_simps [simp]:
  "page_at p i + 4096 = page_at p (Suc i)" "page_at p i + 8192 = page_at p (Suc (Suc i))"
  "page_at p 0 = p"
  by (simp_all add: page_at_def PAGE_SIZE_def algebra_simps)

lemma page_at_1: "p + 1024 * 4 = page_at p 1"
  by (simp add: page_at_def PAGE_SIZE_def)

lemmas held_return_at = held_return [folded page_at_def]
lemmas held_alloc_at = held_alloc [folded page_at_def]

lemma MAXRANK0PAGE_eq: "MAXRANK0PAGE = 2 ^ 15" by (simp add: MAXRANK0PAGE_def TESTSIZE_def)

lemmas test_consts = MAXRANK0PAGE_eq MAXRANK_def

lemma phase1_ok:
  assumes p: "unat p + 2 ^ 27 < 2 ^ 64 - 4095"
  obtains s where "phase1 p buddy_start = Some s" "held p {} s"
proof -
  have n: "1 \<le> (2 :: nat) ^ 15" "(2 :: nat) ^ 15 < 2 ^ 20" by simp_all
  have past: "pg_status (meta buddy_start (2 ^ 15)) = UNDEF" by (simp add: buddy_start_def LIST_INITIALIZER_def)
  obtain s L R where s: "init_page p (int (2 ^ 15)) buddy_start = (OK, s)"
    "good s [0 \<mapsto> (Free, R)] L" "base_ptr s = p" "rank_num s = R" "page_num s \<le> 2 ^ 15" "2 ^ 15 < 2 * page_num s"
    using init_good [OF n past, of p] .
  have "1 \<le> R" "page_num s = bsize R" using goodD(5,7) [OF s(2)] s(4) by auto
  then have b: "2 ^ (R - 1) \<le> (2 :: nat) ^ 15" "(2 :: nat) ^ 15 < 2 ^ R"
    using s(5,6) by (simp_all add: bsize_def power_eq_if split: if_splits)
  have "R - 1 \<le> 15" "15 < R" using b by (simp_all only: power_increasing_iff power_strict_increasing_iff one_less_numeral_iff semiring_norm)
  then have R: "R = 16" by simp
  have "page_num s = 2 ^ 15" using \<open>page_num s = bsize R\<close> R by (simp add: bsize_def)
  then have "range_ok s" using p s(3) by (simp add: range_ok_def PAGE_SIZE_def)
  moreover have "used s = ones {}" using good_used [OF s(2)] by (auto simp: used_blocks_def fun_eq_iff ones_def)
  ultimately have "held p {} s" using s R by (auto simp: held_def buddy_inv_def)
  then show thesis using that s(1) by (simp add: phase1_def MAXRANK0PAGE_eq)
qed

lemma alloc_all:
  assumes h: "held p {} s"
    and body: "\<And>i s s'. i < 2 ^ 15 \<Longrightarrow> alloc_pages 1 s = Some (page_at p i, s') \<Longrightarrow> held p {..<Suc i} s' \<Longrightarrow>
      body i (page_at p i, s) = Some (page_at p (Suc i), s')"
  obtains s' where "each [0..<2 ^ 15] body (p, s) = Some (page_at p (2 ^ 15), s')" "held p {..<2 ^ 15} s'"
proof -
  define I where "I i qs \<longleftrightarrow> fst qs = page_at p i \<and> held p {..<i} (snd qs)" for i qs
  have step: "\<exists>qs'. body i qs = Some qs' \<and> I (Suc i) qs'" if i: "i < 2 ^ 15" and I: "I i qs" for i qs
  proof -
    have "held p {..<i} (snd qs)" using I by (simp add: I_def)
    then obtain s' where "alloc_pages 1 (snd qs) = Some (page_at p i, s')" "held p {..<Suc i} s'"
      using held_alloc_at i by blast
    with body [OF i this] I show ?thesis by (cases qs) (simp add: I_def)
  qed
  have "I 0 (p, s)" using h by (simp add: I_def)
  with step obtain qs where "each [0..<2 ^ 15] body (p, s) = Some qs" "I (2 ^ 15) qs"
    using each_inv [of 0 "2 ^ 15" I body "(p, s)"] by blast
  then show ?thesis using that by (cases qs) (simp add: I_def)
qed

lemma return_run:
  assumes h: "held p W s" and W: "{a..<b} \<subseteq> W" and ab: "a \<le> b"
    and body: "\<And>i s s'. return_pages (page_at p i) s = Some (OK, s') \<Longrightarrow> body i (page_at p i, s) = Some (page_at p (Suc i), s')"
  obtains s' where "each [a..<b] body (page_at p a, s) = Some (page_at p b, s')" "held p (W - {a..<b}) s'"
proof -
  define I where "I i qs \<longleftrightarrow> fst qs = page_at p i \<and> held p (W - {a..<i}) (snd qs)" for i qs
  have step: "\<exists>qs'. body i qs = Some qs' \<and> I (Suc i) qs'" if i: "a \<le> i" "i < b" and I: "I i qs" for i qs
  proof -
    have "held p (W - {a..<i}) (snd qs)" "i \<in> W - {a..<i}" using I i W by (auto simp: I_def)
    then obtain s' where s': "return_pages (page_at p i) (snd qs) = Some (OK, s')" "held p (W - {a..<i} - {i}) s'"
      using held_return_at by blast
    moreover have "W - {a..<i} - {i} = W - {a..<Suc i}" using i by auto
    ultimately show ?thesis using body [OF s'(1)] I by (cases qs) (simp add: I_def)
  qed
  have "I a (page_at p a, s)" using h by (simp add: I_def)
  with step ab obtain qs where "each [a..<b] body (page_at p a, s) = Some qs" "I b qs"
    using each_inv [of a b I body "(page_at p a, s)"] by blast
  then show ?thesis using that by (cases qs) (simp add: I_def)
qed

lemma phase2_ok:
  assumes h: "held p {} s"
  obtains s' where "phase2 p s = Some s'" "held p {..<2 ^ 15} s'"
proof -
  let ?body = "\<lambda>_ :: nat. \<lambda>(q, s). do {
       (r, s) \<leftarrow> alloc_pages 1 s;
       ok (r = q);
       Some (q + 1024 * 4, s) }"
  have "?body i (page_at p i, s) = Some (page_at p (Suc i), s')" if "alloc_pages 1 s = Some (page_at p i, s')" for i s s'
    using that by simp
  then obtain s' where e: "each [0..<2 ^ 15] ?body (p, s) = Some (page_at p (2 ^ 15), s')" and h': "held p {..<2 ^ 15} s'"
    by (rule alloc_all [OF h])
  have "sint (err_ptr (- ENOSPC)) = - ENOSPC" by (simp add: err_ptr_def ENOSPC_def)
  then have "phase2 p s = Some s'"
    unfolding phase2_def MAXRANK0PAGE_eq e by (simp add: held_full [OF h'] PTR_ERR_def)
  then show thesis using that h' by blast
qed

lemma phase3_ok: "held p {..<2 ^ 15} s \<Longrightarrow> phase3 p s = Some s"
  unfolding phase3_def by (intro each_check) (auto simp: MAXRANK_def intro!: count_full)

lemma phase4_ok:
  assumes h: "held p {..<2 ^ 15} s" and p: "p \<noteq> 0" "unat p + 2 ^ 27 < 2 ^ 64 - 4095"
  obtains s' where "phase4 p s = Some s'" "held p {} s'"
proof -
  let ?body = "\<lambda>_ :: nat. \<lambda>(q, s). do {
       (ret, s) \<leftarrow> return_pages q s;
       ok (ret = OK);
       Some (q + 1024 * 4, s) }"
  have "?body i (page_at p i, s) = Some (page_at p (Suc i), s')" if "return_pages (page_at p i) s = Some (OK, s')" for i s s'
    using that by simp
  then obtain s' where e: "each [0..<2 ^ 15] ?body (page_at p 0, s) = Some (page_at p (2 ^ 15), s')"
    and h': "held p ({..<2 ^ 15} - {0..<2 ^ 15}) s'"
    by (rule return_run [OF h, of 0 "2 ^ 15", rotated 2]) auto
  have inv: "buddy_inv s" and ok: "range_ok s" and b: "base_ptr s = p"
    using h by (auto simp: held_def buddy_inv_def)
  obtain A L where n: "page_num s = 2 ^ 15" using held_good [OF h] .
  let ?far = "p + of_nat (TESTSIZE * 1024 * 1024) + 16"
  have d: "?far - p = of_nat (2 ^ 27 + 16)" by (simp add: TESTSIZE_def)
  have du: "unat (?far - p) = 2 ^ 27 + 16" unfolding d by simp
  have page: "i \<le> 2 ^ 15 \<and> page_ptr s i \<noteq> 0 \<and> page_ptr s i \<noteq> ?far" if "used s i \<noteq> None" for i
  proof -
    have i: "i < 2 ^ 15" using that h by (auto simp: held_def)
    then have "unat (page_ptr s i) = unat p + i * PAGE_SIZE" "unat (page_ptr s i - p) = i * PAGE_SIZE"
      using unat_page_ptr(1) [OF ok, of i] page_ptr_diff [OF ok, of i] n b by simp_all
    moreover have "0 < unat p" using p(1) by (simp add: unat_gt_0)
    moreover have "i * PAGE_SIZE < 2 ^ 27" using i by (simp add: PAGE_SIZE_def)
    ultimately show ?thesis using du i by auto
  qed
  have "near_ptr s 0" "near_ptr s ?far" using p(1) du b by (simp_all add: near_ptr_def)
  then have r: "return_pages 0 s = Some (- EINVAL, s)" "return_pages ?far s = Some (- EINVAL, s)"
    using return_miss [OF inv] page by metis+
  have "PTR_ERR (of_int (- EINVAL)) = - EINVAL" by (simp add: PTR_ERR_def EINVAL_def)
  then have "phase4 p s = Some s'"
    by (simp only: phase4_def MAXRANK0PAGE_eq r e [unfolded page_at_simps] Option.bind.simps prod.case simp_thms ok_True)
  then show thesis using that h' by (simp add: atLeast0LessThan)
qed

lemma held_empty:
  assumes h: "held p {} s"
  shows "1 \<le> r \<Longrightarrow> r \<le> 16 \<Longrightarrow> query_page_counts (int r) s = (if r = 16 then 1 else 0)" "free_at s 0 16"
proof -
  have "held p {bsize 16..<2 ^ 15} s" using h by (simp add: bsize_def)
  from count_tail [OF this] show "1 \<le> r \<Longrightarrow> r \<le> 16 \<Longrightarrow> query_page_counts (int r) s = (if r = 16 then 1 else 0)"
    by simp
  from count_tail(2) [OF \<open>held p {bsize 16..<2 ^ 15} s\<close>, of 16] show "free_at s 0 16" by simp
qed

lemma phase5_ok:
  assumes h: "held p {} s"
  shows "phase5 p s = Some s"
proof -
  have "each [1..<MAXRANK] (\<lambda>i s. do { ok (query_page_counts (int i) s = 0); Some s }) s = Some s"
    by (rule each_check) (auto simp: MAXRANK_def held_empty [OF h])
  moreover have "query_page_counts (int MAXRANK) s = 1" using held_empty(1) [OF h, of 16] by (simp add: MAXRANK_def)
  ultimately show ?thesis by (simp add: phase5_def)
qed

lemma phase6_ok:
  assumes h: "held p {} s"
  shows "phase6 p s = Some s"
proof -
  have inv: "buddy_inv s" using h by (simp add: held_def)
  have "query_ranks (page_ptr s 0) s = int 16" using query_ranks_block [OF inv] held_empty(2) [OF h] by blast
  then show ?thesis using held_page [OF h, of 0] by (simp add: phase6_def MAXRANK_def)
qed

lemma phase7_ok:
  assumes h: "held p {} s"
  obtains q s' where "phase7 p s = Some (q, s')" "held p {..<2 ^ 15} s'"
proof -
  let ?body = "\<lambda>_ :: nat. \<lambda>(q, s). do {
     (r, s) \<leftarrow> alloc_pages 1 s;
     ok (query_ranks r s = 1);
     Some (q + 1024 * 4, s) }"
  have "?body i (page_at p i, s) = Some (page_at p (Suc i), s')"
    if a: "alloc_pages 1 s = Some (page_at p i, s')" and h': "held p {..<Suc i} s'" for i s s'
  proof -
    have "query_ranks (page_ptr s' i) s' = int 1"
      using query_ranks_block [of s' i 1] h' by (auto simp: held_def)
    then show ?thesis using a held_page [OF h', of i, folded page_at_def] by simp
  qed
  then obtain s' where "each [0..<2 ^ 15] ?body (p, s) = Some (page_at p (2 ^ 15), s')" "held p {..<2 ^ 15} s'"
    by (rule alloc_all [OF h])
  then show thesis using that by (simp only: phase7_def MAXRANK0PAGE_eq)
qed

text \<open>Phase 8A: the pages come back in runs of 1, 1, 2, 4, ...; after each run there is one free block.\<close>

lemma pow2f_eq: "pow2f (int n) = 2 ^ n"
  by (induction n) (subst pow2f.simps, simp)+

definition run_start :: "nat \<Rightarrow> nat" where "run_start c = (if c = 1 then 0 else 2 ^ (c - 2))"

lemma run_start_Suc:
  assumes "1 \<le> c"
  shows "run_start c + pow2f (int c - 2) = run_start (Suc c)" "run_start (Suc c) = bsize c"
    "run_start c \<le> run_start (Suc c)"
proof -
  show "run_start (Suc c) = bsize c" using assms by (simp add: run_start_def bsize_def)
  show "run_start c + pow2f (int c - 2) = run_start (Suc c)"
  proof (cases "c = 1")
    case True
    then show ?thesis by (simp add: run_start_def pow2f.simps)
  next
    case False
    define k where "k = c - 2"
    have c: "c = k + 2" using False assms by (simp add: k_def)
    then have "pow2f (int c - 2) = 2 ^ k" using pow2f_eq [of k] by simp
    then show ?thesis using c by (simp add: run_start_def)
  qed
  then show "run_start c \<le> run_start (Suc c)" by linarith
qed

lemma each_const: "length xs = length ys \<Longrightarrow> each xs (\<lambda>_. f) s = each ys (\<lambda>_. f) s"
proof (induction xs ys arbitrary: s rule: list_induct2)
  case (Cons x xs y ys)
  then show ?case by (cases "f s") simp_all
qed simp

lemma run_returned:
  assumes h: "held p {run_start c..<2 ^ 15} s" and c: "1 \<le> c" "c \<le> 16"
  obtains s' where "each [0..<pow2f (int c - 2)] (\<lambda>_ (q, s). do {
         (ret, s) \<leftarrow> return_pages q s;
         Some (q + 1024 * 4, s) }) (page_at p (run_start c), s) = Some (page_at p (run_start (Suc c)), s')"
    "held p {run_start (Suc c)..<2 ^ 15} s'"
proof -
  let ?body = "\<lambda>_ :: nat. \<lambda>(q, s). do { (ret, s) \<leftarrow> return_pages q s; Some (q + 1024 * 4, s) }"
  note rs = run_start_Suc [OF c(1)]
  have "(2 :: nat) ^ (c - 1) \<le> 2 ^ 15" using c by (intro power_increasing) auto
  then have b: "run_start (Suc c) \<le> 2 ^ 15" by (simp add: rs(2) bsize_def)
  have "?body i (page_at p i, s) = Some (page_at p (Suc i), s')" if "return_pages (page_at p i) s = Some (OK, s')" for i s s'
    using that by simp
  then obtain s' where e: "each [run_start c..<run_start (Suc c)] ?body (page_at p (run_start c), s) =
      Some (page_at p (run_start (Suc c)), s')"
    and h': "held p ({run_start c..<2 ^ 15} - {run_start c..<run_start (Suc c)}) s'"
    using b rs(3) by (elim return_run [OF h, of "run_start c" "run_start (Suc c)", rotated 2]) auto
  have "{run_start c..<2 ^ 15} - {run_start c..<run_start (Suc c)} = {run_start (Suc c)..<2 ^ 15}" using rs(3) by auto
  then have h'': "held p {run_start (Suc c)..<2 ^ 15} s'" using h' by simp
  have "length [0..<pow2f (int c - 2)] = length [run_start c..<run_start (Suc c)]" using rs(1) by simp
  note len = each_const [OF this, where f = "\<lambda>(q, s). do { (ret, s) \<leftarrow> return_pages q s; Some (q + 1024 * 4, s) }"]
  show thesis by (rule that [OF _ h'']) (simp only: len e)
qed

lemma alloc_none:
  assumes h: "held p {..<2 ^ 15} s"
  obtains q' where "each xs (\<lambda>_ (q, s). do {
       (r, s) \<leftarrow> alloc_pages 1 s;
       Some (q + 1024 * 4, s) }) (q, s) = Some (q', s)"
proof -
  have "\<exists>q'. each xs (\<lambda>_ (q, s). do { (r, s) \<leftarrow> alloc_pages 1 s; Some (q + 1024 * 4, s) }) (q, s) = Some (q', s)"
    by (induction xs arbitrary: q) (simp_all add: held_full [OF h])
  then show ?thesis using that by blast
qed

lemma phase8a_ok:
  assumes h: "held p {..<2 ^ 15} s"
  obtains s' where "phase8a p (q, s) = Some s'" "held p {} s'"
proof -
  let ?body = "\<lambda>currentRank (q, s). do {
       (q, s) \<leftarrow> each [0..<pow2f (int currentRank - 2)] (\<lambda>_ (q, s). do {
         (ret, s) \<leftarrow> return_pages q s;
         Some (q + 1024 * 4, s) }) (q, s);
       s \<leftarrow> each [1..<currentRank] (\<lambda>rankIdx s. do { ok (query_page_counts (int rankIdx) s = 0); Some s }) s;
       ok (query_page_counts (int currentRank) s = 1);
       Some (q, s) }"
  define I where "I c qs \<longleftrightarrow> fst qs = page_at p (run_start c) \<and> held p {run_start c..<2 ^ 15} (snd qs)" for c qs
  have step: "\<exists>qs'. ?body c qs = Some qs' \<and> I (Suc c) qs'" if c: "1 \<le> c" "c < 17" and I: "I c qs" for c qs
  proof -
    have c16: "c \<le> 16" using c by simp
    obtain s where qs: "qs = (page_at p (run_start c), s)" and "held p {run_start c..<2 ^ 15} s"
      using I by (cases qs) (auto simp: I_def)
    from run_returned [OF this(2) c(1) c16] obtain s' where
      e: "each [0..<pow2f (int c - 2)] (\<lambda>_ (q, s). do {
         (ret, s) \<leftarrow> return_pages q s;
         Some (q + 1024 * 4, s) }) (page_at p (run_start c), s) = Some (page_at p (run_start (Suc c)), s')"
      and h': "held p {run_start (Suc c)..<2 ^ 15} s'" .
    note counts = count_tail(1) [OF h' [unfolded run_start_Suc(2) [OF c(1)]] c(1) c16]
    have zero: "each [1..<c] (\<lambda>rankIdx s. do { ok (query_page_counts (int rankIdx) s = 0); Some s }) s' = Some s'"
      using c by (intro each_check) (simp add: counts)
    have one: "query_page_counts (int c) s' = 1" using counts [OF c(1) c16] by simp
    show ?thesis using h' by (simp only: qs e zero one Option.bind.simps prod.case ok_True I_def fst_conv snd_conv
      option.inject simp_thms)
  qed
  obtain q' where a: "each [0..<2 ^ 15] (\<lambda>_ (q, s). do {
       (r, s) \<leftarrow> alloc_pages 1 s;
       Some (q + 1024 * 4, s) }) (q, s) = Some (q', s)" by (rule alloc_none [OF h])
  have full: "query_page_counts (int 16) s = 0" by (rule count_full [OF h]) simp_all
  have I1: "I 1 (p, s)" using h by (simp add: I_def run_start_def atLeast0LessThan)
  have le: "(1 :: nat) \<le> 17" by simp
  obtain qs where e: "each [1..<17] ?body (p, s) = Some qs" and "I 17 qs"
    by (rule each_inv [where I = I and body = ?body, OF le step I1])
  then have h': "held p {} (snd qs)" by (simp add: I_def run_start_def)
  obtain q'' s' where qs: "qs = (q'', s')" by (cases qs)
  have n17: "(16 :: nat) + 1 = 17" by simp
  have "phase8a p (q, s) = Some s'"
    by (simp only: phase8a_def MAXRANK0PAGE_eq MAXRANK_def n17 prod.case a full Option.bind.simps ok_True e qs simp_thms)
  then show thesis using that h' qs by simp
qed

text \<open>Phase 8B: first the even pages come back, which cannot merge, then the odd ones, each of which merges.\<close>

lemma phase8b_ok:
  assumes h: "held p {} s"
  obtains s' where "phase8b p s = Some s'" "held p {} s'"
proof -
  let ?alloc = "\<lambda>_ :: nat. \<lambda>(q, s). do {
       (r, s) \<leftarrow> alloc_pages 1 s;
       Some (q + 1024 * 4, s) }"
  let ?up = "\<lambda>_ :: nat. \<lambda>(q, freeCnt :: int, s). do {
       (ret, s) \<leftarrow> return_pages q s;
       ok (query_page_counts 1 s = freeCnt + 1);
       Some (q + 1024 * 4 * 2, freeCnt + 1, s) }"
  let ?down = "\<lambda>_ :: nat. \<lambda>(q, freeCnt :: int, s). do {
       (ret, s) \<leftarrow> return_pages q s;
       ok (query_page_counts 1 s = freeCnt - 1);
       Some (q + 1024 * 4 * 2, freeCnt - 1, s) }"
  have al: "?alloc i (page_at p i, s) = Some (page_at p (Suc i), s')" if "alloc_pages 1 s = Some (page_at p i, s')" for i s s'
    using that by simp
  obtain s1 where e1: "each [0..<2 ^ 15] ?alloc (p, s) = Some (page_at p (2 ^ 15), s1)" and h1: "held p {..<2 ^ 15} s1"
    by (rule alloc_all [where body = ?alloc, OF h al])
  define I where "I i x \<longleftrightarrow> (\<exists>t. x = (page_at p (2 * i), int i, t) \<and> held p (pages8 i) t)" for i x
  define J where "J i x \<longleftrightarrow> (\<exists>t. x = (page_at p (Suc (2 * i)), 2 ^ 14 - int i, t) \<and> held p (pages9 i) t)" for i x
  have up: "\<exists>x'. ?up i x = Some x' \<and> I (Suc i) x'" if i: "0 \<le> i" "i < 2 ^ 14" and I: "I i x" for i x
  proof -
    obtain t where x: "x = (page_at p (2 * i), int i, t)" and t: "held p (pages8 i) t" using I by (auto simp: I_def)
    obtain t' where r: "return_pages (page_at p (2 * i)) t = Some (OK, t')" and t': "held p (pages8 (Suc i)) t'"
      using held_return_at [OF t pages8_step(1) [OF i(2)]] pages8_step(2) by metis
    have "query_page_counts 1 t' = int i + 1" using count_pages8 [OF t'] i by simp
    then show ?thesis using x r t' by (simp add: I_def)
  qed
  have down: "\<exists>x'. ?down i x = Some x' \<and> J (Suc i) x'" if i: "0 \<le> i" "i < 2 ^ 14" and J: "J i x" for i x
  proof -
    obtain t where x: "x = (page_at p (Suc (2 * i)), 2 ^ 14 - int i, t)" and t: "held p (pages9 i) t" using J by (auto simp: J_def)
    obtain t' where r: "return_pages (page_at p (Suc (2 * i))) t = Some (OK, t')" and t': "held p (pages9 (Suc i)) t'"
      using held_return_at [OF t pages9_step(1) [OF i(2)]] pages9_step(2) by metis
    have "query_page_counts 1 t' = 2 ^ 14 - int i - 1" using count_pages9 [OF t'] i by simp
    then show ?thesis using x r t' by (simp add: J_def)
  qed
  have le: "(0 :: nat) \<le> 2 ^ 14" by simp
  have I0: "I 0 (p, 0, s1)" using h1 by (simp add: I_def pages8_step(3))
  obtain x2 where e2: "each [0..<2 ^ 14] ?up (p, 0, s1) = Some x2" and "I (2 ^ 14) x2"
    by (rule each_inv [where I = I and body = ?up, OF le up I0])
  then obtain q2 s2 where x2: "x2 = (q2, 2 ^ 14, s2)" and h2: "held p (pages9 0) s2"
    by (auto simp only: I_def pages8_step(4) of_nat_power of_nat_numeral)
  have J0: "J 0 (p + 1024 * 4, 2 ^ 14, s2)" unfolding J_def page_at_1 using h2 by simp
  obtain x3 where e3: "each [0..<2 ^ 14] ?down (p + 1024 * 4, 2 ^ 14, s2) = Some x3" and "J (2 ^ 14) x3"
    by (rule each_inv [where I = J and body = ?down, OF le down J0])
  then obtain q3 s3 where x3: "x3 = (q3, 0, s3)" and h3: "held p {} s3"
    using pages9_step(3) by (auto simp: J_def bsize_def)
  have half: "MAXRANK0PAGE div 2 = 2 ^ 14" by (simp add: MAXRANK0PAGE_eq)
  have "query_page_counts (int 16) s3 = 1" using held_empty(1) [OF h3, of 16] by simp
  then have last: "ok (query_page_counts (int 16) s3 \<noteq> 0) = Some ()" by simp
  have "phase8b p s = Some s3"
    by (simp only: phase8b_def half MAXRANK_def e1 [folded MAXRANK0PAGE_eq] e2 e3 x2 x3 last Option.bind.simps prod.case)
  then show thesis using that h3 by blast
qed

subsection \<open>The result\<close>

text \<open>C7: the test program passes. For every address that \<open>malloc\<close> can answer, all checks of \<open>main\<close> hold, all calls
  return, and at the end every page has been given back.\<close>

theorem buddy_tests_pass:
  assumes "p \<noteq> 0" "unat p + 2 ^ 27 < 2 ^ 64 - 4095"
  shows "\<exists>s. test_main p buddy_start = Some s \<and> buddy_inv s \<and> used s = Map.empty"
proof -
  obtain s1 where s1: "phase1 p buddy_start = Some s1" "held p {} s1" using phase1_ok [OF assms(2)] .
  obtain s2 where s2: "phase2 p s1 = Some s2" "held p {..<2 ^ 15} s2" using phase2_ok [OF s1(2)] .
  obtain s4 where s4: "phase4 p s2 = Some s4" "held p {} s4" using phase4_ok [OF s2(2) assms] .
  obtain q s7 where s7: "phase7 p s4 = Some (q, s7)" "held p {..<2 ^ 15} s7" using phase7_ok [OF s4(2)] .
  obtain s8 where s8: "phase8a p (q, s7) = Some s8" "held p {} s8" using phase8a_ok [OF s7(2)] .
  obtain s9 where s9: "phase8b p s8 = Some s9" "held p {} s9" using phase8b_ok [OF s8(2)] .
  have "test_main p buddy_start = Some s9"
    by (simp only: test_main_def s1 s2 phase3_ok [OF s2(2)] s4 phase5_ok [OF s4(2)] phase6_ok [OF s4(2)] s7 s8 s9
      Option.bind.simps)
  moreover have "buddy_inv s9 \<and> used s9 = Map.empty" using s9(2) by (auto simp: held_def fun_eq_iff)
  ultimately show ?thesis by blast
qed

theorem buddy_tests_pass_witness: "\<exists>s. test_main (2 ^ 32) buddy_start = Some s \<and> buddy_inv s \<and> used s = Map.empty"
  by (rule buddy_tests_pass) simp_all

end
