(* ===== verification/Mem.thy ===== *)
theory Mem
  imports C_Prelude
begin

section \<open>Byte-addressed memory\<close>

text \<open>
  The allocators of practice-2/practice\_2-2 store their headers in the memory they manage.
  The memory is a function from addresses to bytes; \<open>load_le\<close> and \<open>store_le\<close> access a
  little-endian integer of a given number of bytes, as x86 does. \<open>copy_bytes\<close> and
  \<open>fill_bytes\<close> are \<open>memcpy\<close> and \<open>memset\<close>.
\<close>

type_synonym memory = "addr \<Rightarrow> 8 word"

primrec load_le :: "memory \<Rightarrow> addr \<Rightarrow> nat \<Rightarrow> nat" where
  "load_le m a 0 = 0"
| "load_le m a (Suc n) = unat (m a) + 256 * load_le m (Suc a) n"

primrec store_le :: "memory \<Rightarrow> addr \<Rightarrow> nat \<Rightarrow> nat \<Rightarrow> memory" where
  "store_le m a 0 v = m"
| "store_le m a (Suc n) v = store_le (m(a := of_nat v)) (Suc a) n (v div 256)"

definition load32 :: "memory \<Rightarrow> addr \<Rightarrow> nat" where "load32 m a = load_le m a 4"
definition store32 :: "memory \<Rightarrow> addr \<Rightarrow> nat \<Rightarrow> memory" where "store32 m a v = store_le m a 4 v"
definition load64 :: "memory \<Rightarrow> addr \<Rightarrow> nat" where "load64 m a = load_le m a 8"
definition store64 :: "memory \<Rightarrow> addr \<Rightarrow> nat \<Rightarrow> memory" where "store64 m a v = store_le m a 8 v"

definition copy_bytes :: "addr \<Rightarrow> addr \<Rightarrow> nat \<Rightarrow> memory \<Rightarrow> memory" where
  "copy_bytes dst src n m = fold (\<lambda>i m'. m'(dst + i := m (src + i))) [0..<n] m"

definition fill_bytes :: "addr \<Rightarrow> 8 word \<Rightarrow> nat \<Rightarrow> memory \<Rightarrow> memory" where
  "fill_bytes dst b n m = fold (\<lambda>i m'. m'(dst + i := b)) [0..<n] m"

lemma store_le_other: "x < a \<or> a + n \<le> x \<Longrightarrow> store_le m a n v x = m x"
  by (induction n arbitrary: m a v) auto

lemma load_le_cong: "(\<And>i. i < n \<Longrightarrow> m (a + i) = m' (a + i)) \<Longrightarrow> load_le m a n = load_le m' a n"
proof (induction n arbitrary: a)
  case (Suc n)
  have "m a = m' a" using Suc.prems [of 0] by simp
  moreover have "load_le m (Suc a) n = load_le m' (Suc a) n"
    by (rule Suc.IH) (use Suc.prems [of "Suc _"] in simp)
  ultimately show ?case by simp
qed simp

lemma load_le_less: "load_le m a n < 256 ^ n"
proof (induction n arbitrary: a)
  case (Suc n)
  have "unat (m a) < 256" by (rule less_le_trans [OF unsigned_less]) simp
  moreover have "Suc (load_le m (Suc a) n) \<le> 256 ^ n" using Suc [of "Suc a"] by simp
  then have "256 * Suc (load_le m (Suc a) n) \<le> 256 * 256 ^ n" by (rule mult_le_mono2)
  ultimately show ?case by simp
qed simp

lemma load_store_le: "load_le (store_le m a n v) a n = v mod 256 ^ n"
proof (induction n arbitrary: m a v)
  case (Suc n)
  have "store_le (m(a := of_nat v)) (Suc a) n (v div 256) a = of_nat v"
    by (simp add: store_le_other)
  then show ?case using Suc [of _ "Suc a" "v div 256"]
    by (simp add: unat_of_nat take_bit_eq_mod mod_mult2_eq)
qed simp

lemma load_store_le_other:
  "b + k \<le> a \<or> a + n \<le> b \<Longrightarrow> load_le (store_le m a n v) b k = load_le m b k"
  by (rule load_le_cong, rule store_le_other) auto

lemmas word_access_defs = load32_def store32_def load64_def store64_def

lemma load_store32 [simp]: "load32 (store32 m a v) a = u32 v"
  by (simp add: word_access_defs load_store_le u32_def)

lemma load_store64 [simp]: "load64 (store64 m a v) a = u64 v"
  by (simp add: word_access_defs load_store_le u64_def)

lemma load_store32_other: "b + 4 \<le> a \<or> a + 4 \<le> b \<Longrightarrow> load32 (store32 m a v) b = load32 m b"
  by (simp add: word_access_defs load_store_le_other)

lemma load_store64_other: "b + 8 \<le> a \<or> a + 8 \<le> b \<Longrightarrow> load64 (store64 m a v) b = load64 m b"
  by (simp add: word_access_defs load_store_le_other)

lemma store32_other: "x < a \<or> a + 4 \<le> x \<Longrightarrow> store32 m a v x = m x"
  by (simp add: word_access_defs store_le_other)

lemma store64_other: "x < a \<or> a + 8 \<le> x \<Longrightarrow> store64 m a v x = m x"
  by (simp add: word_access_defs store_le_other)

lemma load64_cong: "(\<And>i. i < 8 \<Longrightarrow> m (a + i) = m' (a + i)) \<Longrightarrow> load64 m a = load64 m' a"
  unfolding word_access_defs by (rule load_le_cong)

lemma load32_cong: "(\<And>i. i < 4 \<Longrightarrow> m (a + i) = m' (a + i)) \<Longrightarrow> load32 m a = load32 m' a"
  unfolding word_access_defs by (rule load_le_cong)

lemma load32_less: "load32 m a < 2 ^ 32"
  using load_le_less [of m a 4] by (simp add: word_access_defs)

lemma load64_less: "load64 m a < 2 ^ 64"
  using load_le_less [of m a 8] by (simp add: word_access_defs)

text \<open>\<open>memcpy\<close> between ranges that do not overlap, and \<open>memset\<close>.\<close>

lemma fold_bytes:
  "fold (\<lambda>i m'. m'(dst + i := f i)) [0..<n] m x = (if dst \<le> x \<and> x < dst + n then f (x - dst) else m x)"
  by (induction n) (auto simp: less_Suc_eq)

lemma copy_bytes_at:
  "copy_bytes dst src n m x = (if dst \<le> x \<and> x < dst + n then m (src + (x - dst)) else m x)"
  by (simp add: copy_bytes_def fold_bytes)

lemma fill_bytes_at: "fill_bytes dst b n m x = (if dst \<le> x \<and> x < dst + n then b else m x)"
  by (simp add: fill_bytes_def fold_bytes)

end
