(* ===== verification/Memlib.thy ===== *)
theory Memlib
  imports Mem
begin

section \<open>The simulated memory system (practice-2/practice\_2-2/memlib.c)\<close>

text \<open>
  The private variables of memlib.c with the memory they describe. The record is extensible: an
  allocator that keeps static variables of its own adds them as further fields, so every
  operation of memlib works on every allocator's state. The address that \<open>mmap\<close> answers is an
  argument of \<open>mem_init\<close>, and so is the page size of the system.
\<close>

record memlib =
  heap :: addr
  mem_brk :: addr
  mem_max_addr :: addr
  errno :: int
  bytes :: memory

definition MAX_HEAP :: nat where "MAX_HEAP = 100 * 2 ^ 20"
definition ENOMEM :: int where "ENOMEM = 12"

text \<open>The pointer \<open>(void *) -1\<close>.\<close>

definition PTR_FAIL :: addr where "PTR_FAIL = to_u64 (- 1)"

definition mem_init :: "addr \<Rightarrow> 'p memlib_scheme \<Rightarrow> 'p memlib_scheme" where
  "mem_init mapped s =
     (let s = s\<lparr>heap := mapped, bytes := fill_bytes mapped 0 MAX_HEAP (bytes s)\<rparr>;
          s = s\<lparr>mem_max_addr := heap s + MAX_HEAP\<rparr>
      in s\<lparr>mem_brk := heap s\<rparr>)"

definition mem_reset_brk :: "'p memlib_scheme \<Rightarrow> 'p memlib_scheme" where
  "mem_reset_brk s = s\<lparr>mem_brk := heap s\<rparr>"

definition mem_sbrk :: "int \<Rightarrow> 'p memlib_scheme \<Rightarrow> addr \<times> 'p memlib_scheme" where
  "mem_sbrk incr s =
     (let old_brk = mem_brk s
      in if incr < 0 \<or> mem_max_addr s < mem_brk s + nat incr
         then (PTR_FAIL, s\<lparr>errno := ENOMEM\<rparr>)
         else (old_brk, s\<lparr>mem_brk := mem_brk s + nat incr\<rparr>))"

definition mem_heap_lo :: "'p memlib_scheme \<Rightarrow> addr" where "mem_heap_lo s = heap s"
definition mem_heap_hi :: "'p memlib_scheme \<Rightarrow> addr" where "mem_heap_hi s = sub64 (mem_brk s) 1"
definition mem_heapsize :: "'p memlib_scheme \<Rightarrow> nat" where "mem_heapsize s = sub64 (mem_brk s) (heap s)"
definition mem_pagesize :: "int \<Rightarrow> nat" where "mem_pagesize getpagesize = to_u64 getpagesize"

text \<open>The heap range is the one of \<open>mem_init\<close>: page aligned, in the lower half of the address space.\<close>

definition mem_ok :: "'p memlib_scheme \<Rightarrow> bool" where
  "mem_ok s \<longleftrightarrow> 0 < heap s \<and> 8 dvd heap s \<and> heap s \<le> mem_brk s \<and> mem_brk s \<le> mem_max_addr s
     \<and> mem_max_addr s = heap s + MAX_HEAP \<and> mem_max_addr s < 2 ^ 63"

definition same_heap :: "'p memlib_scheme \<Rightarrow> 'p memlib_scheme \<Rightarrow> bool" where
  "same_heap s s' \<longleftrightarrow> heap s' = heap s \<and> mem_max_addr s' = mem_max_addr s \<and> mem_brk s \<le> mem_brk s'"

lemma mem_okD:
  assumes "mem_ok s"
  shows "0 < heap s" "8 dvd heap s" "heap s \<le> mem_brk s" "mem_brk s \<le> mem_max_addr s"
    "mem_max_addr s = heap s + MAX_HEAP" "mem_max_addr s < 2 ^ 63" "mem_brk s < 2 ^ 63"
  using assms by (auto simp: mem_ok_def)

lemma mem_ok_init: "0 < a \<Longrightarrow> 8 dvd a \<Longrightarrow> a + MAX_HEAP < 2 ^ 63 \<Longrightarrow> mem_ok (mem_init a s)"
  by (simp add: mem_ok_def mem_init_def Let_def)

lemma mem_sbrk_fail:
  "incr < 0 \<or> mem_max_addr s < mem_brk s + nat incr \<Longrightarrow> mem_sbrk incr s = (PTR_FAIL, s\<lparr>errno := ENOMEM\<rparr>)"
  by (simp add: mem_sbrk_def Let_def)

lemma mem_sbrk_int:
  "mem_brk s + n \<le> mem_max_addr s \<Longrightarrow> mem_sbrk (int n) s = (mem_brk s, s\<lparr>mem_brk := mem_brk s + n\<rparr>)"
  by (simp add: mem_sbrk_def Let_def)

lemma mem_heap_hi_small: "0 < mem_brk s \<Longrightarrow> mem_brk s < 2 ^ 63 \<Longrightarrow> mem_heap_hi s = mem_brk s - 1"
  by (simp add: mem_heap_hi_def sub64_small)

lemma PTR_FAIL_negative: "s64 PTR_FAIL < 0" "PTR_FAIL = 2 ^ 64 - 1"
  by (simp_all add: s64_def PTR_FAIL_def to_u64_def u64_def)

end
