(* ===== verification/MM_Spec.thy ===== *)
theory MM_Spec
  imports Memlib
begin

section \<open>The contract of a malloc package\<close>

text \<open>
  mdriver.c links one malloc package (mm.c) and calls its entry points. \<open>mm_package\<close> is the
  table of these entry points; each is a partial function of the memory system, with \<open>None\<close> for
  a call that does not return (a loop that does not end or an access through NULL).

  The locale \<open>malloc_contract\<close> states what the driver relies on. \<open>inv L s\<close> relates a state to the
  map \<open>L\<close> of live payloads (address to size); the laws say that every operation keeps it with
  the map updated, keeps the bytes of every other live payload, and, as long as the break can
  still grow by \<open>cost n\<close>, satisfies a request of \<open>n\<close> bytes. The client may write into live
  payloads freely.
\<close>

record 'p mm_package =
  mm_init :: "'p memlib_scheme \<Rightarrow> (int \<times> 'p memlib_scheme) option"
  mm_malloc :: "nat \<Rightarrow> 'p memlib_scheme \<Rightarrow> (addr \<times> 'p memlib_scheme) option"
  mm_free :: "addr \<Rightarrow> 'p memlib_scheme \<Rightarrow> 'p memlib_scheme option"
  mm_realloc :: "addr \<Rightarrow> nat \<Rightarrow> 'p memlib_scheme \<Rightarrow> (addr \<times> 'p memlib_scheme) option"
  mm_checkheap :: "int \<Rightarrow> 'p memlib_scheme \<Rightarrow> 'p memlib_scheme option"

type_synonym live = "addr \<rightharpoonup> nat"

text \<open>Live payloads are aligned, not empty, inside the heap and share no byte.\<close>

definition live_ok :: "live \<Rightarrow> 'p memlib_scheme \<Rightarrow> bool" where
  "live_ok L s \<longleftrightarrow>
     (\<forall>p n. L p = Some n \<longrightarrow> 0 < n \<and> 8 dvd p \<and> heap s \<le> p \<and> p + n \<le> mem_brk s)
   \<and> (\<forall>p q n k. L p = Some n \<and> L q = Some k \<and> p < q \<longrightarrow> p + n \<le> q)"

definition kept :: "live \<Rightarrow> 'p memlib_scheme \<Rightarrow> 'p memlib_scheme \<Rightarrow> bool" where
  "kept L s s' \<longleftrightarrow> (\<forall>p n i. L p = Some n \<and> i < n \<longrightarrow> bytes s' (p + i) = bytes s (p + i))"

definition write_byte :: "addr \<Rightarrow> 8 word \<Rightarrow> 'p memlib_scheme \<Rightarrow> 'p memlib_scheme" where
  "write_byte a b s = s\<lparr>bytes := (bytes s)(a := b)\<rparr>"

lemma write_byte_simps [simp]:
  "heap (write_byte a b s) = heap s" "mem_brk (write_byte a b s) = mem_brk s"
  "mem_max_addr (write_byte a b s) = mem_max_addr s" "bytes (write_byte a b s) = (bytes s)(a := b)"
  by (simp_all add: write_byte_def)

lemma live_okD:
  assumes "live_ok L s" "L p = Some n"
  shows "0 < n" "8 dvd p" "heap s \<le> p" "p + n \<le> mem_brk s"
  using assms by (auto simp: live_ok_def)

lemma live_ok_disjoint:
  "live_ok L s \<Longrightarrow> L p = Some n \<Longrightarrow> L q = Some k \<Longrightarrow> p \<noteq> q \<Longrightarrow> p + n \<le> q \<or> q + k \<le> p"
  unfolding live_ok_def by (metis nat_neq_iff)

lemma keptD: "kept L s s' \<Longrightarrow> L p = Some n \<Longrightarrow> i < n \<Longrightarrow> bytes s' (p + i) = bytes s (p + i)"
  by (auto simp: kept_def)

lemma kept_refl [simp]: "kept L s s"
  by (simp add: kept_def)

lemma kept_trans: "kept L s t \<Longrightarrow> kept L t u \<Longrightarrow> kept L s u"
  unfolding kept_def by metis

lemma same_heap_refl [simp]: "same_heap s s"
  by (simp add: same_heap_def)

lemma same_heap_trans: "same_heap s t \<Longrightarrow> same_heap t u \<Longrightarrow> same_heap s u"
  by (auto simp: same_heap_def)

locale malloc_contract =
  fixes pkg :: "'p mm_package"
    and inv :: "live \<Rightarrow> 'p memlib_scheme \<Rightarrow> bool"
    and cost :: "nat \<Rightarrow> nat"
    and init_cost :: nat
  assumes init_law: "mem_ok s \<Longrightarrow> mem_brk s = heap s \<Longrightarrow> init_cost \<le> MAX_HEAP \<Longrightarrow>
      \<exists>s'. mm_init pkg s = Some (0, s') \<and> inv Map.empty s' \<and> same_heap s s' \<and> mem_brk s' \<le> heap s + init_cost"
    and inv_ok: "inv L s \<Longrightarrow> mem_ok s \<and> live_ok L s"
    and write_law: "inv L s \<Longrightarrow> L p = Some n \<Longrightarrow> i < n \<Longrightarrow> inv L (write_byte (p + i) b s)"
    and cost_law: "n \<le> cost n"
    and malloc_law: "inv L s \<Longrightarrow> 0 < n \<Longrightarrow> mem_brk s + cost n \<le> mem_max_addr s \<Longrightarrow>
      \<exists>q s'. mm_malloc pkg n s = Some (q, s') \<and> q \<noteq> 0 \<and> q \<notin> dom L \<and> inv (L(q \<mapsto> n)) s' \<and> kept L s s' \<and>
        same_heap s s' \<and> mem_brk s' \<le> mem_brk s + cost n"
    and free_law: "inv L s \<Longrightarrow> L p = Some n \<Longrightarrow>
      \<exists>s'. mm_free pkg p s = Some s' \<and> inv (L(p := None)) s' \<and> kept (L(p := None)) s s' \<and>
        same_heap s s' \<and> mem_brk s' = mem_brk s"
    and free_null_law: "inv L s \<Longrightarrow> mm_free pkg 0 s = Some s"
    and realloc_law: "inv L s \<Longrightarrow> L p = Some n \<Longrightarrow> 0 < k \<Longrightarrow> mem_brk s + cost k \<le> mem_max_addr s \<Longrightarrow>
      \<exists>q s'. mm_realloc pkg p k s = Some (q, s') \<and> q \<noteq> 0 \<and> q \<notin> dom (L(p := None)) \<and>
        inv (L(p := None, q \<mapsto> k)) s' \<and> kept (L(p := None)) s s' \<and>
        (\<forall>i < min n k. bytes s' (q + i) = bytes s (p + i)) \<and> same_heap s s' \<and> mem_brk s' \<le> mem_brk s + cost k"
    and realloc_null_law: "inv L s \<Longrightarrow> 0 < k \<Longrightarrow> mm_realloc pkg 0 k s = mm_malloc pkg k s"
    and realloc_zero_law: "inv L s \<Longrightarrow> p = 0 \<or> p \<in> dom L \<Longrightarrow>
      mm_realloc pkg p 0 s = map_option (Pair 0) (mm_free pkg p s)"
    and check_law: "inv L s \<Longrightarrow> mm_checkheap pkg v s = Some s"

end
