(* ===== verification/MM_Naive.thy ===== *)
theory MM_Naive
  imports MM_Spec
begin

section \<open>The bump allocator (practice-2/practice\_2-2/mm-naive.c)\<close>

text \<open>
  Every allocation extends the heap by the rounded size plus one word that records the payload
  size just before the payload; nothing is reused. The package has no variables of its own.
\<close>

definition SIZE_T_SIZE :: nat where "SIZE_T_SIZE = ALIGN 8"
definition SIZE_PTR :: "addr \<Rightarrow> addr" where "SIZE_PTR p = sub64 p SIZE_T_SIZE"

definition naive_init :: "'p memlib_scheme \<Rightarrow> int \<times> 'p memlib_scheme" where
  "naive_init s = (0, s)"

definition naive_malloc :: "nat \<Rightarrow> 'p memlib_scheme \<Rightarrow> addr \<times> 'p memlib_scheme" where
  "naive_malloc n s =
     (let newsize = s32 (ALIGN (add64 n SIZE_T_SIZE));
          (p, s) = mem_sbrk newsize s
      in if s64 p < 0 then (0, s)
         else (let p = add64 p SIZE_T_SIZE;
                   s = s\<lparr>bytes := store64 (bytes s) (SIZE_PTR p) n\<rparr>
               in (p, s)))"

definition naive_free :: "addr \<Rightarrow> 'p memlib_scheme \<Rightarrow> 'p memlib_scheme" where
  "naive_free p s = s"

definition naive_realloc :: "addr \<Rightarrow> nat \<Rightarrow> 'p memlib_scheme \<Rightarrow> addr \<times> 'p memlib_scheme" where
  "naive_realloc oldptr n s =
     (if n = 0 then (0, naive_free oldptr s)
      else if oldptr = 0 then naive_malloc n s
      else (let (newptr, s) = naive_malloc n s
            in if newptr = 0 then (0, s)
               else (let oldsize = load64 (bytes s) (SIZE_PTR oldptr);
                         oldsize = (if n < oldsize then n else oldsize);
                         s = s\<lparr>bytes := copy_bytes newptr oldptr oldsize (bytes s)\<rparr>
                     in (newptr, naive_free oldptr s))))"

text \<open>\<open>calloc\<close> writes through the pointer of a failed allocation: \<open>None\<close>.\<close>

definition naive_calloc :: "nat \<Rightarrow> nat \<Rightarrow> 'p memlib_scheme \<Rightarrow> (addr \<times> 'p memlib_scheme) option" where
  "naive_calloc nmemb n s =
     (let total = mul64 nmemb n;
          (newptr, s) = naive_malloc total s
      in if newptr = 0 \<and> 0 < total then None
         else Some (newptr, s\<lparr>bytes := fill_bytes newptr 0 total (bytes s)\<rparr>))"

definition naive_checkheap :: "int \<Rightarrow> 'p memlib_scheme \<Rightarrow> 'p memlib_scheme" where
  "naive_checkheap verbose s = s"

definition naive_package :: "'p mm_package" where
  "naive_package = \<lparr>mm_init = Some \<circ> naive_init, mm_malloc = (\<lambda>n s. Some (naive_malloc n s)),
     mm_free = (\<lambda>p s. Some (naive_free p s)), mm_realloc = (\<lambda>p n s. Some (naive_realloc p n s)),
     mm_checkheap = (\<lambda>v s. Some (naive_checkheap v s))\<rparr>"

subsection \<open>The invariant\<close>

text \<open>A live payload of size \<open>n\<close> at \<open>p\<close> owns the bytes from its size word to its end.\<close>

definition naive_inv :: "live \<Rightarrow> 'p memlib_scheme \<Rightarrow> bool" where
  "naive_inv L s \<longleftrightarrow> mem_ok s \<and> 8 dvd mem_brk s \<and>
     (\<forall>p n. L p = Some n \<longrightarrow> 0 < n \<and> 8 dvd p \<and> heap s + 8 \<le> p \<and> p + n \<le> mem_brk s
        \<and> load64 (bytes s) (p - 8) = n) \<and>
     (\<forall>p q n k. L p = Some n \<and> L q = Some k \<and> p < q \<longrightarrow> p + n + 8 \<le> q)"

definition naive_cost :: "nat \<Rightarrow> nat" where "naive_cost n = align8 (n + 8)"

lemma SIZE_T_SIZE_8 [simp]: "SIZE_T_SIZE = 8"
  by (simp add: SIZE_T_SIZE_def ALIGN_small)

lemma naive_invD:
  assumes "naive_inv L s"
  shows "mem_ok s" "8 dvd mem_brk s"
    "L p = Some n \<Longrightarrow> 0 < n" "L p = Some n \<Longrightarrow> 8 dvd p" "L p = Some n \<Longrightarrow> heap s + 8 \<le> p"
    "L p = Some n \<Longrightarrow> p + n \<le> mem_brk s" "L p = Some n \<Longrightarrow> load64 (bytes s) (p - 8) = n"
    "L p = Some n \<Longrightarrow> L q = Some k \<Longrightarrow> p < q \<Longrightarrow> p + n + 8 \<le> q"
  using assms by (auto simp: naive_inv_def)

lemma naive_inv_apart:
  "naive_inv L s \<Longrightarrow> L p = Some n \<Longrightarrow> L q = Some k \<Longrightarrow> p \<noteq> q \<Longrightarrow> p + n + 8 \<le> q \<or> q + k + 8 \<le> p"
  using naive_invD(8) by (metis nat_neq_iff)

lemma naive_inv_live_ok: "naive_inv L s \<Longrightarrow> live_ok L s"
  unfolding live_ok_def naive_inv_def by (meson add_leD1 le_add1 order_trans)

text \<open>Bytes outside the size words may change.\<close>

lemma naive_inv_bytes:
  assumes inv: "naive_inv L s" and s': "heap s' = heap s" "mem_brk s' = mem_brk s" "mem_max_addr s' = mem_max_addr s"
    and b: "\<And>p n i. L p = Some n \<Longrightarrow> i < 8 \<Longrightarrow> bytes s' (p - 8 + i) = bytes s (p - 8 + i)"
  shows "naive_inv L s'"
proof -
  have "load64 (bytes s') (p - 8) = n" if "L p = Some n" for p n
    using load64_cong [of "bytes s'" "p - 8" "bytes s"] b [OF that] naive_invD(7) [OF inv that] by simp
  moreover have "mem_ok s'" using naive_invD(1) [OF inv] s' by (simp add: mem_ok_def)
  ultimately show ?thesis using inv s' unfolding naive_inv_def by simp
qed

lemma naive_inv_mono: "naive_inv L s \<Longrightarrow> naive_inv (L(p := None)) s"
  unfolding naive_inv_def by (auto split: if_splits)

lemma naive_write:
  assumes inv: "naive_inv L s" and p: "L p = Some n" "i < n"
  shows "naive_inv L (write_byte (p + i) b s)"
proof (rule naive_inv_bytes [OF inv])
  fix q k j assume q: "L q = Some k" and j: "j < (8::nat)"
  have "q - 8 + j \<noteq> p + i"
  proof (cases "p = q")
    case False
    from naive_inv_apart [OF inv p(1) q False] naive_invD(5) [OF inv q] naive_invD(5) [OF inv p(1)]
    show ?thesis using p(2) j by auto
  qed (use naive_invD(5) [OF inv q] j in auto)
  then show "bytes (write_byte (p + i) b s) (q - 8 + j) = bytes s (q - 8 + j)" by simp
qed simp_all

lemma naive_malloc_fits:
  assumes ok: "mem_ok s" and fit: "mem_brk s + naive_cost n \<le> mem_max_addr s"
  shows "naive_malloc n s = (mem_brk s + 8,
    s\<lparr>mem_brk := mem_brk s + naive_cost n, bytes := store64 (bytes s) (mem_brk s) n\<rparr>)"
proof -
  note k = mem_okD [OF ok]
  have c: "naive_cost n \<le> MAX_HEAP" "n + 8 \<le> naive_cost n"
    using fit k align8_bounds(1) [of "n + 8"] by (simp_all add: naive_cost_def)
  then have n: "n + 15 < 2 ^ 31" "naive_cost n < 2 ^ 31" by (simp_all add: MAX_HEAP_def)
  have "s32 (ALIGN (add64 n SIZE_T_SIZE)) = int (naive_cost n)"
    using n by (simp add: add64_small ALIGN_small naive_cost_def align8_def add.commute s32_small)
  moreover have "s64 (mem_brk s) = int (mem_brk s)" using k by (simp add: s64_small)
  moreover have "add64 (mem_brk s) 8 = mem_brk s + 8" "sub64 (mem_brk s + 8) 8 = mem_brk s"
    using k by (simp_all add: add64_small sub64_small)
  ultimately show ?thesis
    using mem_sbrk_int [OF fit] by (simp add: naive_malloc_def SIZE_PTR_def)
qed

lemma naive_malloc_inv:
  assumes inv: "naive_inv L s" and n: "0 < n" and fit: "mem_brk s + naive_cost n \<le> mem_max_addr s"
  defines "s' \<equiv> s\<lparr>mem_brk := mem_brk s + naive_cost n, bytes := store64 (bytes s) (mem_brk s) n\<rparr>"
  shows "naive_inv (L(mem_brk s + 8 \<mapsto> n)) s'" "kept L s s'" "mem_brk s + 8 \<notin> dom L"
proof -
  note k = naive_invD [OF inv] mem_okD [OF naive_invD(1) [OF inv]]
  have c: "n + 8 \<le> naive_cost n" "8 dvd naive_cost n"
    using align8_bounds(1,3) [of "n + 8"] by (simp_all add: naive_cost_def)
  have low: "p + k + 0 \<le> mem_brk s" if "L p = Some k" for p k using k(6) that by simp
  show "kept L s s'"
    unfolding kept_def s'_def by (auto dest!: low intro!: store64_other)
  show fresh: "mem_brk s + 8 \<notin> dom L" using k(3,6) by fastforce
  have hdr: "load64 (bytes s') (p - 8) = m" if "L p = Some m" for p m
    using k(3,5,6,7) [OF that] by (simp add: s'_def load_store64_other)
  have nn: "u64 n = n" using fit c(1) k by (intro u64_small) (simp add: MAX_HEAP_def)
  have "mem_ok s'" using fit k(9-14) unfolding mem_ok_def s'_def by simp
  moreover have "8 dvd mem_brk s'" using k(2) c(2) by (simp add: s'_def)
  moreover have "0 < m \<and> 8 dvd p \<and> heap s' + 8 \<le> p \<and> p + m \<le> mem_brk s' \<and> load64 (bytes s') (p - 8) = m"
    if "(L(mem_brk s + 8 \<mapsto> n)) p = Some m" for p m
  proof (cases "p = mem_brk s + 8")
    case True
    then show ?thesis using that n k(2,11) c(1) nn by (simp add: s'_def)
  next
    case False
    then have Lp: "L p = Some m" using that by simp
    show ?thesis using k(3-6) [OF Lp] hdr [OF Lp] by (simp add: s'_def)
  qed
  moreover have "p + m + 8 \<le> q"
    if "(L(mem_brk s + 8 \<mapsto> n)) p = Some m" "(L(mem_brk s + 8 \<mapsto> n)) q = Some j" "p < q" for p q m j
    using that k(8) [of p m q j] k(6) [of p m] k(3,6) [of q j] by (auto split: if_splits)
  ultimately show "naive_inv (L(mem_brk s + 8 \<mapsto> n)) s'" unfolding naive_inv_def by blast
qed


lemma naive_realloc_inv:
  assumes inv: "naive_inv L s" and p: "L p = Some n" and j: "0 < j"
    and fit: "mem_brk s + naive_cost j \<le> mem_max_addr s"
  shows "\<exists>q s'. naive_realloc p j s = (q, s') \<and> q \<noteq> 0 \<and> q \<notin> dom (L(p := None)) \<and>
    naive_inv (L(p := None, q \<mapsto> j)) s' \<and> kept (L(p := None)) s s' \<and>
    (\<forall>i < min n j. bytes s' (q + i) = bytes s (p + i)) \<and> same_heap s s' \<and> mem_brk s' \<le> mem_brk s + naive_cost j"
proof -
  note k = naive_invD [OF inv] mem_okD [OF naive_invD(1) [OF inv]]
  let ?q = "mem_brk s + 8"
  define s1 where "s1 = s\<lparr>mem_brk := mem_brk s + naive_cost j, bytes := store64 (bytes s) (mem_brk s) j\<rparr>"
  note m = naive_malloc_inv [OF inv j fit, folded s1_def]
  have qp: "?q \<noteq> p" using m(3) p by auto
  have call: "naive_malloc j s = (?q, s1)"
    unfolding s1_def by (rule naive_malloc_fits [OF k(1) fit])
  have Lp: "(L(?q \<mapsto> j)) p = Some n" using qp p by simp
  have old: "load64 (bytes s1) (p - 8) = n" by (rule naive_invD(7) [OF m(1) Lp])
  have p8: "8 \<le> p" "p < 2 ^ 64" using k(5,6) [OF p] k(15) by simp_all
  define s' where "s' = s1\<lparr>bytes := copy_bytes ?q p (min n j) (bytes s1)\<rparr>"
  have ret: "naive_realloc p j s = (?q, s')"
    using j p8 by (simp add: naive_realloc_def call SIZE_PTR_def sub64_small old naive_free_def s'_def min_def)
  have same: "bytes s' x = bytes s1 x" if "x < ?q" for x using that by (simp add: s'_def copy_bytes_at)
  have hq: "bytes s' (q' - 8 + i) = bytes s1 (q' - 8 + i)" if "(L(?q \<mapsto> j)) q' = Some k'" "i < 8" for q' k' i
    using that k(3,5,6) [of q' k'] by (intro same) (auto split: if_splits)
  have "naive_inv (L(?q \<mapsto> j)) s'"
    by (rule naive_inv_bytes [OF m(1)]) (simp_all add: s'_def [THEN arg_cong [where f = heap]] hq, simp_all add: s'_def)
  then have "naive_inv ((L(?q \<mapsto> j))(p := None)) s'" by (rule naive_inv_mono)
  then have inv': "naive_inv (L(p := None, ?q \<mapsto> j)) s'" using qp by (simp add: fun_upd_twist)
  have kept: "kept L s s'"
    unfolding kept_def
  proof (intro allI impI)
    fix q' k' i assume a: "L q' = Some k' \<and> i < k'"
    then have "q' + i < ?q" using k(6) [of q' k'] by simp
    then show "bytes s' (q' + i) = bytes s (q' + i)" using same keptD [OF m(2)] a by simp
  qed
  then have kept': "kept (L(p := None)) s s'" by (auto simp: kept_def)
  have copied: "bytes s' (?q + i) = bytes s (p + i)" if "i < min n j" for i
    using that keptD [OF m(2) p, of i] by (simp add: s'_def copy_bytes_at)
  have "same_heap s s'" "mem_brk s' \<le> mem_brk s + naive_cost j" by (simp_all add: same_heap_def s'_def s1_def)
  moreover have "?q \<notin> dom (L(p := None))" using m(3) by auto
  ultimately show ?thesis using ret inv' kept' copied by auto
qed

interpretation naive: malloc_contract naive_package naive_inv naive_cost 0
proof unfold_locales
  show "\<exists>s'. mm_init naive_package s = Some (0, s') \<and> naive_inv Map.empty s' \<and> same_heap s s' \<and> mem_brk s' \<le> heap s + 0"
    if "mem_ok s" "mem_brk s = heap s" for s :: "'a memlib_scheme"
    using that by (simp add: naive_package_def naive_init_def naive_inv_def mem_ok_def)
  show "n \<le> naive_cost n" for n using align8_bounds(1) [of "n + 8"] by (simp add: naive_cost_def)
  show "mem_ok s \<and> live_ok L s" if "naive_inv L s" for L and s :: "'a memlib_scheme"
    using naive_inv_live_ok [OF that] naive_invD(1) [OF that] by simp
  show "naive_inv L (write_byte (p + i) b s)" if "naive_inv L s" "L p = Some n" "i < n" for L p n i b
    and s :: "'a memlib_scheme"
    by (rule naive_write [OF that])
  show "\<exists>q s'. mm_malloc naive_package n s = Some (q, s') \<and> q \<noteq> 0 \<and> q \<notin> dom L \<and> naive_inv (L(q \<mapsto> n)) s' \<and>
      kept L s s' \<and> same_heap s s' \<and> mem_brk s' \<le> mem_brk s + naive_cost n"
    if "naive_inv L s" "0 < n" "mem_brk s + naive_cost n \<le> mem_max_addr s" for L n and s :: "'a memlib_scheme"
    using naive_malloc_inv [OF that] naive_malloc_fits [OF naive_invD(1) [OF that(1)] that(3)]
    by (simp add: naive_package_def same_heap_def)
  show "\<exists>s'. mm_free naive_package p s = Some s' \<and> naive_inv (L(p := None)) s' \<and> kept (L(p := None)) s s' \<and>
      same_heap s s' \<and> mem_brk s' = mem_brk s" if "naive_inv L s" "L p = Some n" for L p n and s :: "'a memlib_scheme"
    using naive_inv_mono [OF that(1)] by (simp add: naive_package_def naive_free_def)
  show "\<exists>q s'. mm_realloc naive_package p k s = Some (q, s') \<and> q \<noteq> 0 \<and> q \<notin> dom (L(p := None)) \<and>
      naive_inv (L(p := None, q \<mapsto> k)) s' \<and> kept (L(p := None)) s s' \<and>
      (\<forall>i < min n k. bytes s' (q + i) = bytes s (p + i)) \<and> same_heap s s' \<and> mem_brk s' \<le> mem_brk s + naive_cost k"
    if "naive_inv L s" "L p = Some n" "0 < k" "mem_brk s + naive_cost k \<le> mem_max_addr s" for L p n k
    and s :: "'a memlib_scheme"
    using naive_realloc_inv [OF that] by (auto simp: naive_package_def)
qed (simp_all add: naive_package_def naive_free_def naive_realloc_def naive_checkheap_def)

end
