(* ===== verification/C_Text.thy ===== *)
theory C_Text
  imports C_Prelude
begin

section \<open>Text as the C library reads and writes it\<close>

text \<open>
  A text is its list of characters. The conversions of \<open>scanf\<close> that the programs use are functions
  from the rest of the input to a value, if one was matched, and the new rest; \<open>show_nat\<close> and
  \<open>show_int\<close> are \<open>%u\<close> and \<open>%d\<close> of \<open>printf\<close>. Scanning reads back what was shown.
\<close>

text \<open>The wrap-around of a value of type \<open>int\<close>.\<close>

definition wrap32 :: "int \<Rightarrow> int" where "wrap32 i = s32 (to_u32 i)"

lemma wrap32_small: "0 \<le> i \<Longrightarrow> i < 2 ^ 31 \<Longrightarrow> wrap32 i = i"
  by (simp add: wrap32_def to_u32_def s32_def u32_def)

lemma wrap32_int: "- (2 ^ 31) \<le> i \<Longrightarrow> i < 2 ^ 31 \<Longrightarrow> wrap32 i = i"
proof (cases "0 \<le> i")
  case False
  assume a: "- (2 ^ 31) \<le> i" "i < 2 ^ 31"
  have "(i + 2 ^ 32) mod 2 ^ 32 = i + 2 ^ 32" using a False by (intro mod_pos_pos_trivial) auto
  then have "i mod 2 ^ 32 = i + 2 ^ 32" by simp
  then show ?thesis using a False by (simp add: wrap32_def to_u32_def s32_def u32_def)
qed (simp add: wrap32_small)


subsection \<open>The conversions of scanf\<close>

definition code :: "char \<Rightarrow> nat" where "code c = of_char c"
definition is_space :: "char \<Rightarrow> bool" where "is_space c \<longleftrightarrow> code c = 32 \<or> (9 \<le> code c \<and> code c \<le> 13)"
definition is_digit :: "char \<Rightarrow> bool" where "is_digit c \<longleftrightarrow> 48 \<le> code c \<and> code c \<le> 57"

definition digits_val :: "string \<Rightarrow> nat" where
  "digits_val ds = foldl (\<lambda>v c. 10 * v + (code c - 48)) 0 ds"

definition skip_space :: "string \<Rightarrow> string" where "skip_space s = dropWhile is_space s"

text \<open>The number after optional white space and an optional sign: \<open>strtol\<close>'s grammar in base ten.\<close>

definition scan_number :: "string \<Rightarrow> int option \<times> string" where
  "scan_number s =
     (let s = skip_space s;
          negative = (case s of c # _ \<Rightarrow> code c = 45 | [] \<Rightarrow> False);
          s = (case s of c # cs \<Rightarrow> if code c = 45 \<or> code c = 43 then cs else s | [] \<Rightarrow> s);
          ds = takeWhile is_digit s
      in if ds = [] then (None, s)
         else (Some (if negative then - int (digits_val ds) else int (digits_val ds)), dropWhile is_digit s))"

text \<open>\<open>%d\<close> and \<open>%u\<close> into a variable of type \<open>int\<close> whose old value stays when nothing matches.\<close>

definition scan_d :: "int \<Rightarrow> string \<Rightarrow> int \<times> string" where
  "scan_d old s = (case scan_number s of (None, r) \<Rightarrow> (old, r) | (Some v, r) \<Rightarrow> (wrap32 v, r))"

definition scan_uu :: "int \<times> int \<Rightarrow> string \<Rightarrow> (int \<times> int) \<times> string" where
  "scan_uu = (\<lambda>(x, y) s.
     (case scan_number s of
        (None, r) \<Rightarrow> ((x, y), r)
      | (Some v, r) \<Rightarrow>
          (case scan_number r of
             (None, r) \<Rightarrow> ((wrap32 v, y), r)
           | (Some w, r) \<Rightarrow> ((wrap32 v, wrap32 w), r))))"

text \<open>\<open>%ud\<close>: an unsigned number and then the letter d, which no trace contains.\<close>

definition scan_ud :: "int \<Rightarrow> string \<Rightarrow> int \<times> string" where
  "scan_ud old s =
     (case scan_number s of
        (None, r) \<Rightarrow> (old, r)
      | (Some v, r) \<Rightarrow> (wrap32 v, (case r of c # cs \<Rightarrow> if c = CHR ''d'' then cs else r | [] \<Rightarrow> r)))"

definition scan_s :: "string \<Rightarrow> (string \<times> string) option" where
  "scan_s s =
     (let s = skip_space s
      in if s = [] then None
         else Some (takeWhile (\<lambda>c. \<not> is_space c) s, dropWhile (\<lambda>c. \<not> is_space c) s))"

lemma length_scan_number: "length (snd (scan_number s)) \<le> length s"
proof -
  have d: "length (dropWhile P t) \<le> length t" for P and t :: string by (rule length_dropWhile_le)
  have a: "length (case skip_space s of c # cs \<Rightarrow> if code c = 45 \<or> code c = 43 then cs else skip_space s | [] \<Rightarrow> skip_space s)
      \<le> length s"
    using d [of is_space s] by (auto simp: skip_space_def split: list.splits)
  show ?thesis
    unfolding scan_number_def Let_def using a d [of is_digit] by (auto intro: order_trans [OF d a])
qed

subsection \<open>The conversions of printf\<close>

fun show_nat :: "nat \<Rightarrow> string" where
  "show_nat n = (if n < 10 then [char_of (48 + n)] else show_nat (n div 10) @ [char_of (48 + n mod 10)])"

declare show_nat.simps [simp del]

definition show_int :: "int \<Rightarrow> string" where
  "show_int i = (if i < 0 then char_of (45 :: nat) # show_nat (nat (- i)) else show_nat (nat i))"

definition NL :: char where "NL = char_of (10 :: nat)"
definition SP :: char where "SP = char_of (32 :: nat)"

lemma code_char [simp]: "n < 256 \<Longrightarrow> code (char_of n) = n"
  by (simp add: code_def)

lemma show_nat_digits: "show_nat n \<noteq> []" "\<forall>c \<in> set (show_nat n). is_digit c"
proof (induction n rule: show_nat.induct)
  case (1 n)
  { case 1 show ?case by (simp add: show_nat.simps [of n]) }
  { case 2 show ?case using 1 by (auto simp: show_nat.simps [of n] is_digit_def) }
qed

lemma digits_val_snoc: "digits_val (ds @ [c]) = 10 * digits_val ds + (code c - 48)"
  by (simp add: digits_val_def)

lemma digits_val_show [simp]: "digits_val (show_nat n) = n"
proof (induction n rule: show_nat.induct)
  case (1 n)
  then show ?case by (simp add: show_nat.simps [of n] digits_val_snoc) (simp add: digits_val_def)
qed

lemma show_nat_hd: "\<exists>c cs. show_nat n = c # cs \<and> is_digit c"
  using show_nat_digits [of n] by (cases "show_nat n") auto

lemma not_digit: "is_digit c \<Longrightarrow> \<not> is_space c" "is_digit c \<Longrightarrow> code c \<noteq> 45" "is_digit c \<Longrightarrow> code c \<noteq> 43"
  by (auto simp: is_digit_def is_space_def)

lemma sep_chars [simp]: "is_space NL" "is_space SP" "\<not> is_digit NL" "\<not> is_digit SP"
  by (simp_all add: is_space_def is_digit_def NL_def SP_def)

lemma skip_space_Cons [simp]: "is_space c \<Longrightarrow> skip_space (c # s) = skip_space s"
  by (simp add: skip_space_def)

lemma scan_number_space [simp]: "is_space c \<Longrightarrow> scan_number (c # s) = scan_number s"
  by (simp add: scan_number_def)

lemma scan_number_nat:
  assumes "\<not> is_digit c"
  shows "scan_number (show_nat n @ c # s) = (Some (int n), c # s)"
proof -
  obtain x xs where x: "show_nat n = x # xs" "is_digit x" using show_nat_hd by blast
  have sk: "skip_space (show_nat n @ c # s) = show_nat n @ c # s"
    using x not_digit(1) by (simp add: skip_space_def)
  have tw: "takeWhile is_digit (show_nat n @ c # s) = show_nat n" "dropWhile is_digit (show_nat n @ c # s) = c # s"
    using show_nat_digits(2) [of n] assms by (simp_all add: takeWhile_append dropWhile_append)
  show ?thesis
    unfolding scan_number_def Let_def sk using tw x not_digit(2,3) [OF x(2)] digits_val_show [of n] by simp
qed

lemma scan_number_show [simp]:
  assumes c: "\<not> is_digit c"
  shows "scan_number (show_int i @ c # s) = (Some i, c # s)"
proof (cases "i < 0")
  case True
  let ?n = "nat (- i)"
  have tw: "takeWhile is_digit (show_nat ?n @ c # s) = show_nat ?n" "dropWhile is_digit (show_nat ?n @ c # s) = c # s"
    using show_nat_digits(2) [of ?n] c by (simp_all add: takeWhile_append dropWhile_append)
  have "skip_space (char_of (45 :: nat) # show_nat ?n @ c # s) = char_of (45 :: nat) # show_nat ?n @ c # s"
    by (simp add: skip_space_def is_space_def)
  with True tw show_nat_digits(1) [of ?n] show ?thesis by (simp add: show_int_def scan_number_def Let_def)
qed (use scan_number_nat [OF c, of "nat i"] in \<open>simp add: show_int_def\<close>)

lemma show_int_ne [simp]: "show_int i \<noteq> []"
  using show_nat_digits(1) by (simp add: show_int_def)

lemma scan_s_kind [simp]: "\<not> is_space c \<Longrightarrow> scan_s (c # SP # s) = Some ([c], SP # s)"
  by (simp add: scan_s_def skip_space_def)

lemma scan_s_NL [simp]: "scan_s (NL # s) = scan_s s"
  by (simp add: scan_s_def)

lemma length_show_nat: "n < 10 ^ Suc k \<Longrightarrow> length (show_nat n) \<le> Suc k"
proof (induction k arbitrary: n)
  case (Suc k)
  have "n div 10 < 10 ^ Suc k" using Suc.prems by (simp add: less_mult_imp_div_less)
  from Suc.IH [OF this] show ?case by (subst show_nat.simps) simp
qed (simp add: show_nat.simps)

lemma scan_s_less: "scan_s s = Some (w, rest) \<Longrightarrow> length rest < length s"
proof -
  assume a: "scan_s s = Some (w, rest)"
  then have ne: "skip_space s \<noteq> []" and rest: "rest = dropWhile (\<lambda>c. \<not> is_space c) (skip_space s)"
    by (auto simp: scan_s_def Let_def split: if_splits)
  have "\<not> is_space (hd (skip_space s))" using ne by (simp add: skip_space_def hd_dropWhile)
  then have "length rest < length (skip_space s)"
    using ne rest by (cases "skip_space s") (auto simp: le_imp_less_Suc length_dropWhile_le)
  moreover have "length (skip_space s) \<le> length s" by (simp add: skip_space_def length_dropWhile_le)
  ultimately show ?thesis by simp
qed

text \<open>The words of a text, and its lines.\<close>

function words_of :: "string \<Rightarrow> string list" where
  "words_of s = (case scan_s s of None \<Rightarrow> [] | Some (w, rest) \<Rightarrow> w # words_of rest)"
  by pat_completeness auto
termination
  by (relation "measure length") (auto dest: scan_s_less)

declare words_of.simps [simp del]

function split_lines :: "string \<Rightarrow> string list" where
  "split_lines s =
     (if s = [] then [] else takeWhile (\<lambda>c. c \<noteq> NL) s # split_lines (tl (dropWhile (\<lambda>c. c \<noteq> NL) s)))"
  by pat_completeness auto
termination
proof (relation "measure length")
  fix s :: string assume "s \<noteq> []"
  moreover have "length (dropWhile (\<lambda>c. c \<noteq> NL) s) \<le> length s" by (rule length_dropWhile_le)
  ultimately show "(tl (dropWhile (\<lambda>c. c \<noteq> NL) s), s) \<in> measure length" by (cases s) auto
qed simp

declare split_lines.simps [simp del]

definition clean :: "string \<Rightarrow> bool" where
  "clean w \<longleftrightarrow> w \<noteq> [] \<and> (\<forall>c \<in> set w. \<not> is_space c \<and> c \<noteq> CHR ''#'')"

lemma NL_space: "\<not> is_space c \<Longrightarrow> c \<noteq> NL" using sep_chars(1) by metis

lemma scan_s_word:
  assumes "clean w" "is_space c"
  shows "scan_s (w @ c # s) = Some (w, c # s)" "scan_s w = Some (w, [])"
proof -
  have w: "w \<noteq> []" "\<And>x. x \<in> set w \<Longrightarrow> \<not> is_space x" using assms(1) by (auto simp: clean_def)
  have sk: "skip_space (w @ t) = w @ t" for t using w by (cases w) (auto simp: skip_space_def)
  have "takeWhile (\<lambda>c. \<not> is_space c) (w @ c # s) = w" "dropWhile (\<lambda>c. \<not> is_space c) (w @ c # s) = c # s"
    "takeWhile (\<lambda>c. \<not> is_space c) w = w" "dropWhile (\<lambda>c. \<not> is_space c) w = []"
    using w(2) assms(2) by (simp_all add: takeWhile_append2 dropWhile_append2 takeWhile_eq_all_conv)
  then show "scan_s (w @ c # s) = Some (w, c # s)" "scan_s w = Some (w, [])"
    using sk [of "c # s"] sk [of "[]"] w(1) by (simp_all add: scan_s_def Let_def)
qed

lemma words_SP: "words_of (SP # s) = words_of s"
  by (simp add: words_of.simps [of "SP # s"] words_of.simps [of s] scan_s_def)

lemma words_Cons: "clean w \<Longrightarrow> words_of (w @ SP # s) = w # words_of s"
  by (subst words_of.simps) (simp add: scan_s_word words_SP)

lemma words_last: "clean w \<Longrightarrow> words_of w = [w]"
  using scan_s_word(2) [of w SP] by (simp add: words_of.simps [of w] words_of.simps [of "[]"] scan_s_def skip_space_def)

lemma split_lines_NL: "(\<And>c. c \<in> set l \<Longrightarrow> c \<noteq> NL) \<Longrightarrow> split_lines (l @ NL # s) = l # split_lines s"
  by (subst split_lines.simps) (simp add: takeWhile_append2 dropWhile_append2)

lemma split_lines_Nil [simp]: "split_lines [] = []"
  by (simp add: split_lines.simps)

lemma clean_number [simp]: "clean (show_nat n)"
proof -
  have "\<not> is_digit CHR ''#''" by (simp add: is_digit_def code_def)
  then show ?thesis using show_nat_digits [of n] not_digit(1) by (auto simp: clean_def)
qed

end
