(* ===== verification/MDriver.thy ===== *)
theory MDriver
  imports MM_Spec
begin

section \<open>The malloc driver (practice-2/practice\_2-2/mdriver.c)\<close>

text \<open>
  The driver replays a trace of requests on a malloc package and checks every answer. Its state
  is the record \<open>driver\<close>: the simulated memory system with the package's variables (\<open>sys\<close>), the
  trace with its arrays, the range list, the error counter, the table of random bytes and the
  position in the sequence of values that \<open>random()\<close> answers, which is the argument \<open>rnd\<close>.
  The range records come from the C library's \<open>malloc\<close>, which is taken to succeed. Results are
  in \<open>option\<close>: \<open>None\<close> when the process ends (a failed \<open>assert\<close>, \<open>app\_error\<close>) or a call of the
  package does not return. Printing is left out; \<open>malloc\_error\<close> is its effect on \<open>errors\<close>.
\<close>

subsection \<open>Data\<close>

datatype op_type = ALLOC | FREE | REALLOC

record traceop_t =
  op_type :: op_type
  op_index :: int
  op_size :: nat

record range_t =
  lo :: addr
  hi :: addr
  rng_index :: int

record trace_t =
  filename :: string
  ignore_ranges :: int
  num_ids :: int
  num_ops :: int
  weight :: int
  ops :: "traceop_t list"
  blocks :: "int \<Rightarrow> addr"
  block_sizes :: "int \<Rightarrow> nat"
  block_rand_base :: "int \<Rightarrow> int"

datatype debug = DBG_NONE | DBG_CHEAP | DBG_EXPENSIVE

record 'p driver =
  sys :: "'p memlib_scheme"
  trace :: trace_t
  ranges :: "range_t list"
  errors :: int
  debug_mode :: debug
  random_data :: "nat \<Rightarrow> 8 word"
  rand_next :: nat

definition RANDOM_DATA_LEN :: nat where "RANDOM_DATA_LEN = 2 ^ 16"
definition ALIGNMENT :: nat where "ALIGNMENT = 8"
definition IS_ALIGNED :: "addr \<Rightarrow> bool" where "IS_ALIGNED p \<longleftrightarrow> p mod ALIGNMENT = 0"

definition set_block :: "int \<Rightarrow> addr \<Rightarrow> 'p driver \<Rightarrow> 'p driver" where
  "set_block i p d = d\<lparr>trace := (trace d)\<lparr>blocks := (blocks (trace d))(i := p)\<rparr>\<rparr>"

definition set_size :: "int \<Rightarrow> nat \<Rightarrow> 'p driver \<Rightarrow> 'p driver" where
  "set_size i n d = d\<lparr>trace := (trace d)\<lparr>block_sizes := (block_sizes (trace d))(i := n)\<rparr>\<rparr>"

definition set_base :: "int \<Rightarrow> int \<Rightarrow> 'p driver \<Rightarrow> 'p driver" where
  "set_base i b d = d\<lparr>trace := (trace d)\<lparr>block_rand_base := (block_rand_base (trace d))(i := b)\<rparr>\<rparr>"

definition set_sys :: "'p memlib_scheme \<Rightarrow> 'p driver \<Rightarrow> 'p driver" where
  "set_sys s d = d\<lparr>sys := s\<rparr>"

definition random :: "(nat \<Rightarrow> nat) \<Rightarrow> 'p driver \<Rightarrow> nat \<times> 'p driver" where
  "random rnd d = (rnd (rand_next d), d\<lparr>rand_next := Suc (rand_next d)\<rparr>)"

definition malloc_error :: "'p driver \<Rightarrow> 'p driver" where
  "malloc_error d = d\<lparr>errors := errors d + 1\<rparr>"

subsection \<open>The range list\<close>

definition add_range :: "addr \<Rightarrow> int \<Rightarrow> int \<Rightarrow> 'p driver \<Rightarrow> (bool \<times> 'p driver) option" where
  "add_range l n index d =
     (let h = sub64 (add64 l (to_u64 n)) 1
      in if \<not> 0 < n then None
         else if \<not> IS_ALIGNED l then Some (False, malloc_error d)
         else if l < mem_heap_lo (sys d) \<or> mem_heap_hi (sys d) < l \<or>
                 h < mem_heap_lo (sys d) \<or> mem_heap_hi (sys d) < h
         then Some (False, malloc_error d)
         else if ignore_ranges (trace d) \<noteq> 0 \<or> debug_mode d = DBG_NONE then Some (True, d)
         else if list_ex (\<lambda>p. (lo p \<le> l \<and> l \<le> hi p) \<or> (lo p \<le> h \<and> h \<le> hi p)) (ranges d)
         then Some (False, malloc_error d)
         else Some (True, d\<lparr>ranges := \<lparr>lo = l, hi = h, rng_index = index\<rparr> # ranges d\<rparr>))"

primrec drop_range :: "addr \<Rightarrow> range_t list \<Rightarrow> range_t list" where
  "drop_range l [] = []"
| "drop_range l (p # ps) = (if lo p = l then ps else p # drop_range l ps)"

definition remove_range :: "addr \<Rightarrow> 'p driver \<Rightarrow> 'p driver" where
  "remove_range l d = d\<lparr>ranges := drop_range l (ranges d)\<rparr>"

definition clear_ranges :: "'p driver \<Rightarrow> 'p driver" where
  "clear_ranges d = d\<lparr>ranges := []\<rparr>"

subsection \<open>The random data\<close>

definition init_random_data :: "(nat \<Rightarrow> nat) \<Rightarrow> 'p driver \<Rightarrow> 'p driver" where
  "init_random_data rnd d =
     (if debug_mode d = DBG_NONE then d
      else for_range 0 RANDOM_DATA_LEN
        (\<lambda>len d. let (r, d) = random rnd d in d\<lparr>random_data := (random_data d)(len := of_nat r)\<rparr>) d)"

definition pattern :: "'p driver \<Rightarrow> int \<Rightarrow> nat \<Rightarrow> 8 word" where
  "pattern d base i = random_data d (add64 (to_u64 base) i mod RANDOM_DATA_LEN)"

definition randomize_block :: "(nat \<Rightarrow> nat) \<Rightarrow> int \<Rightarrow> 'p driver \<Rightarrow> 'p driver" where
  "randomize_block rnd index d =
     (if debug_mode d = DBG_NONE then d
      else (let (r, d) = random rnd d;
                d = set_base index (s32 r) d;
                block = blocks (trace d) index;
                n = block_sizes (trace d) index div 1;
                base = block_rand_base (trace d) index
            in d\<lparr>sys := for_range 0 n (\<lambda>i. write_byte (block + i) (pattern d base i)) (sys d)\<rparr>))"

definition check_index :: "int \<Rightarrow> 'p driver \<Rightarrow> 'p driver" where
  "check_index index d =
     (if index < 0 then d
      else if debug_mode d = DBG_NONE then d
      else (let block = blocks (trace d) index;
                n = block_sizes (trace d) index div 1;
                base = block_rand_base (trace d) index;
                ngarbled = length (filter (\<lambda>i. bytes (sys d) (block + i) \<noteq> pattern d base i) [0..<n])
            in if ngarbled \<noteq> 0 then malloc_error d else d))"

definition reinit_trace :: "'p driver \<Rightarrow> 'p driver" where
  "reinit_trace d =
     (let zero = (\<lambda>f i. if 0 \<le> i \<and> i < num_ids (trace d) then 0 else f i)
      in d\<lparr>trace := (trace d)\<lparr>blocks := zero (blocks (trace d)), block_sizes := zero (block_sizes (trace d))\<rparr>\<rparr>)"

subsection \<open>Checking a package for correctness\<close>

text \<open>One request: \<open>True\<close> goes on to the next one, \<open>False\<close> is the early \<open>return 0\<close>.\<close>

definition expensive_checks :: "'p mm_package \<Rightarrow> int \<Rightarrow> 'p driver \<Rightarrow> 'p driver option" where
  "expensive_checks pkg verbose d =
     (if debug_mode d \<noteq> DBG_EXPENSIVE then Some d
      else (case mm_checkheap pkg verbose (sys d) of
              None \<Rightarrow> None
            | Some s \<Rightarrow> Some (fold (\<lambda>r. check_index (rng_index r)) (ranges d) (set_sys s d))))"

definition valid_alloc :: "'p mm_package \<Rightarrow> (nat \<Rightarrow> nat) \<Rightarrow> int \<Rightarrow> nat \<Rightarrow> 'p driver \<Rightarrow> (bool \<times> 'p driver) option" where
  "valid_alloc pkg rnd index n d =
     (case mm_malloc pkg n (sys d) of
        None \<Rightarrow> None
      | Some (p, s) \<Rightarrow>
          (let d = set_sys s d
           in if p = 0 then Some (False, malloc_error d)
              else (case add_range p (s32 n) index d of
                      None \<Rightarrow> None
                    | Some (ok, d) \<Rightarrow>
                        if \<not> ok then Some (False, d)
                        else (let d = set_block index p d;
                                  d = set_size index n d
                              in Some (True, randomize_block rnd index d)))))"

definition valid_realloc :: "'p mm_package \<Rightarrow> (nat \<Rightarrow> nat) \<Rightarrow> int \<Rightarrow> nat \<Rightarrow> 'p driver \<Rightarrow> (bool \<times> 'p driver) option" where
  "valid_realloc pkg rnd index n d =
     (let d = check_index index d;
          oldp = blocks (trace d) index
      in case mm_realloc pkg oldp n (sys d) of
           None \<Rightarrow> None
         | Some (newp, s) \<Rightarrow>
             (let d = set_sys s d
              in if newp = 0 \<and> n \<noteq> 0 then Some (False, malloc_error d)
                 else if newp \<noteq> 0 \<and> n = 0 then Some (False, malloc_error d)
                 else (let d = remove_range oldp d
                       in case (if 0 < n then add_range newp (s32 n) index d else Some (True, d)) of
                            None \<Rightarrow> None
                          | Some (ok, d) \<Rightarrow>
                              if \<not> ok then Some (False, d)
                              else (let d = set_block index newp d;
                                        d = (if n < block_sizes (trace d) index then set_size index n d else d);
                                        d = check_index index d;
                                        d = set_size index n d
                                    in Some (True, randomize_block rnd index d)))))"

definition valid_free :: "'p mm_package \<Rightarrow> int \<Rightarrow> 'p driver \<Rightarrow> (bool \<times> 'p driver) option" where
  "valid_free pkg index d =
     (let d = check_index index d;
          (p, d) = (if index = -1 then (0, d)
                    else let p = blocks (trace d) index in (p, remove_range p d))
      in case mm_free pkg p (sys d) of None \<Rightarrow> None | Some s \<Rightarrow> Some (True, set_sys s d))"

definition valid_op :: "'p mm_package \<Rightarrow> (nat \<Rightarrow> nat) \<Rightarrow> int \<Rightarrow> traceop_t \<Rightarrow> 'p driver \<Rightarrow> (bool \<times> 'p driver) option" where
  "valid_op pkg rnd verbose oper d =
     (case expensive_checks pkg verbose d of
        None \<Rightarrow> None
      | Some d \<Rightarrow>
          (case op_type oper of
             ALLOC \<Rightarrow> valid_alloc pkg rnd (op_index oper) (op_size oper) d
           | REALLOC \<Rightarrow> valid_realloc pkg rnd (op_index oper) (op_size oper) d
           | FREE \<Rightarrow> valid_free pkg (op_index oper) d))"

fun valid_ops :: "'p mm_package \<Rightarrow> (nat \<Rightarrow> nat) \<Rightarrow> int \<Rightarrow> traceop_t list \<Rightarrow> 'p driver \<Rightarrow> (int \<times> 'p driver) option" where
  "valid_ops pkg rnd verbose [] d = Some (1, d)"
| "valid_ops pkg rnd verbose (oper # os) d =
     (case valid_op pkg rnd verbose oper d of
        None \<Rightarrow> None
      | Some (go, d) \<Rightarrow> if go then valid_ops pkg rnd verbose os d else Some (0, d))"

definition eval_mm_valid :: "'p mm_package \<Rightarrow> (nat \<Rightarrow> nat) \<Rightarrow> int \<Rightarrow> 'p driver \<Rightarrow> (int \<times> 'p driver) option" where
  "eval_mm_valid pkg rnd verbose d =
     (let d = set_sys (mem_reset_brk (sys d)) d;
          d = clear_ranges d;
          d = reinit_trace d
      in case mm_init pkg (sys d) of
           None \<Rightarrow> None
         | Some (r, s) \<Rightarrow>
             (let d = set_sys s d
              in if r < 0 then Some (0, malloc_error d)
                 else valid_ops pkg rnd verbose (take (nat (num_ops (trace d))) (ops (trace d))) d))"

end
