(* ===== verification/MDriver_Valid.thy ===== *)
theory MDriver_Valid
  imports MDriver
begin

section \<open>The driver accepts every package that keeps the contract\<close>

text \<open>
  A trace is well formed when every request names an id in range, allocates an id that holds no
  block, and reallocates or frees an id that was not freed before. \<open>id_state\<close> follows an id
  through the trace. The invariant \<open>ids_ok\<close> connects the driver's arrays and its range list with
  the live payloads of the contract and says that, when the random data is in use, every live
  payload still holds its pattern.
\<close>

datatype id_state = Null | Live | Dangling

definition next_ids :: "int \<Rightarrow> traceop_t \<Rightarrow> (int \<Rightarrow> id_state) \<Rightarrow> (int \<Rightarrow> id_state) option" where
  "next_ids N oper st =
     (let i = op_index oper; n = op_size oper; ok = (0 \<le> i \<and> i < N)
      in case op_type oper of
           ALLOC \<Rightarrow> if ok \<and> st i \<noteq> Live \<and> 0 < n \<and> n < 2 ^ 31 then Some (st(i := Live)) else None
         | REALLOC \<Rightarrow> if ok \<and> st i \<noteq> Dangling \<and> n < 2 ^ 31
             then Some (st(i := if n = 0 then Null else Live)) else None
         | FREE \<Rightarrow> if i = -1 then Some st
             else if ok \<and> st i \<noteq> Dangling then Some (if st i = Live then st(i := Dangling) else st)
             else None)"

fun wf_ops :: "int \<Rightarrow> (int \<Rightarrow> id_state) \<Rightarrow> traceop_t list \<Rightarrow> bool" where
  "wf_ops N st [] = True"
| "wf_ops N st (oper # os) = (case next_ids N oper st of None \<Rightarrow> False | Some st' \<Rightarrow> wf_ops N st' os)"

definition op_cost :: "(nat \<Rightarrow> nat) \<Rightarrow> traceop_t \<Rightarrow> nat" where
  "op_cost cost oper = (if op_type oper = FREE \<or> op_size oper = 0 then 0 else cost (op_size oper))"

definition total_cost :: "(nat \<Rightarrow> nat) \<Rightarrow> traceop_t list \<Rightarrow> nat" where
  "total_cost cost os = sum_list (map (op_cost cost) os)"

definition tracked :: "'p driver \<Rightarrow> bool" where
  "tracked d \<longleftrightarrow> ignore_ranges (trace d) = 0 \<and> debug_mode d \<noteq> DBG_NONE"

definition range_of :: "'p driver \<Rightarrow> int \<Rightarrow> range_t" where
  "range_of d i = \<lparr>lo = blocks (trace d) i, hi = blocks (trace d) i + block_sizes (trace d) i - 1, rng_index = i\<rparr>"

definition has_pattern :: "'p driver \<Rightarrow> int \<Rightarrow> bool" where
  "has_pattern d i \<longleftrightarrow> (\<forall>k < block_sizes (trace d) i.
     bytes (sys d) (blocks (trace d) i + k) = pattern d (block_rand_base (trace d) i) k)"

definition ids_ok :: "'p driver \<Rightarrow> (int \<Rightarrow> id_state) \<Rightarrow> live \<Rightarrow> bool" where
  "ids_ok d st L \<longleftrightarrow>
     (\<forall>i. st i = Null \<and> 0 \<le> i \<and> i < num_ids (trace d) \<longrightarrow> blocks (trace d) i = 0 \<and> block_sizes (trace d) i = 0)
   \<and> (\<forall>i. st i = Live \<longrightarrow> 0 \<le> i \<and> blocks (trace d) i \<noteq> 0 \<and> block_sizes (trace d) i < 2 ^ 31
        \<and> L (blocks (trace d) i) = Some (block_sizes (trace d) i))
   \<and> (\<forall>i j. st i = Live \<and> st j = Live \<and> blocks (trace d) i = blocks (trace d) j \<longrightarrow> i = j)
   \<and> (\<forall>p. L p \<noteq> None \<longrightarrow> (\<exists>i. st i = Live \<and> blocks (trace d) i = p))
   \<and> (debug_mode d \<noteq> DBG_NONE \<longrightarrow> (\<forall>i. st i = Live \<longrightarrow> has_pattern d i))
   \<and> set (ranges d) = (if tracked d then range_of d ` {i. st i = Live} else {})
   \<and> distinct (map lo (ranges d))"

lemma ids_okD:
  assumes "ids_ok d st L"
  shows "st i = Null \<Longrightarrow> 0 \<le> i \<Longrightarrow> i < num_ids (trace d) \<Longrightarrow> blocks (trace d) i = 0 \<and> block_sizes (trace d) i = 0"
    "st i = Live \<Longrightarrow> 0 \<le> i" "st i = Live \<Longrightarrow> blocks (trace d) i \<noteq> 0"
    "st i = Live \<Longrightarrow> block_sizes (trace d) i < 2 ^ 31"
    "st i = Live \<Longrightarrow> L (blocks (trace d) i) = Some (block_sizes (trace d) i)"
    "st i = Live \<Longrightarrow> st j = Live \<Longrightarrow> blocks (trace d) i = blocks (trace d) j \<Longrightarrow> i = j"
    "L p \<noteq> None \<Longrightarrow> \<exists>i. st i = Live \<and> blocks (trace d) i = p"
    "debug_mode d \<noteq> DBG_NONE \<Longrightarrow> st i = Live \<Longrightarrow> has_pattern d i"
    "set (ranges d) = (if tracked d then range_of d ` {i. st i = Live} else {})"
    "distinct (map lo (ranges d))"
  using assms by (auto simp: ids_ok_def)

lemma ids_okI:
  assumes "\<And>i. st i = Null \<Longrightarrow> 0 \<le> i \<Longrightarrow> i < num_ids (trace d) \<Longrightarrow> blocks (trace d) i = 0 \<and> block_sizes (trace d) i = 0"
    "\<And>i. st i = Live \<Longrightarrow> 0 \<le> i \<and> blocks (trace d) i \<noteq> 0 \<and> block_sizes (trace d) i < 2 ^ 31
        \<and> L (blocks (trace d) i) = Some (block_sizes (trace d) i)"
    "\<And>i j. st i = Live \<Longrightarrow> st j = Live \<Longrightarrow> blocks (trace d) i = blocks (trace d) j \<Longrightarrow> i = j"
    "\<And>p. L p \<noteq> None \<Longrightarrow> \<exists>i. st i = Live \<and> blocks (trace d) i = p"
    "\<And>i. debug_mode d \<noteq> DBG_NONE \<Longrightarrow> st i = Live \<Longrightarrow> has_pattern d i"
    "set (ranges d) = (if tracked d then range_of d ` {i. st i = Live} else {})"
    "distinct (map lo (ranges d))"
  shows "ids_ok d st L"
  using assms unfolding ids_ok_def by blast

subsection \<open>Simplification of the setters\<close>

lemma driver_set_simps [simp]:
  "sys (set_block i p d) = sys d" "sys (set_size i n d) = sys d" "sys (set_base i b d) = sys d"
  "sys (set_sys s d) = s" "trace (set_sys s d) = trace d" "ranges (set_sys s d) = ranges d"
  "debug_mode (set_sys s d) = debug_mode d" "random_data (set_sys s d) = random_data d"
  "errors (set_sys s d) = errors d" "rand_next (set_sys s d) = rand_next d"
  "ranges (set_block i p d) = ranges d" "ranges (set_size i n d) = ranges d" "ranges (set_base i b d) = ranges d"
  "errors (set_block i p d) = errors d" "errors (set_size i n d) = errors d" "errors (set_base i b d) = errors d"
  "debug_mode (set_block i p d) = debug_mode d" "debug_mode (set_size i n d) = debug_mode d"
  "debug_mode (set_base i b d) = debug_mode d"
  "random_data (set_block i p d) = random_data d" "random_data (set_size i n d) = random_data d"
  "random_data (set_base i b d) = random_data d"
  "trace (set_block i p d) = (trace d)\<lparr>blocks := (blocks (trace d))(i := p)\<rparr>"
  "trace (set_size i n d) = (trace d)\<lparr>block_sizes := (block_sizes (trace d))(i := n)\<rparr>"
  "trace (set_base i b d) = (trace d)\<lparr>block_rand_base := (block_rand_base (trace d))(i := b)\<rparr>"
  by (simp_all add: set_block_def set_size_def set_base_def set_sys_def)

lemma remove_range_simps [simp]:
  "sys (remove_range l d) = sys d" "trace (remove_range l d) = trace d" "errors (remove_range l d) = errors d"
  "debug_mode (remove_range l d) = debug_mode d" "random_data (remove_range l d) = random_data d"
  "ranges (remove_range l d) = drop_range l (ranges d)"
  by (simp_all add: remove_range_def)

lemma set_drop_range: "distinct (map lo rs) \<Longrightarrow> set (drop_range l rs) = {r \<in> set rs. lo r \<noteq> l}"
  by (induction rs) (auto intro: rev_image_eqI)

lemma distinct_drop_range: "distinct (map lo rs) \<Longrightarrow> distinct (map lo (drop_range l rs))"
  by (induction rs) (auto simp: set_drop_range)

lemma drop_range_none: "(\<And>r. r \<in> set rs \<Longrightarrow> lo r \<noteq> l) \<Longrightarrow> drop_range l rs = rs"
  by (induction rs) auto

lemma check_index_pattern:
  assumes "index < 0 \<or> debug_mode d = DBG_NONE \<or> has_pattern d index"
  shows "check_index index d = d"
  using assms by (auto simp: check_index_def has_pattern_def Let_def)

lemma ids_ok_check:
  assumes ok: "ids_ok d st L" and i: "0 \<le> i" "i < num_ids (trace d)" "st i \<noteq> Dangling"
  shows "check_index i d = d"
proof (rule check_index_pattern)
  show "i < 0 \<or> debug_mode d = DBG_NONE \<or> has_pattern d i"
    using ids_okD(1,8) [OF ok, of i] i by (cases "st i") (auto simp: has_pattern_def)
qed

lemma ids_ok_expensive:
  assumes ok: "ids_ok d st L"
  shows "fold (\<lambda>r. check_index (rng_index r)) (ranges d) d = d"
proof -
  have "check_index (rng_index r) d = d" if "r \<in> set (ranges d)" for r
  proof (rule check_index_pattern)
    show "rng_index r < 0 \<or> debug_mode d = DBG_NONE \<or> has_pattern d (rng_index r)"
      using that ids_okD(8) [OF ok] unfolding ids_okD(9) [OF ok]
      by (auto simp: range_of_def tracked_def split: if_splits)
  qed
  then have "fold (\<lambda>r. check_index (rng_index r)) rs d = d" if "set rs \<subseteq> set (ranges d)" for rs
    using that by (induction rs) auto
  then show ?thesis by blast
qed

lemma ids_ok_sys:
  assumes ok: "ids_ok d st L" and k: "kept L (sys d) s"
  shows "ids_ok (set_sys s d) st L"
proof -
  have "has_pattern (set_sys s d) i" if "st i = Live" "has_pattern d i" for i
    using that keptD [OF k ids_okD(5) [OF ok that(1)]] by (simp add: has_pattern_def pattern_def)
  then show ?thesis using ok by (simp add: ids_ok_def tracked_def range_of_def)
qed

lemma ids_ok_drop:
  assumes ok: "ids_ok d st L" and i: "st i = Live"
  shows "ids_ok (remove_range (blocks (trace d) i) d) (st(i := Dangling)) (L(blocks (trace d) i := None))"
proof -
  let ?p = "blocks (trace d) i"
  have ne: "blocks (trace d) j \<noteq> ?p" if "st j = Live" "j \<noteq> i" for j
    using ids_okD(6) [OF ok that(1) i] that(2) by auto
  show ?thesis
  proof (rule ids_okI)
    let ?d = "remove_range ?p d" and ?st = "st(i := Dangling)"
    show "set (ranges ?d) = (if tracked ?d then range_of ?d ` {j. ?st j = Live} else {})"
      using ne ids_okD(9,10) [OF ok]
      by (auto simp: set_drop_range range_of_def tracked_def)
    show "distinct (map lo (ranges ?d))" using distinct_drop_range ids_okD(10) [OF ok] by simp
    show "\<exists>j. ?st j = Live \<and> blocks (trace ?d) j = q" if "(L(?p := None)) q \<noteq> None" for q
      using that ids_okD(7) [OF ok, of q] by (auto split: if_splits)
    show "has_pattern ?d j" if "debug_mode ?d \<noteq> DBG_NONE" "?st j = Live" for j
      using that ids_okD(8) [OF ok, of j] by (simp add: has_pattern_def pattern_def split: if_splits)
  qed (use ids_okD(1-6) [OF ok] ne in \<open>auto split: if_splits\<close>)
qed


subsection \<open>Writing the pattern\<close>

definition write_all :: "addr \<Rightarrow> (nat \<Rightarrow> 8 word) \<Rightarrow> nat \<Rightarrow> 'p memlib_scheme \<Rightarrow> 'p memlib_scheme" where
  "write_all p f n s = for_range 0 n (\<lambda>i. write_byte (p + i) (f i)) s"

lemma write_all_Suc: "write_all p f (Suc n) s = write_byte (p + n) (f n) (write_all p f n s)"
  by (simp add: write_all_def for_range_def)

lemma write_all_0 [simp]: "write_all p f 0 s = s"
  by (simp add: write_all_def for_range_def)

lemma write_all_simps [simp]:
  "heap (write_all p f n s) = heap s" "mem_brk (write_all p f n s) = mem_brk s"
  "mem_max_addr (write_all p f n s) = mem_max_addr s"
  by (induction n) (simp_all add: write_all_Suc)

lemma write_all_bytes:
  "bytes (write_all p f n s) x = (if p \<le> x \<and> x < p + n then f (x - p) else bytes s x)"
  by (induction n) (auto simp: write_all_Suc less_Suc_eq)

lemma randomize_block_eq:
  "randomize_block rnd i d =
     (if debug_mode d = DBG_NONE then d
      else let b = s32 (rnd (rand_next d))
        in (set_base i b d)\<lparr>rand_next := Suc (rand_next d),
             sys := write_all (blocks (trace d) i) (pattern d b) (block_sizes (trace d) i) (sys d)\<rparr>)"
  by (simp add: randomize_block_def random_def Let_def write_all_def set_base_def pattern_def [abs_def])

lemma randomize_block_simps [simp]:
  "errors (randomize_block rnd i d) = errors d" "ranges (randomize_block rnd i d) = ranges d"
  "debug_mode (randomize_block rnd i d) = debug_mode d" "random_data (randomize_block rnd i d) = random_data d"
  "blocks (trace (randomize_block rnd i d)) = blocks (trace d)"
  "block_sizes (trace (randomize_block rnd i d)) = block_sizes (trace d)"
  "num_ids (trace (randomize_block rnd i d)) = num_ids (trace d)"
  "num_ops (trace (randomize_block rnd i d)) = num_ops (trace d)" "ops (trace (randomize_block rnd i d)) = ops (trace d)"
  "ignore_ranges (trace (randomize_block rnd i d)) = ignore_ranges (trace d)"
  "heap (sys (randomize_block rnd i d)) = heap (sys d)" "mem_brk (sys (randomize_block rnd i d)) = mem_brk (sys d)"
  "mem_max_addr (sys (randomize_block rnd i d)) = mem_max_addr (sys d)"
  by (simp_all add: randomize_block_eq Let_def)

lemma tracked_cong:
  "ignore_ranges (trace d') = ignore_ranges (trace d) \<Longrightarrow> debug_mode d' = debug_mode d \<Longrightarrow> tracked d' = tracked d"
  by (simp add: tracked_def)

text \<open>The pattern holds right after it was written, and other payloads keep theirs.\<close>

lemma randomize_has_pattern:
  "debug_mode d \<noteq> DBG_NONE \<Longrightarrow> has_pattern (randomize_block rnd i d) i"
  by (simp add: has_pattern_def randomize_block_eq Let_def write_all_bytes pattern_def)

lemma randomize_other_pattern:
  assumes "j \<noteq> i" "has_pattern d j"
    and apart: "blocks (trace d) i + block_sizes (trace d) i \<le> blocks (trace d) j \<or>
      blocks (trace d) j + block_sizes (trace d) j \<le> blocks (trace d) i"
  shows "has_pattern (randomize_block rnd i d) j"
  unfolding has_pattern_def
proof (intro allI impI)
  fix k assume k: "k < block_sizes (trace (randomize_block rnd i d)) j"
  then have b: "bytes (sys d) (blocks (trace d) j + k) = pattern d (block_rand_base (trace d) j) k"
    using assms(2) by (simp add: has_pattern_def)
  have "\<not> (blocks (trace d) i \<le> blocks (trace d) j + k \<and>
      blocks (trace d) j + k < blocks (trace d) i + block_sizes (trace d) i)"
    using apart k by auto
  with b show "bytes (sys (randomize_block rnd i d)) (blocks (trace (randomize_block rnd i d)) j + k) =
      pattern (randomize_block rnd i d) (block_rand_base (trace (randomize_block rnd i d)) j) k"
    using assms(1) by (auto simp: randomize_block_eq Let_def write_all_bytes pattern_def)
qed

lemma randomize_empty:
  assumes "block_sizes (trace d) i = 0" "ids_ok d st L" "st i \<noteq> Live"
  shows "ids_ok (randomize_block rnd i d) st L" "sys (randomize_block rnd i d) = sys d"
proof -
  show s: "sys (randomize_block rnd i d) = sys d" using assms(1) by (simp add: randomize_block_eq Let_def)
  have "has_pattern (randomize_block rnd i d) j" if "st j = Live" "has_pattern d j" for j
  proof -
    have "j \<noteq> i" using that(1) assms(3) by auto
    with that(2) assms(1) show ?thesis
      by (simp add: has_pattern_def randomize_block_eq Let_def pattern_def)
  qed
  then show "ids_ok (randomize_block rnd i d) st L"
    using assms(2) by (simp add: ids_ok_def range_of_def tracked_def)
qed

subsection \<open>Accepting a new payload\<close>

lemma add_range_accepts:
  assumes ok: "ids_ok d st L" and mem: "mem_ok (sys d)" and live: "live_ok (L(q \<mapsto> n)) (sys d)"
    and q: "q \<notin> dom L" and n: "0 < n" "n < 2 ^ 31"
  shows "add_range q (s32 n) i d = Some (True,
    d\<lparr>ranges := (if tracked d then \<lparr>lo = q, hi = q + n - 1, rng_index = i\<rparr> # ranges d else ranges d)\<rparr>)"
proof -
  note m = mem_okD [OF mem]
  note l = live_okD [OF live, of q n, simplified]
  have h: "sub64 (add64 q (to_u64 (s32 n))) 1 = q + n - 1"
    using n l(4) m(7) by (simp add: s32_small to_u64_def add64_small sub64_small)
  have hh: "mem_heap_hi (sys d) = mem_brk (sys d) - 1" using m by (intro mem_heap_hi_small) simp_all
  have inside: "\<not> (q < mem_heap_lo (sys d) \<or> mem_heap_hi (sys d) < q \<or>
      q + n - 1 < mem_heap_lo (sys d) \<or> mem_heap_hi (sys d) < q + n - 1)"
    using l n(1) by (auto simp: hh mem_heap_lo_def)
  have apart: "\<not> (lo r \<le> q \<and> q \<le> hi r \<or> lo r \<le> q + n - 1 \<and> q + n - 1 \<le> hi r)" if r: "r \<in> set (ranges d)" for r
  proof -
    obtain j where j: "st j = Live" "r = range_of d j"
      using r unfolding ids_okD(9) [OF ok] by (auto split: if_splits)
    let ?p = "blocks (trace d) j" and ?k = "block_sizes (trace d) j"
    have pq: "?p \<noteq> q" using ids_okD(5) [OF ok j(1)] q by auto
    then have Lp: "(L(q \<mapsto> n)) ?p = Some ?k" using ids_okD(5) [OF ok j(1)] by simp
    have "?p + ?k \<le> q \<or> q + n \<le> ?p" using live_ok_disjoint [OF live Lp _ pq, of n] by simp
    then show ?thesis using live_okD(1) [OF live Lp] n(1) by (auto simp: j(2) range_of_def)
  qed
  have no: "\<not> list_ex (\<lambda>r. lo r \<le> q \<and> q \<le> hi r \<or> lo r \<le> q + n - 1 \<and> q + n - 1 \<le> hi r) (ranges d)"
    using apart by (auto simp: list_ex_iff)
  have pos: "0 < s32 n" using n by (simp add: s32_small)
  have al: "IS_ALIGNED q" using l(2) by (simp add: IS_ALIGNED_def ALIGNMENT_def mod_eq_0_iff_dvd)
  show ?thesis
    unfolding add_range_def Let_def h
    using pos al inside no by (simp only: if_True if_False not_not simp_thms tracked_def) auto
qed


definition track :: "addr \<Rightarrow> nat \<Rightarrow> int \<Rightarrow> 'p driver \<Rightarrow> 'p driver" where
  "track q n i d = d\<lparr>ranges := (if tracked d then \<lparr>lo = q, hi = q + n - 1, rng_index = i\<rparr> # ranges d else ranges d)\<rparr>"

lemma track_simps [simp]:
  "sys (track q n i d) = sys d" "trace (track q n i d) = trace d" "errors (track q n i d) = errors d"
  "debug_mode (track q n i d) = debug_mode d" "random_data (track q n i d) = random_data d"
  "ranges (track q n i d) = (if tracked d then \<lparr>lo = q, hi = q + n - 1, rng_index = i\<rparr> # ranges d else ranges d)"
  by (simp_all add: track_def)

lemma ids_ok_install:
  assumes ok: "ids_ok d st L" and live: "live_ok (L(q \<mapsto> n)) (sys d)" and q: "q \<notin> dom L" "q \<noteq> 0"
    and n: "0 < n" "n < 2 ^ 31" and i: "0 \<le> i" "st i \<noteq> Live"
    and e: "d' = randomize_block rnd i d1" "sys d1 = sys d" "debug_mode d1 = debug_mode d"
      "random_data d1 = random_data d" "ranges d1 = ranges (track q n i d)"
      "trace d1 = (trace d)\<lparr>blocks := (blocks (trace d))(i := q), block_sizes := (block_sizes (trace d))(i := n)\<rparr>"
  shows "ids_ok d' (st(i := Live)) (L(q \<mapsto> n))"
proof (rule ids_okI)
  let ?st = "st(i := Live)"
  have bl: "blocks (trace d') = (blocks (trace d))(i := q)" "block_sizes (trace d') = (block_sizes (trace d))(i := n)"
    by (simp_all add: e)
  have ne: "blocks (trace d) j \<noteq> q" if "st j = Live" for j using ids_okD(5) [OF ok that] q(1) by auto
  have tr: "tracked d' = tracked d" by (rule tracked_cong) (simp_all add: e)
  show "blocks (trace d') j = 0 \<and> block_sizes (trace d') j = 0"
    if "?st j = Null" "0 \<le> j" "j < num_ids (trace d')" for j
    using ids_okD(1) [OF ok, of j] that by (simp add: e split: if_splits)
  show "0 \<le> j \<and> blocks (trace d') j \<noteq> 0 \<and> block_sizes (trace d') j < 2 ^ 31 \<and>
      (L(q \<mapsto> n)) (blocks (trace d') j) = Some (block_sizes (trace d') j)" if "?st j = Live" for j
    using ids_okD(2-5) [OF ok, of j] that i n q ne by (simp add: bl split: if_splits)
  show "j = k" if "?st j = Live" "?st k = Live" "blocks (trace d') j = blocks (trace d') k" for j k
    using that ids_okD(6) [OF ok, of j k] ne [of j] ne [of k] by (simp add: bl split: if_splits)
  show "\<exists>j. ?st j = Live \<and> blocks (trace d') j = p" if "(L(q \<mapsto> n)) p \<noteq> None" for p
  proof (cases "p = q")
    case False
    then obtain j where "st j = Live" "blocks (trace d) j = p" using ids_okD(7) [OF ok, of p] \<open>_ \<noteq> None\<close> by auto
    then show ?thesis using i by (intro exI [of _ j]) (auto simp: bl)
  qed (auto simp: bl)
  show "has_pattern d' j" if dbg: "debug_mode d' \<noteq> DBG_NONE" and j: "?st j = Live" for j
  proof (cases "j = i")
    case True
    then show ?thesis using dbg by (simp add: e randomize_has_pattern)
  next
    case False
    then have jl: "st j = Live" using j by simp
    have pd: "has_pattern d j" using ids_okD(8) [OF ok _ jl] dbg by (simp add: e)
    have p1: "has_pattern d1 j" using pd False by (simp add: e has_pattern_def pattern_def)
    have "(L(q \<mapsto> n)) (blocks (trace d) j) = Some (block_sizes (trace d) j)"
      using ids_okD(5) [OF ok jl] ne [OF jl] by simp
    from live_ok_disjoint [OF live _ this ne [OF jl, symmetric], of n]
    have "q + n \<le> blocks (trace d) j \<or> blocks (trace d) j + block_sizes (trace d) j \<le> q" by simp
    then show ?thesis unfolding e(1) using False
      by (intro randomize_other_pattern [OF False p1]) (simp add: e(6))
  qed
  have r: "range_of d' j = range_of d j" if "st j = Live" for j
    using that i(2) by (auto simp: range_of_def bl)
  have im: "range_of d' ` {j. ?st j = Live} = insert (range_of d' i) (range_of d ` {j. st j = Live})"
    using r i(2) by (auto simp: image_iff) metis
  show "set (ranges d') = (if tracked d' then range_of d' ` {j. ?st j = Live} else {})"
    unfolding im tr using ids_okD(9) [OF ok] by (simp add: e(1,5,6) range_of_def bl)
  have "q \<notin> lo ` set (ranges d)" unfolding ids_okD(9) [OF ok] by (auto simp: range_of_def dest: ne)
  then show "distinct (map lo (ranges d'))" using ids_okD(10) [OF ok] by (simp add: e(1,5))
qed


subsection \<open>Replaying a trace on a package that keeps the contract\<close>

lemma remove_set_sys: "remove_range l (set_sys s d) = set_sys s (remove_range l d)"
  by (simp add: remove_range_def set_sys_def)

text \<open>What a successful step preserves besides the invariant.\<close>

definition step_frame :: "'p driver \<Rightarrow> 'p driver \<Rightarrow> nat \<Rightarrow> bool" where
  "step_frame d d' c \<longleftrightarrow> errors d' = errors d \<and> num_ids (trace d') = num_ids (trace d) \<and>
     num_ops (trace d') = num_ops (trace d) \<and> ops (trace d') = ops (trace d) \<and>
     same_heap (sys d) (sys d') \<and> mem_brk (sys d') \<le> mem_brk (sys d) + c"

lemma add_range_track:
  assumes "ids_ok d st L" "mem_ok (sys d)" "live_ok (L(q \<mapsto> n)) (sys d)" "q \<notin> dom L" "0 < n" "n < 2 ^ 31"
  shows "add_range q (s32 n) i d = Some (True, track q n i d)"
  using add_range_accepts [OF assms] by (simp add: track_def)

lemma ids_ok_null:
  assumes ok: "ids_ok d st L" and i: "st i \<noteq> Live"
  shows "ids_ok (set_size i 0 (set_block i 0 d)) (st(i := Null)) L" (is "ids_ok ?d ?st L")
proof (rule ids_okI)
  have st: "?st j = Live \<longleftrightarrow> st j = Live" for j using i by auto
  have r: "range_of ?d j = range_of d j" if "st j = Live" for j using that i by (auto simp: range_of_def)
  show "set (ranges ?d) = (if tracked ?d then range_of ?d ` {j. ?st j = Live} else {})"
    using ids_okD(9) [OF ok] r unfolding st by (simp add: tracked_def)
  show "has_pattern ?d j" if "debug_mode ?d \<noteq> DBG_NONE" "?st j = Live" for j
    using that ids_okD(8) [OF ok, of j] i by (auto simp: has_pattern_def pattern_def split: if_splits)
  show "\<exists>j. ?st j = Live \<and> blocks (trace ?d) j = p" if "L p \<noteq> None" for p
    using ids_okD(7) [OF ok that] i by (auto split: if_splits)
  show "distinct (map lo (ranges ?d))" using ids_okD(10) [OF ok] by simp
qed (use ids_okD(1-6) [OF ok] i in \<open>auto split: if_splits\<close>)

definition realloc_tail :: "(nat \<Rightarrow> nat) \<Rightarrow> int \<Rightarrow> nat \<Rightarrow> addr \<Rightarrow> 'p driver \<Rightarrow> 'p driver" where
  "realloc_tail rnd i n newp d =
     (let d = set_block i newp d;
          d = (if n < block_sizes (trace d) i then set_size i n d else d);
          d = check_index i d;
          d = set_size i n d
      in randomize_block rnd i d)"

lemma realloc_tail_eq:
  assumes "debug_mode d \<noteq> DBG_NONE \<Longrightarrow> \<forall>k < min n (block_sizes (trace d) i).
      bytes (sys d) (newp + k) = pattern d (block_rand_base (trace d) i) k"
  shows "realloc_tail rnd i n newp d = randomize_block rnd i (set_size i n (set_block i newp d))"
proof -
  let ?d = "if n < block_sizes (trace d) i then set_size i n (set_block i newp d) else set_block i newp d"
  have "check_index i ?d = ?d"
    using assms by (intro check_index_pattern) (auto simp: has_pattern_def pattern_def min_def)
  moreover have "set_size i n ?d = set_size i n (set_block i newp d)"
    by (simp add: set_size_def set_block_def)
  ultimately show ?thesis by (simp add: realloc_tail_def Let_def)
qed

context malloc_contract
begin

lemma write_all_inv: "inv L s \<Longrightarrow> L p = Some n \<Longrightarrow> m \<le> n \<Longrightarrow> inv L (write_all p f m s)"
  by (induction m) (auto simp: write_all_Suc intro: write_law)

lemma randomize_inv:
  "inv L (sys d) \<Longrightarrow> L (blocks (trace d) i) = Some (block_sizes (trace d) i) \<Longrightarrow> inv L (sys (randomize_block rnd i d))"
  by (simp add: randomize_block_eq Let_def write_all_inv)

lemma valid_alloc_ok:
  assumes ok: "ids_ok d st L" and inv: "inv L (sys d)" and n: "0 < n" "n < 2 ^ 31"
    and i: "0 \<le> i" "st i \<noteq> Live" and fit: "mem_brk (sys d) + cost n \<le> mem_max_addr (sys d)"
  obtains d' L' where "valid_alloc pkg rnd i n d = Some (True, d')" "ids_ok d' (st(i := Live)) L'" "inv L' (sys d')"
    "step_frame d d' (cost n)"
proof -
  obtain q s where q: "mm_malloc pkg n (sys d) = Some (q, s)" "q \<noteq> 0" "q \<notin> dom L" "inv (L(q \<mapsto> n)) s"
    "kept L (sys d) s" "same_heap (sys d) s" "mem_brk s \<le> mem_brk (sys d) + cost n"
    using malloc_law [OF inv n(1) fit] by blast
  have mo: "mem_ok s" "live_ok (L(q \<mapsto> n)) s" using inv_ok [OF q(4)] by auto
  have ok1: "ids_ok (set_sys s d) st L" by (rule ids_ok_sys [OF ok q(5)])
  have add: "add_range q (s32 n) i (set_sys s d) = Some (True, track q n i (set_sys s d))"
    using add_range_track [OF ok1 _ _ q(3) n] mo by simp
  define d1 where "d1 = set_size i n (set_block i q (track q n i (set_sys s d)))"
  have "ids_ok (randomize_block rnd i d1) (st(i := Live)) (L(q \<mapsto> n))"
    by (rule ids_ok_install [OF ok1 _ q(3,2) n i refl, where ?d1.0 = d1]) (use mo in \<open>simp_all add: d1_def\<close>)
  moreover have "inv (L(q \<mapsto> n)) (sys (randomize_block rnd i d1))"
    using q(4) by (intro randomize_inv) (simp_all add: d1_def)
  moreover have "valid_alloc pkg rnd i n d = Some (True, randomize_block rnd i d1)"
    using q(1,2) add by (simp add: valid_alloc_def d1_def)
  moreover have "step_frame d (randomize_block rnd i d1) (cost n)"
    using q(6,7) by (simp add: step_frame_def d1_def same_heap_def)
  ultimately show thesis by (rule_tac that)
qed

lemma valid_free_ok:
  assumes ok: "ids_ok d st L" and inv: "inv L (sys d)"
    and i: "i = -1 \<or> 0 \<le> i \<and> i < num_ids (trace d) \<and> st i \<noteq> Dangling"
  obtains d' L' where "valid_free pkg i d = Some (True, d')"
    "ids_ok d' (if i \<noteq> -1 \<and> st i = Live then st(i := Dangling) else st) L'" "inv L' (sys d')"
    "step_frame d d' 0"
proof (cases "i = -1 \<or> st i = Null")
  case True
  have c: "check_index i d = d" using ids_ok_check [OF ok, of i] i check_index_pattern [of i d] by auto
  have z: "i \<noteq> -1 \<Longrightarrow> blocks (trace d) i = 0" using ids_okD(1) [OF ok, of i] i True by auto
  have "lo r \<noteq> 0" if "r \<in> set (ranges d)" for r
    using that ids_okD(3) [OF ok] unfolding ids_okD(9) [OF ok] by (auto simp: range_of_def split: if_splits)
  then have "remove_range 0 d = d" using drop_range_none [of "ranges d" 0] by (simp add: remove_range_def)
  then have "valid_free pkg i d = Some (True, d)"
    using c z free_null_law [OF inv] by (simp add: valid_free_def Let_def set_sys_def)
  moreover have "ids_ok d (if i \<noteq> -1 \<and> st i = Live then st(i := Dangling) else st) L" using ok True by auto
  ultimately show thesis using that inv by (simp add: step_frame_def)
next
  case False
  then have live: "st i = Live" and i': "0 \<le> i" "i < num_ids (trace d)" using i by (cases "st i"; auto)+
  have c: "check_index i d = d" using ids_ok_check [OF ok i'] live by simp
  let ?p = "blocks (trace d) i"
  obtain s where s: "mm_free pkg ?p (sys d) = Some s" "inv (L(?p := None)) s" "kept (L(?p := None)) (sys d) s"
    "same_heap (sys d) s" "mem_brk s = mem_brk (sys d)"
    using free_law [OF inv ids_okD(5) [OF ok live]] by blast
  have "ids_ok (set_sys s (remove_range ?p d)) (st(i := Dangling)) (L(?p := None))"
    using ids_ok_sys [OF ids_ok_drop [OF ok live]] s(3) by simp
  moreover have "valid_free pkg i d = Some (True, set_sys s (remove_range ?p d))"
    using False c s(1) by (simp add: valid_free_def Let_def)
  ultimately show thesis using that s(2,4,5) False live by (simp add: step_frame_def)
qed

lemma valid_realloc_zero:
  assumes ok: "ids_ok d st L" and inv: "inv L (sys d)" and i: "0 \<le> i" "i < num_ids (trace d)" "st i \<noteq> Dangling"
  obtains d' L' where "valid_realloc pkg rnd i 0 d = Some (True, d')" "ids_ok d' (st(i := Null)) L'" "inv L' (sys d')"
    "step_frame d d' 0"
proof -
  let ?p = "blocks (trace d) i"
  have c: "check_index i d = d" by (rule ids_ok_check [OF ok i])
  obtain s st0 L0 where s: "mm_free pkg ?p (sys d) = Some s" "inv L0 s" "same_heap (sys d) s" "mem_brk s = mem_brk (sys d)"
    and z: "?p = 0 \<or> ?p \<in> dom L"
    and ok0: "ids_ok (set_sys s (remove_range ?p d)) st0 L0" "st0 i \<noteq> Live" "st0(i := Null) = st(i := Null)"
  proof (cases "st i = Live")
    case True
    obtain s where "mm_free pkg ?p (sys d) = Some s" "inv (L(?p := None)) s" "kept (L(?p := None)) (sys d) s"
      "same_heap (sys d) s" "mem_brk s = mem_brk (sys d)"
      using free_law [OF inv ids_okD(5) [OF ok True]] by blast
    then show thesis
      using that [of s "L(?p := None)" "st(i := Dangling)"] ids_ok_sys [OF ids_ok_drop [OF ok True]] ids_okD(5) [OF ok True]
      by auto
  next
    case False
    then have n: "st i = Null" using i(3) by (cases "st i") auto
    then have p0: "?p = 0" using ids_okD(1) [OF ok] i by blast
    have "lo r \<noteq> 0" if "r \<in> set (ranges d)" for r
      using that ids_okD(3) [OF ok] unfolding ids_okD(9) [OF ok] by (auto simp: range_of_def split: if_splits)
    then have "remove_range 0 d = d" using drop_range_none [of "ranges d" 0] by (simp add: remove_range_def)
    then show thesis
      using that [of "sys d" L st] p0 n ok inv free_null_law [OF inv] by (simp add: set_sys_def fun_upd_idem)
  qed
  let ?d0 = "set_sys s (remove_range ?p d)"
  let ?d1 = "set_size i 0 (set_block i 0 ?d0)"
  have ok1: "ids_ok ?d1 (st(i := Null)) L0" using ids_ok_null [OF ok0(1,2)] ok0(3) by simp
  have "valid_realloc pkg rnd i 0 d = Some (True, realloc_tail rnd i 0 0 ?d0)"
    using c s(1) realloc_zero_law [OF inv z] by (simp add: valid_realloc_def realloc_tail_def remove_set_sys Let_def)
  moreover have "realloc_tail rnd i 0 0 ?d0 = randomize_block rnd i ?d1" by (rule realloc_tail_eq) simp
  moreover have "ids_ok (randomize_block rnd i ?d1) (st(i := Null)) L0" "sys (randomize_block rnd i ?d1) = s"
    using randomize_empty [OF _ ok1, of i] by simp_all
  ultimately show thesis using that s(2-4) by (simp add: step_frame_def)
qed

lemma valid_realloc_pos:
  assumes ok: "ids_ok d st L" and inv: "inv L (sys d)" and i: "0 \<le> i" "i < num_ids (trace d)" "st i \<noteq> Dangling"
    and n: "0 < n" "n < 2 ^ 31" and fit: "mem_brk (sys d) + cost n \<le> mem_max_addr (sys d)"
  obtains d' L' where "valid_realloc pkg rnd i n d = Some (True, d')" "ids_ok d' (st(i := Live)) L'" "inv L' (sys d')"
    "step_frame d d' (cost n)"
proof -
  let ?p = "blocks (trace d) i" and ?k = "block_sizes (trace d) i"
  have c: "check_index i d = d" by (rule ids_ok_check [OF ok i])
  obtain q s st0 L0 where q: "mm_realloc pkg ?p n (sys d) = Some (q, s)" "q \<noteq> 0" "q \<notin> dom L0" "inv (L0(q \<mapsto> n)) s"
      "same_heap (sys d) s" "mem_brk s \<le> mem_brk (sys d) + cost n"
    and ok0: "ids_ok (set_sys s (remove_range ?p d)) st0 L0" "st0 i \<noteq> Live" "st0(i := Live) = st(i := Live)"
    and pat: "debug_mode d \<noteq> DBG_NONE \<Longrightarrow> \<forall>k < min n ?k. bytes s (q + k) = pattern d (block_rand_base (trace d) i) k"
  proof (cases "st i = Live")
    case True
    obtain q s where a: "mm_realloc pkg ?p n (sys d) = Some (q, s)" "q \<noteq> 0" "q \<notin> dom (L(?p := None))"
      "inv (L(?p := None, q \<mapsto> n)) s" "kept (L(?p := None)) (sys d) s"
      "\<forall>j < min ?k n. bytes s (q + j) = bytes (sys d) (?p + j)" "same_heap (sys d) s" "mem_brk s \<le> mem_brk (sys d) + cost n"
      using realloc_law [OF inv ids_okD(5) [OF ok True] n(1) fit] by blast
    have "ids_ok (set_sys s (remove_range ?p d)) (st(i := Dangling)) (L(?p := None))"
      using ids_ok_sys [OF ids_ok_drop [OF ok True]] a(5) by simp
    moreover have "\<forall>k < min n ?k. bytes s (q + k) = pattern d (block_rand_base (trace d) i) k" if "debug_mode d \<noteq> DBG_NONE"
      using a(6) ids_okD(8) [OF ok that True] by (simp add: has_pattern_def)
    ultimately show thesis using that [of q s "L(?p := None)" "st(i := Dangling)"] a by auto
  next
    case False
    then have u: "st i = Null" using i(3) by (cases "st i") auto
    then have p0: "?p = 0" "?k = 0" using ids_okD(1) [OF ok] i by blast+
    have "lo r \<noteq> 0" if "r \<in> set (ranges d)" for r
      using that ids_okD(3) [OF ok] unfolding ids_okD(9) [OF ok] by (auto simp: range_of_def split: if_splits)
    then have r: "remove_range 0 d = d" using drop_range_none [of "ranges d" 0] by (simp add: remove_range_def)
    obtain q s where a: "mm_malloc pkg n (sys d) = Some (q, s)" "q \<noteq> 0" "q \<notin> dom L" "inv (L(q \<mapsto> n)) s"
      "kept L (sys d) s" "same_heap (sys d) s" "mem_brk s \<le> mem_brk (sys d) + cost n"
      using malloc_law [OF inv n(1) fit] by blast
    show thesis
      using that [of q s L st] a p0 u r realloc_null_law [OF inv n(1)] ids_ok_sys [OF ok a(5)] by simp
  qed
  let ?d0 = "set_sys s (remove_range ?p d)"
  have mo: "mem_ok s" "live_ok (L0(q \<mapsto> n)) s" using inv_ok [OF q(4)] by auto
  have add: "add_range q (s32 n) i ?d0 = Some (True, track q n i ?d0)"
    using add_range_track [OF ok0(1) _ _ q(3) n] mo by simp
  define d1 where "d1 = set_size i n (set_block i q (track q n i ?d0))"
  have "valid_realloc pkg rnd i n d = Some (True, realloc_tail rnd i n q (track q n i ?d0))"
    using c q(1,2) n add by (simp add: valid_realloc_def realloc_tail_def remove_set_sys Let_def)
  moreover have "realloc_tail rnd i n q (track q n i ?d0) = randomize_block rnd i d1"
    unfolding d1_def by (rule realloc_tail_eq) (use pat in \<open>simp add: pattern_def\<close>)
  moreover have "ids_ok (randomize_block rnd i d1) (st0(i := Live)) (L0(q \<mapsto> n))"
    by (rule ids_ok_install [OF ok0(1) _ q(3,2) n i(1) ok0(2) refl, where ?d1.0 = d1]) (use mo in \<open>simp_all add: d1_def\<close>)
  moreover have "inv (L0(q \<mapsto> n)) (sys (randomize_block rnd i d1))"
    using q(4) by (intro randomize_inv) (simp_all add: d1_def)
  moreover have "step_frame d (randomize_block rnd i d1) (cost n)"
    using q(5,6) by (simp add: step_frame_def d1_def same_heap_def)
  ultimately show thesis using that ok0(3) by simp
qed

lemma valid_op_ok:
  assumes ok: "ids_ok d st L" and inv: "inv L (sys d)" and nx: "next_ids (num_ids (trace d)) oper st = Some st'"
    and fit: "mem_brk (sys d) + op_cost cost oper \<le> mem_max_addr (sys d)"
  obtains d' L' where "valid_op pkg rnd v oper d = Some (True, d')" "ids_ok d' st' L'" "inv L' (sys d')"
    "step_frame d d' (op_cost cost oper)"
proof -
  have ex: "expensive_checks pkg v d = Some d"
    using check_law [OF inv] ids_ok_expensive [OF ok] by (simp add: expensive_checks_def set_sys_def)
  show thesis
  proof (cases "op_type oper")
    case ALLOC
    then have a: "0 \<le> op_index oper" "st (op_index oper) \<noteq> Live" "0 < op_size oper" "op_size oper < 2 ^ 31"
      "st' = st(op_index oper := Live)" using nx by (auto simp: next_ids_def Let_def split: if_splits)
    have c: "op_cost cost oper = cost (op_size oper)" using ALLOC a(3) by (simp add: op_cost_def)
    obtain d' L' where "valid_alloc pkg rnd (op_index oper) (op_size oper) d = Some (True, d')"
      "ids_ok d' (st(op_index oper := Live)) L'" "inv L' (sys d')" "step_frame d d' (cost (op_size oper))"
      using valid_alloc_ok [OF ok inv a(3,4,1,2) fit [unfolded c]] .
    then show thesis using that ALLOC ex a(5) c by (simp add: valid_op_def)
  next
    case REALLOC
    then have a: "0 \<le> op_index oper" "op_index oper < num_ids (trace d)" "st (op_index oper) \<noteq> Dangling"
      "op_size oper < 2 ^ 31" "st' = st(op_index oper := if op_size oper = 0 then Null else Live)"
      using nx by (auto simp: next_ids_def Let_def split: if_splits)
    show thesis
    proof (cases "op_size oper = 0")
      case True
      obtain d' L' where "valid_realloc pkg rnd (op_index oper) 0 d = Some (True, d')"
        "ids_ok d' (st(op_index oper := Null)) L'" "inv L' (sys d')" "step_frame d d' 0"
        using valid_realloc_zero [OF ok inv a(1-3)] .
      then show thesis using that REALLOC ex a(5) True by (simp add: valid_op_def op_cost_def)
    next
      case False
      then have p: "0 < op_size oper" and c: "op_cost cost oper = cost (op_size oper)"
        using REALLOC by (simp_all add: op_cost_def)
      obtain d' L' where "valid_realloc pkg rnd (op_index oper) (op_size oper) d = Some (True, d')"
        "ids_ok d' (st(op_index oper := Live)) L'" "inv L' (sys d')" "step_frame d d' (cost (op_size oper))"
        using valid_realloc_pos [OF ok inv a(1-3) p a(4) fit [unfolded c]] .
      then show thesis using that REALLOC ex a(5) c False by (simp add: valid_op_def)
    qed
  next
    case FREE
    then have a: "op_index oper = -1 \<or> 0 \<le> op_index oper \<and> op_index oper < num_ids (trace d) \<and> st (op_index oper) \<noteq> Dangling"
      and s: "st' = (if op_index oper \<noteq> -1 \<and> st (op_index oper) = Live then st(op_index oper := Dangling) else st)"
      using nx by (auto simp: next_ids_def Let_def split: if_splits)
    obtain d' L' where "valid_free pkg (op_index oper) d = Some (True, d')" "ids_ok d' st' L'" "inv L' (sys d')"
      "step_frame d d' 0"
      using valid_free_ok [OF ok inv a] unfolding s .
    then show thesis using that FREE ex by (simp add: valid_op_def op_cost_def)
  qed
qed

lemma valid_ops_ok:
  "ids_ok d st L \<Longrightarrow> inv L (sys d) \<Longrightarrow> wf_ops (num_ids (trace d)) st os \<Longrightarrow>
   mem_brk (sys d) + total_cost cost os \<le> mem_max_addr (sys d) \<Longrightarrow>
   \<exists>d'. valid_ops pkg rnd v os d = Some (1, d') \<and> step_frame d d' (total_cost cost os)"
proof (induction os arbitrary: d st L)
  case (Cons oper os)
  obtain st' where st': "next_ids (num_ids (trace d)) oper st = Some st'" "wf_ops (num_ids (trace d)) st' os"
    using Cons.prems(3) by (auto split: option.splits)
  have c: "total_cost cost (oper # os) = op_cost cost oper + total_cost cost os" by (simp add: total_cost_def)
  then have fit: "mem_brk (sys d) + op_cost cost oper \<le> mem_max_addr (sys d)" using Cons.prems(4) by simp
  obtain d1 L1 where d1: "valid_op pkg rnd v oper d = Some (True, d1)" "ids_ok d1 st' L1" "inv L1 (sys d1)"
    "step_frame d d1 (op_cost cost oper)"
    using valid_op_ok [OF Cons.prems(1,2) st'(1) fit] .
  have f: "num_ids (trace d1) = num_ids (trace d)" "mem_brk (sys d1) + total_cost cost os \<le> mem_max_addr (sys d1)"
    using d1(4) Cons.prems(4) by (simp_all add: step_frame_def same_heap_def c)
  obtain d' where "valid_ops pkg rnd v os d1 = Some (1, d')" "step_frame d1 d' (total_cost cost os)"
    using Cons.IH [OF d1(2,3)] st'(2) f by auto
  then show ?case using d1(1,4) by (auto simp: step_frame_def same_heap_def c)
qed (simp add: step_frame_def total_cost_def)

lemma eval_mm_valid_ok:
  assumes mem: "mem_ok (sys d)" and wf: "wf_ops (num_ids (trace d)) (\<lambda>_. Null) (take (nat (num_ops (trace d))) (ops (trace d)))"
    and fit: "init_cost + total_cost cost (take (nat (num_ops (trace d))) (ops (trace d))) \<le> MAX_HEAP"
  obtains d' where "eval_mm_valid pkg rnd v d = Some (1, d')" "errors d' = errors d" "mem_ok (sys d')"
    "num_ids (trace d') = num_ids (trace d)" "num_ops (trace d') = num_ops (trace d)" "ops (trace d') = ops (trace d)"
proof -
  let ?d0 = "reinit_trace (clear_ranges (set_sys (mem_reset_brk (sys d)) d))"
  let ?os = "take (nat (num_ops (trace d))) (ops (trace d))"
  have d0: "sys ?d0 = mem_reset_brk (sys d)" "num_ids (trace ?d0) = num_ids (trace d)" "ops (trace ?d0) = ops (trace d)"
    "num_ops (trace ?d0) = num_ops (trace d)" "ranges ?d0 = []" "errors ?d0 = errors d"
    by (simp_all add: reinit_trace_def clear_ranges_def Let_def)
  have ok: "mem_ok (mem_reset_brk (sys d))" "mem_brk (mem_reset_brk (sys d)) = heap (mem_reset_brk (sys d))"
    using mem by (auto simp: mem_ok_def mem_reset_brk_def)
  obtain s where s: "mm_init pkg (mem_reset_brk (sys d)) = Some (0, s)" "inv Map.empty s"
    "same_heap (mem_reset_brk (sys d)) s" "mem_brk s \<le> heap (mem_reset_brk (sys d)) + init_cost"
    using init_law [OF ok] fit by auto
  have ids: "ids_ok (set_sys s ?d0) (\<lambda>_. Null) Map.empty"
    unfolding ids_ok_def by (simp add: d0) (simp add: reinit_trace_def clear_ranges_def Let_def)
  have room: "mem_brk s + total_cost cost ?os \<le> mem_max_addr s"
    using s(3,4) fit mem_okD(5) [OF mem] by (simp add: same_heap_def mem_reset_brk_def)
  then obtain d' where d': "valid_ops pkg rnd v ?os (set_sys s ?d0) = Some (1, d')" "step_frame (set_sys s ?d0) d' (total_cost cost ?os)"
    using valid_ops_ok [OF ids, of ?os rnd v] s(2) wf by (auto simp: d0)
  have "mem_ok s" using inv_ok [OF s(2)] by simp
  then have "mem_ok (sys d')" using d'(2) room by (auto simp: step_frame_def same_heap_def mem_ok_def)
  then show thesis using that d' s(1) by (simp add: eval_mm_valid_def Let_def d0 step_frame_def)
qed

end

end
