(* ===== verification/MDriver_Eval.thy ===== *)
theory MDriver_Eval
  imports C_Text MDriver_Valid Complex_Main
begin

section \<open>Space utilisation, speed and the C library (practice-2/practice\_2-2/mdriver.c)\<close>

text \<open>
  The other replays of a trace: \<open>eval\_mm\_util\<close> keeps the sum of the live payload sizes and its
  high-water mark, \<open>eval\_mm\_speed\<close> only replays, \<open>eval\_libc\_valid\<close> and \<open>eval\_libc\_speed\<close> do the
  same with the entry points of the C library, which are a parameter like every package. A
  failed request ends the process in \<open>app\_error\<close> or \<open>unix\_error\<close>: \<open>None\<close>. The quotient of doubles
  that \<open>eval\_mm\_util\<close> returns is an exact rational number here.
\<close>

subsection \<open>Space utilisation\<close>

record util_state =
  max_total_size :: int
  total_size :: int

definition util_alloc :: "'p mm_package \<Rightarrow> traceop_t \<Rightarrow> util_state \<times> 'p driver \<Rightarrow> (util_state \<times> 'p driver) option" where
  "util_alloc pkg oper = (\<lambda>(u, d).
     (let index = op_index oper;
          n = s32 (op_size oper)
      in case mm_malloc pkg (to_u64 n) (sys d) of
           None \<Rightarrow> None
         | Some (p, s) \<Rightarrow>
             if p = 0 then None
             else (let d = set_block index p (set_sys s d);
                       d = set_size index (to_u64 n) d
                   in Some (u\<lparr>total_size := wrap32 (total_size u + n)\<rparr>, d))))"

definition util_realloc :: "'p mm_package \<Rightarrow> traceop_t \<Rightarrow> util_state \<times> 'p driver \<Rightarrow> (util_state \<times> 'p driver) option" where
  "util_realloc pkg oper = (\<lambda>(u, d).
     (let index = op_index oper;
          newsize = s32 (op_size oper);
          oldsize = s32 (block_sizes (trace d) index);
          oldp = blocks (trace d) index
      in case mm_realloc pkg oldp (to_u64 newsize) (sys d) of
           None \<Rightarrow> None
         | Some (newp, s) \<Rightarrow>
             if newp = 0 \<and> newsize \<noteq> 0 then None
             else (let d = set_block index newp (set_sys s d);
                       d = set_size index (to_u64 newsize) d
                   in Some (u\<lparr>total_size := wrap32 (total_size u + wrap32 (newsize - oldsize))\<rparr>, d))))"

definition util_free :: "'p mm_package \<Rightarrow> traceop_t \<Rightarrow> util_state \<times> 'p driver \<Rightarrow> (util_state \<times> 'p driver) option" where
  "util_free pkg oper = (\<lambda>(u, d).
     (let index = op_index oper;
          (n, p) = (if index < 0 then (0, 0) else (s32 (block_sizes (trace d) index), blocks (trace d) index))
      in case mm_free pkg p (sys d) of
           None \<Rightarrow> None
         | Some s \<Rightarrow> Some (u\<lparr>total_size := wrap32 (total_size u - n)\<rparr>, set_sys s d)))"

definition util_op :: "'p mm_package \<Rightarrow> traceop_t \<Rightarrow> util_state \<times> 'p driver \<Rightarrow> (util_state \<times> 'p driver) option" where
  "util_op pkg oper x =
     (case (case op_type oper of ALLOC \<Rightarrow> util_alloc pkg oper x | REALLOC \<Rightarrow> util_realloc pkg oper x
            | FREE \<Rightarrow> util_free pkg oper x) of
        None \<Rightarrow> None
      | Some (u, d) \<Rightarrow>
          Some (u\<lparr>max_total_size := (if max_total_size u < total_size u then total_size u else max_total_size u)\<rparr>, d))"

fun run_ops :: "(traceop_t \<Rightarrow> 'x \<Rightarrow> 'x option) \<Rightarrow> traceop_t list \<Rightarrow> 'x \<Rightarrow> 'x option" where
  "run_ops f [] x = Some x"
| "run_ops f (oper # os) x = (case f oper x of None \<Rightarrow> None | Some x \<Rightarrow> run_ops f os x)"

definition trace_ops :: "'p driver \<Rightarrow> traceop_t list" where
  "trace_ops d = take (nat (num_ops (trace d))) (ops (trace d))"

definition eval_mm_util :: "'p mm_package \<Rightarrow> 'p driver \<Rightarrow> (rat \<times> util_state \<times> 'p driver) option" where
  "eval_mm_util pkg d =
     (let d = reinit_trace d;
          d = set_sys (mem_reset_brk (sys d)) d
      in case mm_init pkg (sys d) of
           None \<Rightarrow> None
         | Some (r, s) \<Rightarrow>
             if r < 0 then None
             else (case run_ops (util_op pkg) (trace_ops d) (\<lparr>max_total_size = 0, total_size = 0\<rparr>, set_sys s d) of
                     None \<Rightarrow> None
                   | Some (u, d) \<Rightarrow> Some (of_int (max_total_size u) / of_nat (mem_heapsize (sys d)), u, d)))"

subsection \<open>Speed, and the C library\<close>

definition speed_op :: "'p mm_package \<Rightarrow> traceop_t \<Rightarrow> 'p driver \<Rightarrow> 'p driver option" where
  "speed_op pkg oper d =
     (let index = op_index oper; n = s32 (op_size oper)
      in case op_type oper of
           ALLOC \<Rightarrow>
             (case mm_malloc pkg (to_u64 n) (sys d) of
                None \<Rightarrow> None
              | Some (p, s) \<Rightarrow> if p = 0 then None else Some (set_block index p (set_sys s d)))
         | REALLOC \<Rightarrow>
             (case mm_realloc pkg (blocks (trace d) index) (to_u64 n) (sys d) of
                None \<Rightarrow> None
              | Some (newp, s) \<Rightarrow>
                  if newp = 0 \<and> n \<noteq> 0 then None else Some (set_block index newp (set_sys s d)))
         | FREE \<Rightarrow>
             (let block = (if index < 0 then 0 else blocks (trace d) index)
              in map_option (\<lambda>s. set_sys s d) (mm_free pkg block (sys d))))"

definition eval_mm_speed :: "'p mm_package \<Rightarrow> 'p driver \<Rightarrow> 'p driver option" where
  "eval_mm_speed pkg d =
     (let d = reinit_trace d;
          d = set_sys (mem_reset_brk (sys d)) d
      in case mm_init pkg (sys d) of
           None \<Rightarrow> None
         | Some (r, s) \<Rightarrow> if r < 0 then None else run_ops (speed_op pkg) (trace_ops d) (set_sys s d))"

text \<open>The two replays on the C library's \<open>malloc\<close>, \<open>realloc\<close> and \<open>free\<close>: no heap is reset. In
  \<open>eval\_libc\_valid\<close> the size reaches \<open>malloc\<close> as a \<open>size\_t\<close>.\<close>

definition libc_op :: "'p mm_package \<Rightarrow> traceop_t \<Rightarrow> 'p driver \<Rightarrow> 'p driver option" where
  "libc_op libc oper d =
     (let index = op_index oper
      in case op_type oper of
           ALLOC \<Rightarrow>
             (case mm_malloc libc (op_size oper) (sys d) of
                None \<Rightarrow> None
              | Some (p, s) \<Rightarrow> if p = 0 then None else Some (set_block index p (set_sys s d)))
         | REALLOC \<Rightarrow>
             (let newsize = s32 (op_size oper)
              in case mm_realloc libc (blocks (trace d) index) (to_u64 newsize) (sys d) of
                   None \<Rightarrow> None
                 | Some (newp, s) \<Rightarrow>
                     if newp = 0 \<and> newsize \<noteq> 0 then None else Some (set_block index newp (set_sys s d)))
         | FREE \<Rightarrow>
             map_option (\<lambda>s. set_sys s d)
               (mm_free libc (if 0 \<le> index then blocks (trace d) index else 0) (sys d)))"

definition eval_libc_valid :: "'p mm_package \<Rightarrow> 'p driver \<Rightarrow> (int \<times> 'p driver) option" where
  "eval_libc_valid libc d =
     (let d = reinit_trace d in map_option (Pair 1) (run_ops (libc_op libc) (trace_ops d) d))"

definition eval_libc_speed :: "'p mm_package \<Rightarrow> 'p driver \<Rightarrow> 'p driver option" where
  "eval_libc_speed libc d =
     (let d = reinit_trace d in run_ops (speed_op libc) (trace_ops d) d)"


subsection \<open>Live bytes\<close>

definition live_sum :: "live \<Rightarrow> nat" where
  "live_sum L = (\<Sum>p\<in>dom L. the (L p))"

lemma live_ok_finite:
  assumes "live_ok L s"
  shows "finite (dom L)"
proof (rule finite_subset)
  show "dom L \<subseteq> {heap s..<mem_brk s}" using live_okD(1,3,4) [OF assms] by fastforce
qed simp

lemma live_sum_le:
  assumes ok: "live_ok L s"
  shows "live_sum L \<le> mem_brk s - heap s"
proof -
  let ?I = "\<lambda>p. {p..<p + the (L p)}"
  have "live_sum L = (\<Sum>p\<in>dom L. card (?I p))" by (simp add: live_sum_def)
  also have "\<dots> = card (\<Union>p\<in>dom L. ?I p)"
  proof (rule card_UN_disjoint [symmetric])
    show "\<forall>p\<in>dom L. \<forall>q\<in>dom L. p \<noteq> q \<longrightarrow> ?I p \<inter> ?I q = {}"
      using live_ok_disjoint [OF ok] by fastforce
  qed (use live_ok_finite [OF ok] in auto)
  also have "\<dots> \<le> card {heap s..<mem_brk s}"
    by (rule card_mono) (use live_okD(3,4) [OF ok] in fastforce)+
  finally show ?thesis by simp
qed

lemma live_sum_insert: "finite (dom L) \<Longrightarrow> q \<notin> dom L \<Longrightarrow> live_sum (L(q \<mapsto> n)) = n + live_sum L"
  by (simp add: live_sum_def) (rule sum.cong, auto)

lemma live_sum_remove:
  assumes "finite (dom L)" "L p = Some n"
  shows "live_sum L = n + live_sum (L(p := None))"
proof -
  have "L = (L(p := None))(p \<mapsto> n)" using assms(2) by auto
  then show ?thesis using live_sum_insert [of "L(p := None)" p n] assms(1) by (metis dom_fun_upd fun_upd_same finite_Diff domIff)
qed

subsection \<open>Replays without the checks\<close>

text \<open>The replays that do not check are covered by the same invariant with the checks switched off.\<close>

definition quiet :: "'p driver \<Rightarrow> 'p driver" where
  "quiet d = d\<lparr>debug_mode := DBG_NONE, ranges := []\<rparr>"

lemma quiet_simps [simp]:
  "sys (quiet d) = sys d" "trace (quiet d) = trace d" "debug_mode (quiet d) = DBG_NONE" "ranges (quiet d) = []"
  "random_data (quiet d) = random_data d" "tracked (quiet d) = False"
  "quiet (set_sys s d) = set_sys s (quiet d)"
  by (simp_all add: quiet_def set_sys_def tracked_def)

lemma quiet_install:
  assumes ok: "ids_ok (quiet d) st L" and s: "sys d' = s" "kept L (sys d) s" "live_ok (L(q \<mapsto> n)) s"
    and q: "q \<notin> dom L" "q \<noteq> 0" and n: "0 < n" "n < 2 ^ 31" and i: "0 \<le> i" "st i \<noteq> Live"
    and t: "trace d' = (trace d)\<lparr>blocks := (blocks (trace d))(i := q), block_sizes := (block_sizes (trace d))(i := n)\<rparr>"
    and r: "random_data d' = random_data d"
  shows "ids_ok (quiet d') (st(i := Live)) (L(q \<mapsto> n))"
proof -
  have "ids_ok (set_sys s (quiet d)) st L" using ids_ok_sys [OF ok] s(2) by simp
  then show ?thesis
    by (rule ids_ok_install [where d = "set_sys s (quiet d)" and L = L and q = q and n = n and i = i
          and st = st and d' = "quiet d'" and ?d1.0 = "quiet d'" and rnd = "\<lambda>_. 0"])
      (use s t r q n i in \<open>simp_all add: randomize_block_def tracked_def\<close>)
qed

lemma quiet_drop:
  assumes ok: "ids_ok (quiet d) st L" and i: "st i = Live" and k: "kept (L(blocks (trace d) i := None)) (sys d) s"
  shows "ids_ok (quiet (set_sys s d)) (st(i := Dangling)) (L(blocks (trace d) i := None))"
proof -
  have "remove_range (blocks (trace d) i) (quiet d) = quiet d" by (simp add: remove_range_def)
  with ids_ok_drop [OF ok i] have "ids_ok (quiet d) (st(i := Dangling)) (L(blocks (trace d) i := None))" by simp
  from ids_ok_sys [OF this] k show ?thesis by simp
qed

lemma quiet_null:
  assumes "ids_ok (quiet d) st L" "st i \<noteq> Live"
  shows "ids_ok (quiet (set_size i 0 (set_block i 0 d))) (st(i := Null)) L"
proof -
  have "quiet (set_size i 0 (set_block i 0 d)) = set_size i 0 (set_block i 0 (quiet d))"
    by (simp add: quiet_def set_size_def set_block_def)
  then show ?thesis using ids_ok_null [OF assms] by simp
qed


definition bump :: "util_state \<Rightarrow> util_state" where
  "bump u = u\<lparr>max_total_size := (if max_total_size u < total_size u then total_size u else max_total_size u)\<rparr>"

lemma bump_simps [simp]:
  "total_size (bump u) = total_size u" "max_total_size (bump u) = max (max_total_size u) (total_size u)"
  by (auto simp: bump_def)

lemma wrap32_heap: "0 \<le> i \<Longrightarrow> i \<le> int MAX_HEAP \<Longrightarrow> wrap32 i = i"
  by (rule wrap32_small) (simp_all add: MAX_HEAP_def)

lemma wrap32_add: "wrap32 (a + wrap32 b) = wrap32 (a + b)"
proof -
  have "\<exists>k. wrap32 b = b + k * 2 ^ 32"
  proof (cases "b mod 2 ^ 32 < 2 ^ 31")
    case True
    then have "wrap32 b = b mod 2 ^ 32" by (simp add: wrap32_def s32_def to_u32_def u32_def nat_less_iff)
    then show ?thesis by (metis mod_div_decomp add.commute diff_add_cancel minus_mult_left mult.commute uminus_add_conv_diff)
  next
    case False
    then have "wrap32 b = b mod 2 ^ 32 - 2 ^ 32" by (simp add: wrap32_def s32_def to_u32_def u32_def nat_less_iff)
    also have "\<dots> = b + (- (b div 2 ^ 32) - 1) * 2 ^ 32"
      using div_mult_mod_eq [of b "2 ^ 32"] by (simp add: algebra_simps)
    finally show ?thesis by blast
  qed
  then obtain k where "wrap32 b = b + k * 2 ^ 32" ..
  then have "to_u32 (a + wrap32 b) = to_u32 (a + b)"
    by (simp add: to_u32_def add.assoc [symmetric])
  then show ?thesis by (simp add: wrap32_def)
qed

context malloc_contract
begin

definition util_inv :: "(int \<Rightarrow> id_state) \<Rightarrow> live \<Rightarrow> util_state \<times> 'p driver \<Rightarrow> bool" where
  "util_inv st L = (\<lambda>(u, d). ids_ok (quiet d) st L \<and> inv L (sys d) \<and> total_size u = int (live_sum L) \<and>
     0 \<le> max_total_size u \<and> max_total_size u \<le> int (mem_brk (sys d) - heap (sys d)))"

definition frame_ok :: "'p driver \<Rightarrow> 'p driver \<Rightarrow> nat \<Rightarrow> bool" where
  "frame_ok d d' c \<longleftrightarrow> num_ids (trace d') = num_ids (trace d) \<and> same_heap (sys d) (sys d') \<and>
     mem_brk (sys d') \<le> mem_brk (sys d) + c"

lemma live_sum_heap: "inv L s \<Longrightarrow> int (live_sum L) \<le> int MAX_HEAP \<and> live_sum L \<le> mem_brk s - heap s"
  using live_sum_le [of L s] inv_ok [of L s] mem_okD(3-5) [of s] by fastforce

lemma util_inv_bump:
  assumes "ids_ok (quiet d') st L" "inv L (sys d')" "total_size u' = int (live_sum L)"
    "max_total_size u' = max_total_size u" "0 \<le> max_total_size u"
    "max_total_size u \<le> int (mem_brk (sys d) - heap (sys d))" "same_heap (sys d) (sys d')"
  shows "util_inv st L (bump u', d')"
  using assms live_sum_heap [OF assms(2)] by (auto simp: util_inv_def same_heap_def)

lemma util_alloc_ok:
  assumes ui: "util_inv st L (u, d)" and n: "0 < op_size oper" "op_size oper < 2 ^ 31"
    and i: "0 \<le> op_index oper" "st (op_index oper) \<noteq> Live"
    and fit: "mem_brk (sys d) + cost (op_size oper) \<le> mem_max_addr (sys d)"
  shows "\<exists>u' d' L'. util_alloc pkg oper (u, d) = Some (u', d') \<and>
    util_inv (st(op_index oper := Live)) L' (bump u', d') \<and> frame_ok d d' (cost (op_size oper))"
proof -
  let ?n = "op_size oper" and ?i = "op_index oper"
  have u: "ids_ok (quiet d) st L" "inv L (sys d)" "total_size u = int (live_sum L)" "0 \<le> max_total_size u"
    "max_total_size u \<le> int (mem_brk (sys d) - heap (sys d))" using ui by (simp_all add: util_inv_def)
  obtain q s where q: "mm_malloc pkg ?n (sys d) = Some (q, s)" "q \<noteq> 0" "q \<notin> dom L" "inv (L(q \<mapsto> ?n)) s"
    "kept L (sys d) s" "same_heap (sys d) s" "mem_brk s \<le> mem_brk (sys d) + cost ?n"
    using malloc_law [OF u(2) n(1) fit] by blast
  have nn: "to_u64 (s32 ?n) = ?n" "s32 ?n = int ?n" using n by (simp_all add: s32_small to_u64_def)
  let ?d = "set_size ?i ?n (set_block ?i q (set_sys s d))"
  have live: "live_ok (L(q \<mapsto> ?n)) s" using inv_ok [OF q(4)] by simp
  have "ids_ok (quiet ?d) (st(?i := Live)) (L(q \<mapsto> ?n))"
    by (rule quiet_install [OF u(1) _ q(5) live q(3,2) n i]) simp_all
  moreover have sum: "live_sum (L(q \<mapsto> ?n)) = ?n + live_sum L"
    using live_sum_insert q(3) live_ok_finite inv_ok [OF u(2)] by blast
  moreover have "wrap32 (total_size u + int ?n) = int (live_sum (L(q \<mapsto> ?n)))"
    using live_sum_heap [OF q(4)] sum u(3) by (subst wrap32_heap) simp_all
  ultimately have "util_inv (st(?i := Live)) (L(q \<mapsto> ?n)) (bump (u\<lparr>total_size := wrap32 (total_size u + int ?n)\<rparr>), ?d)"
    using u q by (intro util_inv_bump [where d = d and u = u]) simp_all
  then show ?thesis using q nn by (auto simp: util_alloc_def frame_ok_def same_heap_def Let_def)
qed

lemma util_free_ok:
  assumes ui: "util_inv st L (u, d)"
    and i: "op_index oper = -1 \<or> 0 \<le> op_index oper \<and> op_index oper < num_ids (trace d) \<and> st (op_index oper) \<noteq> Dangling"
  shows "\<exists>u' d' L'. util_free pkg oper (u, d) = Some (u', d') \<and>
    util_inv (if op_index oper \<noteq> -1 \<and> st (op_index oper) = Live then st(op_index oper := Dangling) else st) L' (bump u', d')
    \<and> frame_ok d d' 0"
proof -
  let ?i = "op_index oper"
  have u: "ids_ok (quiet d) st L" "inv L (sys d)" "total_size u = int (live_sum L)" "0 \<le> max_total_size u"
    "max_total_size u \<le> int (mem_brk (sys d) - heap (sys d))" using ui by (simp_all add: util_inv_def)
  note hs = live_sum_heap [OF u(2)]
  show ?thesis
  proof (cases "?i \<noteq> -1 \<and> st ?i = Live")
    case True
    let ?p = "blocks (trace d) ?i" and ?k = "block_sizes (trace d) ?i"
    have Lp: "L ?p = Some ?k" "?k < 2 ^ 31" "0 \<le> ?i" using ids_okD(2,4,5) [OF u(1), of ?i] True by simp_all
    obtain s where s: "mm_free pkg ?p (sys d) = Some s" "inv (L(?p := None)) s" "kept (L(?p := None)) (sys d) s"
      "same_heap (sys d) s" "mem_brk s = mem_brk (sys d)" using free_law [OF u(2) Lp(1)] by blast
    have sum: "live_sum L = ?k + live_sum (L(?p := None))"
      using live_sum_remove [of L ?p ?k] Lp(1) live_ok_finite inv_ok [OF u(2)] by blast
    have "wrap32 (total_size u - s32 ?k) = int (live_sum (L(?p := None)))"
      using sum u(3) Lp(2) hs by (subst wrap32_heap) (simp_all add: s32_small)
    moreover have "ids_ok (quiet (set_sys s d)) (st(?i := Dangling)) (L(?p := None))"
      using quiet_drop [OF u(1) _ s(3)] True by simp
    ultimately have "util_inv (st(?i := Dangling)) (L(?p := None)) (bump (u\<lparr>total_size := wrap32 (total_size u - s32 ?k)\<rparr>), set_sys s d)"
      using u s by (intro util_inv_bump [where d = d and u = u]) simp_all
    then show ?thesis using s True Lp(3) by (auto simp: util_free_def frame_ok_def Let_def)
  next
    case False
    then have z: "0 \<le> ?i \<Longrightarrow> blocks (trace d) ?i = 0 \<and> block_sizes (trace d) ?i = 0"
      using ids_okD(1) [OF u(1), of ?i] i by (cases "st ?i") auto
    have w: "wrap32 (total_size u) = total_size u" using u(3) hs by (simp add: wrap32_heap)
    have "util_free pkg oper (u, d) = Some (u\<lparr>total_size := wrap32 (total_size u)\<rparr>, set_sys (sys d) d)"
      using z free_null_law [OF u(2)] by (auto simp: util_free_def s32_def u32_def Let_def)
    moreover have "util_inv st L (bump (u\<lparr>total_size := wrap32 (total_size u)\<rparr>), set_sys (sys d) d)"
      using u w by (intro util_inv_bump [where d = d and u = u]) (simp_all add: set_sys_def)
    ultimately show ?thesis using False by (auto simp: frame_ok_def)
  qed
qed

lemma util_realloc_ok:
  assumes ui: "util_inv st L (u, d)" and n: "op_size oper < 2 ^ 31"
    and i: "0 \<le> op_index oper" "op_index oper < num_ids (trace d)" "st (op_index oper) \<noteq> Dangling"
    and fit: "op_size oper \<noteq> 0 \<Longrightarrow> mem_brk (sys d) + cost (op_size oper) \<le> mem_max_addr (sys d)"
  shows "\<exists>u' d' L'. util_realloc pkg oper (u, d) = Some (u', d') \<and>
    util_inv (st(op_index oper := (if op_size oper = 0 then Null else Live))) L' (bump u', d') \<and>
    frame_ok d d' (if op_size oper = 0 then 0 else cost (op_size oper))"
proof -
  let ?n = "op_size oper" and ?i = "op_index oper"
  let ?p = "blocks (trace d) ?i" and ?k = "block_sizes (trace d) ?i"
  have u: "ids_ok (quiet d) st L" "inv L (sys d)" "total_size u = int (live_sum L)" "0 \<le> max_total_size u"
    "max_total_size u \<le> int (mem_brk (sys d) - heap (sys d))" using ui by (simp_all add: util_inv_def)
  have nn: "to_u64 (s32 ?n) = ?n" "s32 ?n = int ?n" using n by (simp_all add: s32_small to_u64_def)
  have fin: "finite (dom L)" using live_ok_finite inv_ok [OF u(2)] by blast
  have res: "?thesis" if q: "mm_realloc pkg ?p ?n (sys d) = Some (q, s)" "?n \<noteq> 0 \<longrightarrow> q \<noteq> 0" "inv L' s" "same_heap (sys d) s"
      "mem_brk s \<le> mem_brk (sys d) + (if ?n = 0 then 0 else cost ?n)"
      and ok: "ids_ok (quiet (set_size ?i ?n (set_block ?i q (set_sys s d)))) (st(?i := (if ?n = 0 then Null else Live))) L'"
      and sum: "live_sum L' + ?k = live_sum L + ?n" and k: "?k < 2 ^ 31" for q s L'
  proof -
    let ?d = "set_size ?i ?n (set_block ?i q (set_sys s d))"
    let ?u = "u\<lparr>total_size := wrap32 (total_size u + wrap32 (int ?n - s32 ?k))\<rparr>"
    have "wrap32 (total_size u + wrap32 (int ?n - s32 ?k)) = wrap32 (int (live_sum L'))"
      unfolding wrap32_add using sum u(3) k by (simp add: s32_small) (metis add_diff_cancel_right' add_diff_eq of_nat_add)
    also have "\<dots> = int (live_sum L')" using live_sum_heap [OF q(3)] by (simp add: wrap32_heap)
    finally have "util_inv (st(?i := (if ?n = 0 then Null else Live))) L' (bump ?u, ?d)"
      using u q ok by (intro util_inv_bump [where d = d and u = u]) simp_all
    then show ?thesis using q nn by (auto simp: util_realloc_def frame_ok_def Let_def)
  qed
  have free_res: "?thesis" if z: "?n = 0"
  proof (cases "st ?i = Live")
    case True
    have Lp: "L ?p = Some ?k" "?k < 2 ^ 31" using ids_okD(4,5) [OF u(1), of ?i] True by simp_all
    obtain s where s: "mm_free pkg ?p (sys d) = Some s" "inv (L(?p := None)) s" "kept (L(?p := None)) (sys d) s"
      "same_heap (sys d) s" "mem_brk s = mem_brk (sys d)" using free_law [OF u(2) Lp(1)] by blast
    have "ids_ok (quiet (set_sys s d)) (st(?i := Dangling)) (L(?p := None))" by (rule quiet_drop [OF u(1) True s(3)])
    then have "ids_ok (quiet (set_size ?i 0 (set_block ?i 0 (set_sys s d)))) (st(?i := Null)) (L(?p := None))"
      using quiet_null [where i = ?i] by (metis fun_upd_same fun_upd_upd id_state.distinct(5))
    then show ?thesis
      using res [of 0 s "L(?p := None)"] s Lp z realloc_zero_law [OF u(2), of ?p] live_sum_remove [of L ?p ?k] fin by auto
  next
    case False
    then have "st ?i = Null" using i(3) by (cases "st ?i") auto
    then have p0: "?p = 0" "?k = 0" using ids_okD(1) [OF u(1), of ?i] i by simp_all
    have "ids_ok (quiet (set_size ?i 0 (set_block ?i 0 (set_sys (sys d) d)))) (st(?i := Null)) L"
      using quiet_null [OF u(1)] False by (simp add: set_sys_def)
    then show ?thesis
      using res [of 0 "sys d" L] z p0 realloc_zero_law [OF u(2), of 0] free_null_law [OF u(2)] u(2) by simp
  qed
  have pos_res: "?thesis" if z: "?n \<noteq> 0"
  proof (cases "st ?i = Live")
    case True
    have Lp: "L ?p = Some ?k" "?k < 2 ^ 31" using ids_okD(4,5) [OF u(1), of ?i] True by simp_all
    obtain q s where a: "mm_realloc pkg ?p ?n (sys d) = Some (q, s)" "q \<noteq> 0" "q \<notin> dom (L(?p := None))"
      "inv (L(?p := None, q \<mapsto> ?n)) s" "kept (L(?p := None)) (sys d) s" "same_heap (sys d) s"
      "mem_brk s \<le> mem_brk (sys d) + cost ?n"
      using realloc_law [OF u(2) Lp(1) _ fit [OF z]] z by blast
    have live: "live_ok (L(?p := None, q \<mapsto> ?n)) s" using inv_ok [OF a(4)] by simp
    have "ids_ok (quiet d) (st(?i := Dangling)) (L(?p := None))"
      using quiet_drop [OF u(1) True, of "sys d"] by (simp add: set_sys_def)
    then have "ids_ok (quiet (set_size ?i ?n (set_block ?i q (set_sys s d)))) ((st(?i := Dangling))(?i := Live)) (L(?p := None, q \<mapsto> ?n))"
      by (rule quiet_install [OF _ _ a(5) live a(3,2) _ n i(1)]) (use z in simp_all)
    moreover have "live_sum (L(?p := None, q \<mapsto> ?n)) = ?n + live_sum (L(?p := None))"
      by (rule live_sum_insert) (use fin a(3) in auto)
    ultimately show ?thesis
      using res [of q s "L(?p := None, q \<mapsto> ?n)"] a z Lp live_sum_remove [of L ?p ?k] fin by simp
  next
    case False
    then have "st ?i = Null" using i(3) by (cases "st ?i") auto
    then have p0: "?p = 0" "?k = 0" using ids_okD(1) [OF u(1), of ?i] i by simp_all
    obtain q s where a: "mm_malloc pkg ?n (sys d) = Some (q, s)" "q \<noteq> 0" "q \<notin> dom L" "inv (L(q \<mapsto> ?n)) s"
      "kept L (sys d) s" "same_heap (sys d) s" "mem_brk s \<le> mem_brk (sys d) + cost ?n"
      using malloc_law [OF u(2) _ fit [OF z]] z by blast
    have live: "live_ok (L(q \<mapsto> ?n)) s" using inv_ok [OF a(4)] by simp
    have "ids_ok (quiet (set_size ?i ?n (set_block ?i q (set_sys s d)))) (st(?i := Live)) (L(q \<mapsto> ?n))"
      by (rule quiet_install [OF u(1) _ a(5) live a(3,2) _ n i(1) False]) (use z in simp_all)
    then show ?thesis
      using res [of q s "L(q \<mapsto> ?n)"] a z p0 realloc_null_law [OF u(2), of ?n] live_sum_insert [OF fin a(3)] by simp
  qed
  show ?thesis using free_res pos_res by blast
qed

lemma util_op_ok:
  assumes ui: "util_inv st L (u, d)" and nx: "next_ids (num_ids (trace d)) oper st = Some st'"
    and fit: "mem_brk (sys d) + op_cost cost oper \<le> mem_max_addr (sys d)"
  shows "\<exists>u' d' L'. util_op pkg oper (u, d) = Some (u', d') \<and> util_inv st' L' (u', d') \<and>
    frame_ok d d' (op_cost cost oper)"
proof (cases "op_type oper")
  case ALLOC
  then have a: "0 \<le> op_index oper" "st (op_index oper) \<noteq> Live" "0 < op_size oper" "op_size oper < 2 ^ 31"
    "st' = st(op_index oper := Live)" using nx by (auto simp: next_ids_def Let_def split: if_splits)
  have c: "op_cost cost oper = cost (op_size oper)" using ALLOC a(3) by (simp add: op_cost_def)
  from util_alloc_ok [OF ui a(3,4,1,2) fit [unfolded c]] show ?thesis
    using a(5) c ALLOC by (auto simp: util_op_def bump_def [symmetric])
next
  case REALLOC
  then have a: "0 \<le> op_index oper" "op_index oper < num_ids (trace d)" "st (op_index oper) \<noteq> Dangling"
    "op_size oper < 2 ^ 31" "st' = st(op_index oper := if op_size oper = 0 then Null else Live)"
    using nx by (auto simp: next_ids_def Let_def split: if_splits)
  have c: "op_cost cost oper = (if op_size oper = 0 then 0 else cost (op_size oper))"
    using REALLOC by (simp add: op_cost_def)
  from util_realloc_ok [OF ui a(4,1-3)] fit show ?thesis
    unfolding c using a(5) REALLOC by (auto simp: util_op_def bump_def [symmetric] split: if_splits)
next
  case FREE
  then have a: "op_index oper = -1 \<or> 0 \<le> op_index oper \<and> op_index oper < num_ids (trace d) \<and> st (op_index oper) \<noteq> Dangling"
    and s: "st' = (if op_index oper \<noteq> -1 \<and> st (op_index oper) = Live then st(op_index oper := Dangling) else st)"
    using nx by (auto simp: next_ids_def Let_def split: if_splits)
  have c: "op_cost cost oper = 0" using FREE by (simp add: op_cost_def)
  from util_free_ok [OF ui a] show ?thesis
    unfolding s c using FREE by (fastforce simp: util_op_def bump_def [symmetric])
qed

lemma util_ops_ok:
  "util_inv st L (u, d) \<Longrightarrow> wf_ops (num_ids (trace d)) st os \<Longrightarrow>
   mem_brk (sys d) + total_cost cost os \<le> mem_max_addr (sys d) \<Longrightarrow>
   \<exists>u' d' st' L'. run_ops (util_op pkg) os (u, d) = Some (u', d') \<and> util_inv st' L' (u', d')"
proof (induction os arbitrary: u d st L)
  case (Cons oper os)
  obtain st' where st': "next_ids (num_ids (trace d)) oper st = Some st'" "wf_ops (num_ids (trace d)) st' os"
    using Cons.prems(2) by (auto split: option.splits)
  have c: "total_cost cost (oper # os) = op_cost cost oper + total_cost cost os" by (simp add: total_cost_def)
  then have fit: "mem_brk (sys d) + op_cost cost oper \<le> mem_max_addr (sys d)" using Cons.prems(3) by simp
  obtain u1 d1 L1 where d1: "util_op pkg oper (u, d) = Some (u1, d1)" "util_inv st' L1 (u1, d1)"
    "frame_ok d d1 (op_cost cost oper)" using util_op_ok [OF Cons.prems(1) st'(1) fit] by blast
  have "num_ids (trace d1) = num_ids (trace d)" "mem_brk (sys d1) + total_cost cost os \<le> mem_max_addr (sys d1)"
    using d1(3) Cons.prems(3) by (simp_all add: frame_ok_def same_heap_def c)
  then show ?case using Cons.IH [OF d1(2)] st'(2) d1(1) by auto
qed auto

lemma eval_mm_util_ok:
  assumes mem: "mem_ok (sys d)" and wf: "wf_ops (num_ids (trace d)) (\<lambda>_. Null) (trace_ops d)"
    and fit: "init_cost + total_cost cost (trace_ops d) \<le> MAX_HEAP"
  obtains r u d' where "eval_mm_util pkg d = Some (r, u, d')" "0 \<le> r" "r \<le> 1"
    "0 \<le> max_total_size u" "max_total_size u \<le> int (mem_heapsize (sys d'))" "mem_ok (sys d')"
proof -
  let ?d0 = "set_sys (mem_reset_brk (sys d)) (reinit_trace d)"
  let ?u = "\<lparr>max_total_size = 0, total_size = 0\<rparr>"
  have d0: "sys ?d0 = mem_reset_brk (sys d)" "num_ids (trace ?d0) = num_ids (trace d)" "trace_ops ?d0 = trace_ops d"
    "sys (reinit_trace d) = sys d"
    by (simp_all add: reinit_trace_def Let_def trace_ops_def)
  have ok: "mem_ok (mem_reset_brk (sys d))" "mem_brk (mem_reset_brk (sys d)) = heap (mem_reset_brk (sys d))"
    using mem by (auto simp: mem_ok_def mem_reset_brk_def)
  obtain s where s: "mm_init pkg (mem_reset_brk (sys d)) = Some (0, s)" "inv Map.empty s"
    "same_heap (mem_reset_brk (sys d)) s" "mem_brk s \<le> heap (mem_reset_brk (sys d)) + init_cost"
    using init_law [OF ok] fit by auto
  have "ids_ok (quiet (set_sys s ?d0)) (\<lambda>_. Null) Map.empty"
    unfolding ids_ok_def by simp (simp add: reinit_trace_def Let_def)
  then have ui: "util_inv (\<lambda>_. Null) Map.empty (?u, set_sys s ?d0)"
    using s(2) by (simp add: util_inv_def live_sum_def)
  have "mem_brk s + total_cost cost (trace_ops d) \<le> mem_max_addr s"
    using s(3,4) fit mem_okD(5) [OF mem] by (simp add: same_heap_def mem_reset_brk_def)
  then obtain u d' st' L' where r: "run_ops (util_op pkg) (trace_ops d) (?u, set_sys s ?d0) = Some (u, d')"
    "util_inv st' L' (u, d')" using util_ops_ok [OF ui, of "trace_ops d"] wf d0 by auto
  have inv': "mem_ok (sys d')" using r(2) inv_ok by (auto simp: util_inv_def)
  have hs: "mem_heapsize (sys d') = mem_brk (sys d') - heap (sys d')"
    using mem_okD(3,7) [OF inv'] by (simp add: mem_heapsize_def sub64_small)
  then have b: "0 \<le> max_total_size u" "max_total_size u \<le> int (mem_heapsize (sys d'))"
    using r(2) by (simp_all add: util_inv_def)
  let ?r = "of_int (max_total_size u) / of_nat (mem_heapsize (sys d')) :: rat"
  have "of_int (max_total_size u) \<le> (of_int (int (mem_heapsize (sys d'))) :: rat)"
    using b(2) by (simp only: of_int_le_iff)
  then have "?r \<le> 1" "0 \<le> ?r" using b(1) by (simp_all add: divide_le_eq)
  moreover have "eval_mm_util pkg d = Some (?r, u, d')"
    using s(1) r(1) d0 by (simp add: eval_mm_util_def Let_def)
  ultimately show thesis using that b inv' by blast
qed

end

subsection \<open>The replays for speed follow the one for utilisation\<close>

lemma run_ops_sim:
  assumes step: "\<And>oper x y x'. oper \<in> set os \<Longrightarrow> R x y \<Longrightarrow> f oper x = Some x' \<Longrightarrow> \<exists>y'. g oper y = Some y' \<and> R x' y'"
  shows "R x y \<Longrightarrow> run_ops f os x = Some x' \<Longrightarrow> \<exists>y'. run_ops g os y = Some y' \<and> R x' y'"
  using step
proof (induction os arbitrary: x y)
  case (Cons oper os)
  obtain x1 where x1: "f oper x = Some x1" "run_ops f os x1 = Some x'"
    using Cons.prems(2) by (auto split: option.splits)
  obtain y1 where y1: "g oper y = Some y1" "R x1 y1" using Cons.prems(3) [OF _ Cons.prems(1) x1(1)] by auto
  show ?case using Cons.IH [OF y1(2) x1(2)] Cons.prems(3) y1(1) by auto
qed auto

definition same_run :: "util_state \<times> 'p driver \<Rightarrow> 'p driver \<Rightarrow> bool" where
  "same_run x e \<longleftrightarrow> sys e = sys (snd x) \<and> blocks (trace e) = blocks (trace (snd x))"

lemma speed_sim:
  assumes "same_run x e" "util_op pkg oper x = Some x'"
  shows "\<exists>e'. speed_op pkg oper e = Some e' \<and> same_run x' e'"
  using assms
  by (cases x; cases "op_type oper")
    (auto simp: util_op_def util_alloc_def util_realloc_def util_free_def speed_op_def same_run_def Let_def
      split: option.splits prod.splits if_splits)

lemma libc_sim:
  assumes "same_run x e" "util_op pkg oper x = Some x'" "op_size oper < 2 ^ 31"
  shows "\<exists>e'. libc_op pkg oper e = Some e' \<and> same_run x' e'"
proof -
  have n: "to_u64 (int (op_size oper)) = op_size oper" "s32 (op_size oper) = int (op_size oper)"
    using assms(3) by (simp_all add: s32_small to_u64_def)
  show ?thesis
    using assms(1,2)
    by (cases x; cases "op_type oper")
      (auto simp: util_op_def util_alloc_def util_realloc_def util_free_def libc_op_def same_run_def Let_def n
        split: option.splits prod.splits if_splits)
qed

lemma speed_follows_util:
  assumes "eval_mm_util pkg d = Some (r, u, d')"
  shows "\<exists>e. eval_mm_speed pkg d = Some e \<and> sys e = sys d' \<and> blocks (trace e) = blocks (trace d')"
proof -
  let ?d0 = "set_sys (mem_reset_brk (sys (reinit_trace d))) (reinit_trace d)"
  obtain q s where s: "mm_init pkg (mem_reset_brk (sys (reinit_trace d))) = Some (q, s)" "\<not> q < 0"
    "run_ops (util_op pkg) (trace_ops ?d0) (\<lparr>max_total_size = 0, total_size = 0\<rparr>, set_sys s ?d0) = Some (u, d')"
    using assms by (auto simp: eval_mm_util_def Let_def split: option.splits prod.splits if_splits)
  have "\<exists>e. run_ops (speed_op pkg) (trace_ops ?d0) (set_sys s ?d0) = Some e \<and> same_run (u, d') e"
    by (rule run_ops_sim [OF speed_sim _ s(3)]) (simp_all add: same_run_def)
  then show ?thesis using s(1,2) by (auto simp: eval_mm_speed_def Let_def same_run_def)
qed

end
