(* ===== verification/MDriver_Trace.thy ===== *)
theory MDriver_Trace
  imports MDriver_Eval C_Text
begin

section \<open>Trace files and scores (practice-2/practice\_2-2/mdriver.c)\<close>

text \<open>
  Reading a trace: the file is its list of characters, and the conversions of \<open>fscanf\<close> that the
  driver uses are functions from the rest of the input to a value, if one was matched, and the
  new rest. What \<open>malloc\<close> leaves in memory that the driver reads without having written it (the
  size of a FREE request, a header field that does not match) is the argument \<open>junk\<close>. The two
  readers, from a file and from the standard input, differ in the name they record.
\<close>

subsection \<open>Reading the requests\<close>

record reader =
  r_index :: int
  r_size :: int
  max_index :: int
  op_count :: int
  r_ops :: "traceop_t list"

definition read_request :: "nat \<Rightarrow> string \<Rightarrow> string \<Rightarrow> reader \<Rightarrow> (reader \<times> string) option" where
  "read_request junk kind rest r =
     (let sized = (\<lambda>t. let ((i, n), rest) = scan_uu (r_index r, r_size r) rest
                     in (r\<lparr>r_index := i, r_size := n,
                           r_ops := r_ops r @ [\<lparr>op_type = t, op_index = i, op_size = to_u64 n\<rparr>],
                           max_index := (if max_index r < i then i else max_index r)\<rparr>, rest))
      in if hd kind = CHR ''a'' then Some (sized ALLOC)
         else if hd kind = CHR ''r'' then Some (sized REALLOC)
         else if hd kind = CHR ''f''
         then let (i, rest) = scan_ud (r_index r) rest
              in Some (r\<lparr>r_index := i, r_ops := r_ops r @ [\<lparr>op_type = FREE, op_index = i, op_size = junk\<rparr>]\<rparr>, rest)
         else None)"

lemma length_read_request:
  assumes "read_request junk kind rest r = Some (r', rest')"
  shows "length rest' \<le> length rest"
proof -
  have uu: "length (snd (scan_uu x s)) \<le> length s" for x s
    using length_scan_number [of s] length_scan_number [of "snd (scan_number s)"]
    by (auto simp: scan_uu_def split: prod.splits option.splits)
  have ud: "length (snd (scan_ud x s)) \<le> length s" for x s
    using length_scan_number [of s] by (auto simp: scan_ud_def split: prod.splits option.splits list.splits)
  show ?thesis
    using assms uu [of "(r_index r, r_size r)" rest] ud [of "r_index r" rest]
    by (auto simp: read_request_def Let_def split: prod.splits if_splits)
qed

function read_requests :: "nat \<Rightarrow> int \<Rightarrow> string \<Rightarrow> reader \<Rightarrow> reader option" where
  "read_requests junk n s r =
     (case scan_s s of
        None \<Rightarrow> Some r
      | Some (kind, rest) \<Rightarrow>
          (case read_request junk kind rest r of
             None \<Rightarrow> None
           | Some (r, rest) \<Rightarrow>
               (let r = r\<lparr>op_count := op_count r + 1\<rparr>
                in if op_count r = n then Some r else read_requests junk n rest r)))"
  by pat_completeness auto
termination
proof (relation "measure (\<lambda>(junk, n, s, r). length s)", goal_cases)
  case (2 junk n s r x kind rest y r1 rest1 r2)
  then have "scan_s s = Some (kind, rest)" "read_request junk kind rest r = Some (r1, rest1)" by simp_all
  from scan_s_less [OF this(1)] length_read_request [OF this(2)] show ?case by simp
qed simp

declare read_requests.simps [simp del]

definition read_header :: "int \<Rightarrow> string \<Rightarrow> (int \<times> int \<times> int \<times> int) \<times> string" where
  "read_header junk s =
     (let (w, s) = scan_d junk s; (ids, s) = scan_d junk s; (n, s) = scan_d junk s; (ign, s) = scan_d junk s
      in ((w, ids, n, ign), s))"

definition read_from :: "nat \<Rightarrow> string \<Rightarrow> string \<Rightarrow> trace_t option" where
  "read_from junk name s =
     (let ((w, ids, n, ign), s) = read_header (int junk) s
      in if w \<noteq> 0 \<and> w \<noteq> 1 then None
         else if ign \<noteq> 0 \<and> ign \<noteq> 1 then None
         else (case read_requests junk n s \<lparr>r_index = 0, r_size = int junk, max_index = 0, op_count = 0, r_ops = []\<rparr> of
                 None \<Rightarrow> None
               | Some r \<Rightarrow>
                   if max_index r = ids - 1 \<and> n = op_count r
                   then Some \<lparr>filename = name, ignore_ranges = ign, num_ids = ids, num_ops = n, weight = w, ops = r_ops r,
                     blocks = (\<lambda>_. 0), block_sizes = (\<lambda>_. 0), block_rand_base = (\<lambda>_. 0)\<rparr>
                   else None))"

text \<open>The file system answers the content of a file, if it can be opened.\<close>

definition read_trace :: "nat \<Rightarrow> (string \<Rightarrow> string option) \<Rightarrow> string \<Rightarrow> string \<Rightarrow> trace_t option" where
  "read_trace junk fopen tracedir name =
     (case fopen (tracedir @ name) of None \<Rightarrow> None | Some s \<Rightarrow> read_from junk (tracedir @ name) s)"

definition read_trace_stdin :: "nat \<Rightarrow> string \<Rightarrow> trace_t option" where
  "read_trace_stdin junk s = read_from junk ''stdin'' s"


subsection \<open>Writing a trace in the format of the trace files\<close>

definition show_op :: "traceop_t \<Rightarrow> string" where
  "show_op oper =
     (case op_type oper of
        ALLOC \<Rightarrow> CHR ''a'' # SP # show_int (op_index oper) @ SP # show_nat (op_size oper) @ [NL]
      | REALLOC \<Rightarrow> CHR ''r'' # SP # show_int (op_index oper) @ SP # show_nat (op_size oper) @ [NL]
      | FREE \<Rightarrow> CHR ''f'' # SP # show_int (op_index oper) @ [NL])"

definition show_trace :: "trace_t \<Rightarrow> string" where
  "show_trace t = show_int (weight t) @ NL # show_int (num_ids t) @ NL # show_int (num_ops t) @ NL #
     show_int (ignore_ranges t) @ NL # concat (map show_op (ops t))"

definition top_index :: "int \<Rightarrow> traceop_t list \<Rightarrow> int" where
  "top_index m os = foldl (\<lambda>m oper. if op_type oper \<noteq> FREE \<and> m < op_index oper then op_index oper else m) m os"

definition op_printable :: "nat \<Rightarrow> traceop_t \<Rightarrow> bool" where
  "op_printable junk oper \<longleftrightarrow> - (2 ^ 31) \<le> op_index oper \<and> op_index oper < 2 ^ 31 \<and>
     (if op_type oper = FREE then op_size oper = junk else op_size oper < 2 ^ 31)"

definition printable :: "nat \<Rightarrow> trace_t \<Rightarrow> bool" where
  "printable junk t \<longleftrightarrow> weight t \<in> {0, 1} \<and> ignore_ranges t \<in> {0, 1} \<and> 0 \<le> num_ids t \<and> num_ids t < 2 ^ 31 \<and>
     num_ops t = int (length (ops t)) \<and> num_ops t < 2 ^ 31 \<and> top_index 0 (ops t) = num_ids t - 1 \<and>
     (\<forall>oper \<in> set (ops t). op_printable junk oper)"

subsection \<open>Reading back what was written\<close>

lemma kind_chars [simp]: "\<not> is_space CHR ''a''" "\<not> is_space CHR ''r''" "\<not> is_space CHR ''f''"
  by (simp_all add: is_space_def code_def)

lemma scan_pair:
  assumes "- (2 ^ 31) \<le> i" "i < 2 ^ 31" "n < 2 ^ 31"
  shows "scan_uu xy (SP # show_int i @ SP # show_nat n @ NL # s) = ((i, int n), NL # s)"
  using assms scan_number_nat [of NL n s] by (cases xy) (simp add: scan_uu_def wrap32_int)

lemma scan_id:
  assumes "- (2 ^ 31) \<le> i" "i < 2 ^ 31"
  shows "scan_ud x (SP # show_int i @ NL # s) = (i, NL # s)"
proof -
  have "\<not> is_space CHR ''d''" by (simp add: is_space_def code_def)
  then have "NL \<noteq> CHR ''d''" using sep_chars(1) by metis
  with assms show ?thesis by (simp add: scan_ud_def wrap32_int)
qed

lemma to_u64_int: "n < 2 ^ 64 \<Longrightarrow> to_u64 (int n) = n"
  by (simp add: to_u64_def nat_mod_distrib)

lemma read_request_show:
  assumes "op_printable junk oper"
  obtains k rest i n where "scan_s (show_op oper @ s) = Some ([k], rest)"
    "read_request junk [k] rest r = Some (r\<lparr>r_index := i, r_size := n, r_ops := r_ops r @ [oper],
       max_index := top_index (max_index r) [oper]\<rparr>, NL # s)"
proof (cases "op_type oper")
  case FREE
  have o: "oper = \<lparr>op_type = FREE, op_index = op_index oper, op_size = junk\<rparr>"
    using assms FREE by (simp add: op_printable_def)
  show thesis
    by (rule that [where k = "CHR ''f''" and rest = "SP # show_int (op_index oper) @ NL # s" and i = "op_index oper" and n = "r_size r"])
      (use assms FREE o in \<open>cases r; simp add: show_op_def read_request_def scan_id op_printable_def top_index_def\<close>)+
next
  case ALLOC
  have o: "oper = \<lparr>op_type = ALLOC, op_index = op_index oper, op_size = op_size oper\<rparr>" using ALLOC by simp
  have b: "- (2 ^ 31) \<le> op_index oper" "op_index oper < 2 ^ 31" "op_size oper < 2 ^ 31"
    using assms ALLOC by (auto simp: op_printable_def)
  show thesis
    by (rule that [where k = "CHR ''a''" and rest = "SP # show_int (op_index oper) @ SP # show_nat (op_size oper) @ NL # s" and i = "op_index oper" and n = "int (op_size oper)"])
      (use ALLOC o b in \<open>simp_all add: show_op_def read_request_def scan_pair top_index_def to_u64_int\<close>)
next
  case REALLOC
  have o: "oper = \<lparr>op_type = REALLOC, op_index = op_index oper, op_size = op_size oper\<rparr>" using REALLOC by simp
  have b: "- (2 ^ 31) \<le> op_index oper" "op_index oper < 2 ^ 31" "op_size oper < 2 ^ 31"
    using assms REALLOC by (auto simp: op_printable_def)
  show thesis
    by (rule that [where k = "CHR ''r''" and rest = "SP # show_int (op_index oper) @ SP # show_nat (op_size oper) @ NL # s" and i = "op_index oper" and n = "int (op_size oper)"])
      (use REALLOC o b in \<open>simp_all add: show_op_def read_request_def scan_pair top_index_def to_u64_int\<close>)
qed

lemma read_requests_show:
  "\<forall>oper \<in> set os. op_printable junk oper \<Longrightarrow> op_count r + int (length os) = n \<Longrightarrow> is_space sp \<Longrightarrow>
   \<exists>r'. read_requests junk n (sp # concat (map show_op os)) r = Some r' \<and> r_ops r' = r_ops r @ os \<and>
     op_count r' = n \<and> max_index r' = top_index (max_index r) os"
proof (induction os arbitrary: r sp)
  case Nil
  then show ?case by (simp add: read_requests.simps scan_s_def skip_space_def top_index_def)
next
  case (Cons oper os)
  have sc: "scan_s (sp # s) = scan_s s" for s using Cons.prems(3) by (simp add: scan_s_def)
  have p: "op_printable junk oper" using Cons.prems(1) by simp
  obtain k rest i m where k: "scan_s (show_op oper @ concat (map show_op os)) = Some ([k], rest)"
    "read_request junk [k] rest r = Some (r\<lparr>r_index := i, r_size := m, r_ops := r_ops r @ [oper],
       max_index := top_index (max_index r) [oper]\<rparr>, NL # concat (map show_op os))"
    by (rule read_request_show [OF p, of "concat (map show_op os)" r])
  let ?r = "r\<lparr>r_index := i, r_size := m, r_ops := r_ops r @ [oper],
       max_index := top_index (max_index r) [oper], op_count := op_count r + 1\<rparr>"
  have step: "read_requests junk n (sp # concat (map show_op (oper # os))) r =
      (if op_count ?r = n then Some ?r else read_requests junk n (NL # concat (map show_op os)) ?r)"
    using k by (simp add: read_requests.simps [of junk n "sp # _"] sc)
  show ?case
  proof (cases "os = []")
    case True
    then show ?thesis using Cons.prems(2) unfolding step by (simp add: top_index_def)
  next
    case False
    then have "op_count ?r \<noteq> n" using Cons.prems(2) by (cases os) auto
    then show ?thesis
      unfolding step using Cons.IH [of ?r NL] Cons.prems by (auto simp: top_index_def)
  qed
qed

lemma scan_d_show: "- (2 ^ 31) \<le> i \<Longrightarrow> i < 2 ^ 31 \<Longrightarrow> scan_d x (show_int i @ NL # s) = (i, NL # s)"
  by (simp add: scan_d_def wrap32_int)

lemma scan_d_NL: "scan_d x (NL # s) = scan_d x s"
  by (simp add: scan_d_def)

lemma read_from_show:
  assumes "printable junk t"
  shows "read_from junk name (show_trace t) =
    Some (t\<lparr>filename := name, blocks := \<lambda>_. 0, block_sizes := \<lambda>_. 0, block_rand_base := \<lambda>_. 0\<rparr>)"
proof -
  note p = assms [unfolded printable_def]
  let ?os = "concat (map show_op (ops t))"
  have h: "read_header (int junk) (show_trace t) = ((weight t, num_ids t, num_ops t, ignore_ranges t), NL # ?os)"
    using p by (auto simp: read_header_def show_trace_def scan_d_show scan_d_NL)
  obtain r where r: "read_requests junk (num_ops t) (NL # ?os)
      \<lparr>r_index = 0, r_size = int junk, max_index = 0, op_count = 0, r_ops = []\<rparr> = Some r"
    "r_ops r = ops t" "op_count r = num_ops t" "max_index r = top_index 0 (ops t)"
    using read_requests_show [of "ops t" junk "\<lparr>r_index = 0, r_size = int junk, max_index = 0, op_count = 0, r_ops = []\<rparr>"
        "num_ops t" NL] p by auto
  show ?thesis unfolding read_from_def h using r p by auto
qed

end
