(* ===== verification/MDriver_Score.thy ===== *)
theory MDriver_Score
  imports MDriver_Trace
begin

section \<open>Running the traces and the performance index (practice-2/practice\_2-2/mdriver.c)\<close>

text \<open>
  \<open>run_tests\<close> replays the traces one after the other and collects a \<open>stats_t\<close> per trace; \<open>main\<close>
  turns the weighted totals into the performance index. Doubles are exact rational numbers; the
  timing of \<open>fsecs\<close>, which replays the trace for speed, is an argument. The timeout handler and the
  printing are left out.
\<close>

record stats_t =
  st_weight :: int
  st_ops :: rat
  st_valid :: int
  st_secs :: rat
  st_util :: rat

definition stats_zero :: stats_t where
  "stats_zero = \<lparr>st_weight = 0, st_ops = 0, st_valid = 0, st_secs = 0, st_util = 0\<rparr>"

type_synonym 'p timer = "'p driver \<Rightarrow> (rat \<times> 'p driver) option"

fun run_tests :: "'p mm_package \<Rightarrow> (nat \<Rightarrow> nat) \<Rightarrow> int \<Rightarrow> bool \<Rightarrow> 'p timer \<Rightarrow> trace_t option list \<Rightarrow> 'p driver
    \<Rightarrow> (stats_t list \<times> 'p driver) option" where
  "run_tests pkg rnd verbose onetime fsecs [] d = Some ([], d)"
| "run_tests pkg rnd verbose onetime fsecs (t # ts) d =
     (case t of
        None \<Rightarrow> None
      | Some t \<Rightarrow>
          (case eval_mm_valid pkg rnd verbose (d\<lparr>trace := t\<rparr>) of
             None \<Rightarrow> None
           | Some (valid, d) \<Rightarrow>
               (let st = stats_zero\<lparr>st_weight := weight t, st_ops := of_int (num_ops t), st_valid := valid\<rparr>
                in if onetime then Some ([st], d)
                   else if valid = 0
                   then map_option (\<lambda>(sts, d). (st # sts, d)) (run_tests pkg rnd verbose onetime fsecs ts d)
                   else (case eval_mm_util pkg d of
                           None \<Rightarrow> None
                         | Some (util, u, d) \<Rightarrow>
                             (case fsecs d of
                                None \<Rightarrow> None
                              | Some (secs, d) \<Rightarrow>
                                  map_option (\<lambda>(sts, d). (st\<lparr>st_util := util, st_secs := secs\<rparr> # sts, d))
                                    (run_tests pkg rnd verbose onetime fsecs ts d))))))"

subsection \<open>The performance index\<close>

definition MIN_SPEED :: rat where "MIN_SPEED = 0"
definition MIN_SPACE :: rat where "MIN_SPACE = 60 / 100"
definition MAX_SPEED :: rat where "MAX_SPEED = 25000000"
definition MAX_SPACE :: rat where "MAX_SPACE = 93 / 100"
definition UTIL_WEIGHT :: rat where "UTIL_WEIGHT = 63 / 100"

record totals =
  sum_secs :: rat
  sum_ops :: rat
  sum_util :: rat
  sum_weight :: rat
  numcorrect :: int

definition add_stats :: "stats_t \<Rightarrow> totals \<Rightarrow> totals" where
  "add_stats st x = x\<lparr>sum_secs := sum_secs x + st_secs st * of_int (st_weight st),
     sum_ops := sum_ops x + st_ops st * of_int (st_weight st),
     sum_util := sum_util x + st_util st * of_int (st_weight st),
     sum_weight := sum_weight x + of_int (st_weight st),
     numcorrect := (if st_valid st \<noteq> 0 then numcorrect x + 1 else numcorrect x)\<rparr>"

definition accumulate :: "stats_t list \<Rightarrow> totals" where
  "accumulate sts = fold add_stats sts \<lparr>sum_secs = 0, sum_ops = 0, sum_util = 0, sum_weight = 0, numcorrect = 0\<rparr>"

definition avg_mm_util :: "totals \<Rightarrow> rat" where
  "avg_mm_util x = (if sum_weight x = 0 then 0 else sum_util x / sum_weight x)"

definition avg_mm_throughput :: "totals \<Rightarrow> rat" where
  "avg_mm_throughput x =
     (if sum_weight x = 0 then 0 else if sum_secs x = 0 then 0 else sum_ops x / sum_secs x)"

definition util_points :: "rat \<Rightarrow> rat" where
  "util_points avg =
     (if avg < MIN_SPACE then 0 else if avg > MAX_SPACE then UTIL_WEIGHT
      else (avg - MIN_SPACE) / (MAX_SPACE - MIN_SPACE) * UTIL_WEIGHT)"

definition speed_points :: "rat \<Rightarrow> rat" where
  "speed_points avg =
     (if avg < MIN_SPEED then 0 else if avg > MAX_SPEED then 1 - UTIL_WEIGHT
      else (avg - MIN_SPEED) / (MAX_SPEED - MIN_SPEED) * (1 - UTIL_WEIGHT))"

definition perfindex :: "int \<Rightarrow> totals \<Rightarrow> rat" where
  "perfindex errs x =
     (if errs = 0 then (util_points (avg_mm_util x) + speed_points (avg_mm_throughput x)) * 100 else 0)"

text \<open>The totals that \<open>printresults\<close> shows in its last line: only the valid traces count.\<close>

definition printed_totals :: "stats_t list \<Rightarrow> totals" where
  "printed_totals sts = accumulate (filter (\<lambda>st. st_valid st \<noteq> 0) sts)"

subsection \<open>Bounds of the index\<close>

lemmas score_consts = MIN_SPEED_def MIN_SPACE_def MAX_SPEED_def MAX_SPACE_def UTIL_WEIGHT_def

lemma util_points_bounds: "0 \<le> util_points a" "util_points a \<le> UTIL_WEIGHT"
  by (auto simp: util_points_def score_consts field_simps)

lemma speed_points_bounds: "0 \<le> speed_points a" "speed_points a \<le> 1 - UTIL_WEIGHT"
  by (auto simp: speed_points_def score_consts field_simps)

lemma util_points_mono: "a \<le> b \<Longrightarrow> util_points a \<le> util_points b"
  by (auto simp: util_points_def score_consts field_simps)

lemma speed_points_mono: "a \<le> b \<Longrightarrow> speed_points a \<le> speed_points b"
  by (auto simp: speed_points_def score_consts field_simps)

lemma perfindex_bounds: "0 \<le> perfindex e x" "perfindex e x \<le> 100"
proof -
  note u = util_points_bounds [of "avg_mm_util x"] and v = speed_points_bounds [of "avg_mm_throughput x"]
  have "0 \<le> util_points (avg_mm_util x) + speed_points (avg_mm_throughput x)" using u v by linarith
  moreover have "util_points (avg_mm_util x) + speed_points (avg_mm_throughput x) \<le> 1" using u v by linarith
  ultimately show "0 \<le> perfindex e x" "perfindex e x \<le> 100" by (simp_all add: perfindex_def)
qed

lemma perfindex_mono:
  assumes "avg_mm_util x \<le> avg_mm_util y" "avg_mm_throughput x \<le> avg_mm_throughput y"
  shows "perfindex e x \<le> perfindex e y"
  using util_points_mono [OF assms(1)] speed_points_mono [OF assms(2)]
  by (simp add: perfindex_def add_mono)

subsection \<open>All traces pass on a package that keeps the contract\<close>

definition timer_ok :: "'p timer \<Rightarrow> bool" where
  "timer_ok fsecs \<longleftrightarrow> (\<forall>d. mem_ok (sys d) \<longrightarrow> (\<exists>r d'. fsecs d = Some (r, d') \<and> mem_ok (sys d') \<and> errors d' = errors d))"

lemma run_ops_errors:
  assumes "\<And>oper u d u' d'. f oper (u, d) = Some (u', d') \<Longrightarrow> errors d' = errors d"
  shows "run_ops f os (u, d) = Some (u', d') \<Longrightarrow> errors d' = errors d"
proof (induction os arbitrary: u d)
  case (Cons oper os)
  then show ?case using assms by (fastforce split: option.splits prod.splits)
qed simp

lemma util_op_errors: "util_op pkg oper (u, d) = Some (u', d') \<Longrightarrow> errors d' = errors d"
  by (cases "op_type oper")
    (auto simp: util_op_def util_alloc_def util_realloc_def util_free_def Let_def
      split: option.splits prod.splits if_splits)

lemma eval_mm_util_errors:
  assumes "eval_mm_util pkg d = Some (r, u, d')"
  shows "errors d' = errors d"
proof -
  let ?d0 = "set_sys (mem_reset_brk (sys (reinit_trace d))) (reinit_trace d)"
  obtain s where "run_ops (util_op pkg) (trace_ops ?d0) (\<lparr>max_total_size = 0, total_size = 0\<rparr>, set_sys s ?d0) = Some (u, d')"
    using assms by (auto simp: eval_mm_util_def Let_def split: option.splits prod.splits if_splits)
  from run_ops_errors [OF util_op_errors this] show ?thesis by (simp add: reinit_trace_def Let_def)
qed

definition trace_fits :: "(nat \<Rightarrow> nat) \<Rightarrow> nat \<Rightarrow> trace_t \<Rightarrow> bool" where
  "trace_fits cost init_cost t \<longleftrightarrow> wf_ops (num_ids t) (\<lambda>_. Null) (take (nat (num_ops t)) (ops t)) \<and>
     init_cost + total_cost cost (take (nat (num_ops t)) (ops t)) \<le> MAX_HEAP"

context malloc_contract
begin

lemma run_tests_ok:
  assumes timer: "timer_ok fsecs"
  shows "mem_ok (sys d) \<Longrightarrow> \<forall>t \<in> set ts. trace_fits cost init_cost t \<Longrightarrow>
    \<exists>sts d'. run_tests pkg rnd v False fsecs (map Some ts) d = Some (sts, d') \<and> errors d' = errors d \<and>
      length sts = length ts \<and> (\<forall>st \<in> set sts. st_valid st = 1 \<and> 0 \<le> st_util st \<and> st_util st \<le> 1)"
proof (induction ts arbitrary: d)
  case (Cons t ts)
  have fit: "trace_fits cost init_cost t" using Cons.prems(2) by simp
  obtain d1 where d1: "eval_mm_valid pkg rnd v (d\<lparr>trace := t\<rparr>) = Some (1, d1)" "errors d1 = errors d" "mem_ok (sys d1)"
    "num_ids (trace d1) = num_ids t" "num_ops (trace d1) = num_ops t" "ops (trace d1) = ops t"
    using eval_mm_valid_ok [of "d\<lparr>trace := t\<rparr>" rnd v] Cons.prems(1) fit by (auto simp: trace_fits_def)
  have f1: "wf_ops (num_ids (trace d1)) (\<lambda>_. Null) (trace_ops d1)" "init_cost + total_cost cost (trace_ops d1) \<le> MAX_HEAP"
    using fit by (simp_all add: trace_fits_def trace_ops_def d1)
  obtain r u d2 where d2: "eval_mm_util pkg d1 = Some (r, u, d2)" "0 \<le> r" "r \<le> 1" "mem_ok (sys d2)"
    by (rule eval_mm_util_ok [OF d1(3) f1])
  obtain q d3 where d3: "fsecs d2 = Some (q, d3)" "mem_ok (sys d3)" "errors d3 = errors d2"
    using timer d2(4) by (auto simp: timer_ok_def)
  obtain sts d' where r: "run_tests pkg rnd v False fsecs (map Some ts) d3 = Some (sts, d')" "errors d' = errors d3"
    "length sts = length ts" "\<forall>st \<in> set sts. st_valid st = 1 \<and> 0 \<le> st_util st \<and> st_util st \<le> 1"
    using Cons.IH [OF d3(2)] Cons.prems(2) by auto
  show ?case using d1 d2 d3 r eval_mm_util_errors [OF d2(1)] by simp
qed simp

end

end
