(* ===== verification/Malloc_Correct.thy ===== *)
theory Malloc_Correct
  imports MM_Naive MDriver_Score
begin

section \<open>Correctness of the bump allocator and of the malloc driver\<close>

text \<open>
  The properties of mm-naive.c, memlib.c and of the checking and measuring parts of mdriver.c. The
  witnesses use a heap at the address that memlib.c suggests to \<open>mmap\<close>.
\<close>

subsection \<open>Concrete states for the witnesses\<close>

definition heap0 :: memlib where
  "heap0 = mem_init 0x800000000 \<lparr>heap = 0, mem_brk = 0, mem_max_addr = 0, errno = 0, bytes = (\<lambda>_. 0)\<rparr>"

definition demo_trace :: trace_t where
  "demo_trace = \<lparr>filename = ''demo'', ignore_ranges = 0, num_ids = 2, num_ops = 6, weight = 1,
     ops = [\<lparr>op_type = ALLOC, op_index = 0, op_size = 16\<rparr>, \<lparr>op_type = ALLOC, op_index = 1, op_size = 5\<rparr>,
            \<lparr>op_type = REALLOC, op_index = 0, op_size = 40\<rparr>, \<lparr>op_type = FREE, op_index = 1, op_size = 0\<rparr>,
            \<lparr>op_type = FREE, op_index = -1, op_size = 0\<rparr>, \<lparr>op_type = REALLOC, op_index = 0, op_size = 0\<rparr>],
     blocks = (\<lambda>_. 0), block_sizes = (\<lambda>_. 0), block_rand_base = (\<lambda>_. 0)\<rparr>"

definition demo_driver :: "unit driver" where
  "demo_driver = \<lparr>sys = heap0, trace = demo_trace, ranges = [], errors = 0, debug_mode = DBG_EXPENSIVE,
     random_data = of_nat, rand_next = 0\<rparr>"

lemma heap0_ok: "mem_ok heap0" "mem_brk heap0 = heap heap0" "heap heap0 = 0x800000000"
  "mem_max_addr heap0 = 0x800000000 + MAX_HEAP"
  by (simp_all add: heap0_def mem_ok_init MAX_HEAP_def) (simp_all add: mem_init_def Let_def MAX_HEAP_def)

lemma heap0_inv: "naive_inv Map.empty heap0"
  using heap0_ok by (simp add: naive_inv_def)

lemma heap64:
  "mem_ok (snd (naive_malloc 64 heap0))" "heap (snd (naive_malloc 64 heap0)) = 0x800000000"
  "mem_brk (snd (naive_malloc 64 heap0)) = 0x800000048"
proof -
  have c: "mem_brk heap0 + naive_cost 64 \<le> mem_max_addr heap0" "naive_cost 64 = 72"
    using heap0_ok by (simp_all add: naive_cost_def align8_def MAX_HEAP_def)
  have s: "snd (naive_malloc 64 heap0) = heap0\<lparr>mem_brk := mem_brk heap0 + naive_cost 64, bytes := store64 (bytes heap0) (mem_brk heap0) 64\<rparr>"
    by (simp add: naive_malloc_fits [OF heap0_ok(1) c(1)])
  have "mem_ok (snd (naive_malloc 64 heap0))"
    using naive_invD(1) [OF naive_malloc_inv(1) [OF heap0_inv _ c(1)]] by (simp add: s)
  then show "mem_ok (snd (naive_malloc 64 heap0))" "heap (snd (naive_malloc 64 heap0)) = 0x800000000"
    "mem_brk (snd (naive_malloc 64 heap0)) = 0x800000048"
    using heap0_ok by (simp_all add: s c)
qed

lemma demo_trace_ok:
  "mem_ok (sys demo_driver)" "trace_ops demo_driver = ops demo_trace"
  "wf_ops (num_ids (trace demo_driver)) (\<lambda>_. Null) (trace_ops demo_driver)"
  "0 + total_cost naive_cost (trace_ops demo_driver) \<le> MAX_HEAP"
  by (simp_all add: demo_driver_def heap0_ok demo_trace_def trace_ops_def next_ids_def Let_def total_cost_def
      op_cost_def naive_cost_def align8_def MAX_HEAP_def)

subsection \<open>Properties of the bump allocator\<close>

text \<open>\<open>malloc\<close> of the bump allocator. When the heap can grow by the rounded size, it returns an aligned
  payload inside the heap that shares no byte with a live payload, records its size before it, grows
  the break by the rounded size and changes no byte of a live payload.\<close>

lemma naive_malloc_correct:
  assumes "naive_inv L s" "0 < n" "mem_brk s + naive_cost n \<le> mem_max_addr s"
  shows "\<exists>p s'. naive_malloc n s = (p, s') \<and> p \<noteq> 0 \<and> 8 dvd p \<and> heap s \<le> p \<and> p + n \<le> mem_brk s' \<and>
    (\<forall>q k. L q = Some k \<longrightarrow> q + k \<le> p \<or> p + n \<le> q) \<and> load64 (bytes s') (p - 8) = n \<and>
    mem_brk s' = mem_brk s + naive_cost n \<and> kept L s s' \<and> naive_inv (L(p \<mapsto> n)) s'"
proof -
  let ?s = "s\<lparr>mem_brk := mem_brk s + naive_cost n, bytes := store64 (bytes s) (mem_brk s) n\<rparr>"
  note m = naive_malloc_inv [OF assms]
  have call: "naive_malloc n s = (mem_brk s + 8, ?s)"
    by (rule naive_malloc_fits [OF naive_invD(1) [OF assms(1)] assms(3)])
  have p: "(L(mem_brk s + 8 \<mapsto> n)) (mem_brk s + 8) = Some n" by simp
  note k = naive_invD(4-7) [OF m(1) p]
  have "q + j \<le> mem_brk s + 8" if "L q = Some j" for q j using naive_invD(6) [OF assms(1) that] by simp
  then show ?thesis using call k m(1,2) by auto
qed


text \<open>\<open>realloc\<close> of the bump allocator keeps the data: the new payload is disjoint from every other live
  payload and its first bytes, up to the smaller of the two sizes, are those of the old one; the other live
  payloads do not change.\<close>

lemma naive_realloc_correct:
  assumes "naive_inv L s" "L p = Some n" "0 < k" "mem_brk s + naive_cost k \<le> mem_max_addr s"
  shows "\<exists>q s'. naive_realloc p k s = (q, s') \<and> q \<noteq> 0 \<and> (\<forall>i < min n k. bytes s' (q + i) = bytes s (p + i)) \<and>
    kept (L(p := None)) s s' \<and> naive_inv (L(p := None, q \<mapsto> k)) s'"
  using naive_realloc_inv [OF assms] by blast


text \<open>a request of \<open>2 ^ 32\<close> bytes is answered with a block that owns no byte: the rounded size is stored
  in an \<open>int\<close>, which keeps its low 32 bits, so the break grows by the size word alone.\<close>

theorem naive_malloc_truncates:
  assumes "mem_ok s" "mem_brk s + 8 \<le> mem_max_addr s"
  shows "\<exists>s'. naive_malloc (2 ^ 32) s = (mem_brk s + 8, s') \<and> mem_brk s' = mem_brk s + 8"
proof -
  note k = mem_okD [OF assms(1)]
  have "ALIGN (add64 (2 ^ 32) SIZE_T_SIZE) = 2 ^ 32 + 8" by (simp add: add64_small ALIGN_small)
  then have "s32 (ALIGN (add64 (2 ^ 32) SIZE_T_SIZE)) = int 8" by (simp add: s32_def u32_def)
  moreover have "s64 (mem_brk s) = int (mem_brk s)" "add64 (mem_brk s) 8 = mem_brk s + 8"
    using k by (simp_all add: s64_small add64_small)
  ultimately show ?thesis using mem_sbrk_int [OF assms(2)] by (simp add: naive_malloc_def Let_def)
qed

theorem naive_malloc_truncates_witness:
  "\<exists>s'. naive_malloc (2 ^ 32) heap0 = (mem_brk heap0 + 8, s')"
  using naive_malloc_truncates [OF heap0_ok(1)] heap0_ok by (auto simp: MAX_HEAP_def)


subsection \<open>Properties of the driver\<close>

text \<open>C8: the checker accepts every correct package. For every package that keeps the contract and every
  well-formed trace whose requests fit the heap, at every debug level and whatever values \<open>random()\<close> answers,
  \<open>eval\_mm\_valid\<close> returns 1 and reports no error: no alignment, extent, overlap or data check fails.\<close>

theorem driver_accepts_contract:
  assumes "malloc_contract pkg I cost init_cost" and "mem_ok (sys d)"
    and "wf_ops (num_ids (trace d)) (\<lambda>_. Null) (trace_ops d)"
    and "init_cost + total_cost cost (trace_ops d) \<le> MAX_HEAP"
  shows "\<exists>d'. eval_mm_valid pkg rnd verbose d = Some (1, d') \<and> errors d' = errors d"
  using malloc_contract.eval_mm_valid_ok [OF assms(1,2) assms(3,4) [unfolded trace_ops_def]] by blast

theorem driver_accepts_contract_witness:
  "\<exists>d'. eval_mm_valid naive_package (\<lambda>k. 7 * k) 1 demo_driver = Some (1, d') \<and> errors d' = 0"
  using driver_accepts_contract [OF naive.malloc_contract_axioms demo_trace_ok(1,3,4)]
  by (simp add: demo_driver_def)

text \<open>the measured utilisation of a package that keeps the contract lies between 0 and 1, for every
  well-formed trace that fits: the high-water mark of the live bytes never exceeds the final heap size.\<close>

theorem utilisation_bounds:
  assumes "malloc_contract pkg I cost init_cost" and "mem_ok (sys d)"
    and "wf_ops (num_ids (trace d)) (\<lambda>_. Null) (trace_ops d)"
    and "init_cost + total_cost cost (trace_ops d) \<le> MAX_HEAP"
  shows "\<exists>r u d'. eval_mm_util pkg d = Some (r, u, d') \<and> 0 \<le> r \<and> r \<le> 1 \<and>
    max_total_size u \<le> int (mem_heapsize (sys d'))"
  using malloc_contract.eval_mm_util_ok [OF assms] by blast

theorem utilisation_bounds_witness: "\<exists>r x. eval_mm_util naive_package demo_driver = Some (r, x) \<and> r \<le> 1"
  using utilisation_bounds [OF naive.malloc_contract_axioms demo_trace_ok(1,3,4)] by blast

text \<open>The timed replay performs the same calls as the replay for utilisation: when the latter runs to its
  end, so does \<open>eval\_mm\_speed\<close>, and both end with the same memory and the same block pointers.\<close>

lemma speed_replays_util:
  assumes "eval_mm_util pkg d = Some (r, u, d')"
  shows "\<exists>e. eval_mm_speed pkg d = Some e \<and> sys e = sys d' \<and> blocks (trace e) = blocks (trace d')"
  using assms by (rule speed_follows_util)


text \<open>what \<open>add\_range\<close> accepts. For a positive size whose payload does not pass the end of the address
  space, the payload is accepted exactly when it is aligned, lies in the heap and, if overlaps are checked,
  every recorded payload is disjoint from it or strictly inside it; a refusal counts one error and records
  nothing.\<close>

theorem add_range_exact:
  assumes "0 < n" "n < 2 ^ 31" "l < 2 ^ 63" and "mem_ok (sys d)" and "heap (sys d) < mem_brk (sys d)"
    and "\<forall>r \<in> set (ranges d). lo r \<le> hi r"
  shows "add_range l (int n) i d =
    (if 8 dvd l \<and> heap (sys d) \<le> l \<and> l + n \<le> mem_brk (sys d) \<and>
        (tracked d \<longrightarrow> (\<forall>r \<in> set (ranges d). hi r < l \<or> l + n - 1 < lo r \<or> (l < lo r \<and> hi r < l + n - 1)))
     then Some (True, track l n i d) else Some (False, malloc_error d))"
proof -
  note m = mem_okD [OF assms(4)]
  have h: "sub64 (add64 l (to_u64 (int n))) 1 = l + n - 1"
    using assms(1-3) by (simp add: to_u64_def add64_small sub64_small)
  have hh: "mem_heap_hi (sys d) = mem_brk (sys d) - 1" using m by (intro mem_heap_hi_small) simp_all
  have inside: "(l < mem_heap_lo (sys d) \<or> mem_heap_hi (sys d) < l \<or> l + n - 1 < mem_heap_lo (sys d) \<or>
      mem_heap_hi (sys d) < l + n - 1) \<longleftrightarrow> \<not> (heap (sys d) \<le> l \<and> l + n \<le> mem_brk (sys d))"
    using assms(1,5) by (auto simp: hh mem_heap_lo_def)
  have one: "\<not> (lo r \<le> l \<and> l \<le> hi r \<or> lo r \<le> l + n - 1 \<and> l + n - 1 \<le> hi r) \<longleftrightarrow>
      hi r < l \<or> l + n - 1 < lo r \<or> (l < lo r \<and> hi r < l + n - 1)" if "lo r \<le> hi r" for r
    using that assms(1) by linarith
  have no: "list_ex (\<lambda>r. lo r \<le> l \<and> l \<le> hi r \<or> lo r \<le> l + n - 1 \<and> l + n - 1 \<le> hi r) (ranges d) \<longleftrightarrow>
      \<not> (\<forall>r \<in> set (ranges d). hi r < l \<or> l + n - 1 < lo r \<or> (l < lo r \<and> hi r < l + n - 1))"
    unfolding list_ex_iff using one assms(6) by blast
  show ?thesis
    unfolding add_range_def Let_def h inside no
    using assms(1) by (auto simp: IS_ALIGNED_def ALIGNMENT_def mod_eq_0_iff_dvd tracked_def track_def)
qed

theorem add_range_exact_witness:
  "\<exists>d'. add_range 0x800000000 (int 8) 0 (demo_driver\<lparr>sys := snd (naive_malloc 64 heap0)\<rparr>) = Some (True, d')"
  by (subst add_range_exact) (auto simp: heap64 demo_driver_def)

text \<open>the overlap check misses an enclosing payload: the test compares the two ends of the new payload with
  each recorded one, so a payload that starts before and ends after every recorded payload is accepted although
  it overlaps them all.\<close>

theorem add_range_misses_enclosing:
  assumes "0 < n" "n < 2 ^ 31" "mem_ok (sys d)" "8 dvd l" "heap (sys d) \<le> l" "l + n \<le> mem_brk (sys d)"
    and "\<forall>r \<in> set (ranges d). l < lo r \<and> lo r \<le> hi r \<and> hi r < l + n - 1"
  shows "add_range l (int n) i d = Some (True, track l n i d)"
proof -
  note m = mem_okD [OF assms(3)]
  have h: "sub64 (add64 l (to_u64 (int n))) 1 = l + n - 1"
    using assms(1,2,6) m by (simp add: to_u64_def add64_small sub64_small)
  have hh: "mem_heap_hi (sys d) = mem_brk (sys d) - 1" using m by (intro mem_heap_hi_small) simp_all
  have "\<not> list_ex (\<lambda>r. lo r \<le> l \<and> l \<le> hi r \<or> lo r \<le> l + n - 1 \<and> l + n - 1 \<le> hi r) (ranges d)"
    using assms(7) by (fastforce simp: list_ex_iff)
  moreover have "\<not> (l < mem_heap_lo (sys d) \<or> mem_heap_hi (sys d) < l \<or> l + n - 1 < mem_heap_lo (sys d) \<or>
      mem_heap_hi (sys d) < l + n - 1)" using assms(1,5,6) by (auto simp: hh mem_heap_lo_def)
  ultimately show ?thesis
    unfolding add_range_def Let_def h
    using assms(1,4) by (auto simp: IS_ALIGNED_def ALIGNMENT_def mod_eq_0_iff_dvd tracked_def track_def)
qed

theorem add_range_misses_enclosing_witness:
  "\<exists>d'. add_range 0x800000000 (int 64) 1
     (demo_driver\<lparr>sys := snd (naive_malloc 64 heap0), ranges := [\<lparr>lo = 0x800000010, hi = 0x800000017, rng_index = 0\<rparr>]\<rparr>)
   = Some (True, d')"
  by (subst add_range_misses_enclosing) (auto simp: heap64)

text \<open>the data check. Right after \<open>randomize\_block\<close> the check of the same block finds nothing, and a check
  counts an error exactly when some byte of the payload differs from the recorded pattern.\<close>

theorem check_index_detects:
  assumes "debug_mode d \<noteq> DBG_NONE" "0 \<le> i"
  shows "check_index i (randomize_block rnd i d) = randomize_block rnd i d \<and>
    check_index i d = (if \<forall>k < block_sizes (trace d) i. bytes (sys d) (blocks (trace d) i + k) =
        random_data d (add64 (to_u64 (block_rand_base (trace d) i)) k mod 2 ^ 16) then d else malloc_error d)"
proof
  show "check_index i (randomize_block rnd i d) = randomize_block rnd i d"
    using randomize_has_pattern [OF assms(1)] by (intro check_index_pattern) blast
  show "check_index i d = (if \<forall>k < block_sizes (trace d) i. bytes (sys d) (blocks (trace d) i + k) =
        random_data d (add64 (to_u64 (block_rand_base (trace d) i)) k mod 2 ^ 16) then d else malloc_error d)"
    using assms by (auto simp: check_index_def Let_def pattern_def RANDOM_DATA_LEN_def filter_empty_conv)
qed

theorem check_index_detects_witness:
  "check_index 0 (randomize_block (\<lambda>k. k) 0 demo_driver) = randomize_block (\<lambda>k. k) 0 demo_driver"
  using check_index_detects [of demo_driver 0] by (simp add: demo_driver_def)


text \<open>Reading a trace file is the inverse of writing it: for every trace with a weight and a flag of 0 or 1,
  consistent counts and sizes below \<open>2 ^ 31\<close>, reading the text of its header and requests gives the same
  trace with empty arrays.\<close>

lemma read_trace_roundtrip:
  assumes "printable junk t" and "fopen (dir @ name) = Some (show_trace t)"
  shows "read_trace junk fopen dir name =
    Some (t\<lparr>filename := dir @ name, blocks := \<lambda>_. 0, block_sizes := \<lambda>_. 0, block_rand_base := \<lambda>_. 0\<rparr>)"
  using read_from_show [OF assms(1)] assms(2) by (simp add: read_trace_def)


text \<open>The whole run. For a package that keeps the contract and traces that are well formed and fit the heap,
  \<open>run\_tests\<close> runs to its end without an error, and every trace is valid with a utilisation between 0 and 1.\<close>

lemma run_tests_all_valid:
  assumes "malloc_contract pkg I cost init_cost" and "timer_ok fsecs" and "mem_ok (sys d)"
    and "\<forall>t \<in> set ts. trace_fits cost init_cost t"
  shows "\<exists>sts d'. run_tests pkg rnd verbose False fsecs (map Some ts) d = Some (sts, d') \<and> errors d' = errors d \<and>
    length sts = length ts \<and> (\<forall>st \<in> set sts. st_valid st = 1 \<and> 0 \<le> st_util st \<and> st_util st \<le> 1)"
  by (rule malloc_contract.run_tests_ok [OF assms])


text \<open>the performance index lies between 0 and 100 and grows with both averages: with no errors, better
  utilisation and better throughput never lower it.\<close>

theorem perfindex_correct:
  "0 \<le> perfindex e x \<and> perfindex e x \<le> 100 \<and>
   (avg_mm_util x \<le> avg_mm_util y \<and> avg_mm_throughput x \<le> avg_mm_throughput y \<longrightarrow> perfindex e x \<le> perfindex e y)"
  using perfindex_bounds [of e x] perfindex_mono by blast

theorem perfindex_correct_witness:
  "perfindex 0 (accumulate [stats_zero\<lparr>st_weight := 1, st_util := 1 / 2\<rparr>])
    \<le> perfindex 0 (accumulate [stats_zero\<lparr>st_weight := 1, st_util := 9 / 10\<rparr>])"
  by (rule perfindex_correct [THEN conjunct2, THEN conjunct2, rule_format])
    (simp add: accumulate_def add_stats_def stats_zero_def avg_mm_util_def avg_mm_throughput_def)

end
