(* ===== verification/Driverlib.thy ===== *)
theory Driverlib
  imports C_Text
begin

section \<open>Submitting results (practice-2/practice\_2-2/driverlib.c)\<close>

text \<open>
  The URL encoder, buffered reading and complete writing, and the submission of a result over HTTP.
  The network is an argument: what \<open>socket\<close>, \<open>gethostbyname\<close> and \<open>connect\<close> answer, what the calls of
  \<open>write\<close> answer in order, and the byte chunks that the calls of \<open>read\<close> deliver. A call interrupted
  by a signal delivers no chunk. Characters have the signed type \<open>char\<close> of the platform.
\<close>

subsection \<open>URL encoding\<close>

definition schar :: "char \<Rightarrow> int" where
  "schar c = (if code c < 128 then int (code c) else int (code c) - 256)"

definition url_plain :: "char \<Rightarrow> bool" where
  "url_plain c \<longleftrightarrow> c \<in> {CHR ''*'', CHR ''-'', CHR ''.'', CHR ''_''} \<or>
     (48 \<le> schar c \<and> schar c \<le> 57) \<or> (65 \<le> schar c \<and> schar c \<le> 90) \<or> (97 \<le> schar c \<and> schar c \<le> 122)"

text \<open>The digits of \<open>%02X\<close> for a value below 256.\<close>

definition hex_digit :: "nat \<Rightarrow> char" where
  "hex_digit n = char_of (if n < 10 then 48 + n else 55 + n)"

definition hex02 :: "nat \<Rightarrow> string" where "hex02 n = [hex_digit (n div 16), hex_digit (n mod 16)]"

text \<open>The answer and what was written to \<open>dst\<close>.\<close>

fun urlencode :: "string \<Rightarrow> int \<times> string" where
  "urlencode [] = (0, [])"
| "urlencode (c # src) =
     (if url_plain c then (let (r, d) = urlencode src in (r, c # d))
      else if c = CHR '' '' then (let (r, d) = urlencode src in (r, CHR ''+'' # d))
      else if 31 < schar c \<or> schar c = 9
      then (let (r, d) = urlencode src in (r, CHR ''%'' # hex02 (code c) @ d))
      else (-1, []))"

subsection \<open>Robust input and output\<close>

definition RIO_BUFSIZE :: nat where "RIO_BUFSIZE = 8192"
definition SUBMITR_MAXBUF :: nat where "SUBMITR_MAXBUF = 8192"

text \<open>The results of the next calls of \<open>read\<close>: a chunk of bytes, or nothing for a call that was interrupted;
  after them every call answers 0 (end of file) or, if the second component is true, an error.\<close>

type_synonym net_in = "string option list \<times> bool"

record rio =
  rio_cnt :: int
  rio_bufptr :: nat
  rio_buf :: string

definition rio_readinitb :: "rio \<Rightarrow> rio" where
  "rio_readinitb rp = rp\<lparr>rio_cnt := 0, rio_bufptr := 0\<rparr>"

text \<open>Filling the empty buffer: 1 when there are bytes, 0 at the end of the file, -1 on an error.\<close>

fun rio_refill :: "rio \<Rightarrow> string option list \<Rightarrow> bool \<Rightarrow> int \<times> rio \<times> string option list" where
  "rio_refill rp cs err =
     (if 0 < rio_cnt rp then (1, rp, cs)
      else (case cs of
              [] \<Rightarrow> if err then (-1, rp\<lparr>rio_cnt := -1\<rparr>, []) else (0, rp\<lparr>rio_cnt := 0\<rparr>, [])
            | None # cs \<Rightarrow> rio_refill (rp\<lparr>rio_cnt := -1\<rparr>) cs err
            | Some b # cs \<Rightarrow>
                if b = [] then (0, rp\<lparr>rio_cnt := 0\<rparr>, cs)
                else rio_refill (rp\<lparr>rio_cnt := int (length b), rio_buf := b, rio_bufptr := 0\<rparr>) cs err))"

declare rio_refill.simps [simp del]

definition rio_read :: "rio \<Rightarrow> nat \<Rightarrow> net_in \<Rightarrow> int \<times> string \<times> rio \<times> net_in" where
  "rio_read rp n net =
     (let (r, rp, cs) = rio_refill rp (fst net) (snd net)
      in if r \<le> 0 then (r, [], rp, (cs, snd net))
         else (let cnt = (if nat (rio_cnt rp) < n then nat (rio_cnt rp) else n)
               in (int cnt, take cnt (drop (rio_bufptr rp) (rio_buf rp)),
                   rp\<lparr>rio_bufptr := rio_bufptr rp + cnt, rio_cnt := rio_cnt rp - int cnt\<rparr>, (cs, snd net))))"

text \<open>The loop of \<open>rio_readlineb\<close> from the counter value \<open>n\<close>; \<open>k\<close> is how many turns \<open>maxlen\<close> still allows.
  The answer, and the characters stored before the final 0.\<close>

primrec readline_loop :: "nat \<Rightarrow> nat \<Rightarrow> rio \<Rightarrow> net_in \<Rightarrow> int \<times> string \<times> rio \<times> net_in" where
  "readline_loop 0 n rp net = (int n, [], rp, net)"
| "readline_loop (Suc k) n rp net =
     (let (rc, c, rp, net) = rio_read rp 1 net
      in if rc = 1
         then (if c = [NL] then (int n, [NL], rp, net)
               else (let (r, s, rp, net) = readline_loop k (Suc n) rp net in (r, c @ s, rp, net)))
         else if rc = 0 then (if n = 1 then (0, [], rp, net) else (int n, [], rp, net))
         else (-1, [], rp, net))"

definition rio_readlineb :: "rio \<Rightarrow> nat \<Rightarrow> net_in \<Rightarrow> int \<times> string \<times> rio \<times> net_in" where
  "rio_readlineb rp maxlen net = readline_loop (maxlen - 1) 1 rp net"

text \<open>The results of the next calls of \<open>write\<close>, each with whether \<open>errno\<close> then is \<open>EINTR\<close>; when they are used
  up everything is written. The answer and the bytes written.\<close>

fun rio_writen :: "(int \<times> bool) list \<Rightarrow> string \<Rightarrow> int \<times> string" where
  "rio_writen ws buf =
     (if buf = [] then (0, [])
      else (case ws of
              [] \<Rightarrow> (int (length buf), buf)
            | (nwritten, eintr) # ws \<Rightarrow>
                if nwritten \<le> 0
                then (if eintr then rio_writen ws buf else (-1, []))
                else (let k = nat (min nwritten (int (length buf)));
                          (r, s) = rio_writen ws (drop k buf)
                      in (if r < 0 then -1 else int (length buf), take k buf @ s))))"

declare rio_writen.simps [simp del]

subsection \<open>The submission\<close>

definition SERVER_NAME :: string where "SERVER_NAME = ''unofficial.fish.ics.cs.cmu.edu''"
definition SERVER_PORT :: int where "SERVER_PORT = 80"
definition COURSE_NAME :: string where "COURSE_NAME = ''15213-f10''"
definition LAB :: string where "LAB = ''malloclab''"
definition AUTOGRADE_TIMEOUT :: int where "AUTOGRADE_TIMEOUT = 360"

record network =
  n_socket :: int
  n_resolves :: "string \<Rightarrow> bool"
  n_connects :: "string \<Rightarrow> int \<Rightarrow> bool"
  n_writes :: "(int \<times> bool) list"
  n_reads :: net_in
  n_junk :: string

text \<open>What a call leaves behind: its answer, the status message, the bytes sent, and whether the socket is closed.\<close>

record outcome =
  answer_code :: int
  status_msg :: string
  sent :: string
  closed :: bool

definition CRLF :: string where "CRLF = [char_of (13 :: nat), NL]"

definition http_request :: "string \<Rightarrow> string \<Rightarrow> string \<Rightarrow> string \<Rightarrow> string" where
  "http_request course userid lab enc_result =
     ''GET /unofficialSubmit.rb?course='' @ course @ ''&user='' @ userid @ ''&assessment='' @ lab @
     ''&result='' @ enc_result @ '' HTTP/1.0'' @ CRLF @ CRLF"

text \<open>\<open>sscanf\<close> of the first line: \<open>%s\<close>, \<open>%d\<close> into \<open>errcode\<close> (0 before) and the characters of \<open>%[a-zA-z ]\<close>
  into \<open>errmsg\<close>, whose content before is \<open>junk\<close>.\<close>

definition msg_char :: "char \<Rightarrow> bool" where
  "msg_char c \<longleftrightarrow> (97 \<le> code c \<and> code c \<le> 122) \<or> (65 \<le> code c \<and> code c \<le> 122) \<or> c = CHR '' ''"

definition scan_status :: "string \<Rightarrow> string \<Rightarrow> int \<times> string" where
  "scan_status junk buf =
     (case scan_s buf of
        None \<Rightarrow> (0, junk)
      | Some (version, rest) \<Rightarrow>
          (case scan_number rest of
             (None, rest) \<Rightarrow> (0, junk)
           | (Some v, rest) \<Rightarrow>
               (let msg = takeWhile msg_char (skip_space rest)
                in (wrap32 v, if msg = [] then junk else msg))))"

text \<open>Reading up to the empty line. Every turn consumes a line, so the bytes that are left bound the turns.\<close>

primrec skip_headers :: "nat \<Rightarrow> string \<Rightarrow> rio \<Rightarrow> net_in \<Rightarrow> (rio \<times> net_in) option" where
  "skip_headers 0 buf rp net = None"
| "skip_headers (Suc k) buf rp net =
     (if buf = CRLF then Some (rp, net)
      else (let (r, buf, rp, net) = rio_readlineb rp SUBMITR_MAXBUF net
            in if r \<le> 0 then None else skip_headers k buf rp net))"

definition in_bytes :: "rio \<Rightarrow> net_in \<Rightarrow> nat" where
  "in_bytes rp net = nat (rio_cnt rp) + length (concat (map (case_option [] id) (fst net)))"

definition submitr :: "network \<Rightarrow> rio \<Rightarrow> string \<Rightarrow> int \<Rightarrow> string \<Rightarrow> string \<Rightarrow> string \<Rightarrow> string \<Rightarrow> outcome" where
  "submitr w rp hostname port course userid lab res =
     (let fail = (\<lambda>msg s. \<lparr>answer_code = -1, status_msg = msg, sent = s, closed = True\<rparr>)
      in if n_socket w < 0
         then \<lparr>answer_code = -1, status_msg = ''Error: Client unable to create socket'', sent = [], closed = False\<rparr>
         else if \<not> n_resolves w hostname
         then fail ''Error: DNS is unable to resolve Autolab server address'' []
         else if \<not> n_connects w hostname port
         then fail ''Error: Unable to connect to the Autolab server'' []
         else if SUBMITR_MAXBUF < length course + length userid + length lab + 3 * length res + 128
         then fail ''Error: Result string too large. Increase SUBMITR_MAXBUF'' []
         else (let (r, enc_result) = urlencode res
               in if r < 0 then fail ''Error: Result string contains an illegal or unprintable character.'' []
                  else (let (r, s) = rio_writen (n_writes w) (http_request course userid lab enc_result)
                        in if r < 0 then fail ''Error: Client unable to write to the Autolab server'' s
                           else (let (r, buf, rp, net) = rio_readlineb (rio_readinitb rp) SUBMITR_MAXBUF (n_reads w)
                                 in if r \<le> 0 then fail ''Error: Client unable to read first header from Autolab server'' s
                                    else (let (errcode, errmsg) = scan_status (n_junk w) buf
                                          in if errcode \<noteq> 200
                                             then fail (''Error: HTTP request failed with error '' @ show_int errcode @ '': '' @ errmsg) s
                                             else (case skip_headers (in_bytes rp net + 1) buf rp net of
                                                     None \<Rightarrow> fail ''Error: Client unable to read headers from Autolab server'' s
                                                   | Some (rp, net) \<Rightarrow>
                                                       (let (r, buf, rp, net) = rio_readlineb rp SUBMITR_MAXBUF net
                                                        in if r \<le> 0
                                                           then fail ''Error: Client unable to read status message from Autolab server'' s
                                                           else \<lparr>answer_code = (if buf = ''OK'' then 0 else -1), status_msg = buf, sent = s,
                                                                  closed = True\<rparr>)))))))"

subsection \<open>The public functions\<close>

text \<open>The number of seconds handed to \<open>alarm\<close>, if it is called.\<close>

definition init_timeout :: "int \<Rightarrow> int option" where
  "init_timeout timeout =
     (if timeout = 0 then None else let timeout = (if timeout < 0 then AUTOGRADE_TIMEOUT else timeout) in Some timeout)"

definition init_driver :: "network \<Rightarrow> outcome" where
  "init_driver w =
     (if n_socket w < 0
      then \<lparr>answer_code = -1, status_msg = ''Error: Client unable to create socket'', sent = [], closed = False\<rparr>
      else if \<not> n_resolves w SERVER_NAME
      then \<lparr>answer_code = -1, status_msg = ''Error: DNS is unable to resolve server address'', sent = [], closed = True\<rparr>
      else if \<not> n_connects w SERVER_NAME SERVER_PORT
      then \<lparr>answer_code = -1, status_msg = ''Error: Unable to connect to server'', sent = [], closed = True\<rparr>
      else \<lparr>answer_code = 0, status_msg = ''OK'', sent = [], closed = True\<rparr>)"

text \<open>The outcome and what is printed; \<open>user\<close> is the value of the environment variable USER.\<close>

definition driver_post :: "network \<Rightarrow> rio \<Rightarrow> string \<Rightarrow> string \<Rightarrow> bool \<Rightarrow> outcome \<times> string" where
  "driver_post w rp user res autograded =
     (if autograded
      then (\<lparr>answer_code = 0, status_msg = ''OK'', sent = [], closed = False\<rparr>, NL # ''AUTORESULT_STRING='' @ res @ [NL])
      else (submitr w rp SERVER_NAME SERVER_PORT COURSE_NAME user LAB res, []))"

end
