(* ===== verification/MDriver_Main.thy ===== *)
theory MDriver_Main
  imports MDriver_Score Driverlib
begin

section \<open>The main routine of the malloc driver (practice-2/practice\_2-2/mdriver.c)\<close>

text \<open>
  \<open>getopt\<close> as the C library of GNU does it, the \<open>switch\<close> over the options, the choice of the trace files, the
  run of the C library's allocator, \<open>run_tests\<close> with the signal of the timer, the tables of
  \<open>printresults\<close>, the performance index and the submission of the result. The files, the standard
  input, the answers of \<open>random\<close> and \<open>mmap\<close>, the timing of \<open>fsecs\<close>, the allocator of the C library, the moment
  at which the alarm rings and the network are fields of \<open>world\<close>. Doubles are exact rational numbers; a
  quotient by zero prints as the x86 processor does it. The messages about the progress of the run are left out.
\<close>

definition MAXLINE :: nat where "MAXLINE = 1024"
definition TRACEDIR :: string where "TRACEDIR = ''./traces/''"

definition DEFAULT_TRACEFILES :: "string list" where
  "DEFAULT_TRACEFILES =
     [''amptjp.rep'', ''cccp.rep'', ''coalescing-bal.rep'', ''corners.rep'', ''cp-decl.rep'', ''hostname.rep'',
      ''login.rep'', ''ls.rep'', ''malloc-free.rep'', ''malloc.rep'', ''perl.rep'', ''random.rep'', ''rm.rep'',
      ''short2.rep'', ''boat.rep'', ''lrucd.rep'', ''alaska.rep'', ''nlydf.rep'', ''qyqyc.rep'', ''rulsr.rep'']"

subsection \<open>The options of the command line\<close>

text \<open>Whether an option is known, and then whether it takes an argument.\<close>

fun opt_kind :: "string \<Rightarrow> char \<Rightarrow> bool option" where
  "opt_kind [] c = None"
| "opt_kind (d # ds) c =
     (if d = c \<and> c \<noteq> CHR '':'' then Some (case ds of [] \<Rightarrow> False | e # _ \<Rightarrow> e = CHR '':'') else opt_kind ds c)"

text \<open>The options in one word behind its dash; an argument is the rest of the word or the next word.\<close>

fun getopt_word :: "string \<Rightarrow> string \<Rightarrow> string list \<Rightarrow> (char \<times> string) list \<times> string list" where
  "getopt_word opts [] ws = ([], ws)"
| "getopt_word opts (c # cs) ws =
     (case opt_kind opts c of
        None \<Rightarrow> (let (os, ws) = getopt_word opts cs ws in ((CHR ''?'', []) # os, ws))
      | Some False \<Rightarrow> (let (os, ws) = getopt_word opts cs ws in ((c, []) # os, ws))
      | Some True \<Rightarrow>
          if cs \<noteq> [] then ([(c, cs)], ws)
          else (case ws of [] \<Rightarrow> ([(CHR ''?'', [])], []) | w # ws \<Rightarrow> ([(c, w)], ws)))"

lemma length_getopt_word: "length (snd (getopt_word opts cs ws)) \<le> length ws"
  by (induction opts cs ws rule: getopt_word.induct) (auto split: option.splits bool.splits list.splits prod.splits)

text \<open>All answers of \<open>getopt\<close>: words without a dash are passed over, two dashes end the options.\<close>

function getopt :: "string \<Rightarrow> string list \<Rightarrow> (char \<times> string) list" where
  "getopt opts [] = []"
| "getopt opts (w # ws) =
     (if w = ''--'' then []
      else (case w of
              c # d # cs \<Rightarrow> if c = CHR ''-''
                then fst (getopt_word opts (d # cs) ws) @ getopt opts (snd (getopt_word opts (d # cs) ws))
                else getopt opts ws
            | _ \<Rightarrow> getopt opts ws))"
  by pat_completeness auto
termination
  by (relation "measure (\<lambda>(opts, ws). length ws)") (auto simp: length_getopt_word less_Suc_eq_le simp del: getopt_word.simps)

definition OPTIONS :: string where "OPTIONS = ''d:f:c:s:t:v:hVAlDj''"

record config =
  tracefiles :: "string list option"
  num_tracefiles :: nat
  tracedir :: string
  trace_from_stdin :: bool
  run_libc :: bool
  autograder :: bool
  onetime_flag :: bool
  verbose_level :: int
  debug_level :: int
  set_timeout :: int

definition config0 :: config where
  "config0 = \<lparr>tracefiles = None, num_tracefiles = 0, tracedir = TRACEDIR, trace_from_stdin = False, run_libc = False,
     autograder = False, onetime_flag = False, verbose_level = 1, debug_level = 1, set_timeout = 0\<rparr>"

text \<open>What the command line leads to: the run with a configuration, the end of the program, or
  undefined behaviour (a directory that does not fit its buffer, a number that is no \<open>int\<close>).\<close>

datatype parsed = Run config | Exits int | Undefined_Run

definition is_int :: "int \<Rightarrow> bool" where "is_int i \<longleftrightarrow> - (2 ^ 31) \<le> i \<and> i < 2 ^ 31"

definition atoi :: "string \<Rightarrow> int option" where
  "atoi s = (case fst (scan_number s) of None \<Rightarrow> Some 0 | Some v \<Rightarrow> if is_int v then Some v else None)"

definition with_int :: "string \<Rightarrow> (int \<Rightarrow> config) \<Rightarrow> parsed" where
  "with_int s f = (case atoi s of None \<Rightarrow> Undefined_Run | Some v \<Rightarrow> Run (f v))"

definition set_tracefile :: "string \<Rightarrow> config \<Rightarrow> config" where
  "set_tracefile name cf = cf\<lparr>num_tracefiles := 1, tracedir := ''./'', tracefiles := Some [name]\<rparr>"

definition set_tracedir :: "string \<Rightarrow> config \<Rightarrow> parsed" where
  "set_tracedir dir cf =
     (if num_tracefiles cf = 1 then Run cf
      else if dir = [] then Undefined_Run
      else let dir = (if last dir \<noteq> CHR ''/'' then dir @ ''/'' else dir)
           in if MAXLINE \<le> length dir then Undefined_Run else Run (cf\<lparr>tracedir := dir\<rparr>))"

definition apply_option :: "char \<times> string \<Rightarrow> config \<Rightarrow> parsed" where
  "apply_option = (\<lambda>(c, optarg) cf.
     if c = CHR ''A'' then Run (cf\<lparr>autograder := True\<rparr>)
     else if c = CHR ''f'' then Run (set_tracefile optarg cf)
     else if c = CHR ''c'' then Run (set_tracefile optarg (cf\<lparr>onetime_flag := True\<rparr>))
     else if c = CHR ''t'' then set_tracedir optarg cf
     else if c = CHR ''l'' then Run (cf\<lparr>run_libc := True\<rparr>)
     else if c = CHR ''V''
     then (if is_int (verbose_level cf + 1) then Run (cf\<lparr>verbose_level := verbose_level cf + 1\<rparr>) else Undefined_Run)
     else if c = CHR ''v'' then with_int optarg (\<lambda>v. cf\<lparr>verbose_level := v\<rparr>)
     else if c = CHR ''d'' then with_int optarg (\<lambda>v. cf\<lparr>debug_level := v\<rparr>)
     else if c = CHR ''D'' then Run (cf\<lparr>debug_level := 2\<rparr>)
     else if c = CHR ''s'' then with_int optarg (\<lambda>v. cf\<lparr>set_timeout := v\<rparr>)
     else if c = CHR ''j'' then Run (cf\<lparr>num_tracefiles := 1, trace_from_stdin := True\<rparr>)
     else if c = CHR ''h'' then Exits 0
     else Exits 1)"

fun parse_options :: "(char \<times> string) list \<Rightarrow> config \<Rightarrow> parsed" where
  "parse_options [] cf = Run cf"
| "parse_options (oa # os) cf =
     (case apply_option oa cf of Run cf \<Rightarrow> parse_options os cf | Exits c \<Rightarrow> Exits c | Undefined_Run \<Rightarrow> Undefined_Run)"

text \<open>Without a file on the command line the traces are the default ones.\<close>

definition default_files :: "config \<Rightarrow> config" where
  "default_files cf =
     (if trace_from_stdin cf \<or> tracefiles cf \<noteq> None then cf
      else cf\<lparr>tracefiles := Some DEFAULT_TRACEFILES, num_tracefiles := length DEFAULT_TRACEFILES\<rparr>)"

text \<open>A level other than the three of the enumeration behaves as the middle one.\<close>

definition debug_of :: "int \<Rightarrow> debug" where
  "debug_of i = (if i = 0 then DBG_NONE else if i = 2 then DBG_EXPENSIVE else DBG_CHEAP)"


subsection \<open>The surroundings of the program\<close>

text \<open>Where in the replay of a trace the alarm finds the program: the checks, the timing, or behind them.\<close>

datatype phase = Checking | Measuring | Finished

record ('p, 'q) world =
  fopen_file :: "string \<Rightarrow> string option"
  stdin_text :: string
  malloc_junk :: nat
  random_answers :: "nat \<Rightarrow> nat"
  mmap_answer :: addr
  mm_timer :: "'p timer"
  alarm :: "(nat \<times> phase) option"
  libc_package :: "'q mm_package"
  libc_timer :: "'q timer"
  libc_driver :: "'q driver"
  internet :: network
  socket_buffer :: rio
  user_name :: string

text \<open>The traces in the order in which \<open>run_tests\<close> reads them; the standard input is closed behind the first one.\<close>

definition open_tracefile :: "('p, 'q) world \<Rightarrow> string \<Rightarrow> string \<Rightarrow> trace_t option" where
  "open_tracefile w dir name =
     (if MAXLINE \<le> length (dir @ name) then None else read_trace (malloc_junk w) (fopen_file w) dir name)"

definition read_traces :: "('p, 'q) world \<Rightarrow> config \<Rightarrow> trace_t option list" where
  "read_traces w cf =
     map (\<lambda>i. if trace_from_stdin cf then (if i = 0 then read_trace_stdin (malloc_junk w) (stdin_text w) else None)
              else (case tracefiles cf of
                      None \<Rightarrow> None
                    | Some fs \<Rightarrow> if i < length fs then open_tracefile w (tracedir cf) (fs ! i) else None))
       [0..<num_tracefiles cf]"

text \<open>What reading the traces once more gives: files are opened afresh, the standard input is closed.\<close>

definition read_again :: "('p, 'q) world \<Rightarrow> config \<Rightarrow> trace_t option list" where
  "read_again w cf = (if trace_from_stdin cf then map (\<lambda>_. None) (read_traces w cf) else read_traces w cf)"

subsection \<open>The run of the C library's allocator\<close>

fun libc_tests :: "'q mm_package \<Rightarrow> 'q timer \<Rightarrow> trace_t option list \<Rightarrow> 'q driver \<Rightarrow> stats_t list option" where
  "libc_tests libc fsecs [] d = Some []"
| "libc_tests libc fsecs (t # ts) d =
     (case t of
        None \<Rightarrow> None
      | Some t \<Rightarrow>
          (case eval_libc_valid libc (d\<lparr>trace := t\<rparr>) of
             None \<Rightarrow> None
           | Some (valid, d) \<Rightarrow>
               (let st = stats_zero\<lparr>st_weight := weight t, st_ops := of_int (num_ops t), st_valid := valid\<rparr>
                in if valid = 0 then map_option (Cons st) (libc_tests libc fsecs ts d)
                   else (case fsecs d of
                           None \<Rightarrow> None
                         | Some (secs, d) \<Rightarrow> map_option (Cons (st\<lparr>st_secs := secs\<rparr>)) (libc_tests libc fsecs ts d)))))"

text \<open>Behind a run on the standard input the driver would read a closed file again.\<close>

definition libc_results :: "('p, 'q) world \<Rightarrow> config \<Rightarrow> stats_t list option" where
  "libc_results w cf =
     (if \<not> run_libc cf then Some []
      else if trace_from_stdin cf then None
      else libc_tests (libc_package w) (libc_timer w) (read_traces w cf) (libc_driver w))"

subsection \<open>The alarm\<close>

text \<open>
  The handler sets \<open>errors\<close> to 1 and jumps back to the loop of \<open>run_tests\<close>, which reads the trace again (\<open>again\<close>)
  and marks it and all later ones as invalid. What the interrupted round has stored besides stays.
\<close>

definition timed_out_stats :: "trace_t \<Rightarrow> stats_t" where
  "timed_out_stats t = stats_zero\<lparr>st_weight := weight t, st_ops := of_int (num_ops t)\<rparr>"

definition interrupted_stats :: "phase \<Rightarrow> stats_t \<Rightarrow> stats_t" where
  "interrupted_stats ph st =
     (case ph of Checking \<Rightarrow> st\<lparr>st_valid := 0, st_util := 0, st_secs := 0\<rparr>
      | Measuring \<Rightarrow> st\<lparr>st_valid := 0, st_secs := 0\<rparr>
      | Finished \<Rightarrow> st\<lparr>st_valid := 0\<rparr>)"

definition interrupted :: "'p mm_package \<Rightarrow> (nat \<Rightarrow> nat) \<Rightarrow> int \<Rightarrow> 'p timer \<Rightarrow> phase \<Rightarrow> trace_t \<Rightarrow> 'p driver \<Rightarrow> stats_t option" where
  "interrupted pkg rnd verbose fsecs ph t d =
     (if ph = Checking then Some (timed_out_stats t)
      else (case run_tests pkg rnd verbose False fsecs [Some t] d of
              None \<Rightarrow> None
            | Some (sts, d) \<Rightarrow> Some (interrupted_stats ph (hd sts))))"

definition all_some :: "'a option list \<Rightarrow> 'a list option" where
  "all_some xs = (if None \<in> set xs then None else Some (map the xs))"

definition run_with_alarm :: "'p mm_package \<Rightarrow> (nat \<Rightarrow> nat) \<Rightarrow> int \<Rightarrow> bool \<Rightarrow> 'p timer \<Rightarrow> (nat \<times> phase) option
    \<Rightarrow> trace_t option list \<Rightarrow> trace_t option list \<Rightarrow> 'p driver \<Rightarrow> (stats_t list \<times> 'p driver) option" where
  "run_with_alarm pkg rnd verbose onetime fsecs al ts again d =
     (case al of
        None \<Rightarrow> run_tests pkg rnd verbose onetime fsecs ts d
      | Some (k, ph) \<Rightarrow>
          if length ts \<le> k \<or> onetime \<and> 0 < k then run_tests pkg rnd verbose onetime fsecs ts d
          else (case (run_tests pkg rnd verbose onetime fsecs (take k ts) d, all_some (drop k again)) of
                  (Some (sts, d), Some (t # us)) \<Rightarrow>
                    (case interrupted pkg rnd verbose fsecs ph t d of
                       None \<Rightarrow> None
                     | Some st \<Rightarrow> Some (sts @ st # map timed_out_stats us, d\<lparr>errors := 1\<rparr>))
                | _ \<Rightarrow> None))"

subsection \<open>The tables and the performance index\<close>

text \<open>\<open>%.pf\<close> of \<open>printf\<close> rounds to the nearest decimal, halves to the even one.\<close>

definition round_even :: "rat \<Rightarrow> int" where
  "round_even r =
     (let f = \<lfloor>r\<rfloor>; x = r - of_int f
      in if x < 1 / 2 then f else if 1 / 2 < x then f + 1 else if even f then f else f + 1)"

definition pad :: "nat \<Rightarrow> string \<Rightarrow> string" where "pad w s = replicate (w - length s) SP @ s"

definition show_fixed :: "nat \<Rightarrow> rat \<Rightarrow> string" where
  "show_fixed p r =
     (let n = nat (round_even (\<bar>r\<bar> * 10 ^ p)); low = show_nat (n mod 10 ^ p);
          s = (if p = 0 then show_nat n
               else show_nat (n div 10 ^ p) @ ''.'' @ replicate (p - length low) (CHR ''0'') @ low)
      in if r < 0 then CHR ''-'' # s else s)"

definition show_quotient :: "rat \<Rightarrow> rat \<Rightarrow> string" where
  "show_quotient a b = (if b = 0 then (if a = 0 then ''-nan'' else ''inf'') else show_fixed 0 (a / b))"

definition result_row :: "string \<times> stats_t \<Rightarrow> string" where
  "result_row = (\<lambda>(name, st).
     pad 2 (if st_weight st \<noteq> 0 then ''*'' else []) @
     (if st_valid st \<noteq> 0
      then pad 4 ''yes'' @ SP # pad 5 (show_fixed 0 (st_util st * 100)) @ ''%'' @ pad 8 (show_fixed 0 (st_ops st)) @
        pad 10 (show_fixed 6 (st_secs st)) @ pad 9 (show_quotient (st_ops st / 1000) (st_secs st))
      else pad 4 ''no'' @ SP # pad 6 ''-'' @ pad 8 ''-'' @ pad 9 ''-'' @ pad 9 ''-'') @
     SP # name @ [NL])"

definition total_row :: "int \<Rightarrow> totals \<Rightarrow> string" where
  "total_row errs x =
     (if errs = 0
      then let sumweight = (if sum_weight x = 0 then 1 else sum_weight x)
        in pad 2 (show_int \<lfloor>sumweight\<rfloor>) @ ''     '' @ pad 5 (show_fixed 0 (sum_util x / sumweight * 100)) @ ''%'' @
           pad 8 (show_fixed 0 (sum_ops x)) @ pad 10 (show_fixed 6 (sum_secs x)) @
           pad 9 (if sum_secs x = 0 then ''0'' else show_fixed 0 (sum_ops x / 1000 / sum_secs x)) @ [NL]
      else ''       '' @ pad 8 ''-'' @ pad 10 ''-'' @ pad 6 ''-'' @ [NL])"

definition printresults :: "int \<Rightarrow> (string \<times> stats_t) list \<Rightarrow> string" where
  "printresults errs rows =
     ''  '' @ pad 6 ''valid'' @ pad 6 ''util'' @ SP # pad 5 ''ops'' @ pad 8 ''secs'' @ pad 12 ''Kops'' @ ''  trace'' @ [NL] @
     concat (map result_row rows) @ total_row errs (printed_totals (map snd rows))"

subsection \<open>The end of the run\<close>

record report =
  exit_code :: int
  libc_stats :: "stats_t list"
  mm_stats :: "stats_t list"
  error_count :: int
  tables :: string
  index_lines :: string
  autoresult :: string
  post_result :: "(outcome \<times> string) option"

text \<open>The program leaves before it has tested anything.\<close>

definition stopped :: "int \<Rightarrow> report" where
  "stopped c =
     \<lparr>exit_code = c, libc_stats = [], mm_stats = [], error_count = 0, tables = [], index_lines = [], autoresult = [], post_result = None\<rparr>"

definition trace_names :: "config \<Rightarrow> string list" where
  "trace_names cf =
     (if trace_from_stdin cf then replicate (num_tracefiles cf) ''stdin''
      else map (\<lambda>f. tracedir cf @ f) (case tracefiles cf of None \<Rightarrow> [] | Some fs \<Rightarrow> fs))"

definition libc_table :: "config \<Rightarrow> stats_t list \<Rightarrow> int \<Rightarrow> string" where
  "libc_table cf sts errs =
     (if run_libc cf \<and> verbose_level cf \<noteq> 0
      then NL # ''Results for libc malloc:'' @ NL # printresults errs (zip (trace_names cf) sts) else [])"

definition mm_table :: "config \<Rightarrow> stats_t list \<Rightarrow> int \<Rightarrow> string" where
  "mm_table cf sts errs =
     (if verbose_level cf = 0 then []
      else if onetime_flag cf \<and> \<not> trace_from_stdin cf
      then NL # NL # ''correctness check finished, by running tracefile '' @ char_of (34 :: nat) #
        (case tracefiles cf of None \<Rightarrow> [] | Some fs \<Rightarrow> fs ! (num_tracefiles cf - 1)) @ char_of (34 :: nat) # ''.'' @ [NL] @
        (if st_valid (sts ! (num_tracefiles cf - 1)) \<noteq> 0 then '' => correct.'' else '' => incorrect.'') @ [NL, NL]
      else NL # ''Results for mm malloc:'' @ NL # printresults errs (zip (trace_names cf) sts) @ [NL])"

definition show_index :: "config \<Rightarrow> totals \<Rightarrow> int \<Rightarrow> string" where
  "show_index cf x errs =
     (if errs = 0
      then ''Perf index = '' @ show_fixed 6 (util_points (avg_mm_util x) * 100) @ '' (util) + '' @
        show_fixed 6 (speed_points (avg_mm_throughput x) * 100) @ '' (thru) = '' @ show_fixed 6 (perfindex errs x) @ [NL]
      else ''Terminated with '' @ show_int errs @ '' errors'' @ [NL]) @
     (if autograder cf
      then ''correct:'' @ show_int (numcorrect x) @ NL # ''perfidx:'' @ show_fixed 0 (perfindex errs x) @ [NL]
      else [])"

text \<open>The throughput is computed only without errors; otherwise it is the 0 it was initialised with.\<close>

definition show_result :: "totals \<Rightarrow> int \<Rightarrow> string" where
  "show_result x errs =
     show_int (numcorrect x) @ '':'' @ show_fixed 0 (perfindex errs x) @ '':'' @
     show_fixed 0 ((if errs = 0 then avg_mm_throughput x else 0) / 1000) @ '':'' @ show_fixed 0 (avg_mm_util x * 100)"

definition finish :: "('p, 'q) world \<Rightarrow> config \<Rightarrow> stats_t list \<Rightarrow> string \<Rightarrow> stats_t list \<Rightarrow> int \<Rightarrow> report" where
  "finish w cf ls ltab sts errs =
     (let sts = sts @ replicate (num_tracefiles cf - length sts) stats_zero; x = accumulate sts; res = show_result x errs
      in \<lparr>exit_code = 0, libc_stats = ls, mm_stats = sts, error_count = errs, tables = ltab @ mm_table cf sts errs,
           index_lines = show_index cf x errs, autoresult = res,
           post_result = Some (driver_post (internet w) (socket_buffer w) (user_name w) res (autograder cf))\<rparr>)"

text \<open>The state in which \<open>run_tests\<close> starts: the random data are filled and the simulated memory is mapped.\<close>

definition start_driver :: "('p, 'q) world \<Rightarrow> config \<Rightarrow> 'p driver \<Rightarrow> 'p driver" where
  "start_driver w cf d =
     (let d = init_random_data (random_answers w) (d\<lparr>debug_mode := debug_of (debug_level cf)\<rparr>)
      in set_sys (mem_init (mmap_answer w) (sys d)) d)"

definition run_main :: "('p, 'q) world \<Rightarrow> 'p mm_package \<Rightarrow> config \<Rightarrow> 'p driver \<Rightarrow> report option" where
  "run_main w pkg cf d =
     (let al = (if init_timeout (set_timeout cf) = None then None else alarm w)
      in case libc_results w cf of
           None \<Rightarrow> None
         | Some ls \<Rightarrow>
             (let ltab = libc_table cf ls (errors d)
              in case run_with_alarm pkg (random_answers w) (verbose_level cf) (onetime_flag cf) (mm_timer w) al
                   (read_traces w cf) (read_again w cf) (start_driver w cf d) of
                   None \<Rightarrow> None
                 | Some (sts, d) \<Rightarrow> Some (finish w cf ls ltab sts (errors d))))"

definition driver_main :: "('p, 'q) world \<Rightarrow> 'p mm_package \<Rightarrow> string list \<Rightarrow> 'p driver \<Rightarrow> report option" where
  "driver_main w pkg args d =
     (case parse_options (getopt OPTIONS args) config0 of
        Undefined_Run \<Rightarrow> None
      | Exits c \<Rightarrow> Some (stopped c)
      | Run cf \<Rightarrow> run_main w pkg (default_files cf) d)"

end
