(* ===== verification/MDriver_Main_Correct.thy ===== *)
theory MDriver_Main_Correct
  imports MDriver_Main Malloc_Correct
begin

section \<open>The main routine of the malloc driver: properties\<close>

text \<open>
  Which traces the command line selects, that a correct allocator passes the whole program, and that a
  timeout ends the program with a result for every trace.
\<close>

subsection \<open>Lemmas on the options\<close>

lemma parse_options_append:
  "parse_options (os @ ps) cf =
    (case parse_options os cf of Run cf \<Rightarrow> parse_options ps cf | Exits c \<Rightarrow> Exits c | Undefined_Run \<Rightarrow> Undefined_Run)"
  by (induction os arbitrary: cf) (auto split: parsed.splits)

definition with_slash :: "string \<Rightarrow> string" where
  "with_slash dir = (if last dir \<noteq> CHR ''/'' then dir @ ''/'' else dir)"

definition file_args :: "(char \<times> string) list \<Rightarrow> string list" where
  "file_args os = map snd (filter (\<lambda>(c, a). c = CHR ''f'' \<or> c = CHR ''c'') os)"

definition dir_args :: "(char \<times> string) list \<Rightarrow> string list" where
  "dir_args os = map snd (filter (\<lambda>(c, a). c = CHR ''t'') os)"

definition uses :: "char \<Rightarrow> (char \<times> string) list \<Rightarrow> bool" where
  "uses c os \<longleftrightarrow> c \<in> fst ` set os"

lemma args_simps [simp]:
  "file_args [] = []" "dir_args [] = []" "\<not> uses c []"
  "file_args (os @ [(c, a)]) = (if c = CHR ''f'' \<or> c = CHR ''c'' then file_args os @ [a] else file_args os)"
  "dir_args (os @ [(c, a)]) = (if c = CHR ''t'' then dir_args os @ [a] else dir_args os)"
  "uses c (os @ [(e, a)]) \<longleftrightarrow> uses c os \<or> e = c"
  by (auto simp: file_args_def dir_args_def uses_def)

text \<open>The directory always fits its buffer and ends with a slash.\<close>

definition dir_ok :: "string \<Rightarrow> bool" where
  "dir_ok dir \<longleftrightarrow> dir \<noteq> [] \<and> last dir = CHR ''/'' \<and> length dir < MAXLINE"

definition choice_ok :: "(char \<times> string) list \<Rightarrow> config \<Rightarrow> bool" where
  "choice_ok os cf \<longleftrightarrow>
     onetime_flag cf = uses CHR ''c'' os \<and> trace_from_stdin cf = uses CHR ''j'' os \<and> \<not> uses CHR ''h'' os \<and> dir_ok (tracedir cf) \<and>
     (if file_args os \<noteq> [] then num_tracefiles cf = 1 \<and> tracefiles cf = Some [last (file_args os)] \<and> tracedir cf = ''./''
      else tracefiles cf = None \<and> num_tracefiles cf = (if uses CHR ''j'' os then 1 else 0) \<and>
        (\<not> uses CHR ''j'' os \<longrightarrow> tracedir cf = with_slash (last (TRACEDIR # dir_args os))))"

lemma file_args_c: "uses CHR ''c'' os \<Longrightarrow> file_args os \<noteq> []"
  by (force simp: uses_def file_args_def filter_empty_conv)

lemma choice_ok_other:
  assumes "choice_ok os cf" "c \<notin> {CHR ''f'', CHR ''c'', CHR ''t'', CHR ''j'', CHR ''h''}"
    "onetime_flag cf' = onetime_flag cf" "trace_from_stdin cf' = trace_from_stdin cf" "tracedir cf' = tracedir cf"
    "num_tracefiles cf' = num_tracefiles cf" "tracefiles cf' = tracefiles cf"
  shows "choice_ok (os @ [(c, a)]) cf'"
  using assms unfolding choice_ok_def args_simps by simp

lemma option_cases:
  assumes "apply_option (c, a) cf = Run cf'"
  obtains (f) "c = CHR ''f''" "cf' = set_tracefile a cf"
    | (o) "c = CHR ''c''" "cf' = set_tracefile a (cf\<lparr>onetime_flag := True\<rparr>)"
    | (t) "c = CHR ''t''" "set_tracedir a cf = Run cf'"
    | (j) "c = CHR ''j''" "cf' = cf\<lparr>num_tracefiles := 1, trace_from_stdin := True\<rparr>"
    | (other) "c \<notin> {CHR ''f'', CHR ''c'', CHR ''t'', CHR ''j'', CHR ''h''}"
        "onetime_flag cf' = onetime_flag cf" "trace_from_stdin cf' = trace_from_stdin cf" "tracedir cf' = tracedir cf"
        "num_tracefiles cf' = num_tracefiles cf" "tracefiles cf' = tracefiles cf"
proof -
  consider "c = CHR ''f''" | "c = CHR ''c''" | "c = CHR ''t''" | "c = CHR ''j''" | "c = CHR ''h''"
    | "c \<notin> {CHR ''f'', CHR ''c'', CHR ''t'', CHR ''j'', CHR ''h''}" by blast
  then show thesis
  proof cases
    case 6
    show thesis
      by (rule other [OF 6]) (use assms 6 in \<open>auto simp: apply_option_def with_int_def split: if_splits option.splits\<close>)
  qed (use assms f o t j in \<open>simp_all add: apply_option_def\<close>)
qed

lemma choice_ok_step:
  assumes "choice_ok os cf" "apply_option (c, a) cf = Run cf'"
  shows "choice_ok (os @ [(c, a)]) cf'"
  using assms(2)
proof (cases rule: option_cases)
  case t
  then show ?thesis
    using assms(1) unfolding choice_ok_def t(1) args_simps
    by (auto simp: set_tracedir_def with_slash_def dir_ok_def Let_def split: if_splits)
qed (use assms(1) file_args_c [of os] in
  \<open>simp_all add: choice_ok_def set_tracefile_def dir_ok_def MAXLINE_def\<close>)

lemma choice_ok_parsed: "parse_options os config0 = Run cf \<Longrightarrow> choice_ok os cf"
proof (induction os arbitrary: cf rule: rev_induct)
  case Nil
  then show ?case by (auto simp: choice_ok_def config0_def dir_ok_def MAXLINE_def TRACEDIR_def with_slash_def)
next
  case (snoc oa os)
  then show ?case
    by (cases oa) (auto simp: parse_options_append split: parsed.splits intro: choice_ok_step)
qed

lemma onetime_single:
  assumes "parse_options os config0 = Run cf" "onetime_flag cf"
  shows "num_tracefiles (default_files cf) = 1"
  using choice_ok_parsed [OF assms(1)] assms(2) file_args_c [of os] by (auto simp: choice_ok_def default_files_def)

subsection \<open>Lemmas on the run\<close>

lemma init_random_data_errors [simp]: "errors (init_random_data rnd d) = errors d"
proof -
  have "errors (for_range 0 n (\<lambda>len d. let (r, d) = random rnd d in d\<lparr>random_data := (random_data d)(len := of_nat r)\<rparr>) d) = errors d" for n
    by (induction n) (simp_all add: for_range_def random_def)
  then show ?thesis by (simp add: init_random_data_def)
qed

lemma default_files_flags [simp]:
  "onetime_flag (default_files cf) = onetime_flag cf" "run_libc (default_files cf) = run_libc cf"
  "trace_from_stdin (default_files cf) = trace_from_stdin cf" "set_timeout (default_files cf) = set_timeout cf" "autograder (default_files cf) = autograder cf"
  by (simp_all add: default_files_def)

lemma length_read_traces [simp]: "length (read_traces w cf) = num_tracefiles cf"
  by (simp add: read_traces_def)

lemma numcorrect_accumulate:
  "numcorrect (accumulate sts) = int (length (filter (\<lambda>st. st_valid st \<noteq> 0) sts))"
proof -
  have "numcorrect (fold add_stats sts x) = numcorrect x + int (length (filter (\<lambda>st. st_valid st \<noteq> 0) sts))" for x
    by (induction sts arbitrary: x) (simp_all add: add_stats_def)
  then show ?thesis by (simp add: accumulate_def)
qed

lemma finish_fields [simp]:
  "exit_code (finish w cf ls tab sts e) = 0" "error_count (finish w cf ls tab sts e) = e"
  "mm_stats (finish w cf ls tab sts e) = sts @ replicate (num_tracefiles cf - length sts) stats_zero"
  by (simp_all add: finish_def Let_def)

lemma finish_result:
  assumes "length sts = num_tracefiles cf"
  shows "autoresult (finish w cf ls tab sts e) = show_result (accumulate sts) e"
    "post_result (finish w cf ls tab sts e) =
      Some (driver_post (internet w) (socket_buffer w) (user_name w) (show_result (accumulate sts) e) (autograder cf))"
  using assms by (simp_all add: finish_def Let_def)



lemma start_driver_errors [simp]: "errors (start_driver w cf d) = errors d"
  by (simp add: start_driver_def Let_def set_sys_def)

lemma length_run_tests:
  "run_tests pkg rnd v False fsecs ts d = Some (sts, d') \<Longrightarrow> length sts = length ts"
  by (induction ts arbitrary: d sts d') (auto simp: Let_def split: option.splits prod.splits if_splits)

lemma all_some_map [simp]: "all_some (map Some ts) = Some ts"
  by (auto simp: all_some_def comp_def)

lemma alarm_reports:
  assumes "run_tests pkg rnd v onetime fsecs (map Some us) d = Some (sts, d')" "onetime \<longrightarrow> us = []"
  shows "run_with_alarm pkg rnd v onetime fsecs (Some (length us, Checking)) (map Some (us @ t # vs)) (map Some (us @ t # vs)) d =
    Some (sts @ map timed_out_stats (t # vs), d'\<lparr>errors := 1\<rparr>)"
proof -
  have "all_some (drop (length us) (map Some (us @ t # vs))) = Some (t # vs)"
    using all_some_map [of "t # vs"] by simp
  then show ?thesis using assms by (cases onetime) (simp_all add: run_with_alarm_def interrupted_def)
qed

lemma timed_out_invalid [simp]: "st_valid (timed_out_stats t) = 0"
  by (simp add: timed_out_stats_def stats_zero_def)

lemma round_even_int [simp]: "round_even (of_int i) = i"
  by (simp add: round_even_def)

lemma show_fixed_zero: "show_fixed 0 0 = ''0''"
  using round_even_int [of 0] by (simp add: show_fixed_def show_nat.simps [of 0] char_of_def bit_0)

text \<open>The surroundings of the witnesses: one trace file, no C library run, a clock that always shows two seconds.\<close>

definition demo_world :: "(nat \<times> phase) option \<Rightarrow> (unit, unit) world" where
  "demo_world al =
     \<lparr>fopen_file = (\<lambda>f. if f = ''./demo'' then Some (show_trace demo_trace) else None), stdin_text = [], malloc_junk = 0,
       random_answers = (\<lambda>k. 7 * k), mmap_answer = 0x800000000, mm_timer = (\<lambda>d. Some (2, d)), alarm = al,
       libc_package = naive_package, libc_timer = (\<lambda>d. Some (1, d)), libc_driver = demo_driver,
       internet = \<lparr>n_socket = -1, n_resolves = (\<lambda>_. False), n_connects = (\<lambda>_ _. False), n_writes = [], n_reads = ([], False), n_junk = []\<rparr>,
       socket_buffer = \<lparr>rio_cnt = 0, rio_bufptr = 0, rio_buf = []\<rparr>, user_name = ''bovik''\<rparr>"

definition demo_args :: "string list" where
  "demo_args = [''-DAs'', ''5'', ''-c'', ''demo'', ''-t'', ''/tmp'']"

definition demo_config :: config where
  "demo_config = config0\<lparr>debug_level := 2, autograder := True, set_timeout := 5, onetime_flag := True, num_tracefiles := 1,
      tracedir := ''./'', tracefiles := Some [''demo'']\<rparr>"

lemma demo_options:
  "parse_options (getopt OPTIONS demo_args) config0 = Run demo_config"
  by code_simp

definition demo_read :: trace_t where
  "demo_read = demo_trace\<lparr>filename := ''./demo''\<rparr>"


lemma demo_read_traces:
  "read_traces (demo_world al) (default_files demo_config) = map Some [demo_read]"
proof -
  have "printable 0 demo_trace" by (simp add: printable_def demo_trace_def op_printable_def top_index_def)
  then have "read_from 0 ''./demo'' (show_trace demo_trace) = Some demo_read"
    by (simp add: read_from_show demo_read_def) (simp add: demo_trace_def)
  then show ?thesis
    by (simp add: read_traces_def default_files_def open_tracefile_def read_trace_def demo_world_def demo_config_def config0_def MAXLINE_def)
qed

lemma demo_libc:
  "libc_results (demo_world al) (default_files demo_config) = Some []"
  by (simp add: libc_results_def config0_def demo_config_def)


subsection \<open>Properties\<close>

text \<open>C11: the traces that the options select. Without -h the last file of -f or -c is the only trace, relative to
  the current directory, wherever -t stands; without a file, the default traces are taken from the directory
  of the last -t, which always ends with a slash; -j asks for the standard input, and only -c runs once.\<close>

theorem options_select_traces:
  assumes "parse_options os config0 = Run cf"
  shows "onetime_flag cf = uses CHR ''c'' os \<and> trace_from_stdin cf = uses CHR ''j'' os \<and> \<not> uses CHR ''h'' os \<and>
    (file_args os \<noteq> [] \<longrightarrow> tracefiles (default_files cf) = Some [last (file_args os)] \<and> num_tracefiles (default_files cf) = 1 \<and>
      tracedir cf = ''./'') \<and>
    (file_args os = [] \<and> \<not> uses CHR ''j'' os \<longrightarrow> tracefiles (default_files cf) = Some DEFAULT_TRACEFILES \<and>
      num_tracefiles (default_files cf) = length DEFAULT_TRACEFILES \<and> tracedir cf = with_slash (last (TRACEDIR # dir_args os))) \<and>
    tracedir cf \<noteq> [] \<and> last (tracedir cf) = CHR ''/'' \<and> length (tracedir cf) < MAXLINE"
  using choice_ok_parsed [OF assms] by (auto simp: choice_ok_def default_files_def dir_ok_def)

theorem options_select_traces_witness:
  "\<exists>cf. parse_options (getopt OPTIONS demo_args) config0 = Run cf \<and>
    tracefiles (default_files cf) = Some [''demo''] \<and> tracedir cf = ''./''"
proof -
  have f: "file_args (getopt OPTIONS demo_args) = [''demo'']" by code_simp
  from options_select_traces [OF demo_options] show ?thesis unfolding f using demo_options by auto
qed



text \<open>Reading the standard input a second time is undefined: after an alarm, and behind a run of the C library's allocator.\<close>

lemma stdin_read_once:
  assumes "parse_options (getopt OPTIONS args) config0 = Run cf" "trace_from_stdin cf"
    and "run_libc cf \<or> set_timeout cf \<noteq> 0 \<and> alarm w = Some (0, Checking)"
  shows "driver_main w pkg args d = None"
proof (cases "run_libc cf")
  case False
  have n: "num_tracefiles (default_files cf) = 1"
    using choice_ok_parsed [OF assms(1)] assms(2) by (auto simp: choice_ok_def default_files_def split: if_splits)
  obtain x where "read_traces w (default_files cf) = [x]"
    by (cases "read_traces w (default_files cf)") (use n length_read_traces [of w "default_files cf"] in auto)
  then show ?thesis
    using False assms by (simp add: driver_main_def run_main_def libc_results_def init_timeout_def Let_def
        run_with_alarm_def read_again_def all_some_def)
qed (use assms in \<open>simp add: driver_main_def run_main_def libc_results_def\<close>)

text \<open>C10: a timeout ends the program. Whatever the allocator does on a trace, even if it never returns, when the alarm
  rings there \<open>main\<close> exits with 0 and one error, the results of the traces before stay, this trace and all
  later ones count as wrong, and the index and the throughput that are posted are 0.\<close>

theorem main_survives_timeout:
  assumes opts: "parse_options (getopt OPTIONS args) config0 = Run cf" "libc_results w (default_files cf) = Some ls"
    and al: "set_timeout cf \<noteq> 0" "alarm w = Some (length us, Checking)"
    and ts: "read_traces w (default_files cf) = map Some (us @ t # vs)" "\<not> trace_from_stdin cf"
    and before: "run_tests pkg (random_answers w) (verbose_level cf) False (mm_timer w) (map Some us)
      (start_driver w (default_files cf) d) = Some (sts, d')"
  shows "\<exists>r. driver_main w pkg args d = Some r \<and> exit_code r = 0 \<and> error_count r = 1 \<and>
    mm_stats r = sts @ map timed_out_stats (t # vs) \<and>
    autoresult r = show_int (int (length (filter (\<lambda>st. st_valid st \<noteq> 0) sts))) @ '':0:0:'' @
      show_fixed 0 (avg_mm_util (accumulate (mm_stats r)) * 100)"
proof -
  let ?cf = "default_files cf" and ?sts = "sts @ map timed_out_stats (t # vs)"
  have n: "num_tracefiles ?cf = Suc (length us + length vs)" using length_read_traces [of w ?cf] ts(1) by simp
  then have one: "onetime_flag ?cf \<longrightarrow> us = []" using onetime_single [OF opts(1)] by auto
  have v: "verbose_level ?cf = verbose_level cf" by (simp add: default_files_def)
  have "run_tests pkg (random_answers w) (verbose_level cf) (onetime_flag ?cf) (mm_timer w) (map Some us)
      (start_driver w ?cf d) = Some (sts, d')" using before one by (cases "onetime_flag ?cf") auto
  note a = alarm_reports [OF this one, of t vs]
  have m: "driver_main w pkg args d = Some (finish w ?cf ls (libc_table ?cf ls (errors d)) ?sts 1)"
    using opts al a by (simp add: driver_main_def run_main_def Let_def init_timeout_def read_again_def ts v)
  have l: "length ?sts = num_tracefiles ?cf" using length_run_tests [OF before] n by simp
  have "numcorrect (accumulate ?sts) = int (length (filter (\<lambda>st. st_valid st \<noteq> 0) sts))"
    unfolding numcorrect_accumulate by simp
  then show ?thesis
    using m l by (simp add: finish_result show_result_def perfindex_def show_fixed_zero del: append_assoc map_append list.map)
qed

theorem main_survives_timeout_witness:
  "\<exists>r. driver_main (demo_world (Some (0, Checking))) (naive_package\<lparr>mm_malloc := \<lambda>n s. None\<rparr>) demo_args demo_driver = Some r \<and>
    exit_code r = 0 \<and> (\<exists>rest. autoresult r = ''0:0:0:'' @ rest)"
proof -
  let ?w = "demo_world (Some (0, Checking))"
  have zero: "show_int (int (length (filter (\<lambda>st. st_valid st \<noteq> 0) ([] :: stats_t list)))) = ''0''"
    by (simp add: show_int_def show_nat.simps char_of_def bit_0)
  have a: "set_timeout demo_config \<noteq> 0" "alarm ?w = Some (length ([] :: trace_t list), Checking)"
    by (simp_all add: demo_config_def demo_world_def)
  have ts: "read_traces ?w (default_files demo_config) = map Some ([] @ demo_read # [])"
    unfolding demo_read_traces by simp
  have b: "run_tests (naive_package\<lparr>mm_malloc := \<lambda>n s. None\<rparr>) (random_answers ?w) (verbose_level demo_config) False (mm_timer ?w) (map Some [])
      (start_driver ?w (default_files demo_config) demo_driver) =
    Some ([], start_driver ?w (default_files demo_config) demo_driver)" by simp
  from main_survives_timeout [OF demo_options demo_libc a ts _ b] show ?thesis unfolding zero by (auto simp: demo_config_def config0_def)
qed

end
