(* ===== verification/Coroutine.thy ===== *)
theory Coroutine
  imports C_Prelude
begin

section \<open>The coroutine library (practice-1/coroutine/coroutine.c)\<close>

text \<open>
  The scheduler of user-level routines. A pointer to a routine is its index in the list \<open>cinfo\<close>, a
  pointer to the information of a thread its index in \<open>tinfo\<close>; a routine is never removed. What a
  client runs is a value of \<open>proc\<close>: a routine that returns, or that calls an operation of the library
  and goes on with its answer. A saved context is the rest of the routine. \<open>None\<close> is undefined
  behaviour: a read outside an array or of a slot never written, a null pointer, a failed assertion,
  a context whose stack was freed. What a lock protects is one step; the ucontext calls succeed.
\<close>

subsection \<open>The array list\<close>

record 'a co_array =
  len :: nat
  cap :: nat
  data :: "'a option list"

definition co_array_create :: "'a co_array" where
  "co_array_create = \<lparr>len = 0, cap = 1, data = [None]\<rparr>"

definition co_array_add :: "'a co_array \<Rightarrow> 'a \<Rightarrow> 'a co_array" where
  "co_array_add arr value =
     (let arr = (if len arr = cap arr
                 then (let newcap = cap arr * 2
                       in arr\<lparr>cap := newcap, data := map (\<lambda>i. if i < len arr then data arr ! i else None) [0..<newcap]\<rparr>)
                 else arr)
      in arr\<lparr>data := (data arr)[len arr := Some value], len := len arr + 1\<rparr>)"

definition co_array_get :: "'a co_array \<Rightarrow> nat \<Rightarrow> 'a option" where
  "co_array_get arr idx = (if idx < length (data arr) then data arr ! idx else None)"

text \<open>A write through the pointer in slot \<open>idx\<close>.\<close>

definition co_array_upd :: "nat \<Rightarrow> ('a \<Rightarrow> 'a) \<Rightarrow> 'a co_array \<Rightarrow> 'a co_array" where
  "co_array_upd idx f arr = arr\<lparr>data := (data arr)[idx := map_option f (data arr ! idx)]\<rparr>"

subsection \<open>Routines, threads and the scheduler\<close>

datatype proc =
    Return int
  | Start proc "int \<Rightarrow> proc"
  | Yield "int \<Rightarrow> proc"
  | GetId "int \<Rightarrow> proc"
  | GetRet int "int \<Rightarrow> proc"
  | Status int "int \<Rightarrow> proc"
  | Wait int "int \<Rightarrow> proc"
  | WaitAll "int \<Rightarrow> proc"

definition UNAUTHORIZED :: int where "UNAUTHORIZED = -1"
definition FINISHED :: int where "FINISHED = 2"
definition RUNNING :: int where "RUNNING = 1"

record co_meta =
  mtid :: nat
  running :: "nat option"
  main_uc :: proc

record co_struct =
  cid :: int
  tid :: nat
  parent :: "nat option"
  stack :: bool
  uc :: proc
  uc_link :: "nat option"
  status :: int
  ret :: int

record co_scheduler =
  tinfo :: "co_meta co_array"
  cinfo :: "co_struct co_array"

datatype sched_ptr = Null | Live co_scheduler | Freed

text \<open>For every thread, the routine that executes (\<open>None\<close> the main routine) and its code.\<close>

record co_state =
  co_sched :: sched_ptr
  cpu :: "nat \<Rightarrow> nat option \<times> proc"

definition co_scheduler_init :: "sched_ptr \<Rightarrow> sched_ptr" where
  "co_scheduler_init p = (case p of Null \<Rightarrow> Live \<lparr>tinfo = co_array_create, cinfo = co_array_create\<rparr> | _ \<Rightarrow> p)"

definition co_scheduler_destroy :: "sched_ptr \<Rightarrow> sched_ptr option" where
  "co_scheduler_destroy p = (case p of Null \<Rightarrow> Some Null | Live _ \<Rightarrow> Some Freed | Freed \<Rightarrow> None)"

definition co_deref :: "sched_ptr \<Rightarrow> co_scheduler option" where
  "co_deref p = (case p of Live sc \<Rightarrow> Some sc | _ \<Rightarrow> None)"

definition co_getmeta :: "nat \<Rightarrow> co_scheduler \<Rightarrow> nat option" where
  "co_getmeta t sc =
     find (\<lambda>i. case co_array_get (tinfo sc) i of Some cur \<Rightarrow> mtid cur = t | None \<Rightarrow> False) [0..<len (tinfo sc)]"

definition meta_at :: "nat \<Rightarrow> co_scheduler \<Rightarrow> co_meta option" where
  "meta_at t sc = (case co_getmeta t sc of None \<Rightarrow> None | Some m \<Rightarrow> co_array_get (tinfo sc) m)"

definition set_running :: "nat \<Rightarrow> nat option \<Rightarrow> co_scheduler \<Rightarrow> co_scheduler" where
  "set_running m r sc = sc\<lparr>tinfo := co_array_upd m (running_update (\<lambda>_. r)) (tinfo sc)\<rparr>"

subsection \<open>Contexts\<close>

text \<open>\<open>None\<close> as a context pointer is the context of the main routine of the thread \<open>m\<close>.\<close>

definition save_uc :: "nat \<Rightarrow> nat option \<Rightarrow> proc \<Rightarrow> co_scheduler \<Rightarrow> co_scheduler" where
  "save_uc m ucp p sc =
     (case ucp of
        None \<Rightarrow> sc\<lparr>tinfo := co_array_upd m (main_uc_update (\<lambda>_. p)) (tinfo sc)\<rparr>
      | Some c \<Rightarrow> sc\<lparr>cinfo := co_array_upd c (uc_update (\<lambda>_. p)) (cinfo sc)\<rparr>)"

definition load_uc :: "nat \<Rightarrow> nat option \<Rightarrow> co_scheduler \<Rightarrow> (nat option \<times> proc) option" where
  "load_uc m ucp sc =
     (case ucp of
        None \<Rightarrow> map_option (\<lambda>meta. (None, main_uc meta)) (co_array_get (tinfo sc) m)
      | Some c \<Rightarrow> (case co_array_get (cinfo sc) c of
                     None \<Rightarrow> None
                   | Some co \<Rightarrow> if stack co then Some (Some c, uc co) else None))"

text \<open>\<open>swapcontext\<close>: save the rest \<open>p\<close> of the executing code in one context and go on with another.\<close>

definition swapcontext :: "nat \<Rightarrow> nat \<Rightarrow> nat option \<Rightarrow> proc \<Rightarrow> nat option \<Rightarrow> co_scheduler \<Rightarrow> co_state \<Rightarrow> co_state option" where
  "swapcontext t m oucp p ucp sc s =
     (let sc = save_uc m oucp p sc
      in map_option (\<lambda>x. s\<lparr>co_sched := Live sc, cpu := (cpu s)(t := x)\<rparr>) (load_uc m ucp sc))"

subsection \<open>The operations\<close>

definition co_getid :: "nat \<Rightarrow> co_state \<Rightarrow> int option" where
  "co_getid t s =
     (case co_deref (co_sched s) of
        None \<Rightarrow> None
      | Some sc \<Rightarrow>
          (case meta_at t sc of
             None \<Rightarrow> None
           | Some meta \<Rightarrow>
               (case running meta of
                  None \<Rightarrow> Some (-1)
                | Some c \<Rightarrow> map_option cid (co_array_get (cinfo sc) c))))"

text \<open>The end of \<open>co_func_wrapper\<close>: the routine \<open>c\<close> has returned \<open>v\<close> and the context \<open>uc_link\<close> is resumed.\<close>

definition co_func_wrapper :: "nat \<Rightarrow> nat \<Rightarrow> int \<Rightarrow> co_state \<Rightarrow> co_state option" where
  "co_func_wrapper t c v s =
     (case co_deref (co_sched s) of
        None \<Rightarrow> None
      | Some sc \<Rightarrow>
          (case (co_array_get (cinfo sc) c, co_getmeta t sc) of
             (Some coro, Some m) \<Rightarrow>
               (let sc = sc\<lparr>cinfo := co_array_upd c (\<lambda>co. co\<lparr>status := FINISHED, ret := v, stack := False\<rparr>) (cinfo sc)\<rparr>;
                    sc = set_running m (parent coro) sc
                in map_option (\<lambda>x. s\<lparr>co_sched := Live sc, cpu := (cpu s)(t := x)\<rparr>) (load_uc m (uc_link coro) sc))
           | _ \<Rightarrow> None))"

definition co_start :: "nat \<Rightarrow> proc \<Rightarrow> (int \<Rightarrow> proc) \<Rightarrow> co_state \<Rightarrow> co_state option" where
  "co_start t routine k s =
     (case co_deref (co_scheduler_init (co_sched s)) of
        None \<Rightarrow> None
      | Some sc \<Rightarrow>
          (let c = len (cinfo sc);
               new_struct = \<lparr>cid = int c, tid = t, parent = None, stack = False, uc = routine, uc_link = None,
                             status = RUNNING, ret = -1\<rparr>;
               sc = sc\<lparr>cinfo := co_array_add (cinfo sc) new_struct\<rparr>;
               (m, sc) = (case co_getmeta t sc of
                            Some m \<Rightarrow> (m, sc)
                          | None \<Rightarrow> (len (tinfo sc),
                                     sc\<lparr>tinfo := co_array_add (tinfo sc) \<lparr>mtid = t, running = None, main_uc = k (int c)\<rparr>\<rparr>))
           in (case co_array_get (tinfo sc) m of
                 None \<Rightarrow> None
               | Some meta \<Rightarrow>
                   (let link = running meta;
                        sc = sc\<lparr>cinfo := co_array_upd c (\<lambda>co. co\<lparr>parent := link, uc_link := link, stack := True\<rparr>) (cinfo sc)\<rparr>;
                        sc = set_running m (Some c) sc
                    in swapcontext t m link (k (int c)) (Some c) sc s))))"

text \<open>The search for a routine of the thread that still runs, from \<open>lower_bound\<close> upwards.\<close>

definition next_runnable :: "nat \<Rightarrow> nat \<Rightarrow> co_scheduler \<Rightarrow> nat option" where
  "next_runnable t lower_bound sc =
     find (\<lambda>i. case co_array_get (cinfo sc) i of Some tmp \<Rightarrow> tid tmp = t \<and> status tmp = RUNNING | None \<Rightarrow> False)
       [lower_bound..<len (cinfo sc)]"

text \<open>\<open>rest\<close> is what the caller does when it is resumed.\<close>

definition co_yield :: "nat \<Rightarrow> proc \<Rightarrow> co_state \<Rightarrow> co_state option" where
  "co_yield t rest s =
     (case co_deref (co_scheduler_init (co_sched s)) of
        None \<Rightarrow> None
      | Some sc \<Rightarrow>
          (case co_getmeta t sc of
             None \<Rightarrow> Some (s\<lparr>co_sched := Live sc, cpu := (cpu s)(t := (fst (cpu s t), rest))\<rparr>)
           | Some m \<Rightarrow>
               (case co_array_get (tinfo sc) m of
                  None \<Rightarrow> None
                | Some meta \<Rightarrow>
                    (let suspend_ucp = running meta;
                         lower_bound = (case running meta of
                                          Some c \<Rightarrow> map_option (\<lambda>co. nat (cid co) + 1) (co_array_get (cinfo sc) c)
                                        | None \<Rightarrow> Some 0)
                     in (case lower_bound of
                           None \<Rightarrow> None
                         | Some lo \<Rightarrow>
                             (let resume_ucp = next_runnable t lo sc;
                                  sc = set_running m resume_ucp sc
                              in if suspend_ucp \<noteq> resume_ucp
                                 then swapcontext t m suspend_ucp rest resume_ucp sc s
                                 else Some (s\<lparr>co_sched := Live sc, cpu := (cpu s)(t := (fst (cpu s t), rest))\<rparr>)))))))"

text \<open>One turn of the loops of \<open>co_getret\<close> and \<open>co_wait\<close>: go on with the answer, or yield and try again.\<close>

definition co_await :: "nat \<Rightarrow> int \<Rightarrow> (co_struct \<Rightarrow> proc) \<Rightarrow> proc \<Rightarrow> co_state \<Rightarrow> co_state option" where
  "co_await t c k again s =
     (case co_deref (co_scheduler_init (co_sched s)) of
        None \<Rightarrow> None
      | Some sc \<Rightarrow>
          (if c < 0 then None
           else (case co_array_get (cinfo sc) (nat c) of
                   None \<Rightarrow> None
                 | Some qcoro \<Rightarrow>
                     if status qcoro = FINISHED
                     then Some (s\<lparr>co_sched := Live sc, cpu := (cpu s)(t := (fst (cpu s t), k qcoro))\<rparr>)
                     else co_yield t again (s\<lparr>co_sched := Live sc\<rparr>))))"

definition co_getret :: "nat \<Rightarrow> int \<Rightarrow> (int \<Rightarrow> proc) \<Rightarrow> co_state \<Rightarrow> co_state option" where
  "co_getret t c k = co_await t c (\<lambda>qcoro. k (ret qcoro)) (GetRet c k)"

definition co_wait :: "nat \<Rightarrow> int \<Rightarrow> (int \<Rightarrow> proc) \<Rightarrow> co_state \<Rightarrow> co_state option" where
  "co_wait t c k = co_await t c (\<lambda>_. k 0) (Wait c k)"

definition co_waitall :: "nat \<Rightarrow> (int \<Rightarrow> proc) \<Rightarrow> co_state \<Rightarrow> co_state option" where
  "co_waitall t k s =
     (case co_deref (co_scheduler_init (co_sched s)) of
        None \<Rightarrow> None
      | Some sc \<Rightarrow>
          (if \<forall>i \<in> set [0..<len (cinfo sc)]. case co_array_get (cinfo sc) i of Some tmp \<Rightarrow> status tmp = FINISHED | None \<Rightarrow> False
           then Some (s\<lparr>co_sched := Live sc, cpu := (cpu s)(t := (fst (cpu s t), k 0))\<rparr>)
           else co_yield t (WaitAll k) (s\<lparr>co_sched := Live sc\<rparr>)))"

text \<open>Walking from a routine to its ancestors; at most as many steps as there are routines are needed.\<close>

primrec has_ancestor :: "nat \<Rightarrow> nat option \<Rightarrow> nat \<Rightarrow> co_scheduler \<Rightarrow> bool option" where
  "has_ancestor 0 coro r sc = None"
| "has_ancestor (Suc n) coro r sc =
     (case coro of
        None \<Rightarrow> Some False
      | Some c \<Rightarrow> if c = r then Some True
                  else (case co_array_get (cinfo sc) c of None \<Rightarrow> None | Some co \<Rightarrow> has_ancestor n (parent co) r sc))"

definition co_status :: "nat \<Rightarrow> int \<Rightarrow> co_scheduler \<Rightarrow> int option" where
  "co_status t c sc =
     (if c < 0 \<or> int (len (cinfo sc)) < c then Some UNAUTHORIZED
      else (case co_array_get (cinfo sc) (nat c) of
              None \<Rightarrow> None
            | Some qcoro \<Rightarrow>
                (case meta_at t sc of
                   Some meta \<Rightarrow>
                     if tid qcoro = t
                     then (case running meta of
                             None \<Rightarrow> Some (status qcoro)
                           | Some r \<Rightarrow>
                               map_option (\<lambda>b. if b then status qcoro else UNAUTHORIZED)
                                 (has_ancestor (len (cinfo sc) + 1) (Some (nat c)) r sc))
                     else Some UNAUTHORIZED
                 | None \<Rightarrow> Some UNAUTHORIZED)))"

subsection \<open>Execution\<close>

definition answer :: "nat \<Rightarrow> (int \<Rightarrow> proc) \<Rightarrow> co_state \<Rightarrow> int \<Rightarrow> co_state" where
  "answer t k s r = s\<lparr>cpu := (cpu s)(t := (fst (cpu s t), k r))\<rparr>"

text \<open>What a thread does next. A main routine that has returned does nothing any more.\<close>

definition co_exec :: "nat \<Rightarrow> co_state \<Rightarrow> co_state option" where
  "co_exec t s =
     (case snd (cpu s t) of
        Return v \<Rightarrow> (case fst (cpu s t) of None \<Rightarrow> Some s | Some c \<Rightarrow> co_func_wrapper t c v s)
      | Start routine k \<Rightarrow> co_start t routine k s
      | Yield k \<Rightarrow> co_yield t (k 0) s
      | GetId k \<Rightarrow> map_option (answer t k s) (co_getid t s)
      | GetRet c k \<Rightarrow> co_getret t c k s
      | Status c k \<Rightarrow>
          (case co_deref (co_scheduler_init (co_sched s)) of
             None \<Rightarrow> None
           | Some sc \<Rightarrow> map_option (answer t k (s\<lparr>co_sched := Live sc\<rparr>)) (co_status t c sc))
      | Wait c k \<Rightarrow> co_wait t c k s
      | WaitAll k \<Rightarrow> co_waitall t k s)"

inductive co_step :: "co_state \<Rightarrow> co_state \<Rightarrow> bool" where
  exec: "co_exec t s = Some s' \<Longrightarrow> co_step s s'"

inductive_cases co_stepE: "co_step s s'"
inductive_simps co_step_simps: "co_step s s'"

definition co_initial :: "(nat \<Rightarrow> proc) \<Rightarrow> co_state" where
  "co_initial mains = \<lparr>co_sched = Null, cpu = (\<lambda>t. (None, mains t))\<rparr>"

inductive co_reachable :: "(nat \<Rightarrow> proc) \<Rightarrow> co_state \<Rightarrow> bool" for mains where
  start: "co_reachable mains (co_initial mains)"
| step: "co_reachable mains s \<Longrightarrow> co_step s s' \<Longrightarrow> co_reachable mains s'"

text \<open>A run of one thread, for evaluating examples: \<open>None\<close> when a step is undefined.\<close>

primrec co_run :: "nat \<Rightarrow> nat \<Rightarrow> co_state \<Rightarrow> co_state option" where
  "co_run 0 t s = Some s"
| "co_run (Suc n) t s = (case co_exec t s of None \<Rightarrow> None | Some s \<Rightarrow> co_run n t s)"

end
