(* ===== verification/Coroutine_Inv.thy ===== *)
theory Coroutine_Inv
  imports Coroutine
begin

section \<open>The invariant of the coroutine scheduler\<close>

text \<open>
  The array list behaves as a list (locale \<open>growable\<close>, interpreted on the code's array). Over the two
  lists of the scheduler, \<open>co_wf\<close> says that the routine a thread is recorded to run is the one that
  executes, that parents are older routines of the same thread, and that exactly the routines that
  run own a stack. Every operation of every thread keeps it.
\<close>

subsection \<open>The contract of the array list\<close>

lemma find_upt_Some:
  "find P [lo..<n] = Some i \<longleftrightarrow> lo \<le> i \<and> i < n \<and> P i \<and> (\<forall>j. lo \<le> j \<and> j < i \<longrightarrow> \<not> P j)"
proof (induction "n - lo" arbitrary: lo)
  case 0
  then show ?case by auto
next
  case (Suc k)
  then have e: "[lo..<n] = lo # [Suc lo..<n]" and k: "k = n - Suc lo" and lo: "lo < n" by (simp_all add: upt_conv_Cons)
  have IH: "find P [Suc lo..<n] = Some i \<longleftrightarrow> Suc lo \<le> i \<and> i < n \<and> P i \<and> (\<forall>j. Suc lo \<le> j \<and> j < i \<longrightarrow> \<not> P j)"
    by (rule Suc(1) [OF k])
  show ?case
  proof (cases "P lo")
    case True
    then have "find P [lo..<n] = Some i \<longleftrightarrow> i = lo" unfolding e by auto
    also have "\<dots> \<longleftrightarrow> lo \<le> i \<and> i < n \<and> P i \<and> (\<forall>j. lo \<le> j \<and> j < i \<longrightarrow> \<not> P j)"
      using True lo by (cases "i \<le> lo") (auto dest: spec [of _ lo])
    finally show ?thesis .
  next
    case False
    have "(\<forall>j. lo \<le> j \<and> j < i \<longrightarrow> \<not> P j) \<longleftrightarrow> (\<forall>j. Suc lo \<le> j \<and> j < i \<longrightarrow> \<not> P j)"
      using False by (metis Suc_leI Suc_leD le_neq_implies_less)
    moreover have "lo \<le> i \<and> P i \<longleftrightarrow> Suc lo \<le> i \<and> P i" using False by (cases "i = lo") auto
    ultimately show ?thesis unfolding e find.simps(2) if_not_P [OF False] IH by blast
  qed
qed

lemma find_upt_None: "find P [lo..<n] = None \<longleftrightarrow> (\<forall>i. lo \<le> i \<and> i < n \<longrightarrow> \<not> P i)"
  by (auto simp: find_None_iff)

locale growable =
  fixes ok :: "'arr \<Rightarrow> bool"
    and elems :: "'arr \<Rightarrow> 'a list"
    and create :: 'arr
    and size_of :: "'arr \<Rightarrow> nat"
    and add :: "'arr \<Rightarrow> 'a \<Rightarrow> 'arr"
    and get :: "'arr \<Rightarrow> nat \<Rightarrow> 'a option"
    and upd :: "nat \<Rightarrow> ('a \<Rightarrow> 'a) \<Rightarrow> 'arr \<Rightarrow> 'arr"
  assumes create_ok: "ok create" and create_elems: "elems create = []"
    and size_elems: "ok a \<Longrightarrow> size_of a = length (elems a)"
    and add_ok: "ok a \<Longrightarrow> ok (add a v)" and add_elems: "ok a \<Longrightarrow> elems (add a v) = elems a @ [v]"
    and get_elems: "ok a \<Longrightarrow> get a i = (if i < length (elems a) then Some (elems a ! i) else None)"
    and upd_ok: "ok a \<Longrightarrow> i < length (elems a) \<Longrightarrow> ok (upd i f a)"
    and upd_elems: "ok a \<Longrightarrow> i < length (elems a) \<Longrightarrow> elems (upd i f a) = (elems a)[i := f (elems a ! i)]"
begin

lemma search_Some:
  assumes "ok a"
  shows "find (\<lambda>i. case get a i of Some x \<Rightarrow> P x | None \<Rightarrow> False) [lo..<size_of a] = Some i \<longleftrightarrow>
    lo \<le> i \<and> i < length (elems a) \<and> P (elems a ! i) \<and> (\<forall>j. lo \<le> j \<and> j < i \<longrightarrow> \<not> P (elems a ! j))"
  using assms by (auto simp: find_upt_Some get_elems size_elems)

lemma search_None:
  assumes "ok a"
  shows "find (\<lambda>i. case get a i of Some x \<Rightarrow> P x | None \<Rightarrow> False) [lo..<size_of a] = None \<longleftrightarrow>
    (\<forall>i. lo \<le> i \<and> i < length (elems a) \<longrightarrow> \<not> P (elems a ! i))"
  using assms by (auto simp: find_upt_None get_elems size_elems)

lemma all_get:
  assumes "ok a"
  shows "(\<forall>i \<in> set [0..<size_of a]. case get a i of Some x \<Rightarrow> P x | None \<Rightarrow> False) \<longleftrightarrow> (\<forall>x \<in> set (elems a). P x)"
  using assms nth_mem [of _ "elems a"] by (fastforce simp: get_elems size_elems in_set_conv_nth)

end

definition array_ok :: "'a co_array \<Rightarrow> bool" where
  "array_ok a \<longleftrightarrow> 1 \<le> cap a \<and> len a \<le> cap a \<and> length (data a) = cap a \<and>
     (\<forall>i < cap a. data a ! i = None \<longleftrightarrow> len a \<le> i)"

definition array_elems :: "'a co_array \<Rightarrow> 'a list" where
  "array_elems a = map the (take (len a) (data a))"

lemma array_add_ok:
  assumes "array_ok a"
  shows "array_ok (co_array_add a v)" "array_elems (co_array_add a v) = array_elems a @ [v]"
proof -
  define b where "b = (if len a = cap a
      then a\<lparr>cap := cap a * 2, data := map (\<lambda>i. if i < len a then data a ! i else None) [0..<cap a * 2]\<rparr> else a)"
  have b: "array_ok b" "len b = len a" "len b < cap b" "take (len b) (data b) = take (len a) (data a)"
    using assms by (auto simp: b_def array_ok_def intro!: nth_equalityI)
  have add: "co_array_add a v = b\<lparr>data := (data b)[len b := Some v], len := len b + 1\<rparr>"
    by (simp add: co_array_add_def b_def Let_def)
  show "array_ok (co_array_add a v)" using b by (auto simp: add array_ok_def nth_list_update)
  have "take (Suc (len b)) ((data b)[len b := Some v]) = take (len b) (data b) @ [Some v]"
    using b(1,3) by (simp add: take_Suc_conv_app_nth array_ok_def)
  then show "array_elems (co_array_add a v) = array_elems a @ [v]"
    using b(4) by (simp add: add array_elems_def)
qed

interpretation carr: growable array_ok array_elems co_array_create len co_array_add co_array_get co_array_upd
proof
  show "array_ok co_array_create" "array_elems co_array_create = []"
    by (simp_all add: array_ok_def array_elems_def co_array_create_def)
next
  fix a :: "'a co_array" and v
  assume a: "array_ok a"
  show "len a = length (array_elems a)" using a by (simp add: array_ok_def array_elems_def min_def)
  show "array_ok (co_array_add a v)" "array_elems (co_array_add a v) = array_elems a @ [v]"
    using array_add_ok [OF a] by simp_all
  fix i
  show "co_array_get a i = (if i < length (array_elems a) then Some (array_elems a ! i) else None)"
    using a by (auto simp: co_array_get_def array_ok_def array_elems_def min_def)
  fix f
  assume i: "i < length (array_elems a)"
  then show "array_ok (co_array_upd i f a)"
    using a by (auto simp: array_ok_def array_elems_def co_array_upd_def nth_list_update)
  show "array_elems (co_array_upd i f a) = (array_elems a)[i := f (array_elems a ! i)]"
    using a i
    by (auto simp: array_ok_def array_elems_def co_array_upd_def nth_list_update option.map_sel intro!: nth_equalityI)
qed

lemmas array_rules [simp] =
  carr.create_ok carr.create_elems carr.size_elems carr.add_ok carr.add_elems carr.upd_ok carr.upd_elems carr.get_elems

subsection \<open>Well-formed schedulers\<close>

abbreviation metas :: "co_scheduler \<Rightarrow> co_meta list" where "metas sc \<equiv> array_elems (tinfo sc)"
abbreviation coros :: "co_scheduler \<Rightarrow> co_struct list" where "coros sc \<equiv> array_elems (cinfo sc)"

definition coro_ok :: "co_meta list \<Rightarrow> co_struct list \<Rightarrow> nat \<Rightarrow> bool" where
  "coro_ok T C i \<longleftrightarrow> cid (C ! i) = int i \<and> status (C ! i) \<in> {RUNNING, FINISHED} \<and>
     (stack (C ! i) \<longleftrightarrow> status (C ! i) = RUNNING) \<and> uc_link (C ! i) = parent (C ! i) \<and>
     tid (C ! i) \<in> mtid ` set T \<and> (\<forall>p. parent (C ! i) = Some p \<longrightarrow> p < i \<and> tid (C ! p) = tid (C ! i))"

definition runs_ok :: "co_struct list \<Rightarrow> nat \<Rightarrow> nat option \<Rightarrow> bool" where
  "runs_ok C t r \<longleftrightarrow> (\<forall>c. r = Some c \<longrightarrow> c < length C \<and> tid (C ! c) = t \<and> status (C ! c) = RUNNING)"

definition co_wf :: "co_meta list \<Rightarrow> co_struct list \<Rightarrow> (nat \<Rightarrow> nat option) \<Rightarrow> bool" where
  "co_wf T C cur \<longleftrightarrow> distinct (map mtid T) \<and> (\<forall>i < length C. coro_ok T C i) \<and>
     (\<forall>m \<in> set T. cur (mtid m) = running m) \<and> (\<forall>t. runs_ok C t (cur t)) \<and>
     (\<forall>t. t \<notin> mtid ` set T \<longrightarrow> cur t = None)"

definition sched_ok :: "co_scheduler \<Rightarrow> (nat \<Rightarrow> nat option) \<Rightarrow> bool" where
  "sched_ok sc cur \<longleftrightarrow> array_ok (tinfo sc) \<and> array_ok (cinfo sc) \<and> co_wf (metas sc) (coros sc) cur"

text \<open>The routine that every thread executes.\<close>

definition cur_of :: "co_state \<Rightarrow> nat \<Rightarrow> nat option" where "cur_of s = (\<lambda>t. fst (cpu s t))"

definition co_inv :: "co_state \<Rightarrow> bool" where
  "co_inv s = (case co_sched s of
      Null \<Rightarrow> cur_of s = (\<lambda>t. None)
    | Live sc \<Rightarrow> sched_ok sc (cur_of s)
    | Freed \<Rightarrow> False)"

lemma sched_okD: "sched_ok sc cur \<Longrightarrow> array_ok (tinfo sc)" "sched_ok sc cur \<Longrightarrow> array_ok (cinfo sc)"
  by (simp_all add: sched_ok_def)

lemma getmeta_cinfo [simp]: "co_getmeta t (sc\<lparr>cinfo := x\<rparr>) = co_getmeta t sc"
  by (simp add: co_getmeta_def)

lemma getmeta_Some:
  assumes "sched_ok sc cur"
  shows "co_getmeta t sc = Some m \<longleftrightarrow> m < length (metas sc) \<and> mtid (metas sc ! m) = t"
proof -
  have d: "distinct (map mtid (metas sc))" using assms by (simp add: sched_ok_def co_wf_def)
  have "mtid (metas sc ! j) \<noteq> mtid (metas sc ! m)" if "j < m" "m < length (metas sc)" for j
    using d that by (simp add: distinct_conv_nth)
  then show ?thesis
    unfolding co_getmeta_def carr.search_Some [OF sched_okD(1) [OF assms]] by auto
qed

lemma getmeta_None:
  assumes "sched_ok sc cur"
  shows "co_getmeta t sc = None \<longleftrightarrow> t \<notin> mtid ` set (metas sc)"
  unfolding co_getmeta_def carr.search_None [OF sched_okD(1) [OF assms]] by (auto simp: in_set_conv_nth) (metis image_eqI nth_mem)

lemma meta_current:
  assumes "sched_ok sc cur" "co_getmeta t sc = Some m"
  shows "running (metas sc ! m) = cur t" "m < length (metas sc)" "mtid (metas sc ! m) = t"
proof -
  show m: "m < length (metas sc)" "mtid (metas sc ! m) = t" using assms getmeta_Some by blast+
  then show "running (metas sc ! m) = cur t"
    using assms(1) by (auto simp: sched_ok_def co_wf_def dest!: bspec [OF _ nth_mem [OF m(1)]])
qed

lemma current_ok:
  assumes "sched_ok sc cur" "cur t = Some c"
  shows "c < length (coros sc)" "tid (coros sc ! c) = t" "status (coros sc ! c) = RUNNING"
  using assms by (simp_all add: sched_ok_def co_wf_def runs_ok_def)

lemma current_meta:
  assumes "sched_ok sc cur" "cur t = Some c"
  obtains m where "co_getmeta t sc = Some m"
  using assms getmeta_None [OF assms(1)] by (auto simp: sched_ok_def co_wf_def) (metis option.distinct(1) option.exhaust)

subsection \<open>The updates that operations are made of\<close>

text \<open>The thread of \<open>m\<close> goes on with another routine.\<close>

lemma sched_ok_switch:
  assumes "sched_ok sc cur" "co_getmeta t sc = Some m" "runs_ok (coros sc) t r"
  shows "sched_ok (set_running m r sc) (cur(t := r))"
proof -
  note m = meta_current [OF assms(1,2)]
  let ?T = "metas sc" and ?T' = "(metas sc)[m := (metas sc ! m)\<lparr>running := r\<rparr>]"
  have wf: "co_wf ?T (coros sc) cur" and ok: "array_ok (tinfo sc)" "array_ok (cinfo sc)"
    using assms(1) by (simp_all add: sched_ok_def)
  have ids: "map mtid ?T' = map mtid ?T" using m(2) by (auto intro!: nth_equalityI simp: nth_list_update)
  then have ids': "mtid ` set ?T' = mtid ` set ?T" by (metis list.set_map)
  have d: "distinct (map mtid ?T)" using wf by (simp add: co_wf_def)
  have cur: "(cur(t := r)) (mtid x) = running x" if "x \<in> set ?T'" for x
  proof -
    have "\<exists>i < length ?T. ?T' ! i = x" using that by (simp only: in_set_conv_nth length_list_update)
    then obtain i where i: "i < length ?T" "?T' ! i = x" by blast
    show ?thesis
    proof (cases "i = m")
      case False
      then have "mtid (?T ! i) \<noteq> t" using d i(1) m(2,3) by (auto simp: distinct_conv_nth)
      moreover have "x = ?T ! i" using i(2) False by simp
      moreover have "cur (mtid (?T ! i)) = running (?T ! i)" using i(1) wf by (simp add: co_wf_def)
      ultimately show ?thesis by simp
    qed (use i(2) m in auto)
  qed
  have coro: "coro_ok ?T' (coros sc) = coro_ok ?T (coros sc)" unfolding fun_eq_iff coro_ok_def ids' by simp
  have t: "t \<in> mtid ` set ?T" using m(2,3) nth_mem by blast
  have "co_wf ?T' (coros sc) (cur(t := r))"
    unfolding co_wf_def coro ids ids'
  proof (intro conjI)
    show "distinct (map mtid ?T)" by (rule d)
    show "\<forall>x \<in> set ?T'. (cur(t := r)) (mtid x) = running x" by (rule ballI) (rule cur)
    show "\<forall>t'. runs_ok (coros sc) t' ((cur(t := r)) t')" using wf assms(3) by (simp add: co_wf_def)
    show "\<forall>t'. t' \<notin> mtid ` set ?T \<longrightarrow> (cur(t := r)) t' = None" using wf t unfolding co_wf_def by (metis fun_upd_other)
    show "\<forall>i < length (coros sc). coro_ok ?T (coros sc) i" using wf by (simp add: co_wf_def)
  qed
  then show ?thesis using ok m(2) by (simp add: sched_ok_def set_running_def)
qed

lemma set_running_simps [simp]:
  "cinfo (set_running m r sc) = cinfo sc"
  by (simp add: set_running_def)

lemma getmeta_set_running:
  assumes "sched_ok sc cur" "co_getmeta t sc = Some m" "runs_ok (coros sc) t r"
  shows "co_getmeta t (set_running m r sc) = Some m"
  unfolding getmeta_Some [OF sched_ok_switch [OF assms]]
  using meta_current [OF assms(1,2)] sched_okD [OF assms(1)] by (simp add: set_running_def)

text \<open>Saving a context changes nothing the invariant speaks of.\<close>

lemma sched_ok_save:
  assumes "sched_ok sc cur" "co_getmeta t sc = Some m" "runs_ok (coros sc) t0 oucp"
  shows "sched_ok (save_uc m oucp p sc) cur" "co_getmeta t (save_uc m oucp p sc) = Some m"
proof -
  note m = meta_current [OF assms(1,2)]
  have wf: "co_wf (metas sc) (coros sc) cur" and ok: "array_ok (tinfo sc)" "array_ok (cinfo sc)"
    using assms(1) by (simp_all add: sched_ok_def)
  show *: "sched_ok (save_uc m oucp p sc) cur"
  proof (cases oucp)
    case None
    let ?T' = "(metas sc)[m := (metas sc ! m)\<lparr>main_uc := p\<rparr>]"
    have ids: "map mtid ?T' = map mtid (metas sc)" using m(2) by (auto intro!: nth_equalityI simp: nth_list_update)
    then have ids': "mtid ` set ?T' = mtid ` set (metas sc)" by (metis list.set_map)
    have "cur (mtid (metas sc ! i)) = running (metas sc ! i)" if "i < length (metas sc)" for i
      using wf that by (simp add: co_wf_def)
    then have "\<forall>x \<in> set ?T'. cur (mtid x) = running x"
      using m(2) by (auto simp: in_set_conv_nth nth_list_update)
    moreover have "coro_ok ?T' (coros sc) = coro_ok (metas sc) (coros sc)"
      unfolding fun_eq_iff coro_ok_def ids' by simp
    ultimately have "co_wf ?T' (coros sc) cur" using wf unfolding co_wf_def ids ids' by (simp only:) blast
    then show ?thesis using None ok m(2) by (simp add: sched_ok_def save_uc_def)
  next
    case (Some c)
    then have c: "c < length (coros sc)" using assms(3) by (simp add: runs_ok_def)
    let ?C' = "(coros sc)[c := (coros sc ! c)\<lparr>uc := p\<rparr>]"
    have nth: "status (?C' ! i) = status (coros sc ! i)" "tid (?C' ! i) = tid (coros sc ! i)"
      "parent (?C' ! i) = parent (coros sc ! i)" "cid (?C' ! i) = cid (coros sc ! i)"
      "stack (?C' ! i) = stack (coros sc ! i)" "uc_link (?C' ! i) = uc_link (coros sc ! i)" for i
      using c by (simp_all add: nth_list_update)
    have "co_wf (metas sc) ?C' cur" using wf unfolding co_wf_def coro_ok_def runs_ok_def nth length_list_update .
    then show ?thesis using Some ok c by (simp add: sched_ok_def save_uc_def)
  qed
  show "co_getmeta t (save_uc m oucp p sc) = Some m"
    unfolding getmeta_Some [OF *] using m ok by (cases oucp) (simp_all add: save_uc_def)
qed

text \<open>A new entry for a thread without one.\<close>

lemma sched_ok_new_meta:
  fixes p :: proc
  assumes "sched_ok sc cur" "co_getmeta t sc = None"
  defines "sc' \<equiv> sc\<lparr>tinfo := co_array_add (tinfo sc) \<lparr>mtid = t, running = None, main_uc = p\<rparr>\<rparr>"
  shows "sched_ok sc' cur" "co_getmeta t sc' = Some (length (metas sc))" "coros sc' = coros sc"
proof -
  have wf: "co_wf (metas sc) (coros sc) cur" and ok: "array_ok (tinfo sc)" "array_ok (cinfo sc)"
    using assms(1) by (simp_all add: sched_ok_def)
  have t: "t \<notin> mtid ` set (metas sc)" using assms(1,2) getmeta_None by blast
  have "co_wf (metas sc @ [\<lparr>mtid = t, running = None, main_uc = p\<rparr>]) (coros sc) cur"
    using wf t unfolding co_wf_def coro_ok_def by auto
  then show *: "sched_ok sc' cur" using ok by (simp add: sc'_def sched_ok_def)
  show "co_getmeta t sc' = Some (length (metas sc))" unfolding getmeta_Some [OF *] using ok by (simp add: sc'_def)
  show "coros sc' = coros sc" by (simp add: sc'_def)
qed

text \<open>A new routine, and the end of a routine that no thread runs.\<close>

lemma sched_ok_new_coro:
  assumes "sched_ok sc cur" "runs_ok (coros sc) t r" "t \<in> mtid ` set (metas sc)"
    and "cid co = int (length (coros sc))" "status co = RUNNING" "stack co" "uc_link co = r" "parent co = r" "tid co = t"
    and "array_ok arr" "array_elems arr = coros sc @ [co]"
  shows "sched_ok (sc\<lparr>cinfo := arr\<rparr>) cur"
proof -
  have wf: "co_wf (metas sc) (coros sc) cur" and ok: "array_ok (tinfo sc)"
    using assms(1) by (simp_all add: sched_ok_def)
  have old: "coro_ok (metas sc) (coros sc @ [co]) i" if "i < length (coros sc)" for i
  proof -
    have i: "coro_ok (metas sc) (coros sc) i" using wf that by (simp add: co_wf_def)
    have "(coros sc @ [co]) ! p = coros sc ! p" if "parent (coros sc ! i) = Some p" for p
      using i that \<open>i < _\<close> by (simp add: coro_ok_def nth_append)
    then show ?thesis using i that by (simp add: coro_ok_def nth_append)
  qed
  have new: "coro_ok (metas sc) (coros sc @ [co]) (length (coros sc))"
    using assms by (auto simp: coro_ok_def runs_ok_def nth_append)
  have runs: "runs_ok (coros sc @ [co]) t' (cur t')" for t'
    using wf by (auto simp: co_wf_def runs_ok_def nth_append less_SucI)
  have "co_wf (metas sc) (coros sc @ [co]) cur"
    using wf old new runs unfolding co_wf_def by (auto simp: less_Suc_eq)
  then show ?thesis using assms(10,11) ok by (simp add: sched_ok_def)
qed

lemma sched_ok_finish:
  assumes "sched_ok sc cur" "c < length (coros sc)" "\<And>t. cur t \<noteq> Some c"
  shows "sched_ok (sc\<lparr>cinfo := co_array_upd c (\<lambda>co. co\<lparr>status := FINISHED, ret := v, stack := False\<rparr>) (cinfo sc)\<rparr>) cur"
proof -
  have wf: "co_wf (metas sc) (coros sc) cur" and ok: "array_ok (tinfo sc)" "array_ok (cinfo sc)"
    using assms(1) by (simp_all add: sched_ok_def)
  let ?C' = "(coros sc)[c := (coros sc ! c)\<lparr>status := FINISHED, ret := v, stack := False\<rparr>]"
  have nth: "tid (?C' ! i) = tid (coros sc ! i)" "parent (?C' ! i) = parent (coros sc ! i)" "cid (?C' ! i) = cid (coros sc ! i)"
      "uc_link (?C' ! i) = uc_link (coros sc ! i)" for i
    using assms(2) by (simp_all add: nth_list_update)
  have ne: "RUNNING \<noteq> FINISHED" by (simp add: RUNNING_def FINISHED_def)
  have "coro_ok (metas sc) ?C' i" if "i < length (coros sc)" for i
  proof (cases "i = c")
    case True
    then show ?thesis using wf that ne unfolding co_wf_def coro_ok_def nth by simp
  next
    case False
    then show ?thesis using wf that unfolding co_wf_def coro_ok_def nth by simp
  qed
  moreover have "runs_ok ?C' t (cur t)" for t
    using wf assms(3) [of t] unfolding co_wf_def runs_ok_def nth by (auto simp: nth_list_update)
  ultimately have "co_wf (metas sc) ?C' cur" using wf unfolding co_wf_def by simp
  then show ?thesis using ok assms(2) by (simp add: sched_ok_def)
qed

subsection \<open>Contexts\<close>

lemma cur_of_apply [simp]: "cur_of s t = fst (cpu s t)"
  by (simp add: cur_of_def)

lemma cur_of_upd [simp]:
  "cur_of (u\<lparr>cpu := (cpu s)(t := x)\<rparr>) = (cur_of s)(t := fst x)"
  "cur_of (s\<lparr>co_sched := p\<rparr>) = cur_of s"
  by (auto simp: cur_of_def)

definition live :: "co_state \<Rightarrow> co_scheduler \<Rightarrow> bool" where
  "live s sc \<longleftrightarrow> co_deref (co_scheduler_init (co_sched s)) = Some sc"

lemma live_ok:
  assumes "co_inv s"
  obtains sc where "live s sc" "sched_ok sc (cur_of s)"
proof (cases "co_sched s")
  case Null
  then have "sched_ok \<lparr>tinfo = co_array_create, cinfo = co_array_create\<rparr> (cur_of s)"
    using assms by (simp add: co_inv_def sched_ok_def co_wf_def runs_ok_def)
  then show ?thesis using Null that by (simp add: live_def co_scheduler_init_def co_deref_def)
next
  case (Live sc)
  then show ?thesis using assms that by (simp add: co_inv_def live_def co_scheduler_init_def co_deref_def)
qed (use assms in \<open>simp add: co_inv_def\<close>)

lemma live_sched_ok: "co_inv s \<Longrightarrow> live s sc \<Longrightarrow> sched_ok sc (cur_of s)"
  by (metis live_def live_ok option.inject)

lemma co_inv_Live [simp]: "co_sched s = Live sc \<Longrightarrow> co_inv s \<longleftrightarrow> sched_ok sc (cur_of s)"
  by (simp add: co_inv_def)

lemma live_Live [simp]: "co_sched s = Live sc \<Longrightarrow> live s sc' \<longleftrightarrow> sc' = sc"
  by (auto simp: live_def co_scheduler_init_def co_deref_def)

text \<open>The code saved in a context.\<close>

definition code_of :: "nat \<Rightarrow> nat option \<Rightarrow> co_scheduler \<Rightarrow> proc" where
  "code_of m ucp sc = (case ucp of None \<Rightarrow> main_uc (metas sc ! m) | Some c \<Rightarrow> uc (coros sc ! c))"

lemma load_uc_ok:
  assumes "sched_ok sc cur" "co_getmeta t sc = Some m" "runs_ok (coros sc) t ucp"
  shows "load_uc m ucp sc = Some (ucp, code_of m ucp sc)"
proof (cases ucp)
  case None
  then show ?thesis using meta_current [OF assms(1,2)] sched_okD [OF assms(1)] by (simp add: load_uc_def code_of_def)
next
  case (Some c)
  then have "c < length (coros sc)" "status (coros sc ! c) = RUNNING" using assms(3) by (simp_all add: runs_ok_def)
  moreover from this have "stack (coros sc ! c)" using assms(1) by (simp add: sched_ok_def co_wf_def coro_ok_def)
  ultimately show ?thesis using Some sched_okD [OF assms(1)] by (simp add: load_uc_def code_of_def)
qed

lemma load_uc_fails:
  assumes "sched_ok sc cur" "c < length (coros sc)" "status (coros sc ! c) \<noteq> RUNNING"
  shows "load_uc m (Some c) sc = None"
  using assms sched_okD [OF assms(1)] by (simp add: load_uc_def sched_ok_def co_wf_def coro_ok_def)

lemma runs_ok_save:
  assumes "sched_ok sc cur" "runs_ok (coros sc) t0 oucp" "runs_ok (coros sc) t r"
  shows "runs_ok (coros (save_uc m oucp p sc)) t r"
  using assms sched_okD [OF assms(1)] by (auto simp: save_uc_def runs_ok_def nth_list_update split: option.splits)

lemma swapcontext_eq:
  assumes "sched_ok sc cur" "co_getmeta t sc = Some m" "runs_ok (coros sc) t0 oucp" "runs_ok (coros sc) t ucp"
  shows "swapcontext t m oucp p ucp sc s =
    Some (s\<lparr>co_sched := Live (save_uc m oucp p sc), cpu := (cpu s)(t := (ucp, code_of m ucp (save_uc m oucp p sc)))\<rparr>)"
  using load_uc_ok [OF sched_ok_save [OF assms(1-3)] runs_ok_save [OF assms(1,3,4)]]
  by (simp add: swapcontext_def Let_def)

subsection \<open>Yielding\<close>

lemma next_runnable_Some:
  assumes "sched_ok sc cur"
  shows "next_runnable t lo sc = Some i \<longleftrightarrow> lo \<le> i \<and> i < length (coros sc) \<and> tid (coros sc ! i) = t \<and> status (coros sc ! i) = RUNNING \<and>
    (\<forall>j. lo \<le> j \<and> j < i \<longrightarrow> tid (coros sc ! j) \<noteq> t \<or> status (coros sc ! j) \<noteq> RUNNING)"
  unfolding next_runnable_def carr.search_Some [OF sched_okD(2) [OF assms]] by auto

lemma next_runnable_None:
  assumes "sched_ok sc cur"
  shows "next_runnable t lo sc = None \<longleftrightarrow>
    (\<forall>i. lo \<le> i \<and> i < length (coros sc) \<longrightarrow> tid (coros sc ! i) \<noteq> t \<or> status (coros sc ! i) \<noteq> RUNNING)"
  unfolding next_runnable_def carr.search_None [OF sched_okD(2) [OF assms]] by auto

lemma next_runnable_runs: "sched_ok sc cur \<Longrightarrow> runs_ok (coros sc) t (next_runnable t lo sc)"
  using next_runnable_Some by (simp add: runs_ok_def)

definition after :: "nat option \<Rightarrow> nat" where "after r = (case r of None \<Rightarrow> 0 | Some c \<Rightarrow> c + 1)"

lemma yield_eq:
  assumes "co_inv s" "live s sc" "co_getmeta t sc = Some m"
  defines "r \<equiv> fst (cpu s t)"
  defines "n \<equiv> next_runnable t (after r) sc"
  defines "sc1 \<equiv> set_running m n sc"
  shows "co_yield t rest s =
    Some (if r = n then s\<lparr>co_sched := Live sc1, cpu := (cpu s)(t := (r, rest))\<rparr>
          else s\<lparr>co_sched := Live (save_uc m r rest sc1), cpu := (cpu s)(t := (n, code_of m n (save_uc m r rest sc1)))\<rparr>)"
proof -
  have ok: "sched_ok sc (cur_of s)" by (rule live_sched_ok [OF assms(1,2)])
  note m = meta_current [OF ok assms(3)]
  have meta: "co_array_get (tinfo sc) m = Some (metas sc ! m)" "running (metas sc ! m) = r"
    using m sched_okD [OF ok] by (simp_all add: r_def)
  have rr: "runs_ok (coros sc) t r" using ok by (simp add: sched_ok_def co_wf_def r_def)
  have lo: "(case r of Some c \<Rightarrow> map_option (\<lambda>co. nat (cid co) + 1) (co_array_get (cinfo sc) c) | None \<Rightarrow> Some 0) = Some (after r)"
    using rr ok sched_okD [OF ok]
    by (auto simp: after_def runs_ok_def sched_ok_def co_wf_def coro_ok_def split: option.splits)
  have n: "runs_ok (coros sc) t n" unfolding n_def by (rule next_runnable_runs [OF ok])
  have ok1: "sched_ok sc1 ((cur_of s)(t := n))" "co_getmeta t sc1 = Some m" "coros sc1 = coros sc"
    unfolding sc1_def using sched_ok_switch [OF ok assms(3) n] getmeta_set_running [OF ok assms(3) n] by simp_all
  have swap: "swapcontext t m r rest n sc1 s =
      Some (s\<lparr>co_sched := Live (save_uc m r rest sc1), cpu := (cpu s)(t := (n, code_of m n (save_uc m r rest sc1)))\<rparr>)"
    by (rule swapcontext_eq [OF ok1(1,2)]) (use rr n ok1(3) in simp_all)
  show ?thesis
    using assms(2) meta lo swap assms(3)
    by (simp add: co_yield_def live_def Let_def n_def sc1_def r_def del: array_rules)
qed

lemma uc_self: "\<exists>p. co = co\<lparr>uc := p\<rparr>"
  by (rule exI [of _ "uc co"]) simp

lemma cur_same: "(cur_of s)(t := fst (cpu s t)) = cur_of s"
  by auto

lemma yield_inv:
  assumes "co_inv s" "co_yield t rest s = Some s'" "live s sc"
  shows "co_inv s' \<and> (\<exists>sc'. co_sched s' = Live sc' \<and> length (coros sc') = length (coros sc) \<and>
    (\<forall>i < length (coros sc). \<exists>p. coros sc' ! i = (coros sc ! i)\<lparr>uc := p\<rparr>))"
proof (cases "co_getmeta t sc")
  case None
  have ok: "sched_ok sc (cur_of s)" by (rule live_sched_ok [OF assms(1,3)])
  have "s' = s\<lparr>co_sched := Live sc, cpu := (cpu s)(t := (fst (cpu s t), rest))\<rparr>"
    using assms(2,3) None by (simp add: co_yield_def live_def)
  then show ?thesis using ok by (simp add: cur_same uc_self)
next
  case (Some m)
  have ok: "sched_ok sc (cur_of s)" by (rule live_sched_ok [OF assms(1,3)])
  let ?r = "fst (cpu s t)" let ?n = "next_runnable t (after ?r) sc" let ?sc1 = "set_running m ?n sc"
  have n: "runs_ok (coros sc) t ?n" by (rule next_runnable_runs [OF ok])
  note ok1 = sched_ok_switch [OF ok Some n] and m1 = getmeta_set_running [OF ok Some n]
  have rr: "runs_ok (coros sc) t ?r" using ok by (simp add: sched_ok_def co_wf_def)
  note eq = yield_eq [OF assms(1,3) Some, of rest]
  show ?thesis
  proof (cases "?r = ?n")
    case True
    then have "s' = s\<lparr>co_sched := Live ?sc1, cpu := (cpu s)(t := (?n, rest))\<rparr>" using assms(2) eq by simp
    then show ?thesis using ok1 by (simp add: uc_self)
  next
    case False
    let ?sc2 = "save_uc m ?r rest ?sc1"
    have s': "s' = s\<lparr>co_sched := Live ?sc2, cpu := (cpu s)(t := (?n, code_of m ?n ?sc2))\<rparr>"
      using assms(2) eq False by simp
    have "sched_ok ?sc2 ((cur_of s)(t := ?n))" by (rule sched_ok_save [OF ok1 m1, of t]) (use rr in simp)
    moreover have "\<exists>p. coros ?sc2 ! i = (coros sc ! i)\<lparr>uc := p\<rparr>" "length (coros ?sc2) = length (coros sc)" if "i < length (coros sc)" for i
      using sched_okD [OF ok] rr
      by (auto simp: save_uc_def runs_ok_def nth_list_update split: option.splits intro: exI [of _ "uc (coros sc ! i)"])
    moreover have "length (coros ?sc2) = length (coros sc)"
      using sched_okD [OF ok] rr by (auto simp: save_uc_def runs_ok_def split: option.splits)
    ultimately show ?thesis using s' by simp
  qed
qed

subsection \<open>Starting, finishing and waiting\<close>

text \<open>Routines are never removed, and what a finished routine returned does not change.\<close>

definition keeps :: "co_struct list \<Rightarrow> co_struct list \<Rightarrow> bool" where
  "keeps C C' \<longleftrightarrow> length C \<le> length C' \<and> (\<forall>i < length C. tid (C' ! i) = tid (C ! i) \<and> parent (C' ! i) = parent (C ! i) \<and>
     (status (C ! i) = FINISHED \<longrightarrow> status (C' ! i) = FINISHED \<and> ret (C' ! i) = ret (C ! i)))"

lemma keeps_refl [simp]: "keeps C C"
  by (simp add: keeps_def)

lemma keeps_trans: "keeps C C' \<Longrightarrow> keeps C' C'' \<Longrightarrow> keeps C C''"
  by (auto simp: keeps_def)

lemma keeps_uc: "length C' = length C \<Longrightarrow> (\<And>i. i < length C \<Longrightarrow> \<exists>p. C' ! i = (C ! i)\<lparr>uc := p\<rparr>) \<Longrightarrow> keeps C C'"
  by (fastforce simp: keeps_def)

definition op_ok :: "co_scheduler \<Rightarrow> co_state \<Rightarrow> bool" where
  "op_ok sc s' \<longleftrightarrow> (\<exists>sc'. co_sched s' = Live sc' \<and> sched_ok sc' (cur_of s') \<and> keeps (coros sc) (coros sc'))"

lemma yield_ok: "co_inv s \<Longrightarrow> co_yield t rest s = Some s' \<Longrightarrow> live s sc \<Longrightarrow> op_ok sc s'"
  using yield_inv [of s t rest s' sc] keeps_uc unfolding op_ok_def by fastforce

lemma proceed_ok:
  assumes "sched_ok sc (cur_of s)"
  shows "op_ok sc (s\<lparr>co_sched := Live sc, cpu := (cpu s)(t := (fst (cpu s t), p))\<rparr>)"
  using assms by (simp add: op_ok_def cur_same)

lemma await_ok:
  assumes "co_inv s" "co_await t c k again s = Some s'" "live s sc"
  shows "op_ok sc s'"
proof -
  note ok = live_sched_ok [OF assms(1,3)]
  have inv': "co_inv (s\<lparr>co_sched := Live sc\<rparr>)" and l': "live (s\<lparr>co_sched := Live sc\<rparr>) sc" using ok by simp_all
  show ?thesis
    using assms(2,3) ok yield_ok [OF inv' _ l'] proceed_ok [OF ok]
    by (auto simp: co_await_def live_def simp del: array_rules split: if_splits option.splits)
qed

lemma waitall_ok:
  assumes "co_inv s" "co_waitall t k s = Some s'" "live s sc"
  shows "op_ok sc s'"
proof -
  note ok = live_sched_ok [OF assms(1,3)]
  have inv': "co_inv (s\<lparr>co_sched := Live sc\<rparr>)" and l': "live (s\<lparr>co_sched := Live sc\<rparr>) sc" using ok by simp_all
  show ?thesis
    using assms(2,3) yield_ok [OF inv' _ l'] proceed_ok [OF ok]
    by (auto simp: co_waitall_def live_def simp del: array_rules split: if_splits)
qed

lemma start_eq:
  fixes t :: nat
  assumes "co_inv s" "live s sc"
  defines "r \<equiv> fst (cpu s t)" and "c \<equiv> length (coros sc)"
  obtains m sc0 code where
    "co_start t routine k s = Some (s\<lparr>co_sched := Live (save_uc m r (k (int c)) sc0), cpu := (cpu s)(t := (Some c, code))\<rparr>)"
    "code = code_of m (Some c) (save_uc m r (k (int c)) sc0)"
    "sched_ok sc0 ((cur_of s)(t := Some c))" "co_getmeta t sc0 = Some m" "runs_ok (coros sc) t r"
    "coros sc0 = coros sc @ [\<lparr>cid = int c, tid = t, parent = r, stack = True, uc = routine, uc_link = r, status = RUNNING, ret = -1\<rparr>]"
proof -
  note ok = live_sched_ok [OF assms(1,2)]
  let ?new = "\<lparr>cid = int c, tid = t, parent = None, stack = False, uc = routine, uc_link = None, status = RUNNING, ret = -1\<rparr>"
  let ?full = "?new\<lparr>parent := r, uc_link := r, stack := True\<rparr>"
  let ?arr = "co_array_add (cinfo sc) ?new"
  let ?meta = "\<lparr>mtid = t, running = None, main_uc = k (int c)\<rparr>"
  define scm where "scm = (case co_getmeta t sc of Some m \<Rightarrow> sc | None \<Rightarrow> sc\<lparr>tinfo := co_array_add (tinfo sc) ?meta\<rparr>)"
  define m where "m = (case co_getmeta t sc of Some m \<Rightarrow> m | None \<Rightarrow> length (metas sc))"
  have okm: "sched_ok scm (cur_of s)" "co_getmeta t scm = Some m" "coros scm = coros sc" "cinfo scm = cinfo sc"
    using ok sched_ok_new_meta [OF ok] by (auto simp: scm_def m_def split: option.splits)
  note mm = meta_current [OF okm(1,2)]
  have rr: "runs_ok (coros sc) t r" using ok by (simp add: sched_ok_def co_wf_def r_def)
  define sc2 where "sc2 = scm\<lparr>cinfo := co_array_upd c (\<lambda>co. co\<lparr>parent := r, uc_link := r, stack := True\<rparr>) ?arr\<rparr>"
  have arr: "array_ok (co_array_upd c (\<lambda>co. co\<lparr>parent := r, uc_link := r, stack := True\<rparr>) ?arr)"
    "array_elems (co_array_upd c (\<lambda>co. co\<lparr>parent := r, uc_link := r, stack := True\<rparr>) ?arr) = coros sc @ [?full]"
    using sched_okD [OF ok] by (simp_all add: c_def)
  have "t \<in> mtid ` set (metas scm)" using mm nth_mem by blast
  then have ok2: "sched_ok sc2 (cur_of s)"
    unfolding sc2_def by (intro sched_ok_new_coro [OF okm(1), of t r ?full]) (use rr okm(3) arr in \<open>simp_all add: c_def\<close>)
  have m2: "co_getmeta t sc2 = Some m" using okm(2) by (simp add: sc2_def co_getmeta_def)
  have C2: "coros sc2 = coros sc @ [?full]" using arr(2) by (simp add: sc2_def)
  have rc: "runs_ok (coros sc2) t (Some c)" by (simp add: C2 runs_ok_def c_def)
  have rr2: "runs_ok (coros sc2) t r" using rr by (auto simp: C2 runs_ok_def nth_append less_SucI)
  let ?sc0 = "set_running m (Some c) sc2"
  note ok0 = sched_ok_switch [OF ok2 m2 rc] and m0 = getmeta_set_running [OF ok2 m2 rc]
  have swap: "swapcontext t m r (k (int c)) (Some c) ?sc0 s = Some (s\<lparr>co_sched := Live (save_uc m r (k (int c)) ?sc0),
      cpu := (cpu s)(t := (Some c, code_of m (Some c) (save_uc m r (k (int c)) ?sc0)))\<rparr>)"
    by (rule swapcontext_eq [OF ok0 m0, of t]) (use rc rr2 in simp_all)
  have meta: "co_array_get (tinfo scm) m = Some (metas scm ! m)" "running (metas scm ! m) = r"
    using mm sched_okD [OF okm(1)] by (simp_all add: r_def)
  have sz: "len (cinfo sc) = c" "len (tinfo sc) = length (metas sc)" using sched_okD [OF ok] by (simp_all add: c_def)
  have "co_start t routine k s = swapcontext t m r (k (int c)) (Some c) ?sc0 s"
  proof (cases "co_getmeta t sc")
    case None
    then have e: "scm = sc\<lparr>tinfo := co_array_add (tinfo sc) ?meta\<rparr>" "m = length (metas sc)" by (simp_all add: scm_def m_def)
    show ?thesis
      using assms(2) None meta unfolding sc2_def e by (simp add: co_start_def live_def Let_def sz del: array_rules)
  next
    case (Some m')
    then have e: "scm = sc" "m = m'" by (simp_all add: scm_def m_def)
    show ?thesis
      using assms(2) Some meta unfolding sc2_def e by (simp add: co_start_def live_def Let_def sz del: array_rules)
  qed
  then show ?thesis using that [OF _ refl ok0 m0 rr] swap C2 by simp
qed

lemma start_ok:
  assumes "co_inv s" "co_start t routine k s = Some s'" "live s sc"
  shows "op_ok sc s'"
proof -
  let ?r = "fst (cpu s t)" and ?c = "length (coros sc)"
  obtain m sc0 code where st:
    "co_start t routine k s = Some (s\<lparr>co_sched := Live (save_uc m ?r (k (int ?c)) sc0), cpu := (cpu s)(t := (Some ?c, code))\<rparr>)"
    "sched_ok sc0 ((cur_of s)(t := Some ?c))" "co_getmeta t sc0 = Some m" "runs_ok (coros sc) t ?r"
    "coros sc0 = coros sc @ [\<lparr>cid = int ?c, tid = t, parent = ?r, stack = True, uc = routine, uc_link = ?r, status = RUNNING, ret = -1\<rparr>]"
    by (rule start_eq [OF assms(1,3)])
  have rr: "runs_ok (coros sc0) t ?r" using st(4,5) by (auto simp: runs_ok_def nth_append less_SucI)
  have "sched_ok (save_uc m ?r (k (int ?c)) sc0) ((cur_of s)(t := Some ?c))"
    by (rule sched_ok_save [OF st(2,3) rr])
  moreover have "keeps (coros sc) (coros (save_uc m ?r (k (int ?c)) sc0))"
    using st(4,5) sched_okD [OF st(2)]
    by (auto simp: keeps_def save_uc_def runs_ok_def nth_append nth_list_update less_SucI split: option.splits)
  moreover have "s' = s\<lparr>co_sched := Live (save_uc m ?r (k (int ?c)) sc0), cpu := (cpu s)(t := (Some ?c, code))\<rparr>"
    using assms(2) st(1) by simp
  ultimately show ?thesis unfolding op_ok_def by simp
qed

definition finished :: "nat \<Rightarrow> int \<Rightarrow> co_scheduler \<Rightarrow> co_scheduler" where
  "finished c v sc = sc\<lparr>cinfo := co_array_upd c (\<lambda>co. co\<lparr>status := FINISHED, ret := v, stack := False\<rparr>) (cinfo sc)\<rparr>"

lemma finish_eq:
  fixes v :: int
  assumes "sched_ok sc (cur_of s)" "co_sched s = Live sc" "fst (cpu s t) = Some c" "co_getmeta t sc = Some m"
  defines "pr \<equiv> parent (coros sc ! c)"
  defines "sc' \<equiv> set_running m pr (finished c v sc)"
  shows "co_func_wrapper t c v s =
      (if runs_ok (coros sc) t pr then Some (s\<lparr>co_sched := Live sc', cpu := (cpu s)(t := (pr, code_of m pr sc'))\<rparr>) else None)"
    and "runs_ok (coros sc) t pr \<Longrightarrow> sched_ok sc' ((cur_of s)(t := pr))"
    and "coros sc' = (coros sc)[c := (coros sc ! c)\<lparr>status := FINISHED, ret := v, stack := False\<rparr>]"
    and "runs_ok (coros sc) t pr \<Longrightarrow> co_getmeta t sc' = Some m"
proof -
  have cur: "cur_of s t = Some c" using assms(3) by simp
  note c = current_ok [OF assms(1) cur] and m = meta_current [OF assms(1,4)] and ok = sched_okD [OF assms(1)]
  have co: "coro_ok (metas sc) (coros sc) c" using assms(1) c(1) by (simp add: sched_ok_def co_wf_def)
  have link: "uc_link (coros sc ! c) = pr" using co by (simp add: coro_ok_def pr_def)
  show C': "coros sc' = (coros sc)[c := (coros sc ! c)\<lparr>status := FINISHED, ret := v, stack := False\<rparr>]"
    using ok c(1) by (simp add: sc'_def finished_def)
  have prc: "p < c" "tid (coros sc ! p) = t" if "pr = Some p" for p
    using co c(2) that by (simp_all add: coro_ok_def pr_def)
  have comm: "sc' = finished c v (set_running m pr sc)" by (simp add: sc'_def finished_def set_running_def)
  have body: "co_func_wrapper t c v s = map_option (\<lambda>x. s\<lparr>co_sched := Live sc', cpu := (cpu s)(t := x)\<rparr>) (load_uc m pr sc')"
    using assms(2,4) ok c(1) link
    by (simp add: co_func_wrapper_def co_deref_def Let_def sc'_def finished_def pr_def)
  {
    assume r: "runs_ok (coros sc) t pr"
    note ok1 = sched_ok_switch [OF assms(1,4) r] and m1 = getmeta_set_running [OF assms(1,4) r]
    have "((cur_of s)(t := pr)) u \<noteq> Some c" for u
    proof (cases "u = t")
      case True
      then show ?thesis using prc by auto
    next
      case False
      then show ?thesis using c(2) current_ok(2) [OF assms(1), of u c] by auto
    qed
    then have ok2: "sched_ok sc' ((cur_of s)(t := pr))"
      unfolding comm finished_def using c(1) by (intro sched_ok_finish [OF ok1]) simp_all
    have m2: "co_getmeta t sc' = Some m" using m1 by (simp add: comm finished_def)
    have "runs_ok (coros sc') t pr" unfolding C' using r prc(1) by (fastforce simp: runs_ok_def nth_list_update)
    then have "sched_ok sc' ((cur_of s)(t := pr)) \<and> co_getmeta t sc' = Some m \<and> load_uc m pr sc' = Some (pr, code_of m pr sc')"
      using ok2 m2 load_uc_ok [OF ok2 m2] by simp
  } note good = this
  show "runs_ok (coros sc) t pr \<Longrightarrow> sched_ok sc' ((cur_of s)(t := pr))"
    and "runs_ok (coros sc) t pr \<Longrightarrow> co_getmeta t sc' = Some m"
    using good by blast+
  have bad: "load_uc m pr sc' = None" if nr: "\<not> runs_ok (coros sc) t pr"
  proof -
    obtain p where p: "pr = Some p" using nr by (cases pr) (simp_all add: runs_ok_def)
    have "p < length (coros sc)" "coro_ok (metas sc) (coros sc) p"
      using prc(1) [OF p] c(1) assms(1) by (simp_all add: sched_ok_def co_wf_def)
    then have "\<not> stack (coros sc ! p)" using nr prc [OF p] p by (simp add: runs_ok_def coro_ok_def)
    moreover have "co_array_get (cinfo sc') p = Some (coros sc ! p)"
      using ok c(1) prc(1) [OF p] by (simp add: sc'_def finished_def)
    ultimately show ?thesis by (simp add: p load_uc_def)
  qed
  show "co_func_wrapper t c v s =
      (if runs_ok (coros sc) t pr then Some (s\<lparr>co_sched := Live sc', cpu := (cpu s)(t := (pr, code_of m pr sc'))\<rparr>) else None)"
    using body good bad by simp
qed

lemma current_live:
  assumes "co_inv s" "fst (cpu s t) = Some c"
  obtains sc m where "co_sched s = Live sc" "sched_ok sc (cur_of s)" "co_getmeta t sc = Some m"
proof (cases "co_sched s")
  case (Live sc)
  then have ok: "sched_ok sc (cur_of s)" using assms(1) by simp
  obtain m where "co_getmeta t sc = Some m" by (rule current_meta [OF ok, of t c]) (use assms(2) in simp_all)
  then show ?thesis using that Live ok by blast
next
  case Null
  then have "cur_of s t = None" using assms(1) by (simp add: co_inv_def del: cur_of_apply)
  then show ?thesis using assms(2) by simp
qed (use assms(1) in \<open>simp add: co_inv_def\<close>)

lemma finish_ok:
  assumes "co_inv s" "fst (cpu s t) = Some c" "co_func_wrapper t c v s = Some s'" "live s sc"
  shows "op_ok sc s'"
proof -
  obtain m where sc: "co_sched s = Live sc" "sched_ok sc (cur_of s)" "co_getmeta t sc = Some m"
    by (rule current_live [OF assms(1,2)]) (use assms(4) in simp)
  have cur: "cur_of s t = Some c" using assms(2) by simp
  note c = current_ok [OF sc(2) cur]
  let ?pr = "parent (coros sc ! c)" let ?sc' = "set_running m ?pr (finished c v sc)"
  note eq = finish_eq [OF sc(2,1) assms(2) sc(3), of v]
  have r: "runs_ok (coros sc) t ?pr" and s': "s' = s\<lparr>co_sched := Live ?sc', cpu := (cpu s)(t := (?pr, code_of m ?pr ?sc'))\<rparr>"
    using assms(3) eq(1) by (auto split: if_splits)
  have "keeps (coros sc) (coros ?sc')"
    unfolding eq(3) using c(1,3) by (auto simp: keeps_def nth_list_update RUNNING_def FINISHED_def)
  then show ?thesis using eq(2) [OF r] s' unfolding op_ok_def by simp
qed

subsection \<open>Every step keeps the invariant\<close>

lemma answer_ok:
  assumes "co_inv s" "co_sched s = Live sc"
  shows "op_ok sc (answer t k s r)"
  using assms by (simp add: op_ok_def answer_def cur_same)

lemma exec_ok:
  assumes "co_inv s" "co_exec t s = Some s'" "live s sc" "\<And>v. snd (cpu s t) = Return v \<Longrightarrow> fst (cpu s t) \<noteq> None"
  shows "op_ok sc s'"
proof -
  note ok = live_sched_ok [OF assms(1,3)]
  have inv': "co_inv (s\<lparr>co_sched := Live sc\<rparr>)" using ok by simp
  show ?thesis
  proof (cases "snd (cpu s t)")
    case (Return w)
    show ?thesis
    proof (cases "fst (cpu s t)")
      case None
      then show ?thesis using Return assms(4) by blast
    next
      case (Some c)
      then show ?thesis using Return assms finish_ok [OF assms(1) Some _ assms(3)] by (simp add: co_exec_def)
    qed
  next
    case (Start p k)
    then show ?thesis using assms(2) start_ok [OF assms(1) _ assms(3)] by (simp add: co_exec_def)
  next
    case (Yield k)
    then show ?thesis using assms(2) yield_ok [OF assms(1) _ assms(3)] by (simp add: co_exec_def)
  next
    case (GetId k)
    then obtain r sc0 where "s' = answer t k s r" "co_sched s = Live sc0"
      using assms(2) by (auto simp: co_exec_def co_getid_def co_deref_def split: option.splits sched_ptr.splits)
    then show ?thesis using answer_ok [OF assms(1)] assms(3) by simp
  next
    case (GetRet c k)
    then show ?thesis using assms(2) await_ok [OF assms(1) _ assms(3)] by (simp add: co_exec_def co_getret_def)
  next
    case (Status c k)
    then have "\<exists>r. s' = answer t k (s\<lparr>co_sched := Live sc\<rparr>) r" using assms(2,3) by (auto simp: co_exec_def live_def)
    then show ?thesis using answer_ok [OF inv'] by auto
  next
    case (Wait c k)
    then show ?thesis using assms(2) await_ok [OF assms(1) _ assms(3)] by (simp add: co_exec_def co_wait_def)
  next
    case (WaitAll k)
    then show ?thesis using assms(2) waitall_ok [OF assms(1) _ assms(3)] by (simp add: co_exec_def)
  qed
qed

lemma exec_cases:
  assumes "co_inv s" "co_exec t s = Some s'" "live s sc"
  shows "s' = s \<or> op_ok sc s'"
proof (cases "\<exists>v. cpu s t = (None, Return v)")
  case True
  then show ?thesis using assms(2) by (auto simp: co_exec_def)
next
  case False
  then have ne: "snd (cpu s t) = Return v \<Longrightarrow> fst (cpu s t) \<noteq> None" for v by (metis prod.collapse)
  have "op_ok sc s'" by (rule exec_ok [OF assms]) (rule ne)
  then show ?thesis by blast
qed

lemma op_ok_inv: "op_ok sc s' \<Longrightarrow> co_inv s'"
  by (auto simp: op_ok_def)

lemma reachable_inv: "co_reachable mains s \<Longrightarrow> co_inv s"
proof (induction rule: co_reachable.induct)
  case start
  then show ?case by (simp add: co_initial_def co_inv_def cur_of_def)
next
  case (step s s')
  obtain t where t: "co_exec t s = Some s'" using step.hyps(2) by (auto elim: co_stepE)
  obtain sc where "live s sc" by (rule live_ok [OF step.IH])
  then show ?case using exec_cases [OF step.IH t] step.IH op_ok_inv by blast
qed

end
