(* ===== verification/Coroutine_Correct.thy ===== *)
theory Coroutine_Correct
  imports Coroutine_Inv
begin

section \<open>What the coroutine library promises\<close>

text \<open>
  Claims about every reachable state of any number of threads, the run of a main routine that starts
  routines and waits for all of them, and two states in which the library goes wrong.
\<close>

subsection \<open>Routines that yield and return\<close>

text \<open>\<open>tame n v p\<close>: the code \<open>p\<close> returns \<open>v\<close> after at most \<open>n\<close> calls of \<open>co_yield\<close> and \<open>co_getid\<close>.\<close>

inductive tame :: "nat \<Rightarrow> int \<Rightarrow> proc \<Rightarrow> bool" where
  return: "tame n v (Return v)"
| yield: "(\<And>r. tame n v (k r)) \<Longrightarrow> tame (Suc n) v (Yield k)"
| getid: "(\<And>r. tame n v (k r)) \<Longrightarrow> tame (Suc n) v (GetId k)"

inductive_cases tameE: "tame n v p"

text \<open>The code that routine \<open>i\<close> has left, and the states in which the main routine of \<open>t\<close> is the only parent.\<close>

definition code_left :: "nat \<Rightarrow> co_state \<Rightarrow> co_scheduler \<Rightarrow> nat \<Rightarrow> proc" where
  "code_left t s sc i = (if fst (cpu s t) = Some i then snd (cpu s t) else uc (coros sc ! i))"

definition coro_flat :: "nat \<Rightarrow> co_state \<Rightarrow> co_scheduler \<Rightarrow> int list \<Rightarrow> (nat \<Rightarrow> nat) \<Rightarrow> nat \<Rightarrow> bool" where
  "coro_flat t s sc vs f i \<longleftrightarrow> tid (coros sc ! i) = t \<and> parent (coros sc ! i) = None \<and>
     (if status (coros sc ! i) = RUNNING then tame (f i) (vs ! i) (code_left t s sc i) else ret (coros sc ! i) = vs ! i)"

definition main_code :: "nat \<Rightarrow> co_state \<Rightarrow> co_scheduler \<Rightarrow> proc \<Rightarrow> bool" where
  "main_code t s sc M \<longleftrightarrow> (case fst (cpu s t) of None \<Rightarrow> snd (cpu s t) = M
     | Some c \<Rightarrow> \<exists>m. co_getmeta t sc = Some m \<and> main_uc (metas sc ! m) = M)"

definition flat :: "nat \<Rightarrow> co_scheduler \<Rightarrow> co_state \<Rightarrow> proc \<Rightarrow> int list \<Rightarrow> (nat \<Rightarrow> nat) \<Rightarrow> bool" where
  "flat t sc s M vs f \<longleftrightarrow> live s sc \<and> co_inv s \<and> length vs = length (coros sc) \<and>
     (\<forall>i < length vs. coro_flat t s sc vs f i) \<and> main_code t s sc M"

definition work :: "co_struct list \<Rightarrow> (nat \<Rightarrow> nat) \<Rightarrow> nat" where
  "work C f = (\<Sum>i < length C. if status (C ! i) = RUNNING then Suc (f i) else 0)"

lemma work_less:
  assumes "length C' = length C" "c < length C" "status (C ! c) = RUNNING" "status (C' ! c) = RUNNING \<Longrightarrow> f' c < f c"
    and "\<And>i. i < length C \<Longrightarrow> i \<noteq> c \<Longrightarrow> status (C' ! i) = status (C ! i) \<and> f' i = f i"
  shows "work C' f' < work C f"
  unfolding work_def assms(1)
proof (rule sum_strict_mono_ex1)
  let ?g = "\<lambda>C f i. if status (C ! i) = RUNNING then Suc (f i) else 0 :: nat"
  have lt: "?g C' f' c < ?g C f c" using assms(3,4) by simp
  have "?g C' f' i \<le> ?g C f i" if "i < length C" for i
    using assms(3,4) assms(5) [OF that] by (cases "i = c") (simp_all add: less_imp_le)
  then show "\<forall>i \<in> {..<length C}. ?g C' f' i \<le> ?g C f i" by blast
  show "\<exists>i \<in> {..<length C}. ?g C' f' i < ?g C f i" using lt assms(2) by blast
qed simp

lemma co_run_add: "co_run (a + b) t s = (case co_run a t s of None \<Rightarrow> None | Some s' \<Rightarrow> co_run b t s')"
  by (induction a arbitrary: s) (auto split: option.splits)

lemma save_some_views:
  assumes "sched_ok sc cur" "c < length (coros sc)"
  shows "coros (save_uc m (Some c) p sc) = (coros sc)[c := (coros sc ! c)\<lparr>uc := p\<rparr>]"
    "metas (save_uc m (Some c) p sc) = metas sc"
  using sched_okD [OF assms(1)] assms(2) by (simp_all add: save_uc_def)

lemma save_none_views:
  assumes "sched_ok sc cur" "m < length (metas sc)"
  shows "coros (save_uc m None p sc) = coros sc"
    "metas (save_uc m None p sc) = (metas sc)[m := (metas sc ! m)\<lparr>main_uc := p\<rparr>]"
  using sched_okD [OF assms(1)] assms(2) by (simp_all add: save_uc_def)

lemma running_views:
  assumes "sched_ok sc cur" "m < length (metas sc)"
  shows "coros (set_running m r sc) = coros sc" "metas (set_running m r sc) = (metas sc)[m := (metas sc ! m)\<lparr>running := r\<rparr>]"
  using sched_okD [OF assms(1)] assms(2) by (simp_all add: set_running_def)

subsection \<open>One step of a routine\<close>

lemma flat_current:
  assumes "flat t sc s M vs f" "fst (cpu s t) = Some c"
  obtains m where "co_sched s = Live sc" "sched_ok sc (cur_of s)" "co_getmeta t sc = Some m" "main_uc (metas sc ! m) = M"
    "c < length (coros sc)" "status (coros sc ! c) = RUNNING" "parent (coros sc ! c) = None"
    "tame (f c) (vs ! c) (snd (cpu s t))" "m < length (metas sc)"
proof -
  have inv: "co_inv s" "live s sc" using assms(1) by (simp_all add: flat_def)
  obtain sc0 m where m: "co_sched s = Live sc0" "sched_ok sc0 (cur_of s)" "co_getmeta t sc0 = Some m"
    by (rule current_live [OF inv(1) assms(2)])
  have e: "sc0 = sc" using m(1) inv(2) by simp
  have cur: "cur_of s t = Some c" using assms(2) by simp
  note c = current_ok [OF m(2) cur]
  have "coro_flat t s sc vs f c" using assms(1) c(1) e by (simp add: flat_def)
  moreover have "main_uc (metas sc ! m) = M" using assms m(3) e by (simp add: flat_def main_code_def)
  ultimately show ?thesis
    using that [of m] m c assms(2) e meta_current(2) [OF m(2,3)] by (simp add: coro_flat_def code_left_def)
qed

lemma flat_step_yield:
  assumes "flat t sc s M vs f" "fst (cpu s t) = Some c" "snd (cpu s t) = Yield k"
  shows "\<exists>sc' s' f'. co_exec t s = Some s' \<and> flat t sc' s' M vs f' \<and> work (coros sc') f' < work (coros sc) f"
proof -
  obtain m where m: "co_sched s = Live sc" "sched_ok sc (cur_of s)" "co_getmeta t sc = Some m" "main_uc (metas sc ! m) = M"
    "c < length (coros sc)" "status (coros sc ! c) = RUNNING" "parent (coros sc ! c) = None" "tame (f c) (vs ! c) (snd (cpu s t))"
    "m < length (metas sc)"
    by (rule flat_current [OF assms(1,2)])
  have inv: "co_inv s" "live s sc" using assms(1) by (simp_all add: flat_def)
  obtain n0 where n0: "f c = Suc n0" "tame n0 (vs ! c) (k 0)" using m(8) unfolding assms(3) by (auto elim: tameE)
  let ?n = "next_runnable t (Suc c) sc" let ?sc1 = "set_running m ?n sc" let ?sc2 = "save_uc m (Some c) (k 0) ?sc1"
  let ?s' = "s\<lparr>co_sched := Live ?sc2, cpu := (cpu s)(t := (?n, code_of m ?n ?sc2))\<rparr>"
  have nr: "runs_ok (coros sc) t ?n" by (rule next_runnable_runs [OF m(2)])
  have ne: "Some c \<noteq> ?n" using next_runnable_Some [OF m(2), of t "Suc c" c] by auto
  have ex: "co_exec t s = Some ?s'"
    using yield_eq [OF inv m(3), of "k 0"] ne assms(2,3) by (simp add: co_exec_def after_def)
  note ok1 = sched_ok_switch [OF m(2,3) nr] and m1 = getmeta_set_running [OF m(2,3) nr]
  note v1 = running_views [OF m(2,9), of ?n]
  have c1: "c < length (coros ?sc1)" using m(5) by simp
  note v2 = save_some_views [OF ok1 c1, of m "k 0"]
  have C': "coros ?sc2 = (coros sc)[c := (coros sc ! c)\<lparr>uc := k 0\<rparr>]" using v1 v2 by simp
  have T': "main_uc (metas ?sc2 ! m) = M" unfolding v2 v1 using m(4,9) by simp
  have inv': "co_inv ?s'" using op_ok_inv yield_ok [OF inv(1) _ inv(2)] ex assms(3) by (fastforce simp: co_exec_def)
  have m2: "co_getmeta t ?sc2 = Some m" by (rule sched_ok_save [OF ok1 m1, of t]) (use m(5,6) meta_current(3) [OF m(2,3)] current_ok(2) [OF m(2), of t c] assms(2) in \<open>simp add: runs_ok_def\<close>)
  let ?f' = "f(c := n0)"
  have "coro_flat t ?s' ?sc2 vs ?f' i" if i: "i < length vs" for i
  proof -
    have old: "coro_flat t s sc vs f i" "i < length (coros sc)" using assms(1) i by (simp_all add: flat_def)
    have code_n: "code_left t ?s' ?sc2 i = uc (coros ?sc2 ! i)" by (auto simp: code_left_def code_of_def)
    show ?thesis
    proof (cases "i = c")
      case True
      then show ?thesis using old n0(2) m(5,6) unfolding coro_flat_def code_n C' by simp
    next
      case False
      then show ?thesis using old assms(2) unfolding coro_flat_def code_n C' by (simp add: code_left_def split: if_splits)
    qed
  qed
  moreover have "main_code t ?s' ?sc2 M" using T' m2 by (auto simp: main_code_def code_of_def split: option.splits)
  ultimately have "flat t ?sc2 ?s' M vs ?f'" using assms(1) inv' by (simp add: flat_def C')
  moreover have "work (coros ?sc2) ?f' < work (coros sc) f"
    unfolding C' by (rule work_less [where c = c]) (use m(5,6) n0(1) in simp_all)
  ultimately show ?thesis using ex by blast
qed

lemma flat_step_getid:
  assumes "flat t sc s M vs f" "fst (cpu s t) = Some c" "snd (cpu s t) = GetId k"
  shows "\<exists>sc' s' f'. co_exec t s = Some s' \<and> flat t sc' s' M vs f' \<and> work (coros sc') f' < work (coros sc) f"
proof -
  obtain m where m: "co_sched s = Live sc" "sched_ok sc (cur_of s)" "co_getmeta t sc = Some m" "main_uc (metas sc ! m) = M"
    "c < length (coros sc)" "status (coros sc ! c) = RUNNING" "parent (coros sc ! c) = None" "tame (f c) (vs ! c) (snd (cpu s t))"
    "m < length (metas sc)"
    by (rule flat_current [OF assms(1,2)])
  obtain n0 where n0: "f c = Suc n0" "\<And>r. tame n0 (vs ! c) (k r)" using m(8) unfolding assms(3) by (auto elim: tameE)
  have "running (metas sc ! m) = Some c" using meta_current(1) [OF m(2,3)] assms(2) by simp
  then have id: "co_getid t s = Some (cid (coros sc ! c))"
    using m(1,3,5,9) sched_okD [OF m(2)] by (simp add: co_getid_def co_deref_def meta_at_def)
  let ?s' = "answer t k s (cid (coros sc ! c))" let ?f' = "f(c := n0)"
  have ex: "co_exec t s = Some ?s'" using id assms(3) by (simp add: co_exec_def)
  have cpu: "cpu ?s' t = (Some c, k (cid (coros sc ! c)))" using assms(2) by (simp add: answer_def)
  have inv': "co_inv ?s'" "live ?s' sc" using m(1,2) by (simp_all add: answer_def cur_same)
  have "coro_flat t ?s' sc vs ?f' i" if i: "i < length vs" for i
  proof -
    have old: "coro_flat t s sc vs f i" using assms(1) i by (simp add: flat_def)
    show ?thesis
    proof (cases "i = c")
      case True
      then show ?thesis using old n0(2) m(6) by (simp add: coro_flat_def code_left_def cpu)
    next
      case False
      then show ?thesis using old assms(2) by (simp add: coro_flat_def code_left_def cpu split: if_splits)
    qed
  qed
  then have "flat t sc ?s' M vs ?f'" using assms(1) inv' m(3,4) by (simp add: flat_def main_code_def cpu)
  moreover have "work (coros sc) ?f' < work (coros sc) f"
    by (rule work_less [where c = c]) (use m(5,6) n0(1) in simp_all)
  ultimately show ?thesis using ex by blast
qed

lemma flat_step_return:
  assumes "flat t sc s M vs f" "fst (cpu s t) = Some c" "snd (cpu s t) = Return v"
  shows "\<exists>sc' s' f'. co_exec t s = Some s' \<and> flat t sc' s' M vs f' \<and> work (coros sc') f' < work (coros sc) f"
proof -
  obtain m where m: "co_sched s = Live sc" "sched_ok sc (cur_of s)" "co_getmeta t sc = Some m" "main_uc (metas sc ! m) = M"
    "c < length (coros sc)" "status (coros sc ! c) = RUNNING" "parent (coros sc ! c) = None" "tame (f c) (vs ! c) (snd (cpu s t))"
    "m < length (metas sc)"
    by (rule flat_current [OF assms(1,2)])
  have v: "v = vs ! c" using m(8) unfolding assms(3) by (auto elim: tameE)
  let ?sc' = "set_running m None (finished c v sc)"
  let ?s' = "s\<lparr>co_sched := Live ?sc', cpu := (cpu s)(t := (None, code_of m None ?sc'))\<rparr>"
  note eq = finish_eq [OF m(2,1) assms(2) m(3), of v, unfolded m(7)]
  have rn: "runs_ok (coros sc) t None" by (simp add: runs_ok_def)
  have ex: "co_exec t s = Some ?s'" using eq(1) rn assms(2,3) by (simp add: co_exec_def)
  have inv': "co_inv ?s'" using eq(2) [OF rn] by simp
  have M: "code_of m None ?sc' = M"
    using m(4,9) sched_okD [OF m(2)] by (simp add: code_of_def set_running_def finished_def)
  have "coro_flat t ?s' ?sc' vs f i" if i: "i < length vs" for i
  proof -
    have old: "coro_flat t s sc vs f i" "i < length (coros sc)" using assms(1) i by (simp_all add: flat_def)
    show ?thesis
    proof (cases "i = c")
      case True
      then show ?thesis using old v m(5) unfolding coro_flat_def eq(3) by (simp add: RUNNING_def FINISHED_def)
    next
      case False
      then show ?thesis using old assms(2) unfolding coro_flat_def code_left_def eq(3) by (simp split: if_splits)
    qed
  qed
  then have "flat t ?sc' ?s' M vs f" using assms(1) inv' M unfolding flat_def eq(3) by (simp add: main_code_def)
  moreover have "work (coros ?sc') f < work (coros sc) f"
    unfolding eq(3) by (rule work_less [where c = c]) (use m(5,6) in \<open>simp_all add: RUNNING_def FINISHED_def\<close>)
  ultimately show ?thesis using ex by blast
qed

lemma flat_step:
  assumes "flat t sc s M vs f" "fst (cpu s t) = Some c"
  shows "\<exists>sc' s' f'. co_exec t s = Some s' \<and> flat t sc' s' M vs f' \<and> work (coros sc') f' < work (coros sc) f"
proof -
  have t: "tame (f c) (vs ! c) (snd (cpu s t))" by (rule flat_current [OF assms])
  from t show ?thesis
  proof (cases rule: tame.cases)
    case return
    then show ?thesis using flat_step_return [OF assms] by blast
  next
    case (yield n k)
    then show ?thesis using flat_step_yield [OF assms] by blast
  next
    case (getid n k)
    then show ?thesis using flat_step_getid [OF assms] by blast
  qed
qed

lemma flat_to_main:
  assumes "flat t sc s M vs f"
  shows "\<exists>n sc' s' f'. co_run n t s = Some s' \<and> flat t sc' s' M vs f' \<and> cpu s' t = (None, M) \<and>
    work (coros sc') f' \<le> work (coros sc) f"
  using assms
proof (induction "work (coros sc) f" arbitrary: sc s f rule: less_induct)
  case less
  show ?case
  proof (cases "fst (cpu s t)")
    case None
    then have "cpu s t = (None, M)" using less.prems by (simp add: flat_def main_code_def prod_eq_iff)
    then show ?thesis using less.prems by (intro exI [of _ 0] exI [of _ sc] exI [of _ s] exI [of _ f]) simp
  next
    case (Some c)
    obtain sc1 s1 f1 where s1: "co_exec t s = Some s1" "flat t sc1 s1 M vs f1" "work (coros sc1) f1 < work (coros sc) f"
      using flat_step [OF less.prems Some] by blast
    obtain n sc' s' f' where n: "co_run n t s1 = Some s'" "flat t sc' s' M vs f'" "cpu s' t = (None, M)"
        "work (coros sc') f' \<le> work (coros sc1) f1"
      using less.hyps [OF s1(3,2)] by blast
    then show ?thesis using s1(1,3) by (intro exI [of _ "Suc n"] exI [of _ sc'] exI [of _ s'] exI [of _ f']) simp
  qed
qed

subsection \<open>A main routine that starts routines and waits for all of them\<close>

primrec launch :: "proc list \<Rightarrow> (int \<Rightarrow> proc) \<Rightarrow> proc" where
  "launch [] K = WaitAll K"
| "launch (p # ps) K = Start p (\<lambda>_. launch ps K)"

definition all_finished :: "co_struct list \<Rightarrow> int list \<Rightarrow> bool" where
  "all_finished C vs \<longleftrightarrow> length C = length vs \<and>
     (\<forall>i < length vs. cid (C ! i) = int i \<and> status (C ! i) = FINISHED \<and> ret (C ! i) = vs ! i)"

lemma flat_ids:
  assumes "flat t sc s M vs f"
  shows "sched_ok sc (cur_of s)" "length vs = length (coros sc)"
    "\<And>i. i < length vs \<Longrightarrow> cid (coros sc ! i) = int i \<and> status (coros sc ! i) \<in> {RUNNING, FINISHED}"
proof -
  show ok: "sched_ok sc (cur_of s)" and len: "length vs = length (coros sc)"
    using assms live_sched_ok by (auto simp: flat_def)
  show "cid (coros sc ! i) = int i \<and> status (coros sc ! i) \<in> {RUNNING, FINISHED}" if "i < length vs" for i
  proof -
    have "coro_ok (metas sc) (coros sc) i" using ok len that by (simp add: sched_ok_def co_wf_def)
    then show ?thesis by (simp add: coro_ok_def)
  qed
qed

lemma waitall_done:
  assumes "flat t sc s (WaitAll K) vs f" "cpu s t = (None, WaitAll K)" "\<forall>i < length vs. status (coros sc ! i) = FINISHED"
  shows "\<exists>s' sc'. co_exec t s = Some s' \<and> cpu s' t = (None, K 0) \<and> co_sched s' = Live sc' \<and> all_finished (coros sc') vs"
proof -
  note i = flat_ids [OF assms(1)]
  have lv: "live s sc" and fl: "\<forall>i < length vs. coro_flat t s sc vs f i" using assms(1) by (simp_all add: flat_def)
  have "\<forall>x \<in> set (coros sc). status x = FINISHED" using assms(3) i(2) by (auto simp: in_set_conv_nth)
  then have "co_exec t s = Some (s\<lparr>co_sched := Live sc, cpu := (cpu s)(t := (None, K 0))\<rparr>)"
    using lv assms(2) carr.all_get [OF sched_okD(2), of sc "cur_of s" "\<lambda>x. status x = FINISHED"] i(1)
    by (simp add: co_exec_def co_waitall_def live_def del: array_rules)
  moreover have "all_finished (coros sc) vs"
    using i(2,3) fl assms(3) by (auto simp: all_finished_def coro_flat_def RUNNING_def FINISHED_def)
  ultimately show ?thesis by (intro exI [of _ "s\<lparr>co_sched := Live sc, cpu := (cpu s)(t := (None, K 0))\<rparr>"] exI [of _ sc]) simp
qed

lemma waitall_step:
  assumes "flat t sc s (WaitAll K) vs f" "cpu s t = (None, WaitAll K)" "j < length vs" "status (coros sc ! j) \<noteq> FINISHED"
  shows "\<exists>s' sc' c. co_exec t s = Some s' \<and> flat t sc' s' (WaitAll K) vs f \<and> fst (cpu s' t) = Some c \<and> work (coros sc') f = work (coros sc) f"
proof -
  note ids = flat_ids [OF assms(1)]
  have lv: "live s sc" and fl: "\<forall>i < length vs. coro_flat t s sc vs f i" and inv0: "co_inv s"
    using assms(1) by (simp_all add: flat_def)
  let ?s0 = "s\<lparr>co_sched := Live sc\<rparr>"
  note ok = ids(1)
  have inv: "co_inv ?s0" "live ?s0 sc" using ok by simp_all
  have tj: "tid (coros sc ! j) = t" "status (coros sc ! j) = RUNNING" "j < length (coros sc)"
    using fl ids(2) ids(3) [OF assms(3)] assms(3,4) by (auto simp: coro_flat_def)
  then have "t \<in> mtid ` set (metas sc)" using ok by (auto simp: sched_ok_def co_wf_def coro_ok_def)
  then obtain m where m: "co_getmeta t sc = Some m" using getmeta_None [OF ok] by (cases "co_getmeta t sc") auto
  note mm = meta_current [OF ok m]
  obtain c where n: "next_runnable t 0 sc = Some c" using next_runnable_None [OF ok, of t 0] tj by (cases "next_runnable t 0 sc") auto
  have nr: "runs_ok (coros sc) t (Some c)" using next_runnable_runs [OF ok, of t 0] n by simp
  let ?sc1 = "set_running m (Some c) sc" let ?sc2 = "save_uc m None (WaitAll K) ?sc1"
  let ?s' = "?s0\<lparr>co_sched := Live ?sc2, cpu := (cpu s)(t := (Some c, code_of m (Some c) ?sc2))\<rparr>"
  have "\<not> (\<forall>x \<in> set (coros sc). status x = FINISHED)" using assms(4) tj(3) nth_mem by blast
  then have nall: "\<not> (\<forall>i \<in> set [0..<len (cinfo sc)]. case co_array_get (cinfo sc) i of Some x \<Rightarrow> status x = FINISHED | None \<Rightarrow> False)"
    unfolding carr.all_get [OF sched_okD(2) [OF ok]] .
  have ex: "co_exec t s = co_yield t (WaitAll K) ?s0"
    using lv assms(2) by (simp add: co_exec_def co_waitall_def live_def if_not_P [OF nall] del: array_rules set_upt)
  have ex': "co_exec t s = Some ?s'"
    using yield_eq [OF inv m, of "WaitAll K"] assms(2) n by (simp add: ex after_def)
  have "co_yield t (WaitAll K) ?s0 = Some ?s'" using ex ex' by simp
  then have inv': "co_inv ?s'" by (rule op_ok_inv [OF yield_ok [OF inv(1) _ inv(2)]])
  note v1 = running_views [OF ok mm(2), of "Some c"]
  note ok1 = sched_ok_switch [OF ok m nr] and m1 = getmeta_set_running [OF ok m nr]
  have m1l: "m < length (metas ?sc1)" using v1 mm(2) by simp
  note v2 = save_none_views [OF ok1 m1l, of "WaitAll K"]
  have C': "coros ?sc2 = coros sc" using v1 v2 by simp
  have rn: "runs_ok (coros ?sc1) t None" by (simp add: runs_ok_def)
  have m2: "co_getmeta t ?sc2 = Some m" by (rule sched_ok_save [OF ok1 m1 rn])
  have "coro_flat t ?s' ?sc2 vs f i" if i: "i < length vs" for i
  proof -
    have old: "coro_flat t s sc vs f i" using fl i by simp
    have "code_left t ?s' ?sc2 i = code_left t s sc i" using assms(2) by (simp add: code_left_def code_of_def C')
    then show ?thesis using old by (simp add: coro_flat_def C')
  qed
  moreover have "main_code t ?s' ?sc2 (WaitAll K)" using m2 v2(2) m1l by (simp add: main_code_def)
  ultimately have "flat t ?sc2 ?s' (WaitAll K) vs f" using ids(2) inv' by (simp add: flat_def C')
  then show ?thesis using ex' by (intro exI [of _ ?s'] exI [of _ ?sc2] exI [of _ c]) (simp add: C')
qed

lemma waitall_run:
  assumes "flat t sc s (WaitAll K) vs f"
  shows "\<exists>n s' sc'. co_run n t s = Some s' \<and> cpu s' t = (None, K 0) \<and> co_sched s' = Live sc' \<and> all_finished (coros sc') vs"
  using assms
proof (induction "work (coros sc) f" arbitrary: sc s f rule: less_induct)
  case less
  obtain n0 sc0 s0 f0 where a: "co_run n0 t s = Some s0" "flat t sc0 s0 (WaitAll K) vs f0" "cpu s0 t = (None, WaitAll K)"
      "work (coros sc0) f0 \<le> work (coros sc) f"
    using flat_to_main [OF less.prems] by blast
  show ?case
  proof (cases "\<forall>i < length vs. status (coros sc0 ! i) = FINISHED")
    case True
    obtain s' sc' where e: "co_exec t s0 = Some s'" "cpu s' t = (None, K 0)" "co_sched s' = Live sc'" "all_finished (coros sc') vs"
      using waitall_done [OF a(2,3) True] by blast
    have "co_run (n0 + 1) t s = Some s'" unfolding co_run_add using a(1) e(1) by simp
    then show ?thesis using e by blast
  next
    case False
    then obtain j where "j < length vs" "status (coros sc0 ! j) \<noteq> FINISHED" by blast
    then obtain s1 sc1 c where b: "co_exec t s0 = Some s1" "flat t sc1 s1 (WaitAll K) vs f0" "fst (cpu s1 t) = Some c"
        "work (coros sc1) f0 = work (coros sc0) f0"
      using waitall_step [OF a(2,3)] by blast
    obtain sc2 s2 f2 where d: "co_exec t s1 = Some s2" "flat t sc2 s2 (WaitAll K) vs f2" "work (coros sc2) f2 < work (coros sc1) f0"
      using flat_step [OF b(2,3)] by blast
    have "work (coros sc2) f2 < work (coros sc) f" using d(3) b(4) a(4) by simp
    then obtain n s' sc' where e: "co_run n t s2 = Some s'" "cpu s' t = (None, K 0)" "co_sched s' = Live sc'" "all_finished (coros sc') vs"
      using less.hyps d(2) by blast
    have "co_run (n0 + Suc (Suc n)) t s = Some s'" unfolding co_run_add using a(1) b(1) d(1) e(1) by simp
    then show ?thesis using e by blast
  qed
qed

lemma start_step:
  assumes "flat t sc s (Start p k) vs f" "cpu s t = (None, Start p k)" "tame n v p"
  shows "\<exists>s' sc' f'. co_exec t s = Some s' \<and> flat t sc' s' (k (int (length vs))) (vs @ [v]) f'"
proof -
  have lv: "live s sc" "co_inv s" and fl: "\<forall>i < length vs. coro_flat t s sc vs f i" and len: "length vs = length (coros sc)"
    using assms(1) by (simp_all add: flat_def)
  let ?c = "length (coros sc)"
  let ?new = "\<lparr>cid = int ?c, tid = t, parent = None, stack = True, uc = p, uc_link = None, status = RUNNING, ret = -1\<rparr>"
  have cur: "fst (cpu s t) = None" using assms(2) by simp
  obtain m sc0 where st:
    "co_start t p k s = Some (s\<lparr>co_sched := Live (save_uc m None (k (int ?c)) sc0),
        cpu := (cpu s)(t := (Some ?c, code_of m (Some ?c) (save_uc m None (k (int ?c)) sc0)))\<rparr>)"
    "sched_ok sc0 ((cur_of s)(t := Some ?c))" "co_getmeta t sc0 = Some m" "coros sc0 = coros sc @ [?new]"
    by (rule start_eq [OF lv(2,1), of t p k, unfolded cur]) blast
  let ?sc' = "save_uc m None (k (int ?c)) sc0"
  let ?s' = "s\<lparr>co_sched := Live ?sc', cpu := (cpu s)(t := (Some ?c, code_of m (Some ?c) ?sc'))\<rparr>"
  let ?f' = "f(?c := n)"
  have ml: "m < length (metas sc0)" using meta_current(2) [OF st(2,3)] .
  note v = save_none_views [OF st(2) ml, of "k (int ?c)"]
  have C': "coros ?sc' = coros sc @ [?new]" using v st(4) by simp
  have ex: "co_exec t s = Some ?s'" using st(1) assms(2) by (simp add: co_exec_def)
  have inv': "co_inv ?s'" using op_ok_inv [OF start_ok [OF lv(2) st(1) lv(1)]] .
  have m2: "co_getmeta t ?sc' = Some m" by (rule sched_ok_save [OF st(2,3), of t]) (simp add: runs_ok_def)
  have "coro_flat t ?s' ?sc' (vs @ [v]) ?f' i" if i: "i < length (vs @ [v])" for i
  proof (cases "i < length vs")
    case True
    then have "code_left t ?s' ?sc' i = code_left t s sc i" using cur len by (simp add: code_left_def C' nth_append)
    then show ?thesis using fl True len by (simp add: coro_flat_def C' nth_append)
  next
    case False
    then have "i = ?c" using i len by simp
    then show ?thesis using assms(3) len by (simp add: coro_flat_def code_left_def code_of_def C' nth_append)
  qed
  moreover have "main_code t ?s' ?sc' (k (int ?c))" using m2 v(2) ml by (simp add: main_code_def)
  ultimately have "flat t ?sc' ?s' (k (int ?c)) (vs @ [v]) ?f'" using inv' len by (simp add: flat_def C')
  then show ?thesis using ex len by (intro exI [of _ ?s'] exI [of _ ?sc'] exI [of _ ?f']) simp
qed

lemma launch_run:
  assumes "flat t sc s (launch ps K) us f" "list_all2 (\<lambda>p v. \<exists>n. tame n v p) ps vs"
  shows "\<exists>n s' sc'. co_run n t s = Some s' \<and> cpu s' t = (None, K 0) \<and> co_sched s' = Live sc' \<and> all_finished (coros sc') (us @ vs)"
  using assms
proof (induction ps arbitrary: sc s us vs f)
  case Nil
  then show ?case using waitall_run by simp
next
  case (Cons p ps)
  obtain v ws n where vs: "vs = v # ws" "tame n v p" "list_all2 (\<lambda>p v. \<exists>n. tame n v p) ps ws"
    using Cons.prems(2) by (auto simp: list_all2_Cons1)
  obtain n0 sc0 s0 f0 where a: "co_run n0 t s = Some s0" "flat t sc0 s0 (launch (p # ps) K) us f0" "cpu s0 t = (None, launch (p # ps) K)"
    using flat_to_main [OF Cons.prems(1)] by blast
  obtain s1 sc1 f1 where b: "co_exec t s0 = Some s1" "flat t sc1 s1 (launch ps K) (us @ [v]) f1"
    using start_step [OF _ _ vs(2)] a(2,3) by (metis launch.simps(2))
  obtain n1 s' sc' where c: "co_run n1 t s1 = Some s'" "cpu s' t = (None, K 0)" "co_sched s' = Live sc'"
      "all_finished (coros sc') ((us @ [v]) @ ws)"
    using Cons.IH [OF b(2) vs(3)] by blast
  have "co_run (n0 + Suc n1) t s = Some s'" unfolding co_run_add using a(1) b(1) c(1) by simp
  moreover have "all_finished (coros sc') (us @ vs)" using c(4) vs(1) by simp
  ultimately show ?case using c(2,3) by blast
qed

lemma flat_initial: "flat t \<lparr>tinfo = co_array_create, cinfo = co_array_create\<rparr> (co_initial mains) (mains t) [] f"
  by (simp add: flat_def live_def co_initial_def co_scheduler_init_def co_deref_def co_inv_def cur_of_def main_code_def)

subsection \<open>The claims\<close>

lemma reach_one: "co_exec 0 (co_initial mains) = Some s \<Longrightarrow> co_reachable mains s"
  by (rule co_reachable.step [OF co_reachable.start co_step.exec])

text \<open>C14: the scheduler never loses track of what runs. In every state that any threads can reach with any
  routines, whenever the scheduler exists: the routine recorded as running for a thread is the one that
  executes there, it is an unfinished routine of that thread, the identifier of a routine is its place in the
  list, its parent is an older routine of the same thread and is the context it returns to, it owns its stack
  exactly while it has not finished, and a thread has one entry.\<close>

theorem scheduler_invariant:
  assumes "co_reachable mains s" "co_sched s = Live sc"
  shows "distinct (map mtid (metas sc)) \<and>
    (\<forall>m \<in> set (metas sc). running m = fst (cpu s (mtid m))) \<and>
    (\<forall>t c. fst (cpu s t) = Some c \<longrightarrow> c < length (coros sc) \<and> tid (coros sc ! c) = t \<and> status (coros sc ! c) = RUNNING) \<and>
    (\<forall>i < length (coros sc). cid (coros sc ! i) = int i \<and> (stack (coros sc ! i) \<longleftrightarrow> status (coros sc ! i) = RUNNING) \<and>
       uc_link (coros sc ! i) = parent (coros sc ! i) \<and>
       (\<forall>p. parent (coros sc ! i) = Some p \<longrightarrow> p < i \<and> tid (coros sc ! p) = tid (coros sc ! i)))"
proof -
  have ok: "sched_ok sc (cur_of s)" using reachable_inv [OF assms(1)] assms(2) by simp
  show ?thesis
  proof (intro conjI)
    show "\<forall>t c. fst (cpu s t) = Some c \<longrightarrow> c < length (coros sc) \<and> tid (coros sc ! c) = t \<and> status (coros sc ! c) = RUNNING"
      using current_ok [OF ok] by simp
  qed (use ok in \<open>simp_all add: sched_ok_def co_wf_def coro_ok_def\<close>)
qed

text \<open>The state after the main routine of thread 0 has started one routine.\<close>

lemma one_started:
  "\<exists>s sc. co_reachable (\<lambda>_. Start p Return) s \<and> co_sched s = Live sc \<and> length (coros sc) = 1 \<and>
     cpu s 0 = (Some 0, p) \<and> 0 \<in> mtid ` set (metas sc)"
proof -
  let ?s = "co_initial (\<lambda>_. Start p Return)"
  have inv: "co_inv ?s" and lv: "live ?s \<lparr>tinfo = co_array_create, cinfo = co_array_create\<rparr>"
    using flat_initial by (simp_all add: flat_def)
  obtain m sc0 code where st: "co_start 0 p Return ?s =
      Some (?s\<lparr>co_sched := Live (save_uc m None (Return (int 0)) sc0), cpu := (cpu ?s)(0 := (Some 0, code))\<rparr>)"
    "code = code_of m (Some 0) (save_uc m None (Return (int 0)) sc0)" "sched_ok sc0 ((cur_of ?s)(0 := Some 0))" "co_getmeta 0 sc0 = Some m"
    "coros sc0 = [\<lparr>cid = 0, tid = 0, parent = None, stack = True, uc = p, uc_link = None, status = RUNNING, ret = -1\<rparr>]"
    by (rule start_eq [OF inv lv, of 0 p Return]) (simp add: co_initial_def)
  let ?sc = "save_uc m None (Return (int 0)) sc0"
  let ?t = "?s\<lparr>co_sched := Live ?sc, cpu := (cpu ?s)(0 := (Some 0, code))\<rparr>"
  note mm = meta_current [OF st(3,4)]
  note v = save_none_views [OF st(3) mm(2), of "Return (int 0)"]
  have "co_exec 0 ?s = Some ?t" using st(1) by (simp add: co_exec_def co_initial_def)
  then have "co_reachable (\<lambda>_. Start p Return) ?t" by (rule reach_one)
  moreover have "mtid (metas ?sc ! m) = 0" "m < length (metas ?sc)" using v(2) mm by simp_all
  then have "0 \<in> mtid ` set (metas ?sc)" by (metis image_eqI nth_mem)
  moreover have "code = p" using v(1) st(2,5) by (simp add: code_of_def)
  ultimately show ?thesis using v(1) st(5) by (intro exI [of _ ?t] exI [of _ ?sc]) simp
qed

theorem scheduler_invariant_witness:
  "\<exists>s sc. co_reachable (\<lambda>_. Start (Return 7) Return) s \<and> co_sched s = Live sc \<and>
     distinct (map mtid (metas sc)) \<and> tid (coros sc ! 0) = 0 \<and> status (coros sc ! 0) = RUNNING"
proof -
  obtain s sc where s: "co_reachable (\<lambda>_. Start (Return 7) Return) s" "co_sched s = Live sc" "cpu s 0 = (Some 0, Return 7)"
    using one_started by blast
  have "fst (cpu s 0) = Some 0" using s(3) by simp
  then show ?thesis using scheduler_invariant [OF s(1,2)] s(1,2) by blast
qed

text \<open>C15: \<open>co_waitall\<close> comes back, and finds every routine finished with its own result. When the main routine
  of a thread starts routines that only yield and return, it is resumed after finitely many steps with the
  answer 0; there are then as many routines as were started, numbered in that order, each of them finished,
  each with the value it returned.\<close>

theorem waitall_returns:
  assumes "mains t = launch ps K" "list_all2 (\<lambda>p v. \<exists>n. tame n v p) ps vs"
  shows "\<exists>n s sc. co_run n t (co_initial mains) = Some s \<and> cpu s t = (None, K 0) \<and> co_sched s = Live sc \<and> all_finished (coros sc) vs"
  using launch_run [OF flat_initial [of t mains "\<lambda>_. 0", unfolded assms(1)] assms(2)] by simp

theorem waitall_returns_witness:
  "\<exists>n s sc. co_run n 0 (co_initial (\<lambda>_. launch [Yield (\<lambda>_. Yield (\<lambda>_. Return 5)), GetId (\<lambda>_. Return 6), Yield (\<lambda>_. Return 7)] Return)) = Some s \<and>
     cpu s 0 = (None, Return 0) \<and> co_sched s = Live sc \<and> all_finished (coros sc) [5, 6, 7]"
  by (rule waitall_returns [OF refl])
    (auto intro: tame.intros intro!: exI [of _ "Suc (Suc 0)"])

inductive co_steps :: "co_state \<Rightarrow> co_state \<Rightarrow> bool" where
  refl: "co_steps s s"
| step: "co_steps s s' \<Longrightarrow> co_step s' s'' \<Longrightarrow> co_steps s s''"

lemma steps_reachable: "co_steps s s' \<Longrightarrow> co_reachable mains s \<Longrightarrow> co_reachable mains s'"
  by (induction rule: co_steps.induct) (auto intro: co_reachable.step)

lemma steps_keep:
  "co_steps s s' \<Longrightarrow> co_inv s \<Longrightarrow> live s sc \<Longrightarrow> co_inv s' \<and> (\<exists>sc'. live s' sc' \<and> keeps (coros sc) (coros sc'))"
proof (induction rule: co_steps.induct)
  case (refl s)
  then show ?case by (auto intro: keeps_refl)
next
  case (step s s' s'')
  then obtain sc' where sc': "co_inv s'" "live s' sc'" "keeps (coros sc) (coros sc')" by blast
  obtain t where "co_exec t s' = Some s''" using step.hyps(2) by (auto elim: co_stepE)
  then have "s'' = s' \<or> op_ok sc' s''" using exec_cases sc' by blast
  then show ?case
  proof
    assume "op_ok sc' s''"
    then show ?thesis using sc'(3) op_ok_inv by (auto simp: op_ok_def intro: keeps_trans)
  qed (use sc' in blast)
qed

text \<open>A result, once there, stays. In every run of any threads from a reachable state, a routine that has
  finished stays finished and keeps the value it returned, so \<open>co_getret\<close> of it answers the same value for
  ever; the list of routines only grows.\<close>

lemma result_is_stable:
  assumes "co_reachable mains s" "co_sched s = Live sc" "co_steps s s'" "i < length (coros sc)" "status (coros sc ! i) = FINISHED"
  shows "\<exists>sc'. co_sched s' = Live sc' \<and> length (coros sc) \<le> length (coros sc') \<and>
    co_getret t (int i) k s' = Some (s'\<lparr>cpu := (cpu s')(t := (fst (cpu s' t), k (ret (coros sc ! i))))\<rparr>)"
proof -
  have "live s sc" using assms(2) by simp
  then obtain sc' where sc': "co_inv s'" "live s' sc'" "keeps (coros sc) (coros sc')"
    using steps_keep [OF assms(3) reachable_inv [OF assms(1)]] by blast
  have lv: "co_sched s' = Live sc'"
  proof (cases "co_sched s'")
    case Null
    then have "coros sc' = []" using sc'(2) by (auto simp: live_def co_scheduler_init_def co_deref_def)
    then show ?thesis using sc'(3) assms(4) by (simp add: keeps_def)
  qed (use sc'(1,2) in \<open>simp_all add: live_def co_scheduler_init_def co_deref_def\<close>)
  have ok: "sched_ok sc' (cur_of s')" using sc'(1) lv by simp
  have "i < length (coros sc')" "status (coros sc' ! i) = FINISHED" "ret (coros sc' ! i) = ret (coros sc ! i)" "length (coros sc) \<le> length (coros sc')"
    using sc'(3) assms(4,5) by (auto simp: keeps_def)
  then show ?thesis
    using lv sched_okD [OF ok] sc'(2) by (simp add: co_getret_def co_await_def live_def)
qed

lemma run_reachable: "co_run n t s = Some s' \<Longrightarrow> co_reachable mains s \<Longrightarrow> co_reachable mains s'"
  by (induction n arbitrary: s) (auto split: option.splits dest: co_reachable.step [OF _ co_step.exec])

lemma one_finished:
  "\<exists>s sc. co_reachable (\<lambda>_. launch [Return 7] Return) s \<and> co_sched s = Live sc \<and> all_finished (coros sc) [7]"
proof -
  let ?s = "co_initial (\<lambda>_. launch [Return 7] Return)"
  have "list_all2 (\<lambda>p v. \<exists>n. tame n v p) [Return 7] [7]" by (auto intro: tame.return)
  from launch_run [OF flat_initial [of 0 "\<lambda>_. launch [Return 7] Return" "\<lambda>_. 0"] this]
  obtain n s sc where "co_run n 0 ?s = Some s" "co_sched s = Live sc" "all_finished (coros sc) [7]" by auto
  then show ?thesis using run_reachable [OF _ co_reachable.start] by blast
qed


text \<open>\<open>co_status\<close> of an identifier that is not given yet. The identifiers below 0 and above the number of
  routines are answered with \<open>UNAUTHORIZED\<close>, but the number of routines itself passes the test \<open>cid > len\<close>:
  the slot behind the last routine, which was never written or lies outside the array, is dereferenced.\<close>

theorem status_off_by_one:
  assumes "co_reachable mains s" "co_sched s = Live sc"
  shows "co_status t (int (length (coros sc))) sc = None \<and>
    (\<forall>c. c < 0 \<or> int (length (coros sc)) < c \<longrightarrow> co_status t c sc = Some UNAUTHORIZED)"
proof -
  have ok: "sched_ok sc (cur_of s)" using reachable_inv [OF assms(1)] assms(2) by simp
  show ?thesis using sched_okD [OF ok] by (simp add: co_status_def)
qed

theorem status_off_by_one_witness:
  "\<exists>s sc. co_reachable (\<lambda>_. Start (Return 7) Return) s \<and> co_sched s = Live sc \<and>
     co_status 0 1 sc = None \<and> co_status 0 2 sc = Some UNAUTHORIZED"
proof -
  obtain s sc where s: "co_reachable (\<lambda>_. Start (Return 7) Return) s" "co_sched s = Live sc" "length (coros sc) = 1"
    using one_started by blast
  show ?thesis using status_off_by_one [OF s(1,2), of 0] s by auto
qed

text \<open>C16: \<open>co_yield\<close> is fair to younger routines. In every reachable state a thread that yields goes on, without
  failing, with the oldest unfinished routine of its own that is younger than the one that yields (any of its
  routines when the main routine yields), at the place where that routine was suspended, and with the main
  routine when there is none; the other threads are not touched.\<close>

theorem yield_resumes_next:
  assumes "co_reachable mains s" "co_sched s = Live sc" "cpu s t = (r, Yield k)" "t \<in> mtid ` set (metas sc)"
  shows "\<exists>s'. co_exec t s = Some s' \<and> (\<forall>u. u \<noteq> t \<longrightarrow> cpu s' u = cpu s u) \<and>
    (case fst (cpu s' t) of
       None \<Rightarrow> \<forall>j. after r \<le> j \<and> j < length (coros sc) \<longrightarrow> tid (coros sc ! j) \<noteq> t \<or> status (coros sc ! j) \<noteq> RUNNING
     | Some i \<Rightarrow> after r \<le> i \<and> i < length (coros sc) \<and> tid (coros sc ! i) = t \<and> status (coros sc ! i) = RUNNING \<and>
         snd (cpu s' t) = uc (coros sc ! i) \<and>
         (\<forall>j. after r \<le> j \<and> j < i \<longrightarrow> tid (coros sc ! j) \<noteq> t \<or> status (coros sc ! j) \<noteq> RUNNING))"
proof -
  have inv: "co_inv s" and ok: "sched_ok sc (cur_of s)" using reachable_inv [OF assms(1)] assms(2) by simp_all
  have lv: "live s sc" using assms(2) by simp
  obtain m where m: "co_getmeta t sc = Some m" using getmeta_None [OF ok] assms(4) by (cases "co_getmeta t sc") auto
  note mm = meta_current [OF ok m]
  let ?n = "next_runnable t (after r) sc" let ?sc1 = "set_running m ?n sc" let ?sc2 = "save_uc m r (k 0) ?sc1"
  have n: "runs_ok (coros sc) t ?n" by (rule next_runnable_runs [OF ok])
  have ex: "co_exec t s = Some (if r = ?n then s\<lparr>co_sched := Live ?sc1, cpu := (cpu s)(t := (r, k 0))\<rparr>
      else s\<lparr>co_sched := Live ?sc2, cpu := (cpu s)(t := (?n, code_of m ?n ?sc2))\<rparr>)"
    using yield_eq [OF inv lv m, of "k 0"] assms(3) by (simp add: co_exec_def)
  show ?thesis
  proof (cases ?n)
    case None
    then have "\<forall>j. after r \<le> j \<and> j < length (coros sc) \<longrightarrow> tid (coros sc ! j) \<noteq> t \<or> status (coros sc ! j) \<noteq> RUNNING"
      using next_runnable_None [OF ok] by blast
    then show ?thesis unfolding ex None by (cases r) simp_all
  next
    case (Some i)
    note i = Some [unfolded next_runnable_Some [OF ok]]
    have ne: "r \<noteq> Some i" using i by (auto simp: after_def split: option.splits)
    have rr: "runs_ok (coros ?sc1) t r" using ok assms(3) by (auto simp: sched_ok_def co_wf_def dest: spec [of _ t])
    have "uc (coros ?sc2 ! i) = uc (coros sc ! i)"
    proof (cases r)
      case None
      then show ?thesis using save_none_views(1) [OF sched_ok_switch [OF ok m n]] running_views [OF ok mm(2)] mm(2) by simp
    next
      case (Some c)
      then have "c < length (coros ?sc1)" "c \<noteq> i" using rr ne by (auto simp: runs_ok_def)
      then show ?thesis using Some save_some_views(1) [OF sched_ok_switch [OF ok m n], of c] by simp
    qed
    then show ?thesis unfolding ex using Some ne i by (simp add: code_of_def)
  qed
qed

theorem yield_resumes_next_witness:
  "\<exists>s s'. co_reachable (\<lambda>_. Start (Yield Return) Return) s \<and> co_exec 0 s = Some s' \<and> fst (cpu s' 0) = None"
proof -
  obtain s sc where s: "co_reachable (\<lambda>_. Start (Yield Return) Return) s" "co_sched s = Live sc" "length (coros sc) = 1"
      "cpu s 0 = (Some 0, Yield Return)" "0 \<in> mtid ` set (metas sc)"
    using one_started by blast
  obtain s' where s': "co_exec 0 s = Some s'" "case fst (cpu s' 0) of
       None \<Rightarrow> \<forall>j. after (Some 0) \<le> j \<and> j < length (coros sc) \<longrightarrow> tid (coros sc ! j) \<noteq> 0 \<or> status (coros sc ! j) \<noteq> RUNNING
     | Some i \<Rightarrow> after (Some 0) \<le> i \<and> i < length (coros sc) \<and> tid (coros sc ! i) = 0 \<and> status (coros sc ! i) = RUNNING \<and>
         snd (cpu s' 0) = uc (coros sc ! i) \<and>
         (\<forall>j. after (Some 0) \<le> j \<and> j < i \<longrightarrow> tid (coros sc ! j) \<noteq> 0 \<or> status (coros sc ! j) \<noteq> RUNNING)"
    using yield_resumes_next [OF s(1,2,4,5)] by blast
  then have "fst (cpu s' 0) = None" using s(3) by (cases "fst (cpu s' 0)") (simp_all add: after_def)
  then show ?thesis using s(1) s'(1) by blast
qed

inductive ancestor :: "co_struct list \<Rightarrow> nat \<Rightarrow> nat \<Rightarrow> bool" for C where
  self: "ancestor C r r"
| parent: "parent (C ! c) = Some p \<Longrightarrow> ancestor C r p \<Longrightarrow> ancestor C r c"

inductive_simps ancestor_iff: "ancestor C r c"

lemma has_ancestor_walk:
  assumes "sched_ok sc cur" "c < length (coros sc)" "c < n"
  shows "has_ancestor (Suc n) (Some c) r sc = Some (ancestor (coros sc) r c)"
  using assms(2,3)
proof (induction n arbitrary: c)
  case (Suc n)
  note ok = sched_okD [OF assms(1)]
  have co: "coro_ok (metas sc) (coros sc) c" using assms(1) Suc.prems by (simp add: sched_ok_def co_wf_def)
  show ?case
  proof (cases "c = r")
    case True
    then show ?thesis by (simp add: ancestor.self)
  next
    case ne: False
    show ?thesis
    proof (cases "parent (coros sc ! c)")
      case None
      then show ?thesis using ne ok Suc.prems ancestor_iff [of "coros sc" r c] by simp
    next
      case (Some p)
      then have "p < c" using co by (simp add: coro_ok_def)
      then have "has_ancestor (Suc n) (Some p) r sc = Some (ancestor (coros sc) r p)" using Suc by simp
      then show ?thesis using Some ne ok Suc.prems ancestor_iff [of "coros sc" r c] by (simp del: has_ancestor.simps(2) add: has_ancestor.simps(2) [of "Suc n"])
    qed
  qed
qed simp

text \<open>\<open>co_status\<close> of a routine that exists. The answer is the status when the thread is its own and the
  main routine asks, or a routine that is the queried one or one of its ancestors; otherwise it is
  \<open>UNAUTHORIZED\<close>. The walk along the parents ends.\<close>

lemma status_correct:
  assumes "co_reachable mains s" "co_sched s = Live sc" "i < length (coros sc)"
  shows "co_status t (int i) sc =
    Some (if tid (coros sc ! i) = t \<and> (case fst (cpu s t) of None \<Rightarrow> True | Some r \<Rightarrow> ancestor (coros sc) r i)
          then status (coros sc ! i) else UNAUTHORIZED)"
proof -
  have ok: "sched_ok sc (cur_of s)" using reachable_inv [OF assms(1)] assms(2) by simp
  note a = sched_okD [OF ok]
  have co: "tid (coros sc ! i) \<in> mtid ` set (metas sc)" using ok assms(3) by (simp add: sched_ok_def co_wf_def coro_ok_def)
  show ?thesis
  proof (cases "co_getmeta t sc")
    case None
    then have "tid (coros sc ! i) \<noteq> t" using co getmeta_None [OF ok] by auto
    then show ?thesis using a assms(3) None by (simp add: co_status_def meta_at_def)
  next
    case (Some m)
    note mm = meta_current [OF ok Some]
    have w: "has_ancestor (Suc (length (coros sc))) (Some i) r sc = Some (ancestor (coros sc) r i)" for r
      by (rule has_ancestor_walk [OF ok assms(3,3)])
    show ?thesis
      using a assms(3) Some mm(1,2) w
      by (auto simp: co_status_def meta_at_def simp del: has_ancestor.simps(2) split: option.splits)
  qed
qed



end
