(* ===== verification/Timing.thy ===== *)
theory Timing
  imports C_Prelude Complex_Main
begin

section \<open>Cycle counter and K-best timing (practice-2/practice\_2-2/clock.c, fcyc.c, fsecs.c, ftimer.c)\<close>

text \<open>
  What the machine answers is an argument: \<open>tsc k\<close> is the value of the 64-bit cycle counter at the
  k-th reading, \<open>utime k\<close> the user time of the k-th call of \<open>times\<close>. Doubles are exact rational
  numbers. The function that is timed is a partial transformer of a state of the caller.
\<close>

subsection \<open>The cycle counter (clock.c, x86)\<close>

record machine =
  tsc :: "nat \<Rightarrow> nat"
  utime :: "nat \<Rightarrow> int"

record clock =
  cyc_hi :: nat
  cyc_lo :: nat
  cyc_per_tick :: rat
  start_tick :: int
  tsc_reads :: nat
  times_calls :: nat

definition access_counter :: "machine \<Rightarrow> clock \<Rightarrow> (nat \<times> nat) \<times> clock" where
  "access_counter m c =
     ((u32 (tsc m (tsc_reads c) div 2 ^ 32), u32 (tsc m (tsc_reads c))), c\<lparr>tsc_reads := Suc (tsc_reads c)\<rparr>)"

definition times :: "machine \<Rightarrow> clock \<Rightarrow> int \<times> clock" where
  "times m c = (utime m (times_calls c), c\<lparr>times_calls := Suc (times_calls c)\<rparr>)"

definition start_counter :: "machine \<Rightarrow> clock \<Rightarrow> clock" where
  "start_counter m c = (let ((hi, lo), c) = access_counter m c in c\<lparr>cyc_hi := hi, cyc_lo := lo\<rparr>)"

definition get_counter :: "machine \<Rightarrow> clock \<Rightarrow> rat \<times> clock" where
  "get_counter m c =
     (let ((ncyc_hi, ncyc_lo), c) = access_counter m c;
          lo = sub32 ncyc_lo (cyc_lo c);
          borrow = (if ncyc_lo < lo then 1 else 0);
          hi = sub32 (sub32 ncyc_hi (cyc_hi c)) borrow
      in (of_nat hi * 2 ^ 30 * 4 + of_nat lo, c))"

definition ovhd :: "machine \<Rightarrow> clock \<Rightarrow> rat \<times> clock" where
  "ovhd m c =
     (let c = start_counter m c; (r, c) = get_counter m c;
          c = start_counter m c; (r, c) = get_counter m c
      in (r, c))"

definition NEVENT :: nat where "NEVENT = 100"
definition THRESHOLD :: rat where "THRESHOLD = 1000"
definition RECORDTHRESH :: rat where "RECORDTHRESH = 3000"

text \<open>The calibration waits for clock ticks; with a clock that never ticks it does not return.\<close>

partial_function (option) callibrate_loop :: "machine \<Rightarrow> nat \<Rightarrow> rat \<Rightarrow> int \<Rightarrow> clock \<Rightarrow> clock option" where
  "callibrate_loop m e oldt oldc c =
     (if e < NEVENT
      then (let (newt, c) = get_counter m c
            in if THRESHOLD \<le> newt - oldt
               then (let (newc, c) = times m c
                     in if oldc < newc
                        then (let cpt = (newt - oldt) / of_int (newc - oldc);
                                  c = (if (cyc_per_tick c = 0 \<or> cpt < cyc_per_tick c) \<and> RECORDTHRESH < cpt
                                       then c\<lparr>cyc_per_tick := cpt\<rparr> else c)
                              in callibrate_loop m (Suc e) newt newc c)
                        else callibrate_loop m e newt oldc c)
               else callibrate_loop m e oldt oldc c)
      else Some c)"

definition callibrate :: "machine \<Rightarrow> clock \<Rightarrow> clock option" where
  "callibrate m c =
     (let (oldc, c) = times m c;
          c = start_counter m c;
          (oldt, c) = get_counter m c
      in callibrate_loop m 0 oldt oldc c)"

definition start_comp_counter :: "machine \<Rightarrow> clock \<Rightarrow> clock option" where
  "start_comp_counter m c =
     (case (if cyc_per_tick c = 0 then callibrate m c else Some c) of
        None \<Rightarrow> None
      | Some c \<Rightarrow> (let (t, c) = times m c; c = c\<lparr>start_tick := t\<rparr> in Some (start_counter m c)))"

definition get_comp_counter :: "machine \<Rightarrow> clock \<Rightarrow> rat \<times> clock" where
  "get_comp_counter m c =
     (let (time, c) = get_counter m c;
          (t, c) = times m c;
          ticks = t - start_tick c
      in (time - of_int ticks * cyc_per_tick c, c))"

subsection \<open>The K-best scheme (fcyc.c)\<close>

record sampler =
  kbest :: int
  maxsamples :: int
  epsilon :: rat
  compensate :: int
  clear_cache :: int
  cache_bytes :: int
  cache_block :: int
  cache_buf :: bool
  sink :: int
  samples :: "rat list"
  samplecount :: int

definition sampler_start :: sampler where
  "sampler_start = \<lparr>kbest = 3, maxsamples = 20, epsilon = 1 / 100, compensate = 0, clear_cache = 0,
     cache_bytes = 2 ^ 19, cache_block = 32, cache_buf = False, sink = 0, samples = [], samplecount = 0\<rparr>"

definition init_sampler :: "sampler \<Rightarrow> sampler" where
  "init_sampler s = s\<lparr>samples := replicate (nat (kbest s)) 0, samplecount := 0\<rparr>"

text \<open>The insertion sort from the position of the new sample downwards.\<close>

primrec sift :: "nat \<Rightarrow> rat list \<Rightarrow> rat list" where
  "sift 0 vs = vs"
| "sift (Suc p) vs =
     (if vs ! Suc p < vs ! p then sift p (vs[p := vs ! Suc p, Suc p := vs ! p]) else vs)"

definition add_sample :: "rat \<Rightarrow> sampler \<Rightarrow> sampler" where
  "add_sample val s =
     (let (pos, vs) =
        (if samplecount s < kbest s then (nat (samplecount s), (samples s)[nat (samplecount s) := val])
         else if val < samples s ! nat (kbest s - 1)
         then (nat (kbest s - 1), (samples s)[nat (kbest s - 1) := val])
         else (0, samples s))
      in s\<lparr>samplecount := samplecount s + 1, samples := sift pos vs\<rparr>)"

definition has_converged :: "sampler \<Rightarrow> bool" where
  "has_converged s \<longleftrightarrow>
     kbest s \<le> samplecount s \<and> samples s ! nat (kbest s - 1) \<le> (1 + epsilon s) * samples s ! 0"

text \<open>Reading the cache buffer block by block; \<open>buf\<close> is its content. With a block size below that of an
  \<open>int\<close> the pointer does not advance.\<close>

partial_function (option) clear_loop :: "(int \<Rightarrow> int) \<Rightarrow> int \<Rightarrow> int \<Rightarrow> int \<Rightarrow> int \<Rightarrow> int option" where
  "clear_loop buf incr cend cptr x =
     (if cptr < cend then clear_loop buf incr cend (cptr + incr) (x + buf cptr) else Some x)"

definition clear :: "(int \<Rightarrow> int) \<Rightarrow> sampler \<Rightarrow> sampler option" where
  "clear buf s =
     (let s = s\<lparr>cache_buf := True\<rparr>
      in map_option (\<lambda>x. s\<lparr>sink := x\<rparr>)
           (clear_loop buf (cache_block s div 4) (cache_bytes s div 4) 0 (sink s)))"

text \<open>One measurement of the function, with or without compensation for clock ticks.\<close>

definition measure_once :: "machine \<Rightarrow> (int \<Rightarrow> int) \<Rightarrow> ('s \<Rightarrow> 's option) \<Rightarrow> sampler \<times> clock \<times> 's
    \<Rightarrow> (sampler \<times> clock \<times> 's) option" where
  "measure_once m buf f = (\<lambda>(s, c, x).
     (case (if clear_cache s \<noteq> 0 then clear buf s else Some s) of
        None \<Rightarrow> None
      | Some s \<Rightarrow>
          (case (if compensate s \<noteq> 0 then start_comp_counter m c else Some (start_counter m c)) of
             None \<Rightarrow> None
           | Some c \<Rightarrow>
               (case f x of
                  None \<Rightarrow> None
                | Some x \<Rightarrow>
                    (let (cyc, c) = (if compensate s \<noteq> 0 then get_comp_counter m c else get_counter m c)
                     in Some (add_sample cyc s, c, x))))))"

partial_function (option) fcyc_loop :: "machine \<Rightarrow> (int \<Rightarrow> int) \<Rightarrow> ('s \<Rightarrow> 's option) \<Rightarrow> sampler \<times> clock \<times> 's
    \<Rightarrow> (sampler \<times> clock \<times> 's) option" where
  "fcyc_loop m buf f y =
     (case measure_once m buf f y of
        None \<Rightarrow> None
      | Some y' \<Rightarrow>
          if \<not> has_converged (fst y') \<and> samplecount (fst y') < maxsamples (fst y') then fcyc_loop m buf f y' else Some y')"

definition fcyc :: "machine \<Rightarrow> (int \<Rightarrow> int) \<Rightarrow> ('s \<Rightarrow> 's option) \<Rightarrow> sampler \<times> clock \<times> 's
    \<Rightarrow> (rat \<times> sampler \<times> clock \<times> 's) option" where
  "fcyc m buf f = (\<lambda>(s, c, x).
     (case fcyc_loop m buf f (init_sampler s, c, x) of
        None \<Rightarrow> None
      | Some (s, c, x) \<Rightarrow> Some (samples s ! 0, s\<lparr>samples := []\<rparr>, c, x)))"

definition set_fcyc_clear_cache :: "int \<Rightarrow> sampler \<Rightarrow> sampler" where "set_fcyc_clear_cache v s = s\<lparr>clear_cache := v\<rparr>"
definition set_fcyc_cache_size :: "int \<Rightarrow> sampler \<Rightarrow> sampler" where
  "set_fcyc_cache_size v s = (if v \<noteq> cache_bytes s then s\<lparr>cache_bytes := v, cache_buf := False\<rparr> else s)"
definition set_fcyc_cache_block :: "int \<Rightarrow> sampler \<Rightarrow> sampler" where "set_fcyc_cache_block v s = s\<lparr>cache_block := v\<rparr>"
definition set_fcyc_compensate :: "int \<Rightarrow> sampler \<Rightarrow> sampler" where "set_fcyc_compensate v s = s\<lparr>compensate := v\<rparr>"
definition set_fcyc_k :: "int \<Rightarrow> sampler \<Rightarrow> sampler" where "set_fcyc_k v s = s\<lparr>kbest := v\<rparr>"
definition set_fcyc_maxsamples :: "int \<Rightarrow> sampler \<Rightarrow> sampler" where "set_fcyc_maxsamples v s = s\<lparr>maxsamples := v\<rparr>"
definition set_fcyc_epsilon :: "rat \<Rightarrow> sampler \<Rightarrow> sampler" where "set_fcyc_epsilon v s = s\<lparr>epsilon := v\<rparr>"

subsection \<open>Seconds (fsecs.c with USE\_FCYC, ftimer.c)\<close>

text \<open>\<open>mhz\<close> reads the clock rate from the system: its answer is an argument.\<close>

definition init_fsecs :: "rat \<Rightarrow> sampler \<Rightarrow> rat \<times> sampler" where
  "init_fsecs mhz s =
     (let s = set_fcyc_maxsamples 20 s;
          s = set_fcyc_clear_cache 1 s;
          s = set_fcyc_compensate 1 s;
          s = set_fcyc_epsilon (1 / 100) s;
          s = set_fcyc_k 3 s
      in (mhz, s))"

definition fsecs :: "rat \<Rightarrow> machine \<Rightarrow> (int \<Rightarrow> int) \<Rightarrow> ('s \<Rightarrow> 's option) \<Rightarrow> sampler \<times> clock \<times> 's
    \<Rightarrow> (rat \<times> sampler \<times> clock \<times> 's) option" where
  "fsecs Mhz m buf f y = map_option (\<lambda>(cycles, y). (cycles / (Mhz * 10 ^ 6), y)) (fcyc m buf f y)"

text \<open>\<open>gettimeofday\<close> answers seconds and microseconds.\<close>

fun run_times :: "nat \<Rightarrow> ('s \<Rightarrow> 's option) \<Rightarrow> 's \<Rightarrow> 's option" where
  "run_times 0 f x = Some x"
| "run_times (Suc n) f x = (case f x of None \<Rightarrow> None | Some x \<Rightarrow> run_times n f x)"

definition ftimer_gettod :: "int \<times> int \<Rightarrow> int \<times> int \<Rightarrow> ('s \<Rightarrow> 's option) \<Rightarrow> int \<Rightarrow> 's \<Rightarrow> (rat \<times> 's) option" where
  "ftimer_gettod stv etv f n x =
     map_option (\<lambda>x. let diff = of_int (1000 * (fst etv - fst stv)) + of_int (snd etv - snd stv) / 1000;
                        diff = diff / of_int n
                    in (diff / 1000, x))
       (run_times (nat n) f x)"

end
