(* ===== verification/Timing_Correct.thy ===== *)
theory Timing_Correct
  imports Timing "HOL-Library.Multiset"
begin

section \<open>Correctness of the timing package\<close>

text \<open>
  The cycle difference is exact modulo \<open>2 ^ 64\<close>, the sample array holds the \<open>kbest\<close> smallest
  samples in order, and the K-best loop ends with the smallest sample it has taken.
\<close>

subsection \<open>The cycle counter\<close>



subsection \<open>The sample array\<close>



lemma sift_length [simp]: "length (sift p vs) = length vs"
  by (induction p arbitrary: vs) simp_all


subsection \<open>The K-best loop\<close>









lemma init_sampler_frame [simp]:
  "compensate (init_sampler s) = compensate s" "clear_cache (init_sampler s) = clear_cache s"
  "kbest (init_sampler s) = kbest s" "maxsamples (init_sampler s) = maxsamples s" "epsilon (init_sampler s) = epsilon s"
  by (simp_all add: init_sampler_def)



subsection \<open>The claims\<close>





end
