(* ===== verification/Driverlib_Correct.thy ===== *)
theory Driverlib_Correct
  imports Driverlib
begin

section \<open>Correctness of the submission library\<close>

text \<open>
  The URL encoding can be decoded and stays within three times the length; reading lines does not
  depend on how the network cuts the stream; a submission that reports success has sent the whole
  request, which fits its buffer.
\<close>

subsection \<open>Decoding\<close>

definition hex_val :: "char \<Rightarrow> nat" where
  "hex_val c = (if code c < 58 then code c - 48 else code c - 55)"

fun urldecode :: "string \<Rightarrow> string option" where
  "urldecode [] = Some []"
| "urldecode (c # s) =
     (if c = CHR ''+'' then map_option (Cons (CHR '' '')) (urldecode s)
      else if c = CHR ''%''
      then (case s of a # b # s' \<Rightarrow> map_option (Cons (char_of (16 * hex_val a + hex_val b))) (urldecode s') | _ \<Rightarrow> None)
      else map_option (Cons c) (urldecode s))"

definition url_allowed :: "char \<Rightarrow> bool" where "url_allowed c \<longleftrightarrow> 31 < schar c \<or> schar c = 9"

lemma code_less [simp]: "code c < 256"
  by (simp add: code_def)

lemma char_of_code [simp]: "char_of (code c) = c"
  by (simp add: code_def)

lemma code_inj: "code c = code d \<longleftrightarrow> c = d"
  by (metis char_of_code)

lemma hex_val_digit: "n < 16 \<Longrightarrow> hex_val (hex_digit n) = n"
  by (simp add: hex_val_def hex_digit_def)

lemma hex_digit_plain: "n < 16 \<Longrightarrow> url_plain (hex_digit n)"
  by (auto simp: url_plain_def hex_digit_def schar_def)

lemma plain_not_special: "url_plain c \<Longrightarrow> c \<noteq> CHR ''+'' \<and> c \<noteq> CHR ''%'' \<and> c \<noteq> CHR '' ''"
  by (auto simp: url_plain_def schar_def code_def)

lemma plain_allowed: "url_plain c \<Longrightarrow> url_allowed c"
  by (auto simp: url_plain_def url_allowed_def schar_def code_def)

lemma space_allowed: "url_allowed (CHR '' '')"
  by (simp add: url_allowed_def schar_def code_def)

definition url_safe :: "char \<Rightarrow> bool" where "url_safe c \<longleftrightarrow> url_plain c \<or> c = CHR ''+'' \<or> c = CHR ''%''"

lemma urlencode_accepts: "\<forall>c \<in> set src. url_allowed c \<Longrightarrow> fst (urlencode src) = 0"
  by (induction src) (auto simp: url_allowed_def split: prod.splits)

lemma urlencode_refuses: "\<exists>c \<in> set src. \<not> url_allowed c \<Longrightarrow> fst (urlencode src) = -1"
proof (induction src)
  case (Cons c src)
  show ?case
  proof (cases "url_allowed c")
    case True
    then have "fst (urlencode src) = -1" using Cons by auto
    then show ?thesis using True by (auto simp: url_allowed_def split: prod.splits)
  next
    case False
    then have "\<not> url_plain c" "c \<noteq> CHR '' ''" using plain_allowed space_allowed by auto
    then show ?thesis using False by (simp add: url_allowed_def)
  qed
qed simp

lemma urlencode_decodes:
  "fst (urlencode src) = 0 \<Longrightarrow> urldecode (snd (urlencode src)) = Some src \<and>
    (\<forall>c \<in> set (snd (urlencode src)). url_safe c) \<and> length (snd (urlencode src)) \<le> 3 * length src"
proof (induction src)
  case (Cons c src)
  obtain r d where rd: "urlencode src = (r, d)" by (cases "urlencode src")
  have div: "code c div 16 < 16" using code_less [of c] by (simp add: less_mult_imp_div_less)
  have hx: "16 * hex_val (hex_digit (code c div 16)) + hex_val (hex_digit (code c mod 16)) = code c"
    using div by (simp add: hex_val_digit)
  have safe: "url_safe (hex_digit (code c div 16))" "url_safe (hex_digit (code c mod 16))"
    using div hex_digit_plain by (simp_all add: url_safe_def)
  consider "url_plain c" | "\<not> url_plain c" "c = CHR '' ''" | "\<not> url_plain c" "c \<noteq> CHR '' ''" "31 < schar c \<or> schar c = 9"
    | "\<not> url_plain c" "c \<noteq> CHR '' ''" "\<not> (31 < schar c \<or> schar c = 9)" by blast
  then show ?case
  proof cases
    case 1
    then show ?thesis using Cons rd plain_not_special [OF 1] by (simp add: url_safe_def)
  next
    case 2
    then show ?thesis using Cons rd by (simp add: url_safe_def)
  next
    case 3
    then have "urlencode (c # src) = (r, CHR ''%'' # hex02 (code c) @ d)" using rd by simp
    then show ?thesis using Cons rd hx safe by (auto simp: hex02_def url_safe_def)
  next
    case 4
    then show ?thesis using Cons.prems by simp
  qed
qed simp

subsection \<open>Complete writing\<close>

lemma writen_Cons:
  assumes "buf \<noteq> []"
  shows "rio_writen ((nw, ei) # ws) buf =
    (if nw \<le> 0 then if ei then rio_writen ws buf else (-1, [])
     else (if fst (rio_writen ws (drop (nat (min nw (int (length buf)))) buf)) < 0 then -1 else int (length buf),
           take (nat (min nw (int (length buf)))) buf @ snd (rio_writen ws (drop (nat (min nw (int (length buf)))) buf))))"
  using assms by (simp add: rio_writen.simps [of "(nw, ei) # ws"] Let_def split_beta)

lemma writen_simps [simp]: "rio_writen ws [] = (0, [])" "rio_writen [] buf = (int (length buf), buf)"
  by (simp_all add: rio_writen.simps)

lemma writen_result:
  "fst (rio_writen ws buf) = -1 \<or> rio_writen ws buf = (int (length buf), buf)"
proof (induction ws arbitrary: buf)
  case (Cons w ws)
  show ?case
  proof (cases "buf = []")
    case False
    obtain nw ei where w: "w = (nw, ei)" by (cases w)
    show ?thesis using Cons.IH [of buf] Cons.IH [of "drop (nat (min nw (int (length buf)))) buf"] by (auto simp: w writen_Cons [OF False])
  qed simp
qed simp

lemma writen_prefix: "\<exists>rest. buf = snd (rio_writen ws buf) @ rest"
proof (induction ws arbitrary: buf)
  case (Cons w ws)
  show ?case
  proof (cases "buf = []")
    case False
    obtain nw ei where w: "w = (nw, ei)" by (cases w)
    let ?k = "nat (min nw (int (length buf)))"
    obtain rest where "drop ?k buf = snd (rio_writen ws (drop ?k buf)) @ rest" using Cons.IH by blast
    then have "buf = (take ?k buf @ snd (rio_writen ws (drop ?k buf))) @ rest" by (metis append.assoc append_take_drop_id)
    then show ?thesis using Cons.IH [of buf] by (auto simp: w writen_Cons [OF False])
  qed simp
qed simp

subsection \<open>Lines of a stream\<close>

text \<open>The bytes that are still to be read, in order: the rest of the buffer and the chunks to come.\<close>

definition pending :: "rio \<Rightarrow> net_in \<Rightarrow> string" where
  "pending rp net = take (nat (rio_cnt rp)) (drop (rio_bufptr rp) (rio_buf rp)) @ concat (map (case_option [] id) (fst net))"

definition rio_ok :: "rio \<Rightarrow> net_in \<Rightarrow> bool" where
  "rio_ok rp net \<longleftrightarrow> (0 < rio_cnt rp \<longrightarrow> rio_cnt rp \<le> int (length (rio_buf rp)) - int (rio_bufptr rp)) \<and> Some [] \<notin> set (fst net)"

text \<open>The first line of a text, cut after \<open>k\<close> characters.\<close>

fun line :: "nat \<Rightarrow> string \<Rightarrow> string" where
  "line 0 p = []"
| "line (Suc k) [] = []"
| "line (Suc k) (c # p) = (if c = NL then [c] else c # line k p)"

lemma refill_spec:
  assumes "rio_ok rp (cs, err)"
  shows "\<exists>r rp' cs'. rio_refill rp cs err = (r, rp', cs') \<and> rio_ok rp' (cs', err) \<and> pending rp' (cs', err) = pending rp (cs, err) \<and>
    (if pending rp (cs, err) = [] then r = (if err then -1 else 0) else r = 1 \<and> 0 < rio_cnt rp')"
  using assms
proof (induction rp cs err rule: rio_refill.induct)
  case (1 rp cs err)
  show ?case
  proof (cases "0 < rio_cnt rp")
    case True
    then have "pending rp (cs, err) \<noteq> []" using 1(3) by (auto simp: pending_def rio_ok_def)
    then show ?thesis using True 1(3) by (simp add: rio_refill.simps [of rp])
  next
    case empty: False
    show ?thesis
    proof (cases cs)
      case Nil
      then show ?thesis using empty 1(3) by (auto simp: rio_refill.simps [of rp] pending_def rio_ok_def)
    next
      case (Cons x cs')
      show ?thesis
      proof (cases x)
        case None
        have ok: "rio_ok (rp\<lparr>rio_cnt := -1\<rparr>) (cs', err)" using 1(3) Cons empty by (auto simp: rio_ok_def)
        have "pending (rp\<lparr>rio_cnt := -1\<rparr>) (cs', err) = pending rp (cs, err)" using Cons None empty by (simp add: pending_def)
        then show ?thesis using 1(1) [OF empty Cons None ok] Cons None empty by (simp add: rio_refill.simps [of rp])
      next
        case (Some b)
        have b: "b \<noteq> []" using 1(3) Cons Some by (auto simp: rio_ok_def)
        let ?rp = "rp\<lparr>rio_cnt := int (length b), rio_buf := b, rio_bufptr := 0\<rparr>"
        have ok: "rio_ok ?rp (cs', err)" using 1(3) Cons by (auto simp: rio_ok_def)
        have "pending ?rp (cs', err) = pending rp (cs, err)" using Cons Some empty by (simp add: pending_def)
        then show ?thesis using 1(2) [OF empty Cons Some b ok] Cons Some b empty by (simp add: rio_refill.simps [of rp])
      qed
    qed
  qed
qed

lemma read_one:
  assumes "rio_ok rp net"
  shows "\<exists>rp' net'. rio_ok rp' net' \<and> snd net' = snd net \<and>
    (case pending rp net of
       [] \<Rightarrow> rio_read rp 1 net = (if snd net then -1 else 0, [], rp', net') \<and> pending rp' net' = []
     | c # p \<Rightarrow> rio_read rp 1 net = (1, [c], rp', net') \<and> pending rp' net' = p)"
proof -
  obtain cs err where net: "net = (cs, err)" by (cases net)
  obtain r rp1 cs1 where rf: "rio_refill rp cs err = (r, rp1, cs1)" "rio_ok rp1 (cs1, err)" "pending rp1 (cs1, err) = pending rp net"
      "if pending rp net = [] then r = (if err then -1 else 0) else r = 1 \<and> 0 < rio_cnt rp1"
    using refill_spec [of rp cs err] assms net by blast
  show ?thesis
  proof (cases "pending rp net")
    case Nil
    then show ?thesis using rf net by (intro exI [of _ rp1] exI [of _ "(cs1, err)"]) (auto simp: rio_read_def)
  next
    case (Cons c p)
    then have pos: "r = 1" "0 < rio_cnt rp1" using rf(4) by simp_all
    let ?rp = "rp1\<lparr>rio_bufptr := rio_bufptr rp1 + 1, rio_cnt := rio_cnt rp1 - 1\<rparr>"
    have len: "rio_bufptr rp1 < length (rio_buf rp1)" using rf(2) pos(2) by (simp add: rio_ok_def)
    then have dr: "drop (rio_bufptr rp1) (rio_buf rp1) = rio_buf rp1 ! rio_bufptr rp1 # drop (Suc (rio_bufptr rp1)) (rio_buf rp1)"
      by (rule Cons_nth_drop_Suc [symmetric])
    have "nat (rio_cnt rp1) = Suc (nat (rio_cnt rp1 - 1))" using pos(2) by simp
    then have pe: "c # p = rio_buf rp1 ! rio_bufptr rp1 # pending ?rp (cs1, err)"
      using rf(3) Cons unfolding pending_def dr by simp
    have "rio_read rp 1 net = (1, [c], ?rp, (cs1, err))"
      using rf(1) pos pe net dr by (simp add: rio_read_def Let_def)
    moreover have "rio_ok ?rp (cs1, err)" using rf(2) by (simp add: rio_ok_def)
    ultimately show ?thesis using Cons pe net by (intro exI [of _ ?rp] exI [of _ "(cs1, err)"]) simp
  qed
qed

lemma readline_spec:
  assumes "rio_ok rp net"
  shows "\<exists>rp' net'. rio_ok rp' net' \<and> snd net' = snd net \<and> pending rp' net' = drop (length (line k (pending rp net))) (pending rp net) \<and>
    (let l = line k (pending rp net)
     in readline_loop k (Suc n) rp net =
          (if l \<noteq> [] \<and> last l = NL then int (n + length l)
           else if length l = k then int (Suc n + length l)
           else if snd net then -1 else if n = 0 \<and> l = [] then 0 else int (Suc n + length l), l, rp', net'))"
  using assms
proof (induction k arbitrary: n rp net)
  case 0
  then show ?case by (intro exI [of _ rp] exI [of _ net]) simp
next
  case (Suc k)
  obtain rp1 net1 where r1: "rio_ok rp1 net1" "snd net1 = snd net"
      "case pending rp net of
         [] \<Rightarrow> rio_read rp 1 net = (if snd net then -1 else 0, [], rp1, net1) \<and> pending rp1 net1 = []
       | c # p \<Rightarrow> rio_read rp 1 net = (1, [c], rp1, net1) \<and> pending rp1 net1 = p"
    using read_one [OF Suc.prems] by blast
  show ?case
  proof (cases "pending rp net")
    case Nil
    then show ?thesis using r1 by (intro exI [of _ rp1] exI [of _ net1]) simp
  next
    case (Cons c p)
    then have rd: "rio_read rp 1 net = (1, [c], rp1, net1)" "pending rp1 net1 = p" using r1(3) by simp_all
    show ?thesis
    proof (cases "c = NL")
      case True
      then show ?thesis using Cons rd r1(1,2) by (intro exI [of _ rp1] exI [of _ net1]) simp
    next
      case False
      obtain rp' net' where IH: "rio_ok rp' net'" "snd net' = snd net1" "pending rp' net' = drop (length (line k p)) p"
          "readline_loop k (Suc (Suc n)) rp1 net1 =
            (if line k p \<noteq> [] \<and> last (line k p) = NL then int (Suc n + length (line k p))
             else if length (line k p) = k then int (Suc (Suc n) + length (line k p))
             else if snd net1 then -1 else int (Suc (Suc n) + length (line k p)), line k p, rp', net')"
        using Suc.IH [OF r1(1), of "Suc n"] rd(2) by (auto simp: Let_def)
      show ?thesis using Cons rd False IH r1(2) by (intro exI [of _ rp'] exI [of _ net']) (simp add: Let_def)
    qed
  qed
qed

lemma readline_pending:
  assumes "rio_ok rp net" "rio_readlineb rp maxlen net = (r, buf, rp', net')"
  shows "rio_ok rp' net'" "pending rp' net' = drop (length buf) (pending rp net)" "buf = line (maxlen - 1) (pending rp net)"
    "2 \<le> maxlen \<Longrightarrow> 0 < r \<Longrightarrow> buf \<noteq> []"
  using readline_spec [OF assms(1), of "maxlen - 1" 0] assms(2) by (auto simp: rio_readlineb_def Let_def split: if_splits)

lemma line_prefix: "\<exists>rest. p = line k p @ rest"
  by (induction k p rule: line.induct) auto

lemma in_bytes_pending: "rio_ok rp net \<Longrightarrow> in_bytes rp net = length (pending rp net)"
  by (auto simp: in_bytes_def pending_def rio_ok_def)

text \<open>The fuel of \<open>skip_headers\<close> is enough: more of it changes nothing.\<close>

lemma skip_headers_fuel:
  assumes "rio_ok rp net" "length (pending rp net) < k"
  shows "skip_headers (Suc k) buf rp net = skip_headers k buf rp net"
  using assms
proof (induction k arbitrary: buf rp net)
  case (Suc k)
  obtain r b rp' net' where l: "rio_readlineb rp SUBMITR_MAXBUF net = (r, b, rp', net')" by (metis prod_cases4)
  note p = readline_pending [OF Suc.prems(1) l]
  have "skip_headers (Suc k) b rp' net' = skip_headers k b rp' net'" if "0 < r"
  proof (rule Suc.IH [OF p(1)])
    have "b \<noteq> []" using p(4) that by (simp add: SUBMITR_MAXBUF_def)
    moreover have "length b \<le> length (pending rp net)" using p(3) line_prefix by (metis le_add1 length_append)
    ultimately show "length (pending rp' net') < k" using p(2) Suc.prems(2) by (cases b) auto
  qed
  then show ?case using l by (simp only: skip_headers.simps(2) [of "Suc k"] skip_headers.simps(2) [of k] Let_def split_beta fst_conv snd_conv) simp
qed simp

subsection \<open>The submission\<close>

lemma http_request_length:
  "length (http_request c u l e) = length c + length u + length l + length e + 71"
  by (simp add: http_request_def CRLF_def)

definition sends :: "string \<Rightarrow> string \<Rightarrow> string \<Rightarrow> string \<Rightarrow> string \<Rightarrow> bool" where
  "sends course userid lab res req \<longleftrightarrow> (\<exists>enc. req = http_request course userid lab enc \<and> urldecode enc = Some res \<and>
     (\<forall>c \<in> set enc. url_safe c) \<and> length req < SUBMITR_MAXBUF)"

lemma submitr_cases:
  fixes w rp hostname port course userid lab res
  defines "out \<equiv> submitr w rp hostname port course userid lab res"
  shows "(answer_code out = -1 \<or> (answer_code out = 0 \<and> status_msg out = ''OK'' \<and> sends course userid lab res (sent out))) \<and>
    (closed out \<longleftrightarrow> 0 \<le> n_socket w) \<and> (sent out = [] \<or> (\<exists>req rest. sends course userid lab res req \<and> req = sent out @ rest))"
proof -
  obtain r d where ue: "urlencode res = (r, d)" by (cases "urlencode res")
  let ?req = "http_request course userid lab d"
  obtain r2 s where wr: "rio_writen (n_writes w) ?req = (r2, s)" by (cases "rio_writen (n_writes w) ?req")
  have sends: "sends course userid lab res ?req"
    if "\<not> r < 0" "\<not> SUBMITR_MAXBUF < length course + length userid + length lab + 3 * length res + 128"
  proof -
    have "fst (urlencode res) = 0"
      using that(1) ue urlencode_accepts urlencode_refuses [of res] by (metis fst_conv less_minus_one_simps(1))
    then show ?thesis using urlencode_decodes [of res] ue that(2) by (auto simp: sends_def http_request_length)
  qed
  have pre: "\<exists>rest. ?req = s @ rest" using writen_prefix [of ?req "n_writes w"] wr by simp
  have full: "s = ?req" if "\<not> r2 < 0" using writen_result [of "n_writes w" ?req] wr that by auto
  show ?thesis
    unfolding out_def submitr_def Let_def ue wr prod.case
    using sends pre full by (auto split: prod.splits option.splits)
qed

subsection \<open>The claims\<close>



text \<open>C19: a line does not depend on how it arrives. Whatever chunks the calls of \<open>read\<close> deliver and however often
  they are interrupted, \<open>rio_readlineb\<close> stores the bytes of the stream up to and including the first newline,
  at most \<open>maxlen - 1\<close> of them, and leaves exactly the rest of the stream for the next call. A line that ends
  with a newline is answered with its length; otherwise the answer is one more than the number of bytes
  stored, 0 at the end of the file before any byte, and -1 on an error.\<close>

theorem readline_stream:
  assumes "rio_ok rp net"
  shows "\<exists>rp' net'. rio_ok rp' net' \<and>
    pending rp' net' = drop (length (line (maxlen - 1) (pending rp net))) (pending rp net) \<and>
    rio_readlineb rp maxlen net =
      (let l = line (maxlen - 1) (pending rp net)
       in (if l \<noteq> [] \<and> last l = NL then int (length l)
           else if length l = maxlen - 1 then int (length l) + 1
           else if snd net then -1 else if l = [] then 0 else int (length l) + 1, l, rp', net'))"
proof -
  let ?l = "line (maxlen - 1) (pending rp net)"
  obtain rp' net' where r: "rio_ok rp' net'" "pending rp' net' = drop (length ?l) (pending rp net)"
      "readline_loop (maxlen - 1) (Suc 0) rp net =
         (if ?l \<noteq> [] \<and> last ?l = NL then int (0 + length ?l) else if length ?l = maxlen - 1 then int (Suc 0 + length ?l)
          else if snd net then -1 else if (0 :: nat) = 0 \<and> ?l = [] then 0 else int (Suc 0 + length ?l), ?l, rp', net')"
    using readline_spec [OF assms, of "maxlen - 1" 0] unfolding Let_def by (elim exE conjE) (rule that)
  have "rio_readlineb rp maxlen net =
      (if ?l \<noteq> [] \<and> last ?l = NL then int (length ?l) else if length ?l = maxlen - 1 then int (length ?l) + 1
       else if snd net then -1 else if ?l = [] then 0 else int (length ?l) + 1, ?l, rp', net')"
    unfolding rio_readlineb_def One_nat_def using r(3) by simp
  then show ?thesis unfolding Let_def using r(1,2) by blast
qed

theorem readline_stream_witness:
  "fst (rio_readlineb \<lparr>rio_cnt = 0, rio_bufptr = 0, rio_buf = []\<rparr> 6 ([Some ''ab'', None, Some [CHR ''c'', NL, CHR ''d'']], False)) = 4"
proof -
  let ?rp = "\<lparr>rio_cnt = 0, rio_bufptr = 0, rio_buf = []\<rparr>" and ?net = "([Some ''ab'', None, Some [CHR ''c'', NL, CHR ''d'']], False)"
  have ok: "rio_ok ?rp ?net" by (simp add: rio_ok_def)
  have nl: "CHR ''a'' \<noteq> NL" "CHR ''b'' \<noteq> NL" "CHR ''c'' \<noteq> NL" by (simp_all add: NL_def char_of_def)
  have "pending ?rp ?net = [CHR ''a'', CHR ''b'', CHR ''c'', NL, CHR ''d'']" by (simp add: pending_def)
  moreover have "line (6 - 1) [CHR ''a'', CHR ''b'', CHR ''c'', NL, CHR ''d''] = [CHR ''a'', CHR ''b'', CHR ''c'', NL]"
    using nl by (simp add: eval_nat_numeral)
  ultimately show ?thesis using readline_stream [OF ok, of 6] by (auto simp: Let_def)
qed

text \<open>C20: a submission that reports success. \<open>submitr\<close> answers 0 or -1 and closes the socket whenever it was
  created. When anything is sent, it is a prefix of one request that fits the buffer, in which the result can
  be decoded; when the answer is 0, the whole request was sent and the status message is \<open>OK\<close>.\<close>

theorem submitr_correct:
  "(answer_code (submitr w rp hostname port course userid lab res) = -1 \<or>
     (answer_code (submitr w rp hostname port course userid lab res) = 0 \<and>
      status_msg (submitr w rp hostname port course userid lab res) = ''OK'' \<and>
      sends course userid lab res (sent (submitr w rp hostname port course userid lab res)))) \<and>
   (closed (submitr w rp hostname port course userid lab res) \<longleftrightarrow> 0 \<le> n_socket w) \<and>
   (sent (submitr w rp hostname port course userid lab res) = [] \<or>
     (\<exists>req rest. sends course userid lab res req \<and> req = sent (submitr w rp hostname port course userid lab res) @ rest))"
  by (rule submitr_cases)

end
