(* ===== verification/Keibot.thy ===== *)
theory Keibot
  imports C_Text
begin

section \<open>The file system of the chat bot (practice-3/fuse/keibot.c)\<close>

text \<open>
  A file system in memory behind FUSE. The files hang on a circular doubly linked list whose nodes are
  numbered in the order of allocation, 0 being \<open>list\_head\<close>; a node that was freed has no entry. The
  content of a file is the allocated buffer. \<open>None\<close> is a crash: a freed or null pointer is used, a copy
  leaves its buffer, or an assertion fails. The terminating 0 that \<open>write\_file\<close> stores behind the data
  is counted in \<open>overruns\<close> when it lies outside the buffer. Paths and names are not empty and hold no
  NUL. What \<open>time\<close> and \<open>malloc\<close> answer (\<open>now\<close>, \<open>alloc\_ok\<close>) and what fresh memory holds (\<open>junk\<close>) is
  part of the state.
\<close>

subsection \<open>Strings\<close>

definition MAX_FILE_NAME_LEN :: nat where "MAX_FILE_NAME_LEN = 1024"
definition BLOCK_SIZE :: nat where "BLOCK_SIZE = 512"
definition MAX_EMOJI_NUM :: nat where "MAX_EMOJI_NUM = 100"

definition strnlen_max :: "string \<Rightarrow> nat" where "strnlen_max s = min (length s) MAX_FILE_NAME_LEN"

text \<open>The length without one final slash.\<close>

definition stem_len :: "string \<Rightarrow> nat" where
  "stem_len s = (let len = strnlen_max s in if s ! (len - 1) = CHR ''/'' then len - 1 else len)"

definition is_parent_path :: "string \<Rightarrow> string \<Rightarrow> bool \<Rightarrow> bool" where
  "is_parent_path path1 path2 strict =
     (let len1 = stem_len path1; len2 = stem_len path2
      in len1 < len2 \<and> take len1 path1 = take len1 path2 \<and> path2 ! len1 = CHR ''/'' \<and>
         (\<not> strict \<or> CHR ''/'' \<notin> set (drop (len1 + 1) path2)))"

definition get_relative_name :: "string \<Rightarrow> string \<Rightarrow> string" where
  "get_relative_name path1 path2 =
     (let len1 = stem_len path1; len2 = stem_len path2; first = drop (len1 + 1) path2
      in if CHR ''/'' \<in> set first then takeWhile (\<lambda>c. c \<noteq> CHR ''/'') first else take (len2 - (len1 + 1)) first)"

definition concatenate :: "string \<Rightarrow> string \<Rightarrow> string" where
  "concatenate str1 str2 = take MAX_FILE_NAME_LEN str1 @ take (MAX_FILE_NAME_LEN - strnlen_max str1) str2"

text \<open>\<open>strstr\<close>: where the first occurrence starts.\<close>

fun strstr :: "string \<Rightarrow> string \<Rightarrow> nat option" where
  "strstr [] pat = (if pat = [] then Some 0 else None)"
| "strstr (c # s) pat = (if take (length pat) (c # s) = pat then Some 0 else map_option Suc (strstr s pat))"

definition replace_first_after :: "string \<Rightarrow> string \<Rightarrow> string \<Rightarrow> string \<Rightarrow> string" where
  "replace_first_after par path old_str new_str =
     (let plen = strnlen_max par; str = take MAX_FILE_NAME_LEN path
      in case strstr (drop plen str) old_str of
           None \<Rightarrow> str
         | Some i \<Rightarrow> take (plen + i) str @ take MAX_FILE_NAME_LEN new_str @ drop (plen + i + strnlen_max old_str) str)"

subsection \<open>State\<close>

record stat_t =
  st_mode :: nat
  st_rdev :: nat
  st_nlink :: nat
  st_size :: nat
  st_blocks :: nat
  st_atime :: nat
  st_ctime :: nat
  st_mtime :: nat

record file_entry =
  path :: string
  content :: "string option"
  fstat :: stat_t

record cli_options =
  opt_chatbot_mode :: bool
  opt_bot1 :: string
  opt_bot2 :: string

record fs =
  nxt :: "nat \<Rightarrow> nat"
  prv :: "nat \<Rightarrow> nat"
  entry :: "nat \<Rightarrow> file_entry option"
  fresh :: nat
  options :: cli_options
  chatbot_mode :: bool
  bot1_path :: string
  bot2_path :: string
  emoji :: "string list"
  overruns :: nat
  now :: nat
  alloc_ok :: "nat \<Rightarrow> bool"
  junk :: char

definition S_IFDIR :: nat where "S_IFDIR = 16384"
definition S_IFREG :: nat where "S_IFREG = 32768"

text \<open>\<open>\~0111\<close> as an unsigned 32-bit mask.\<close>

definition not_0111 :: nat where "not_0111 = 2 ^ 32 - 1 - 73"
definition IS_DIR :: "file_entry \<Rightarrow> bool" where "IS_DIR e \<longleftrightarrow> st_mode (fstat e) AND not_0111 = S_IFDIR"
definition IS_REG :: "file_entry \<Rightarrow> bool" where "IS_REG e \<longleftrightarrow> st_mode (fstat e) AND not_0111 = S_IFREG"

definition ENOENT :: int where "ENOENT = 2"
definition ENOMEM :: int where "ENOMEM = 12"
definition EEXIST :: int where "EEXIST = 17"
definition EISDIR :: int where "EISDIR = 21"
definition ENAMETOOLONG :: int where "ENAMETOOLONG = 36"
definition ENOTEMPTY :: int where "ENOTEMPTY = 39"
definition EISNAM :: int where "EISNAM = 120"

subsection \<open>The linked list\<close>

definition list_head :: nat where "list_head = 0"

definition list_init :: "nat \<Rightarrow> fs \<Rightarrow> fs" where
  "list_init l s = s\<lparr>nxt := (nxt s)(l := l), prv := (prv s)(l := l)\<rparr>"

definition list_add :: "nat \<Rightarrow> nat \<Rightarrow> nat \<Rightarrow> fs \<Rightarrow> fs" where
  "list_add new p n s =
     s\<lparr>prv := (prv s)(n := new, new := p), nxt := (nxt s)(new := n, p := new)\<rparr>"

definition list_add_head :: "nat \<Rightarrow> nat \<Rightarrow> fs \<Rightarrow> fs" where "list_add_head new head s = list_add new head (nxt s head) s"
definition list_add_tail :: "nat \<Rightarrow> nat \<Rightarrow> fs \<Rightarrow> fs" where "list_add_tail new head s = list_add new (prv s head) head s"

definition list_del :: "nat \<Rightarrow> fs \<Rightarrow> fs" where
  "list_del e s = (let p = prv s e; n = nxt s e in s\<lparr>prv := (prv s)(n := p), nxt := (nxt s)(p := n)\<rparr>)"

text \<open>The nodes that \<open>foreach\_entry\<close> visits. Nodes are numbered below \<open>fresh\<close>, so that many steps are enough.\<close>

primrec walk :: "nat \<Rightarrow> (nat \<Rightarrow> nat) \<Rightarrow> nat \<Rightarrow> nat list" where
  "walk 0 nx p = []"
| "walk (Suc k) nx p = (if p = list_head then [] else p # walk k nx (nx p))"

definition foreach_entry :: "fs \<Rightarrow> nat list" where
  "foreach_entry s = walk (fresh s) (nxt s) (nxt s list_head)"

definition find_entry :: "string \<Rightarrow> fs \<Rightarrow> nat option" where
  "find_entry p s = find (\<lambda>i. case entry s i of Some e \<Rightarrow> path e = p | None \<Rightarrow> False) (foreach_entry s)"

subsection \<open>Files\<close>

definition new_file :: "string \<Rightarrow> string option \<Rightarrow> nat \<Rightarrow> nat \<Rightarrow> nat \<Rightarrow> fs \<Rightarrow> nat \<times> fs" where
  "new_file p c mode rdev nlink s =
     (let size = (case c of Some t \<Rightarrow> strnlen_max (takeWhile (\<lambda>x. code x \<noteq> 0) t) | None \<Rightarrow> 0);
          st = \<lparr>st_mode = mode, st_rdev = rdev, st_nlink = nlink, st_size = size,
                st_blocks = (size + BLOCK_SIZE - 1) div BLOCK_SIZE, st_atime = now s, st_ctime = now s, st_mtime = now s\<rparr>;
          n = fresh s;
          s = s\<lparr>fresh := fresh s + 1, entry := (entry s)(n \<mapsto> \<lparr>path = p, content = c, fstat = st\<rparr>)\<rparr>;
          s = list_init n s
      in (n, list_add_tail n list_head s))"

definition del_file :: "nat \<Rightarrow> fs \<Rightarrow> fs" where
  "del_file e s = (let s = list_del e s in s\<lparr>entry := (entry s)(e := None)\<rparr>)"

definition set_entry :: "nat \<Rightarrow> file_entry \<Rightarrow> fs \<Rightarrow> fs" where "set_entry n e s = s\<lparr>entry := (entry s)(n \<mapsto> e)\<rparr>"

text \<open>\<open>strdup\<close> of the empty string: a buffer that holds the final 0.\<close>

definition NUL :: char where "NUL = char_of (0 :: nat)"
definition empty_content :: "string option" where "empty_content = Some [NUL]"

definition switch_bot :: "string \<Rightarrow> fs \<Rightarrow> string option" where
  "switch_bot p s =
     (if is_parent_path (bot1_path s) p False
      then Some (replace_first_after ''/'' p (opt_bot1 (options s)) (opt_bot2 (options s)))
      else if is_parent_path (bot2_path s) p False
      then Some (replace_first_after ''/'' p (opt_bot2 (options s)) (opt_bot1 (options s)))
      else None)"

definition EMOJI_PREFIX :: string where "EMOJI_PREFIX = '':emoji''"

text \<open>\<open>atoi\<close> gives 0 when there is no number. \<open>buf\<close> is the memory up to the first NUL.\<close>

definition get_emoji_id :: "string \<Rightarrow> int" where
  "get_emoji_id buf =
     (if take (length EMOJI_PREFIX) buf \<noteq> EMOJI_PREFIX then -1
      else (case fst (scan_number (drop (length EMOJI_PREFIX) buf)) of None \<Rightarrow> 0 | Some v \<Rightarrow> wrap32 v))"

definition emoji_texts :: "string list" where
  "emoji_texts = map (map (char_of :: nat \<Rightarrow> char))
     [[40, 32, 239, 190, 159, 226, 150, 189, 239, 190, 159, 41, 47, 10],
      [40, 194, 176, 226, 136, 128, 194, 176, 41, 98, 10],
      [40, 194, 172, 226, 128, 191, 194, 172, 41, 10],
      [40, 226, 150, 188, 45, 226, 150, 188, 42, 41, 10],
      [40, 194, 180, 208, 148, 239, 189, 128, 41, 10]]"

definition keibot_init :: "fs \<Rightarrow> fs" where
  "keibot_init s =
     (let s = list_init list_head s;
          (_, s) = new_file ''/'' None (S_IFDIR OR 493) 0 2 s
      in if opt_chatbot_mode (options s)
         then (let b1 = concatenate ''/'' (opt_bot1 (options s)); b2 = concatenate ''/'' (opt_bot2 (options s));
                   s = s\<lparr>chatbot_mode := True, bot1_path := b1, bot2_path := b2\<rparr>;
                   (_, s) = new_file b1 None (S_IFDIR OR 493) 0 2 s;
                   (_, s) = new_file b2 None (S_IFDIR OR 493) 0 2 s
               in s\<lparr>emoji := emoji_texts\<rparr>)
         else s)"

primrec del_all :: "nat \<Rightarrow> nat \<Rightarrow> fs \<Rightarrow> fs" where
  "del_all 0 p s = s"
| "del_all (Suc k) p s = (if p = list_head then s else (let nex = nxt s p in del_all k nex (del_file p s)))"

definition keibot_destroy :: "fs \<Rightarrow> fs" where
  "keibot_destroy s =
     (let s = del_all (fresh s) (nxt s list_head) s
      in if opt_chatbot_mode (options s) then s\<lparr>bot1_path := [], bot2_path := [], emoji := []\<rparr> else s)"

subsection \<open>Operations on attributes and directories\<close>

definition keibot_getattr :: "string \<Rightarrow> fs \<Rightarrow> int \<times> stat_t option" where
  "keibot_getattr p s =
     (case find_entry p s of None \<Rightarrow> (- ENOENT, None) | Some n \<Rightarrow> (0, map_option fstat (entry s n)))"

text \<open>The answer and what is handed to \<open>filler\<close>.\<close>

definition keibot_readdir :: "string \<Rightarrow> fs \<Rightarrow> int \<times> (string \<times> stat_t option) list" where
  "keibot_readdir p s =
     (let out = (''.'', None) # (if p \<noteq> ''/'' then [(''..'', None)] else [])
      in case find_entry p s of
           None \<Rightarrow> (- ENOENT, out)
         | Some _ \<Rightarrow> (0, out @ map (\<lambda>e. (get_relative_name p (path e), Some (fstat e)))
                              (filter (\<lambda>e. is_parent_path p (path e) True) (List.map_filter (entry s) (foreach_entry s)))))"

definition create_file :: "string \<Rightarrow> nat \<Rightarrow> nat \<Rightarrow> nat \<Rightarrow> fs \<Rightarrow> int \<times> fs" where
  "create_file p mode rdev nlink s =
     (if MAX_FILE_NAME_LEN < length p then (- ENAMETOOLONG, s)
      else if find_entry p s \<noteq> None then (- EEXIST, s)
      else (0, snd (new_file p empty_content mode rdev nlink s)))"

text \<open>Creating the file and, in the mode with two bots, its counterpart.\<close>

definition create_both :: "string \<Rightarrow> nat \<Rightarrow> nat \<Rightarrow> nat \<Rightarrow> fs \<Rightarrow> int \<times> fs" where
  "create_both p mode rdev nlink s =
     (let (r, s) = create_file p mode rdev nlink s
      in if r < 0 then (r, s)
         else (case (if chatbot_mode s then switch_bot p s else None) of
                 None \<Rightarrow> (r, s)
               | Some npath \<Rightarrow> create_file npath mode rdev nlink s))"

definition keibot_mknod :: "string \<Rightarrow> nat \<Rightarrow> nat \<Rightarrow> fs \<Rightarrow> int \<times> fs" where
  "keibot_mknod p mode rdev s = create_both p (S_IFREG OR mode) rdev 1 s"

definition keibot_mkdir :: "string \<Rightarrow> nat \<Rightarrow> fs \<Rightarrow> int \<times> fs" where
  "keibot_mkdir p mode s = create_both p (S_IFDIR OR mode) 0 2 s"

definition keibot_unlink :: "string \<Rightarrow> fs \<Rightarrow> int \<times> fs" where
  "keibot_unlink p s =
     (case find_entry p s of
        None \<Rightarrow> (- ENOENT, s)
      | Some n \<Rightarrow> if (case entry s n of Some e \<Rightarrow> IS_DIR e | None \<Rightarrow> False) then (- EISDIR, s) else (0, del_file n s))"

definition keibot_rmdir :: "string \<Rightarrow> fs \<Rightarrow> int \<times> fs" where
  "keibot_rmdir p s =
     (case find_entry p s of
        None \<Rightarrow> (- ENOENT, s)
      | Some n \<Rightarrow>
          if (case entry s n of Some e \<Rightarrow> IS_REG e | None \<Rightarrow> False) then (- EISNAM, s)
          else (let subcount = length (filter (\<lambda>e. is_parent_path p (path e) False) (List.map_filter (entry s) (foreach_entry s)))
                in if 0 < subcount then (- ENOTEMPTY, s) else (0, del_file n s)))"

definition keibot_utimens :: "string \<Rightarrow> fs \<Rightarrow> int \<times> fs" where
  "keibot_utimens p s =
     (case find_entry p s of
        None \<Rightarrow> (- ENOENT, s)
      | Some n \<Rightarrow>
          (case entry s n of
             None \<Rightarrow> (0, s)
           | Some e \<Rightarrow> (0, set_entry n (e\<lparr>fstat := (fstat e)\<lparr>st_atime := now s, st_ctime := now s, st_mtime := now s\<rparr>\<rparr>) s)))"

subsection \<open>Open files\<close>

text \<open>The handle \<open>fh\<close> is the node of the file, 0 when there is none.\<close>

definition keibot_open :: "string \<Rightarrow> nat \<Rightarrow> fs \<Rightarrow> int \<times> nat \<times> fs" where
  "keibot_open p fh s =
     (let (n, s) = (case find_entry p s of Some n \<Rightarrow> (n, s) | None \<Rightarrow> new_file p empty_content (S_IFREG OR 292) 0 1 s)
      in if (case entry s n of Some e \<Rightarrow> IS_DIR e | None \<Rightarrow> False) then (- EISDIR, fh, s) else (0, n, s))"

definition keibot_opendir :: "string \<Rightarrow> nat \<Rightarrow> fs \<Rightarrow> int \<times> nat \<times> fs" where
  "keibot_opendir p fh s =
     (let (n, s) = (case find_entry p s of Some n \<Rightarrow> (n, s) | None \<Rightarrow> new_file p None (S_IFDIR OR 493) 0 2 s)
      in if (case entry s n of Some e \<Rightarrow> IS_REG e | None \<Rightarrow> False) then (- EISNAM, fh, s) else (0, n, s))"

definition keibot_release :: "nat \<Rightarrow> int \<times> nat" where "keibot_release fh = (0, 0)"
definition keibot_releasedir :: "nat \<Rightarrow> int \<times> nat" where "keibot_releasedir fh = (0, 0)"
definition keibot_access :: "string \<Rightarrow> nat \<Rightarrow> int" where "keibot_access p m = 0"

definition write_file :: "nat \<Rightarrow> string \<Rightarrow> nat \<Rightarrow> nat \<Rightarrow> fs \<Rightarrow> (int \<times> fs) option" where
  "write_file n buf bytes offset s =
     (case entry s n of
        None \<Rightarrow> None
      | Some e \<Rightarrow>
          if IS_DIR e then Some (- EISDIR, s)
          else (let total = offset + bytes; grow = st_size (fstat e) < total
                in if grow \<and> \<not> alloc_ok s total then Some (- ENOMEM, s)
                   else (case (if grow
                               then (let c = (case content e of Some c \<Rightarrow> c | None \<Rightarrow> [])
                                     in Some (take total c @ replicate (total - length c) (junk s)))
                               else content e) of
                           None \<Rightarrow> None
                         | Some c \<Rightarrow>
                             if length c < total then None
                             else (let c = take offset c @ take bytes buf @ drop total c;
                                       st = (fstat e)\<lparr>st_size := total, st_blocks := (total + BLOCK_SIZE - 1) div BLOCK_SIZE\<rparr>;
                                       e = e\<lparr>content := Some (c[total := NUL]), fstat := st\<rparr>
                                   in Some (0, (set_entry n e s)\<lparr>overruns := overruns s + (if total < length c then 0 else 1)\<rparr>)))))"

text \<open>Writing \<open>bytes\<close> bytes of \<open>buf\<close> or, when the text asks for one, an emoji.\<close>

definition write_text :: "nat \<Rightarrow> string \<Rightarrow> nat \<Rightarrow> nat \<Rightarrow> fs \<Rightarrow> (int \<times> fs) option" where
  "write_text n buf bytes offset s =
     (let i = get_emoji_id buf
      in if chatbot_mode s \<and> 0 \<le> i
         then (if nat i < length (emoji s) then write_file n (emoji s ! nat i) (length (emoji s ! nat i)) 0 s else None)
         else write_file n buf bytes offset s)"

definition keibot_write :: "string \<Rightarrow> string \<Rightarrow> nat \<Rightarrow> nat \<Rightarrow> nat \<Rightarrow> fs \<Rightarrow> (int \<times> fs) option" where
  "keibot_write p buf bytes offset fh s =
     (if fh = 0 then Some (- ENOENT, s)
      else (case write_text fh buf bytes offset s of
              None \<Rightarrow> None
            | Some (r, s) \<Rightarrow>
                if r < 0 then Some (r, s)
                else (case (if chatbot_mode s then switch_bot p s else None) of
                        None \<Rightarrow> Some (int bytes, s)
                      | Some npath \<Rightarrow>
                          (case find_entry npath s of
                             None \<Rightarrow> Some (int bytes, s)
                           | Some n \<Rightarrow> map_option (\<lambda>(r, s). (int bytes, s)) (write_text n buf bytes offset s)))))"

definition keibot_read :: "nat \<Rightarrow> nat \<Rightarrow> nat \<Rightarrow> fs \<Rightarrow> (int \<times> string) option" where
  "keibot_read bytes offset fh s =
     (if fh = 0 then Some (- ENOENT, [])
      else (case entry s fh of
              None \<Rightarrow> None
            | Some e \<Rightarrow>
                if IS_DIR e then Some (- EISDIR, [])
                else (let rbytes = min (st_size (fstat e) - offset) bytes;
                          c = (case content e of Some c \<Rightarrow> c | None \<Rightarrow> [])
                      in if rbytes = 0 then Some (0, [])
                         else if length c < offset + rbytes then None
                         else Some (int rbytes, take rbytes (drop offset c)))))"

definition RENAME_NOREPLACE :: nat where "RENAME_NOREPLACE = 1"
definition RENAME_EXCHANGE :: nat where "RENAME_EXCHANGE = 2"

text \<open>The loop over the entries below a renamed directory asserts that there is none.\<close>

definition keibot_rename :: "string \<Rightarrow> string \<Rightarrow> nat \<Rightarrow> fs \<Rightarrow> (int \<times> fs) option" where
  "keibot_rename src_path dest_path flags s =
     (if take MAX_FILE_NAME_LEN src_path = take MAX_FILE_NAME_LEN dest_path then Some (0, s)
      else if flags = RENAME_EXCHANGE then None
      else (case find_entry src_path s of
              None \<Rightarrow> Some (- ENOENT, s)
            | Some src \<Rightarrow>
                let dest = find_entry dest_path s
                in if flags = RENAME_NOREPLACE \<and> dest \<noteq> None then Some (- EEXIST, s)
                   else (let s = (case dest of Some d \<Rightarrow> del_file d s | None \<Rightarrow> s)
                         in case entry s src of
                              None \<Rightarrow> None
                            | Some e \<Rightarrow>
                                (let e = e\<lparr>path := dest_path\<rparr>; s = set_entry src e s
                                 in if IS_DIR e \<and> (\<exists>i \<in> set (foreach_entry s).
                                         case entry s i of Some e' \<Rightarrow> is_parent_path src_path (path e') False | None \<Rightarrow> False)
                                    then None else Some (0, s)))))"

end
