(* ===== verification/Keibot_Inv.thy ===== *)
theory Keibot_Inv
  imports Keibot
begin

section \<open>The file system as a map from paths to files\<close>

text \<open>
  The ring of nodes is the list of allocated files, without repetition, and no two files have the same
  path; a file system with this invariant stands for the map \<open>fmap\<close> from paths to files. The locale
  \<open>file_store\<close> states what the operations on the ring do to that map, and is interpreted on them.
\<close>

subsection \<open>Rings\<close>

fun chain :: "(nat \<Rightarrow> nat) \<Rightarrow> (nat \<Rightarrow> nat) \<Rightarrow> nat \<Rightarrow> nat list \<Rightarrow> nat \<Rightarrow> bool" where
  "chain nx pv p [] q \<longleftrightarrow> nx p = q \<and> pv q = p"
| "chain nx pv p (x # L) q \<longleftrightarrow> nx p = x \<and> pv x = p \<and> chain nx pv x L q"

lemma chain_append: "chain nx pv p (L1 @ x # L2) q \<longleftrightarrow> chain nx pv p L1 x \<and> chain nx pv x L2 q"
  by (induction L1 arbitrary: p) auto

lemma chain_ends: "chain nx pv p L q \<Longrightarrow> pv q = last (p # L) \<and> nx (last (p # L)) = q"
  by (induction L arbitrary: p) auto

lemma chain_frame:
  "chain nx pv p L q \<Longrightarrow> \<forall>x \<in> set (p # L). nx' x = nx x \<Longrightarrow> \<forall>x \<in> set (q # L). pv' x = pv x \<Longrightarrow> chain nx' pv' p L q"
  by (induction L arbitrary: p) auto

lemma chain_retarget:
  "chain nx pv p L q \<Longrightarrow> distinct (p # L) \<Longrightarrow> r \<notin> set L \<Longrightarrow> chain (nx(last (p # L) := r)) (pv(r := last (p # L))) p L r"
proof (induction L arbitrary: p)
  case (Cons x L)
  define l where "l = last (x # L)"
  have "chain (nx(l := r)) (pv(r := l)) x L r" unfolding l_def by (rule Cons.IH) (use Cons.prems in simp_all)
  moreover have "l \<in> set (x # L)" unfolding l_def by (rule last_in_set) simp
  then have "p \<noteq> l" using Cons.prems(2) by auto
  moreover have e: "last (p # x # L) = l" by (simp add: l_def)
  moreover have "(nx(l := r)) p = x" "(pv(r := l)) x = p" using Cons.prems(1,3) \<open>p \<noteq> l\<close> by simp_all
  ultimately show ?case unfolding e chain.simps by blast
qed simp

lemma walk_chain: "chain nx pv p L 0 \<Longrightarrow> 0 \<notin> set L \<Longrightarrow> length L \<le> k \<Longrightarrow> walk k nx (nx p) = L"
proof (induction L arbitrary: p k)
  case Nil
  then show ?case by (cases k) (simp_all add: list_head_def)
next
  case (Cons x L)
  then obtain k' where "k = Suc k'" by (cases k) auto
  then show ?case using Cons by (simp add: list_head_def)
qed

definition ring :: "fs \<Rightarrow> nat list \<Rightarrow> bool" where
  "ring s L \<longleftrightarrow> distinct (0 # L) \<and> chain (nxt s) (prv s) 0 L 0"

lemma ring_empty: "ring (list_init list_head s) []"
  by (simp add: ring_def list_init_def list_head_def)

lemma ring_insert:
  assumes "ring s L" "n \<notin> set (0 # L)"
  shows "ring (list_add_tail n list_head (list_init n s)) (L @ [n])"
proof -
  let ?l = "last (0 # L)"
  have c: "chain (nxt s) (prv s) 0 L 0" and d: "distinct (0 # L)" using assms(1) by (simp_all add: ring_def)
  have pv: "prv s 0 = ?l" using chain_ends [OF c] by simp
  have ln: "?l \<noteq> n" using assms(2) last_in_set [of "0 # L"] by (metis list.distinct(1))
  have "chain ((nxt s)(?l := n)) ((prv s)(n := ?l)) 0 L n" by (rule chain_retarget [OF c d]) (use assms(2) in simp)
  then have "chain ((nxt s)(n := 0, ?l := n)) ((prv s)(n := n, 0 := n, n := ?l)) 0 L n"
    by (rule chain_frame) (use assms(2) d ln in auto)
  then have "chain ((nxt s)(n := n, n := 0, ?l := n)) ((prv s)(n := n, 0 := n, n := ?l)) 0 (L @ [n]) 0"
    unfolding chain_append using assms(2) ln by simp
  then show ?thesis using assms(2) d pv
    by (simp add: ring_def list_add_tail_def list_add_def list_init_def list_head_def)
qed

lemma ring_delete:
  assumes "ring s (L1 @ x # L2)"
  shows "ring (list_del x s) (L1 @ L2)"
proof -
  let ?l = "last (0 # L1)"
  have c1: "chain (nxt s) (prv s) 0 L1 x" and c2: "chain (nxt s) (prv s) x L2 0" and d: "distinct (0 # L1 @ x # L2)"
    using assms by (simp_all add: ring_def chain_append)
  have px: "prv s x = ?l" using chain_ends [OF c1] by simp
  have ll: "?l \<in> set (0 # L1)" by (rule last_in_set) simp
  show ?thesis
  proof (cases L2)
    case Nil
    have "chain ((nxt s)(?l := 0)) ((prv s)(0 := ?l)) 0 L1 0" by (rule chain_retarget [OF c1]) (use d in auto)
    then show ?thesis using Nil c2 d px by (simp add: ring_def list_del_def Let_def)
  next
    case (Cons y L2')
    have y: "nxt s x = y" "chain (nxt s) (prv s) y L2' 0" using c2 Cons by simp_all
    have "chain ((nxt s)(?l := y)) ((prv s)(y := ?l)) 0 L1 y" by (rule chain_retarget [OF c1]) (use d Cons in auto)
    moreover have "chain ((nxt s)(?l := y)) ((prv s)(y := ?l)) y L2' 0"
      by (rule chain_frame [OF y(2)]) (use d Cons ll in auto)
    ultimately show ?thesis using Cons d px y by (simp add: ring_def list_del_def Let_def chain_append)
  qed
qed

subsection \<open>The invariant and the map\<close>

definition file_at :: "fs \<Rightarrow> nat \<Rightarrow> file_entry" where "file_at s i = the (entry s i)"

definition fs_list :: "fs \<Rightarrow> nat list \<Rightarrow> bool" where
  "fs_list s L \<longleftrightarrow> ring s L \<and> (\<forall>i. entry s i \<noteq> None \<longleftrightarrow> i \<in> set L) \<and> (\<forall>i \<in> set L. i < fresh s) \<and> 0 < fresh s \<and>
     distinct (map (\<lambda>i. path (file_at s i)) L)"

definition fs_ok :: "fs \<Rightarrow> bool" where "fs_ok s \<longleftrightarrow> (\<exists>L. fs_list s L)"

definition fmap :: "fs \<Rightarrow> string \<Rightarrow> file_entry option" where
  "fmap s p = (case find_entry p s of None \<Rightarrow> None | Some n \<Rightarrow> entry s n)"

lemma fs_list_foreach:
  assumes "fs_list s L"
  shows "foreach_entry s = L"
proof -
  have "set L \<subseteq> {..<fresh s}" using assms by (auto simp: fs_list_def)
  then have "card (set L) \<le> fresh s" using card_mono [of "{..<fresh s}" "set L"] by simp
  moreover have "distinct L" using assms by (simp add: fs_list_def ring_def)
  ultimately have "length L \<le> fresh s" by (simp add: distinct_card)
  then show ?thesis using assms walk_chain [of "nxt s" "prv s" 0 L "fresh s"]
    by (simp add: foreach_entry_def fs_list_def ring_def list_head_def)
qed

lemma entry_in: "fs_list s L \<Longrightarrow> i \<in> set L \<Longrightarrow> entry s i = Some (file_at s i)"
  by (auto simp: fs_list_def file_at_def)

lemma find_entry_Some:
  assumes "fs_list s L"
  shows "find_entry p s = Some n \<longleftrightarrow> n \<in> set L \<and> path (file_at s n) = p"
proof -
  let ?P = "\<lambda>i. case entry s i of Some e \<Rightarrow> path e = p | None \<Rightarrow> False"
  have P: "?P i \<longleftrightarrow> path (file_at s i) = p" if "i \<in> set L" for i using entry_in [OF assms that] by simp
  have d: "distinct (map (\<lambda>i. path (file_at s i)) L)" using assms by (simp add: fs_list_def)
  show ?thesis
  proof
    assume "find_entry p s = Some n"
    then have "?P n" "n \<in> set L"
      unfolding find_entry_def fs_list_foreach [OF assms] find_Some_iff by (auto simp: in_set_conv_nth)
    then show "n \<in> set L \<and> path (file_at s n) = p" using P by blast
  next
    assume n: "n \<in> set L \<and> path (file_at s n) = p"
    then obtain i where i: "i < length L" "L ! i = n" by (auto simp: in_set_conv_nth)
    have "\<not> ?P (L ! j)" if "j < i" for j
    proof -
      have "path (file_at s (L ! j)) \<noteq> path (file_at s (L ! i))"
        using d that i(1) by (simp add: distinct_conv_nth)
      then show ?thesis using P [of "L ! j"] n i that by simp
    qed
    then show "find_entry p s = Some n"
      unfolding find_entry_def fs_list_foreach [OF assms] find_Some_iff using i n P [of n] by (intro exI [of _ i]) auto
  qed
qed

lemma find_entry_None:
  assumes "fs_list s L"
  shows "find_entry p s = None \<longleftrightarrow> (\<forall>i \<in> set L. path (file_at s i) \<noteq> p)"
proof -
  have "find_entry p s = None \<longleftrightarrow> (\<forall>n. find_entry p s \<noteq> Some n)" by auto
  then show ?thesis unfolding find_entry_Some [OF assms] by blast
qed

lemma fmap_Some: "fs_list s L \<Longrightarrow> fmap s p = Some e \<longleftrightarrow> (\<exists>n \<in> set L. path (file_at s n) = p \<and> file_at s n = e)"
proof -
  assume a: "fs_list s L"
  show ?thesis
  proof (cases "find_entry p s")
    case None
    then have "\<forall>i \<in> set L. path (file_at s i) \<noteq> p" using find_entry_None [OF a] by blast
    then show ?thesis using None by (auto simp: fmap_def)
  next
    case (Some n)
    then have n: "n \<in> set L" "path (file_at s n) = p" using find_entry_Some [OF a] by simp_all
    have u: "m = n" if "m \<in> set L" "path (file_at s m) = p" for m
    proof -
      have "find_entry p s = Some m" using that find_entry_Some [OF a] by simp
      then show ?thesis using Some by simp
    qed
    have "fmap s p = Some (file_at s n)" using Some entry_in [OF a n(1)] by (simp add: fmap_def)
    then show ?thesis using n u by (metis option.inject)
  qed
qed

lemma fmap_find:
  assumes "fs_ok s" "find_entry p s = Some n"
  shows "entry s n = fmap s p \<and> (\<exists>e. fmap s p = Some e \<and> path e = p)"
proof -
  obtain L where L: "fs_list s L" using assms(1) by (auto simp: fs_ok_def)
  have n: "n \<in> set L" "path (file_at s n) = p" using assms(2) find_entry_Some [OF L] by simp_all
  show ?thesis using assms(2) n(2) entry_in [OF L n(1)] by (simp add: fmap_def)
qed

lemma fmap_none: "fs_ok s \<Longrightarrow> fmap s p = None \<longleftrightarrow> find_entry p s = None"
  using fmap_find [of s p] by (cases "find_entry p s") (auto simp: fmap_def)

subsection \<open>The contract of the ring of files\<close>

locale file_store =
  fixes ok :: "'s \<Rightarrow> bool"
    and view :: "'s \<Rightarrow> string \<Rightarrow> file_entry option"
    and lookup :: "string \<Rightarrow> 's \<Rightarrow> nat option"
    and insert_new :: "file_entry \<Rightarrow> 's \<Rightarrow> 's"
    and delete :: "nat \<Rightarrow> 's \<Rightarrow> 's"
    and update :: "nat \<Rightarrow> file_entry \<Rightarrow> 's \<Rightarrow> 's"
  assumes lookup_view: "ok s \<Longrightarrow> lookup p s = None \<longleftrightarrow> view s p = None"
    and insert_ok: "ok s \<Longrightarrow> view s (path e) = None \<Longrightarrow> ok (insert_new e s) \<and> view (insert_new e s) = (view s)(path e \<mapsto> e)"
    and delete_ok: "ok s \<Longrightarrow> lookup p s = Some n \<Longrightarrow> ok (delete n s) \<and> view (delete n s) = (view s)(p := None)"
    and delete_nodes: "ok s \<Longrightarrow> lookup p s = Some n \<Longrightarrow> q \<noteq> p \<Longrightarrow> lookup q (delete n s) = lookup q s"
    and update_ok: "ok s \<Longrightarrow> lookup p s = Some n \<Longrightarrow> path e = p \<or> view s (path e) = None \<Longrightarrow>
      ok (update n e s) \<and> view (update n e s) = (view s)(p := None, path e \<mapsto> e)"
begin

lemma insert_lookup: "ok s \<Longrightarrow> view s (path e) = None \<Longrightarrow> lookup (path e) (insert_new e s) \<noteq> None"
  using insert_ok [of s e] lookup_view [of "insert_new e s" "path e"] by auto

lemma delete_lookup: "ok s \<Longrightarrow> lookup p s = Some n \<Longrightarrow> lookup p (delete n s) = None"
  using delete_ok [of s p n] lookup_view [of "delete n s" p] by auto

lemma move_entry:
  assumes "ok s" "lookup p s = Some n" "q \<noteq> p" "path e = q"
  defines "s' \<equiv> (case lookup q s of Some d \<Rightarrow> delete d s | None \<Rightarrow> s)"
  shows "ok (update n e s') \<and> view (update n e s') = (view s)(p := None, q \<mapsto> e)"
proof (cases "lookup q s")
  case None
  then show ?thesis using update_ok [OF assms(1,2), of e] lookup_view [OF assms(1), of q] assms(4) by (simp add: s'_def)
next
  case (Some d)
  note del = delete_ok [OF assms(1) Some]
  have "lookup p (delete d s) = Some n" using delete_nodes [OF assms(1) Some, of p] assms(2,3) by simp
  then show ?thesis using update_ok [of "delete d s" p n e] del assms(3,4) Some
    by (simp add: s'_def fun_upd_twist)
qed

end

definition add_entry :: "file_entry \<Rightarrow> fs \<Rightarrow> fs" where
  "add_entry e s = list_add_tail (fresh s) list_head
     (list_init (fresh s) (s\<lparr>fresh := fresh s + 1, entry := (entry s)(fresh s \<mapsto> e)\<rparr>))"

lemma list_ops_frame [simp]:
  "entry (list_init n s) = entry s" "fresh (list_init n s) = fresh s"
  "entry (list_add a b c s) = entry s" "fresh (list_add a b c s) = fresh s"
  "entry (list_del n s) = entry s" "fresh (list_del n s) = fresh s"
  by (simp_all add: list_init_def list_add_def list_del_def Let_def)

lemma ring_cong: "nxt s' = nxt s \<Longrightarrow> prv s' = prv s \<Longrightarrow> ring s' L = ring s L"
  by (simp add: ring_def)

lemma fmap_eqI:
  assumes "fs_list s L" "\<And>p e. m p = Some e \<longleftrightarrow> (\<exists>n \<in> set L. path (file_at s n) = p \<and> file_at s n = e)"
  shows "fmap s = m"
proof
  fix p
  have "fmap s p = Some e \<longleftrightarrow> m p = Some e" for e unfolding fmap_Some [OF assms(1)] assms(2) ..
  then show "fmap s p = m p" by (metis option.exhaust)
qed

lemma add_entry_list:
  assumes "fs_list s L" "\<forall>i \<in> set L. path (file_at s i) \<noteq> path e"
  shows "fs_list (add_entry e s) (L @ [fresh s])" "fmap (add_entry e s) = (fmap s)(path e \<mapsto> e)"
proof -
  let ?n = "fresh s" let ?s1 = "s\<lparr>fresh := fresh s + 1, entry := (entry s)(fresh s \<mapsto> e)\<rparr>"
  have n: "?n \<notin> set (0 # L)" using assms(1) by (auto simp: fs_list_def)
  have "ring ?s1 L" using assms(1) ring_cong [of ?s1 s] by (simp add: fs_list_def)
  then have "ring (add_entry e s) (L @ [?n])" unfolding add_entry_def by (rule ring_insert) (use n in simp)
  moreover have ent: "entry (add_entry e s) = (entry s)(?n \<mapsto> e)" "fresh (add_entry e s) = ?n + 1"
    by (simp_all add: add_entry_def list_add_tail_def)
  moreover have at: "file_at (add_entry e s) i = file_at s i" if "i \<in> set L" for i using n that by (auto simp: file_at_def ent)
  moreover have atn: "file_at (add_entry e s) ?n = e" by (simp add: file_at_def ent)
  moreover have "map (\<lambda>i. path (file_at (add_entry e s) i)) L = map (\<lambda>i. path (file_at s i)) L" using at by simp
  ultimately show l: "fs_list (add_entry e s) (L @ [?n])"
    using assms by (auto simp: fs_list_def simp del: map_eq_conv)
  show "fmap (add_entry e s) = (fmap s)(path e \<mapsto> e)"
  proof (rule fmap_eqI [OF l])
    fix p e'
    show "((fmap s)(path e \<mapsto> e)) p = Some e' \<longleftrightarrow>
        (\<exists>n \<in> set (L @ [?n]). path (file_at (add_entry e s) n) = p \<and> file_at (add_entry e s) n = e')"
      using fmap_Some [OF assms(1)] at atn assms(2) by (auto simp: fun_upd_def)
  qed
qed

lemma del_file_list:
  assumes "fs_list s L" "n \<in> set L"
  shows "\<exists>L'. fs_list (del_file n s) L' \<and> set L' = set L - {n}" "fmap (del_file n s) = (fmap s)(path (file_at s n) := None)"
proof -
  obtain L1 L2 where L: "L = L1 @ n # L2" using assms(2) by (auto simp: in_set_conv_decomp)
  let ?s' = "del_file n s"
  have d: "distinct L" "n \<notin> set (L1 @ L2)" using assms(1) L by (auto simp: fs_list_def ring_def)
  have ent: "entry ?s' = (entry s)(n := None)" "fresh ?s' = fresh s" by (simp_all add: del_file_def Let_def)
  have "ring ?s' (L1 @ L2)"
    using ring_delete [of s L1 n L2] assms(1) L ring_cong [of ?s' "list_del n s"] by (simp add: fs_list_def del_file_def Let_def)
  moreover have at: "file_at ?s' i = file_at s i" if "i \<in> set (L1 @ L2)" for i using d(2) that by (auto simp: file_at_def ent)
  then have "map (\<lambda>i. path (file_at ?s' i)) (L1 @ L2) = map (\<lambda>i. path (file_at s i)) (L1 @ L2)" by simp
  moreover have "distinct (map (\<lambda>i. path (file_at s i)) (L1 @ L2))" using assms(1) L by (auto simp: fs_list_def)
  moreover have "entry ?s' i \<noteq> None \<longleftrightarrow> i \<in> set (L1 @ L2)" for i
    using assms(1) d(2) L by (auto simp: fs_list_def ent)
  ultimately have l: "fs_list ?s' (L1 @ L2)" using assms(1) L ent by (auto simp: fs_list_def simp del: map_append map_eq_conv)
  moreover have "set (L1 @ L2) = set L - {n}" using d(2) L by auto
  ultimately show "\<exists>L'. fs_list ?s' L' \<and> set L' = set L - {n}" by blast
  have dp: "distinct (map (\<lambda>i. path (file_at s i)) L)" using assms(1) by (simp add: fs_list_def)
  have "path (file_at s n) \<notin> (\<lambda>i. path (file_at s i)) ` set (L1 @ L2)" using dp L by auto
  then have other: "path (file_at s i) \<noteq> path (file_at s n)" if "i \<in> set (L1 @ L2)" for i using that by (metis image_eqI)
  show "fmap ?s' = (fmap s)(path (file_at s n) := None)"
  proof (rule fmap_eqI [OF l])
    fix p e'
    show "((fmap s)(path (file_at s n) := None)) p = Some e' \<longleftrightarrow>
        (\<exists>i \<in> set (L1 @ L2). path (file_at ?s' i) = p \<and> file_at ?s' i = e')"
      using fmap_Some [OF assms(1), of p e'] at other L by (auto simp: fun_upd_def)
  qed
qed

lemma set_entry_list:
  assumes "fs_list s L" "n \<in> set L" "path e = path (file_at s n) \<or> (\<forall>i \<in> set L. path (file_at s i) \<noteq> path e)"
  shows "fs_list (set_entry n e s) L" "fmap (set_entry n e s) = (fmap s)(path (file_at s n) := None, path e \<mapsto> e)"
proof -
  let ?s' = "set_entry n e s"
  have ent: "entry ?s' = (entry s)(n \<mapsto> e)" "fresh ?s' = fresh s" by (simp_all add: set_entry_def)
  have at: "file_at ?s' i = (if i = n then e else file_at s i)" for i by (simp add: file_at_def ent)
  have d: "distinct L" using assms(1) by (simp add: fs_list_def ring_def)
  have dp: "inj_on (\<lambda>i. path (file_at s i)) (set L)" using assms(1) by (simp add: fs_list_def distinct_map)
  have other: "path (file_at s i) \<noteq> path e" if "i \<in> set L" "i \<noteq> n" for i
    using assms(2,3) dp that by (metis inj_onD)
  have "inj_on (\<lambda>i. path (file_at ?s' i)) (set L)"
  proof (rule inj_onI)
    fix x y
    assume xy: "x \<in> set L" "y \<in> set L" "path (file_at ?s' x) = path (file_at ?s' y)"
    show "x = y"
      using xy other [of x] other [of y] inj_onD [OF dp, of x y] by (cases "x = n"; cases "y = n") (simp_all add: at)
  qed
  then show l: "fs_list ?s' L"
    using assms(1,2) d ring_cong [of ?s' s] by (auto simp: fs_list_def ent distinct_map) (auto simp: set_entry_def)
  show "fmap ?s' = (fmap s)(path (file_at s n) := None, path e \<mapsto> e)"
  proof (rule fmap_eqI [OF l])
    fix p e'
    have "(\<exists>i \<in> set L. path (file_at ?s' i) = p \<and> file_at ?s' i = e') \<longleftrightarrow>
        (p = path e \<and> e' = e) \<or> (\<exists>i \<in> set L. i \<noteq> n \<and> path (file_at s i) = p \<and> file_at s i = e')"
      using assms(2) by (auto simp: at)
    moreover have "path (file_at s i) \<noteq> path (file_at s n)" if "i \<in> set L" "i \<noteq> n" for i using dp that assms(2) by (auto simp: inj_on_def)
    ultimately show "((fmap s)(path (file_at s n) := None, path e \<mapsto> e)) p = Some e' \<longleftrightarrow>
        (\<exists>i \<in> set L. path (file_at ?s' i) = p \<and> file_at ?s' i = e')"
      using fmap_Some [OF assms(1), of p e'] other assms(2) by (auto simp: fun_upd_def)
  qed
qed

interpretation kei: file_store fs_ok fmap find_entry add_entry del_file set_entry
proof
  fix s p n e
  assume ok: "fs_ok s"
  then obtain L where L: "fs_list s L" by (auto simp: fs_ok_def)
  show none: "find_entry p s = None \<longleftrightarrow> fmap s p = None" using fmap_none [OF ok] by blast
  show "fs_ok (add_entry e s) \<and> fmap (add_entry e s) = (fmap s)(path e \<mapsto> e)" if "fmap s (path e) = None"
    using add_entry_list [OF L] find_entry_None [OF L] fmap_none [OF ok] that by (auto simp: fs_ok_def)
  {
    assume f: "find_entry p s = Some n"
    then have n: "n \<in> set L" "path (file_at s n) = p" using find_entry_Some [OF L] by auto
    show "fs_ok (del_file n s) \<and> fmap (del_file n s) = (fmap s)(p := None)"
      using del_file_list [OF L n(1)] n(2) by (auto simp: fs_ok_def)
    show "find_entry q (del_file n s) = find_entry q s" if "q \<noteq> p" for q
    proof -
      obtain L' where L': "fs_list (del_file n s) L'" "set L' = set L - {n}" using del_file_list(1) [OF L n(1)] by blast
      have "file_at (del_file n s) i = file_at s i" if "i \<noteq> n" for i using that by (simp add: file_at_def del_file_def Let_def)
      then have "find_entry q (del_file n s) = Some i \<longleftrightarrow> find_entry q s = Some i" for i
        unfolding find_entry_Some [OF L'(1)] find_entry_Some [OF L] L'(2) using n(2) that by (cases "i = n") auto
      then show ?thesis by (metis option.exhaust)
    qed
    show "fs_ok (set_entry n e s) \<and> fmap (set_entry n e s) = (fmap s)(p := None, path e \<mapsto> e)"
      if "path e = p \<or> fmap s (path e) = None"
      using set_entry_list [OF L n(1), of e] n(2) that find_entry_None [OF L] fmap_none [OF ok] by (auto simp: fs_ok_def)
  }
qed

end
