(* ===== verification/Keibot_Correct.thy ===== *)
theory Keibot_Correct
  imports Keibot_Inv
begin

section \<open>The file system of the chat bot implements a map of paths\<close>

text \<open>
  The operations on the ring of files are simulated by operations on a map from paths to files. The
  theory ends with the claims: the simulation, the invariant along every history, what a write leaves
  in a file, and the mirror of the chat mode.
\<close>

subsection \<open>The abstract operations\<close>

type_synonym dir = "string \<Rightarrow> file_entry option"

definition new_entry :: "fs \<Rightarrow> string \<Rightarrow> string option \<Rightarrow> nat \<Rightarrow> nat \<Rightarrow> nat \<Rightarrow> file_entry" where
  "new_entry s p c mode rdev nlink =
     \<lparr>path = p, content = c, fstat = \<lparr>st_mode = mode, st_rdev = rdev, st_nlink = nlink, st_size = 0, st_blocks = 0,
        st_atime = now s, st_ctime = now s, st_mtime = now s\<rparr>\<rparr>"








subsection \<open>The simulation\<close>

definition sim :: "(int \<times> fs) \<Rightarrow> (int \<times> dir) \<Rightarrow> bool" where
  "sim x y \<longleftrightarrow> fst x = fst y \<and> fs_ok (snd x) \<and> fmap (snd x) = snd y"






lemma NUL_code: "code NUL = 0"
  by (simp add: NUL_def)

lemma new_file_empty:
  "new_file p empty_content mode rdev nlink s = (fresh s, add_entry (new_entry s p empty_content mode rdev nlink) s)"
  "new_file p None mode rdev nlink s = (fresh s, add_entry (new_entry s p None mode rdev nlink) s)"
  by (simp_all add: new_file_def new_entry_def add_entry_def empty_content_def NUL_code BLOCK_SIZE_def strnlen_max_def Let_def list_init_def)


lemma add_sim:
  assumes "fs_ok s" "fmap s (path e) = None"
  shows "fs_ok (add_entry e s)" "fmap (add_entry e s) = (fmap s)(path e \<mapsto> e)"
  using kei.insert_ok [OF assms] by simp_all

lemma path_new_entry [simp]: "path (new_entry s p c mode rdev nlink) = p"
  by (simp add: new_entry_def)



lemma find_sim:
  assumes "fs_ok s"
  shows "find_entry p s = None \<and> fmap s p = None \<or> (\<exists>n e. find_entry p s = Some n \<and> entry s n = Some e \<and> fmap s p = Some e \<and> path e = p)"
  using kei.lookup_view [OF assms, of p] fmap_find [OF assms, of p] by (cases "find_entry p s") auto



lemma unlink_sim:
  assumes "fs_ok s"
  shows "sim (keibot_unlink p s) (case fmap s p of None \<Rightarrow> (- ENOENT, fmap s)
    | Some e \<Rightarrow> if IS_DIR e then (- EISDIR, fmap s) else (0, (fmap s)(p := None)))"
  using find_sim [OF assms, of p] kei.delete_ok [OF assms, of p] assms by (auto simp: keibot_unlink_def sim_def)





subsection \<open>Histories\<close>


lemma fs_ok_cong:
  assumes "nxt s' = nxt s" "prv s' = prv s" "entry s' = entry s" "fresh s' = fresh s"
  shows "fs_ok s' = fs_ok s"
  using assms ring_cong [of s' s] by (simp add: fs_ok_def fs_list_def file_at_def)





lemma init_ok:
  assumes "opt_chatbot_mode (options s) \<Longrightarrow> opt_bot1 (options s) \<noteq> [] \<and> opt_bot2 (options s) \<noteq> [] \<and>
      take 1023 (opt_bot1 (options s)) \<noteq> take 1023 (opt_bot2 (options s))"
    and "0 < fresh s" "entry s = (\<lambda>_. None)"
  shows "fs_ok (keibot_init s)"
proof -
  let ?s0 = "list_init list_head s" let ?root = "new_entry ?s0 ''/'' None (S_IFDIR OR 493) 0 2"
  let ?s1 = "add_entry ?root ?s0"
  have ok0: "fs_ok ?s0" unfolding fs_ok_def fs_list_def
    by (rule exI [of _ "[]"]) (use assms(2,3) ring_empty in simp)
  have m0: "fmap ?s0 p = None" for p
    using kei.lookup_view [OF ok0, of p] find_sim [OF ok0, of p] assms(3) by auto
  have s1: "fs_ok ?s1" "fmap ?s1 = [''/'' \<mapsto> ?root]" using add_sim [OF ok0, of ?root] m0 by (auto simp: fun_eq_iff)
  have opts: "options ?s1 = options s" by (simp add: add_entry_def list_add_tail_def list_add_def list_init_def)
  show ?thesis
  proof (cases "opt_chatbot_mode (options s)")
    case False
    then have "keibot_init s = ?s1" by (simp add: keibot_init_def new_file_empty Let_def opts)
    then show ?thesis using s1(1) by simp
  next
    case True
    let ?b1 = "concatenate ''/'' (opt_bot1 (options s))" and ?b2 = "concatenate ''/'' (opt_bot2 (options s))"
    have b: "?b1 \<noteq> ''/''" "?b2 \<noteq> ''/''" "?b1 \<noteq> ?b2"
      using assms(1) True by (auto simp: concatenate_def MAX_FILE_NAME_LEN_def strnlen_max_def)
    define s2 where "s2 = ?s1\<lparr>chatbot_mode := True, bot1_path := ?b1, bot2_path := ?b2\<rparr>"
    have ok2: "fs_ok s2" using fs_ok_cong [of s2 ?s1] s1(1) by (simp add: s2_def)
    have f2: "find_entry p s2 = find_entry p ?s1" for p
      by (simp add: find_entry_def foreach_entry_def s2_def)
    let ?e1 = "new_entry s2 ?b1 None (S_IFDIR OR 493) 0 2"
    let ?s3 = "add_entry ?e1 s2"
    have "entry s2 = entry ?s1" by (simp add: s2_def)
    then have m2: "fmap s2 = fmap ?s1" unfolding fmap_def [abs_def] f2 by (simp only:)
    have s3: "fs_ok ?s3" "fmap ?s3 = (fmap ?s1)(?b1 \<mapsto> ?e1)"
      using add_sim [OF ok2, of ?e1] m2 s1(2) b(1) by simp_all
    let ?e2 = "new_entry ?s3 ?b2 None (S_IFDIR OR 493) 0 2"
    have "fs_ok (add_entry ?e2 ?s3)" using add_sim(1) [OF s3(1), of ?e2] s3(2) s1(2) b by simp
    moreover have "keibot_init s = (add_entry ?e2 ?s3)\<lparr>emoji := emoji_texts\<rparr>"
      using True by (simp add: keibot_init_def new_file_empty Let_def s2_def opts)
    ultimately show ?thesis using fs_ok_cong [of "keibot_init s" "add_entry ?e2 ?s3"] by simp
  qed
qed



subsection \<open>The claims\<close>

definition mountable :: "fs \<Rightarrow> bool" where
  "mountable s \<longleftrightarrow> 0 < fresh s \<and> entry s = (\<lambda>_. None) \<and> (opt_chatbot_mode (options s) \<longrightarrow>
     opt_bot1 (options s) \<noteq> [] \<and> opt_bot2 (options s) \<noteq> [] \<and> take 1023 (opt_bot1 (options s)) \<noteq> take 1023 (opt_bot2 (options s)))"

lemma mountable_ok: "mountable s \<Longrightarrow> fs_ok (keibot_init s)"
  by (rule init_ok) (auto simp: mountable_def)

definition bare_fs :: fs where
  "bare_fs = \<lparr>nxt = (\<lambda>_. 0), prv = (\<lambda>_. 0), entry = (\<lambda>_. None), fresh = 1,
     options = \<lparr>opt_chatbot_mode = False, opt_bot1 = ''aris'', opt_bot2 = ''kei''\<rparr>, chatbot_mode = False,
     bot1_path = [], bot2_path = [], emoji = [], overruns = 0, now = 7, alloc_ok = (\<lambda>_. True), junk = NUL\<rparr>"

lemma bare_mountable: "mountable bare_fs"
  by (simp add: mountable_def bare_fs_def)

lemma init_map:
  assumes "mountable s" "\<not> opt_chatbot_mode (options s)"
  shows "fmap (keibot_init s) = [''/'' \<mapsto> new_entry s ''/'' None (S_IFDIR OR 493) 0 2]"
proof -
  let ?s0 = "list_init list_head s" let ?root = "new_entry ?s0 ''/'' None (S_IFDIR OR 493) 0 2"
  have ok0: "fs_ok ?s0" unfolding fs_ok_def fs_list_def
    by (rule exI [of _ "[]"]) (use assms(1) ring_empty in \<open>simp add: mountable_def\<close>)
  have m0: "fmap ?s0 p = None" for p
    using kei.lookup_view [OF ok0, of p] find_sim [OF ok0, of p] assms(1) by (auto simp: mountable_def)
  have "options (add_entry ?root ?s0) = options s" by (simp add: add_entry_def list_add_tail_def list_add_def list_init_def)
  then have "keibot_init s = add_entry ?root ?s0" using assms(2) by (simp add: keibot_init_def new_file_empty Let_def)
  moreover have "?root = new_entry s ''/'' None (S_IFDIR OR 493) 0 2" by (simp add: new_entry_def list_init_def)
  ultimately show ?thesis using add_sim(2) [OF ok0, of ?root] m0 by (auto simp: fun_eq_iff)
qed





lemma write_file_content:
  fixes bytes :: nat
  assumes "entry s n = Some e" "\<not> IS_DIR e" "content e = Some c" "st_size (fstat e) \<le> length c" "offset \<le> st_size (fstat e)"
    and "bytes \<le> length buf" "alloc_ok s (offset + bytes)"
  defines "tot \<equiv> offset + bytes"
  obtains s' d where "write_file n buf bytes offset s = Some (0, s')"
    "entry s' n = Some (e\<lparr>content := Some (d[tot := NUL]),
       fstat := (fstat e)\<lparr>st_size := tot, st_blocks := (tot + BLOCK_SIZE - 1) div BLOCK_SIZE\<rparr>\<rparr>)"
    "take tot d = take offset c @ take bytes buf" "tot \<le> length d"
    "overruns s' = overruns s + (if st_size (fstat e) < tot \<or> length c = tot then 1 else 0)"
proof -
  define c0 where "c0 = (if st_size (fstat e) < tot then take tot c @ replicate (tot - length c) (junk s) else c)"
  define d where "d = take offset c0 @ take bytes buf @ drop tot c0"
  have len: "tot \<le> length c0" "length c0 = (if st_size (fstat e) < tot then tot else length c)" using assms(4) by (auto simp: c0_def)
  have off: "offset \<le> length c" "offset \<le> tot" using assms(4,5) by (simp_all add: tot_def)
  have to: "take offset c0 = take offset c" using off by (simp add: c0_def)
  have lt: "length (take offset c0 @ take bytes buf) = tot" using off assms(6) len(1) by (simp add: tot_def)
  have gen: "length xs = tot \<Longrightarrow> take tot (xs @ ys) = xs" for xs ys :: string by auto
  have td: "take tot d = take offset c @ take bytes buf" unfolding d_def using gen [OF lt, of "drop tot c0"] to by simp
  have ld: "length d = length c0" using len(1) off assms(6) by (simp add: d_def tot_def)
  let ?e = "e\<lparr>content := Some (d[tot := NUL]), fstat := (fstat e)\<lparr>st_size := tot, st_blocks := (tot + BLOCK_SIZE - 1) div BLOCK_SIZE\<rparr>\<rparr>"
  let ?s' = "(set_entry n ?e s)\<lparr>overruns := overruns s + (if tot < length d then 0 else 1)\<rparr>"
  have cc: "(if st_size (fstat e) < tot then Some (take tot c @ replicate (tot - length c) (junk s)) else Some c) = Some c0"
    by (simp add: c0_def)
  have nl: "\<not> length c0 < tot" and al: "\<not> (st_size (fstat e) < tot \<and> \<not> alloc_ok s tot)" using len(1) assms(7) by (simp_all add: tot_def)
  have "write_file n buf bytes offset s = Some (0, ?s')"
    unfolding write_file_def assms(1) option.case if_not_P [OF assms(2)] Let_def tot_def [symmetric] if_not_P [OF al] assms(3)
      cc if_not_P [OF nl] d_def [symmetric] ..
  moreover have "entry ?s' n = Some ?e" by (simp add: set_entry_def)
  moreover have "overruns ?s' = overruns s + (if st_size (fstat e) < tot \<or> length c = tot then 1 else 0)"
    using ld len by (auto split: if_splits)
  moreover have "tot \<le> length d" using ld len(1) by simp
  ultimately show ?thesis using that [of ?s' d] td by simp
qed

text \<open>C23: what a write leaves. A write that starts inside a regular file makes the file exactly the old content up
  to \<open>offset\<close> followed by the data: reading it from the start gives that back. Whatever the file held behind
  the data is gone, so a write into the middle of a file truncates it. The 0 stored behind the data lies
  outside the buffer whenever the file grows or keeps the size of its buffer.\<close>

theorem write_then_read:
  assumes "entry s n = Some e" "\<not> IS_DIR e" "content e = Some c" "st_size (fstat e) \<le> length c" "offset \<le> st_size (fstat e)"
    and "bytes \<le> length buf" "alloc_ok s (offset + bytes)" "n \<noteq> 0"
  shows "\<exists>s'. write_file n buf bytes offset s = Some (0, s') \<and>
    keibot_read (offset + bytes) 0 n s' = Some (int (offset + bytes), take offset c @ take bytes buf) \<and>
    keibot_read (st_size (fstat e)) (offset + bytes) n s' = Some (0, []) \<and>
    overruns s' = overruns s + (if st_size (fstat e) < offset + bytes \<or> length c = offset + bytes then 1 else 0)"
proof -
  let ?total = "offset + bytes"
  obtain s' d where w: "write_file n buf bytes offset s = Some (0, s')"
    "entry s' n = Some (e\<lparr>content := Some (d[?total := NUL]),
       fstat := (fstat e)\<lparr>st_size := ?total, st_blocks := (?total + BLOCK_SIZE - 1) div BLOCK_SIZE\<rparr>\<rparr>)"
    "take ?total d = take offset c @ take bytes buf" "?total \<le> length d"
    "overruns s' = overruns s + (if st_size (fstat e) < ?total \<or> length c = ?total then 1 else 0)"
    by (rule write_file_content [OF assms(1-7)])
  have "\<not> IS_DIR (e\<lparr>content := x, fstat := (fstat e)\<lparr>st_size := y, st_blocks := z\<rparr>\<rparr>)" for x y z
    using assms(2) by (simp add: IS_DIR_def)
  then have "keibot_read ?total 0 n s' = Some (int ?total, take ?total d)"
    "keibot_read (st_size (fstat e)) ?total n s' = Some (0, [])"
    using w(2,4) assms(8) by (auto simp: keibot_read_def Let_def)
  then show ?thesis using w(1,3,5) by (intro exI [of _ s']) simp
qed

theorem write_then_read_witness:
  "\<exists>s'. write_file 5 ''X'' 1 0
      (set_entry 5 \<lparr>path = ''/a'', content = Some ''hello'', fstat = \<lparr>st_mode = 33188, st_rdev = 0, st_nlink = 1, st_size = 5,
         st_blocks = 1, st_atime = 0, st_ctime = 0, st_mtime = 0\<rparr>\<rparr> bare_fs) = Some (0, s') \<and>
    keibot_read 5 1 5 s' = Some (0, [])"
proof -
  let ?e = "\<lparr>path = ''/a'', content = Some ''hello'', fstat = \<lparr>st_mode = 33188, st_rdev = 0, st_nlink = 1, st_size = 5,
         st_blocks = 1, st_atime = 0, st_ctime = 0, st_mtime = 0\<rparr>\<rparr>"
  have nd: "\<not> IS_DIR ?e" by (simp add: IS_DIR_def not_0111_def S_IFDIR_def)
  show ?thesis
    using write_then_read [of "set_entry 5 ?e bare_fs" 5 ?e "''hello''" 0 1 "''X''"] nd
    by (auto simp: set_entry_def bare_fs_def)
qed

text \<open>Directories are not recognised. The test for a directory clears the execute bits of the mode but keeps the
  read and write bits, so the root directory, created with mode 0755, does not count as one: unlinking it
  succeeds and leaves a file system without root.\<close>

lemma unlink_removes_root:
  assumes "mountable s0" "\<not> opt_chatbot_mode (options s0)"
  shows "fst (keibot_unlink ''/'' (keibot_init s0)) = 0 \<and> fmap (snd (keibot_unlink ''/'' (keibot_init s0))) ''/'' = None"
proof -
  have nd: "\<not> IS_DIR (new_entry s0 ''/'' None (S_IFDIR OR 493) 0 2)"
    by (simp add: IS_DIR_def not_0111_def S_IFDIR_def new_entry_def)
  show ?thesis
    using unlink_sim [OF mountable_ok [OF assms(1)], of "''/''"] init_map [OF assms] nd by (simp add: sim_def)
qed

lemma unlink_removes_root_witness:
  "fst (keibot_unlink ''/'' (keibot_init bare_fs)) = 0"
  using unlink_removes_root [OF bare_mountable] by (simp add: bare_fs_def)






end
