(* ===== verification/MM_Advance.thy ===== *)
theory MM_Advance
  imports MM_Spec "HOL-Library.Monad_Syntax"
begin

section \<open>The allocator with segregated free lists (practice-2/practice\_2-2/mm-advance.c)\<close>

text \<open>
  A block at \<open>p\<close> of size \<open>S\<close> owns the bytes from \<open>p - 8\<close> to \<open>p + S - 8\<close>: its header (size and status)
  at \<open>p - 8\<close>, the offset of the next free block at \<open>p - 4\<close>, the payload, its footer at \<open>p + S - 16\<close> and
  the offset of the previous free block at \<open>p + S - 12\<close>. Free blocks of three size classes hang in
  three doubly linked lists whose heads are the first words of the heap.

  Every word is read and written by \<open>GET\<close> and \<open>SET\<close>, which are \<open>None\<close> outside the mapped heap; an
  \<open>assert\<close> that fails is \<open>None\<close> as well. So an operation that is \<open>Some\<close> made no access outside the heap.
  The walk along a free list is a partial function: a cyclic list makes it \<open>None\<close>.
  \<open>memcpy\<close> is an argument of \<open>adv_realloc\<close>, because the code calls it on ranges that may overlap.
\<close>

record adv_state = memlib +
  heap_base :: addr

definition WORD_SIZE :: nat where "WORD_SIZE = 4"
definition META_SIZE :: nat where "META_SIZE = 4 * WORD_SIZE"

subsection \<open>Words and pointers\<close>

definition mapped :: "'p memlib_scheme \<Rightarrow> addr \<Rightarrow> nat \<Rightarrow> bool" where
  "mapped s a n \<longleftrightarrow> heap s \<le> a \<and> a + n \<le> mem_max_addr s"

definition GET :: "addr \<Rightarrow> 'p memlib_scheme \<Rightarrow> nat option" where
  "GET a s = (if mapped s a WORD_SIZE then Some (load32 (bytes s) a) else None)"

definition SET :: "addr \<Rightarrow> nat \<Rightarrow> 'p memlib_scheme \<Rightarrow> 'p memlib_scheme option" where
  "SET a v s = (if mapped s a WORD_SIZE then Some (s\<lparr>bytes := store32 (bytes s) a v\<rparr>) else None)"

definition PTR_DIFF :: "addr \<Rightarrow> addr \<Rightarrow> nat" where "PTR_DIFF p base = u32 (sub64 p base)"
definition PTR_INCR :: "addr \<Rightarrow> nat \<Rightarrow> addr" where "PTR_INCR p offset = to_u64 (int p + s32 offset)"

definition ZIP :: "nat \<Rightarrow> nat \<Rightarrow> nat" where "ZIP n status = (n AND to_u64 (- 8)) OR (status AND 7)"
definition UNZIP_SIZE :: "nat \<Rightarrow> nat" where "UNZIP_SIZE w = w AND to_u32 (- 8)"
definition UNZIP_STAT :: "nat \<Rightarrow> nat" where "UNZIP_STAT w = w AND 7"

definition USED :: nat where "USED = 1"
definition UNUSED :: nat where "UNUSED = 2"
definition BORDER :: nat where "BORDER = 3"

definition HDR_PTR :: "addr \<Rightarrow> addr" where "HDR_PTR p = PTR_INCR p (to_u64 (- 2 * int WORD_SIZE))"
definition NEX_PTR :: "addr \<Rightarrow> addr" where "NEX_PTR p = PTR_INCR p (to_u64 (- int WORD_SIZE))"

definition SIZE :: "addr \<Rightarrow> 'p memlib_scheme \<Rightarrow> nat option" where
  "SIZE p s = map_option UNZIP_SIZE (GET (HDR_PTR p) s)"

definition STAT :: "addr \<Rightarrow> 'p memlib_scheme \<Rightarrow> nat option" where
  "STAT p s = map_option UNZIP_STAT (GET (HDR_PTR p) s)"

definition FTR_PTR :: "addr \<Rightarrow> 'p memlib_scheme \<Rightarrow> addr option" where
  "FTR_PTR p s = map_option (\<lambda>n. PTR_INCR p (sub64 n (4 * WORD_SIZE))) (SIZE p s)"

definition PRE_PTR :: "addr \<Rightarrow> 'p memlib_scheme \<Rightarrow> addr option" where
  "PRE_PTR p s = map_option (\<lambda>n. PTR_INCR p (sub64 n (3 * WORD_SIZE))) (SIZE p s)"

definition LIST_NEXT :: "addr \<Rightarrow> 'p adv_state_scheme \<Rightarrow> addr option" where
  "LIST_NEXT p s = map_option (PTR_INCR (heap_base s)) (GET (NEX_PTR p) s)"

definition LIST_PREV :: "addr \<Rightarrow> 'p adv_state_scheme \<Rightarrow> addr option" where
  "LIST_PREV p s = do { a \<leftarrow> PRE_PTR p s; w \<leftarrow> GET a s; Some (PTR_INCR (heap_base s) w) }"

definition HEAP_NEXT :: "addr \<Rightarrow> 'p memlib_scheme \<Rightarrow> addr option" where
  "HEAP_NEXT p s = map_option (PTR_INCR p) (SIZE p s)"

definition HEAP_PREV :: "addr \<Rightarrow> 'p memlib_scheme \<Rightarrow> addr option" where
  "HEAP_PREV p s =
     map_option (\<lambda>w. PTR_INCR p (sub32 0 (UNZIP_SIZE w))) (GET (PTR_INCR p (to_u64 (- 4 * int WORD_SIZE))) s)"

definition MIN_BLK_BITS :: nat where "MIN_BLK_BITS = 8"
definition MAX_BLK_BITS :: nat where "MAX_BLK_BITS = 10"
definition STP_BLK_BITS :: nat where "STP_BLK_BITS = 1"
definition RANK_NUM :: nat where "RANK_NUM = (MAX_BLK_BITS - MIN_BLK_BITS) div STP_BLK_BITS + 1"

definition get_rank :: "nat \<Rightarrow> nat" where
  "get_rank n =
     (case find (\<lambda>i. n \<le> shl32 1 i) [MIN_BLK_BITS..<MAX_BLK_BITS] of
        Some i \<Rightarrow> (i - MIN_BLK_BITS) div STP_BLK_BITS
      | None \<Rightarrow> (MAX_BLK_BITS - MIN_BLK_BITS) div STP_BLK_BITS)"

definition BDR_OFF :: nat where "BDR_OFF = ALIGN ((RANK_NUM + 2) * WORD_SIZE)"
definition PRO_BDR_PTR :: "'p adv_state_scheme \<Rightarrow> addr" where "PRO_BDR_PTR s = PTR_INCR (heap_base s) BDR_OFF"
definition EPI_BDR_PTR :: "'p memlib_scheme \<Rightarrow> addr" where "EPI_BDR_PTR s = PTR_INCR (mem_heap_hi s) 1"
definition BUCK :: "nat \<Rightarrow> 'p adv_state_scheme \<Rightarrow> addr" where "BUCK rank s = PTR_INCR (heap_base s) (rank * WORD_SIZE)"

definition LIST :: "nat \<Rightarrow> 'p adv_state_scheme \<Rightarrow> addr option" where
  "LIST rank s = map_option (PTR_INCR (heap_base s)) (GET (BUCK rank s) s)"

subsection \<open>The free lists\<close>

definition assert_stat :: "addr \<Rightarrow> nat \<Rightarrow> 'p memlib_scheme \<Rightarrow> unit option" where
  "assert_stat p status s = do { st \<leftarrow> STAT p s; if st = status then Some () else None }"

definition adv_list_init :: "addr \<Rightarrow> 'p adv_state_scheme \<Rightarrow> 'p adv_state_scheme option" where
  "adv_list_init p s = do { s \<leftarrow> SET (NEX_PTR p) BDR_OFF s; a \<leftarrow> PRE_PTR p s; SET a BDR_OFF s }"

definition adv_list_remove :: "addr \<Rightarrow> nat \<Rightarrow> 'p adv_state_scheme \<Rightarrow> 'p adv_state_scheme option" where
  "adv_list_remove entry rank s = do {
     prv \<leftarrow> LIST_PREV entry s;
     nxt \<leftarrow> LIST_NEXT entry s;
     st \<leftarrow> STAT prv s;
     s \<leftarrow> (if st \<noteq> BORDER then SET (NEX_PTR prv) (PTR_DIFF nxt (heap_base s)) s else Some s);
     st \<leftarrow> STAT nxt s;
     s \<leftarrow> (if st \<noteq> BORDER then do { a \<leftarrow> PRE_PTR nxt s; SET a (PTR_DIFF prv (heap_base s)) s } else Some s);
     l \<leftarrow> LIST rank s;
     if entry = l then SET (BUCK rank s) (PTR_DIFF nxt (heap_base s)) s else Some s }"

definition adv_list_push :: "addr \<Rightarrow> nat \<Rightarrow> 'p adv_state_scheme \<Rightarrow> 'p adv_state_scheme option" where
  "adv_list_push entry rank s = do {
     l \<leftarrow> LIST rank s;
     st \<leftarrow> STAT l s;
     s \<leftarrow> (if st \<noteq> BORDER then do { a \<leftarrow> PRE_PTR l s; SET a (PTR_DIFF entry (heap_base s)) s } else Some s);
     s \<leftarrow> SET (NEX_PTR entry) (PTR_DIFF l (heap_base s)) s;
     a \<leftarrow> PRE_PTR entry s;
     s \<leftarrow> SET a BDR_OFF s;
     SET (BUCK rank s) (PTR_DIFF entry (heap_base s)) s }"

subsection \<open>Blocks\<close>

definition adv_extend :: "nat \<Rightarrow> 'p adv_state_scheme \<Rightarrow> (addr \<times> 'p adv_state_scheme) option" where
  "adv_extend n s =
     (let (p, s) = mem_sbrk (s32 n) s
      in if p = 0 then Some (0, s)
         else do { s \<leftarrow> SET (HDR_PTR (EPI_BDR_PTR s)) (ZIP 0 BORDER) s; Some (p, s) })"

text \<open>The two lines that write size and status into the header and the footer of a block.\<close>

definition set_tags :: "addr \<Rightarrow> nat \<Rightarrow> nat \<Rightarrow> 'p memlib_scheme \<Rightarrow> 'p memlib_scheme option" where
  "set_tags p n status s = do {
     s \<leftarrow> SET (HDR_PTR p) (ZIP n status) s;
     a \<leftarrow> FTR_PTR p s;
     SET a (ZIP n status) s }"

definition adv_split :: "addr \<Rightarrow> nat \<Rightarrow> 'p adv_state_scheme \<Rightarrow> 'p adv_state_scheme option" where
  "adv_split p n s = do {
     orgsize \<leftarrow> SIZE p s;
     let newptr = add64 p n;
     s \<leftarrow> set_tags newptr (sub32 orgsize n) UNUSED s;
     s \<leftarrow> adv_list_push newptr (get_rank (sub32 orgsize n)) s;
     _ \<leftarrow> assert_stat newptr UNUSED s;
     Some s }"

definition coalesce :: "addr \<Rightarrow> addr \<Rightarrow> bool \<Rightarrow> 'p adv_state_scheme \<Rightarrow> 'p adv_state_scheme option" where
  "coalesce pred_ptr succ_ptr sel s = do {
     succ_size \<leftarrow> SIZE succ_ptr s;
     pred_size \<leftarrow> SIZE pred_ptr s;
     s \<leftarrow> (if sel
           then do { s \<leftarrow> adv_list_remove succ_ptr (get_rank succ_size) s;
                     adv_list_remove pred_ptr (get_rank pred_size) s }
           else Some s);
     let n = add32 pred_size succ_size;
     s \<leftarrow> set_tags pred_ptr n UNUSED s;
     s \<leftarrow> adv_list_push pred_ptr (get_rank n) s;
     _ \<leftarrow> assert_stat pred_ptr UNUSED s;
     Some s }"

definition place :: "addr \<Rightarrow> nat \<Rightarrow> bool \<Rightarrow> 'p adv_state_scheme \<Rightarrow> 'p adv_state_scheme option" where
  "place p n sel s = do {
     orgsize \<leftarrow> SIZE p s;
     s \<leftarrow> (if \<not> sel then adv_list_remove p (get_rank orgsize) s else Some s);
     if META_SIZE < sub32 orgsize n
     then do { s \<leftarrow> adv_split p n s; set_tags p n USED s }
     else set_tags p orgsize USED s }"

partial_function (option) find_fit_from :: "nat \<Rightarrow> addr \<Rightarrow> 'p adv_state_scheme \<Rightarrow> addr option" where
  "find_fit_from n p s = do {
     st \<leftarrow> STAT p s;
     if st = BORDER then Some 0
     else do {
       k \<leftarrow> SIZE p s;
       if n \<le> k then Some p
       else do { q \<leftarrow> LIST_NEXT p s; find_fit_from n q s } } }"

definition find_fit :: "nat \<Rightarrow> nat \<Rightarrow> 'p adv_state_scheme \<Rightarrow> addr option" where
  "find_fit n rank s = do { p \<leftarrow> LIST rank s; find_fit_from n p s }"

subsection \<open>The entry points\<close>

definition adv_init :: "'p adv_state_scheme \<Rightarrow> (int \<times> 'p adv_state_scheme) option" where
  "adv_init s =
     (let n = u32 (BDR_OFF + 2 * WORD_SIZE);
          (p, s) = mem_sbrk (s32 n) s;
          s = s\<lparr>heap_base := p\<rparr>
      in if p = 0 then Some (- 1, s)
         else do {
           s \<leftarrow> fold (\<lambda>i so. do { s \<leftarrow> so; SET (BUCK i s) BDR_OFF s }) [0..<RANK_NUM] (Some s);
           s \<leftarrow> SET (HDR_PTR (PRO_BDR_PTR s)) (ZIP (2 * WORD_SIZE) BORDER) s;
           s \<leftarrow> SET (HDR_PTR (EPI_BDR_PTR s)) (ZIP 0 BORDER) s;
           Some (0, s) })"

text \<open>The loop of \<open>malloc\<close> over the ranks.\<close>

function find_ranks :: "nat \<Rightarrow> nat \<Rightarrow> 'p adv_state_scheme \<Rightarrow> (addr \<times> nat) option" where
  "find_ranks n rank s =
     (case find_fit n rank s of
        None \<Rightarrow> None
      | Some p \<Rightarrow> if p = 0 \<and> rank + STP_BLK_BITS < RANK_NUM then find_ranks n (rank + STP_BLK_BITS) s
                  else Some (p, rank))"
  by pat_completeness auto

termination by (relation "measure (\<lambda>(n, rank, s). RANK_NUM - rank)") (auto simp: STP_BLK_BITS_def)

declare find_ranks.simps [simp del]

definition adv_malloc :: "nat \<Rightarrow> 'p adv_state_scheme \<Rightarrow> (addr \<times> 'p adv_state_scheme) option" where
  "adv_malloc n s =
     (if n = 0 then Some (0, s)
      else let n = ALIGN (add64 n META_SIZE) in do {
        (p, rank) \<leftarrow> find_ranks (u32 n) (get_rank (u32 n)) s;
        (p, s) \<leftarrow>
          (if p = 0
           then do {
             (p, s) \<leftarrow> adv_extend (u32 n) s;
             if p = 0 then Some (0, s)
             else do { s \<leftarrow> set_tags p n USED s; s \<leftarrow> adv_list_init p s; _ \<leftarrow> assert_stat p USED s; Some (p, s) } }
           else do {
             s \<leftarrow> adv_list_remove p rank s;
             s \<leftarrow> place p (u32 n) True s;
             _ \<leftarrow> assert_stat p USED s;
             Some (p, s) });
        Some (p, s) })"

definition adv_free :: "addr \<Rightarrow> 'p adv_state_scheme \<Rightarrow> 'p adv_state_scheme option" where
  "adv_free p s =
     (if p = 0 then Some s
      else do {
        st \<leftarrow> STAT p s;
        if st \<noteq> USED then Some s
        else do {
          n \<leftarrow> SIZE p s;
          s \<leftarrow> adv_list_push p (get_rank n) s;
          s \<leftarrow> set_tags p n UNUSED s;
          _ \<leftarrow> assert_stat p UNUSED s;
          prv \<leftarrow> HEAP_PREV p s;
          nxt \<leftarrow> HEAP_NEXT p s;
          st \<leftarrow> STAT nxt s;
          s \<leftarrow> (if st = UNUSED then coalesce p nxt True s else Some s);
          st \<leftarrow> STAT prv s;
          if st = UNUSED then coalesce prv p True s else Some s } })"

text \<open>
  What \<open>memcpy\<close> may do: the C standard leaves the call undefined when the ranges overlap; an
  implementation that reads the whole source first is \<open>memmove\<close>.
\<close>

type_synonym 's copier = "addr \<Rightarrow> addr \<Rightarrow> nat \<Rightarrow> 's \<Rightarrow> 's option"

definition memmove :: "'p memlib_scheme copier" where
  "memmove dst src n s =
     (if n = 0 \<or> (mapped s dst n \<and> mapped s src n) then Some (s\<lparr>bytes := copy_bytes dst src n (bytes s)\<rparr>) else None)"

definition memcpy :: "'p memlib_scheme copier" where
  "memcpy dst src n s = (if dst < src + n \<and> src < dst + n then None else memmove dst src n s)"

definition adv_realloc :: "'p adv_state_scheme copier \<Rightarrow> addr \<Rightarrow> nat \<Rightarrow> 'p adv_state_scheme \<Rightarrow> (addr \<times> 'p adv_state_scheme) option" where
  "adv_realloc cpy oldptr n s =
     (if n = 0 then do { s \<leftarrow> adv_free oldptr s; Some (0, s) }
      else if oldptr = 0 then adv_malloc n s
      else let orgsize = u32 n; n = ALIGN (add64 n META_SIZE) in do {
        oldsize \<leftarrow> SIZE oldptr s;
        if n \<le> oldsize then Some (oldptr, s)
        else do {
          nxt \<leftarrow> HEAP_NEXT oldptr s;
          st \<leftarrow> STAT nxt s;
          nexsize \<leftarrow> SIZE nxt s;
          if st = UNUSED \<and> n \<le> add32 oldsize nexsize
          then do {
            s \<leftarrow> adv_list_remove nxt (get_rank nexsize) s;
            s \<leftarrow> coalesce oldptr nxt False s;
            s \<leftarrow> place oldptr (u32 n) False s;
            Some (oldptr, s) }
          else do {
            (newptr, s) \<leftarrow> adv_malloc orgsize s;
            s \<leftarrow> cpy newptr oldptr orgsize s;
            s \<leftarrow> adv_free oldptr s;
            Some (newptr, s) } } })"

definition adv_calloc :: "nat \<Rightarrow> nat \<Rightarrow> 'p adv_state_scheme \<Rightarrow> (addr \<times> 'p adv_state_scheme) option" where
  "adv_calloc nmemb n s =
     (let total = mul64 nmemb n in do {
        (newptr, s) \<leftarrow> adv_malloc total s;
        if total = 0 \<or> mapped s newptr total
        then Some (newptr, s\<lparr>bytes := fill_bytes newptr 0 total (bytes s)\<rparr>) else None })"

text \<open>Without \<open>DEBUG\<close> the check prints nothing; it still walks over at most 49 blocks and entries.\<close>

fun walk_heap :: "nat \<Rightarrow> addr \<Rightarrow> 'p adv_state_scheme \<Rightarrow> unit option" where
  "walk_heap 0 p s = do { st \<leftarrow> STAT p s; Some () }"
| "walk_heap (Suc cnt) p s = do {
     st \<leftarrow> STAT p s;
     if st \<noteq> BORDER \<and> 0 < cnt then do { q \<leftarrow> HEAP_NEXT p s; walk_heap cnt q s } else Some () }"

fun walk_list :: "nat \<Rightarrow> addr \<Rightarrow> 'p adv_state_scheme \<Rightarrow> unit option" where
  "walk_list 0 p s = do { st \<leftarrow> STAT p s; Some () }"
| "walk_list (Suc cnt) p s = do {
     st \<leftarrow> STAT p s;
     if st \<noteq> BORDER \<and> 0 < cnt
     then do { _ \<leftarrow> assert_stat p UNUSED s; q \<leftarrow> LIST_NEXT p s; walk_list cnt q s }
     else Some () }"

definition adv_checkheap :: "int \<Rightarrow> 'p adv_state_scheme \<Rightarrow> 'p adv_state_scheme option" where
  "adv_checkheap verbose s = do {
     _ \<leftarrow> walk_heap 50 (PTR_INCR (PRO_BDR_PTR s) (2 * WORD_SIZE)) s;
     _ \<leftarrow> fold (\<lambda>i u. do { _ \<leftarrow> u; p \<leftarrow> LIST i s; walk_list 50 p s }) [0..<RANK_NUM] (Some ());
     Some s }"

definition adv_package :: "'p adv_state_scheme copier \<Rightarrow> ('p adv_state_ext) mm_package" where
  "adv_package cpy = \<lparr>mm_init = adv_init, mm_malloc = adv_malloc, mm_free = adv_free,
     mm_realloc = adv_realloc cpy, mm_checkheap = adv_checkheap\<rparr>"

end
