(* ===== verification/MM_Advance_Inv.thy ===== *)
theory MM_Advance_Inv
  imports MM_Advance
begin

section \<open>Blocks and free lists in the memory of mm-advance.c\<close>

text \<open>
  The memory is read as a function \<open>words s\<close> on the aligned addresses, which a \<open>SET\<close> updates at one
  point. \<open>geom\<close> says that a map \<open>B\<close> from block addresses to size and status tiles the heap,
  \<open>tags\<close> that headers and footers hold it, \<open>dll\<close> that a doubly linked list runs through the words.
  \<open>rep X B F s\<close> collects them for the blocks \<open>B\<close> and the free lists \<open>F\<close>; the blocks in \<open>X\<close> have
  their tags still to be written.
\<close>

subsection \<open>Words\<close>

lemma RANK_NUM_3 [simp]: "RANK_NUM = 3"
  by (simp add: RANK_NUM_def MAX_BLK_BITS_def MIN_BLK_BITS_def STP_BLK_BITS_def)

lemma BDR_OFF_24 [simp]: "BDR_OFF = 24"
  by (simp add: BDR_OFF_def WORD_SIZE_def ALIGN_small)

lemma META_SIZE_16 [simp]: "META_SIZE = 16"
  by (simp add: META_SIZE_def WORD_SIZE_def)

lemma get_rank_less [simp]: "get_rank n < 3"
proof -
  have "get_rank n = (if n \<le> shl32 1 8 then 0 else if n \<le> shl32 1 9 then 1 else 2)"
    by (simp add: get_rank_def MAX_BLK_BITS_def MIN_BLK_BITS_def STP_BLK_BITS_def upt_rec)
  then show ?thesis by simp
qed

lemma and_minus_8_32: "x < 2 ^ 32 \<Longrightarrow> x AND to_u32 (- 8) = x div 8 * 8"
proof -
  assume x: "x < 2 ^ 32"
  have "x AND to_u32 (- 8) = push_bit 3 (drop_bit 3 x)"
  proof (rule bit_eqI)
    fix n
    have "to_u32 (- 8) = push_bit 3 (mask 29)"
      by (simp add: to_u32_def push_bit_eq_mult mask_eq_exp_minus_1)
    moreover have "n < 32" if "bit x n"
    proof (rule ccontr)
      assume "\<not> n < 32"
      then have "x < 2 ^ n" by (intro less_le_trans [OF x power_increasing]) auto
      then show False using that by (simp add: bit_iff_odd)
    qed
    ultimately show "bit (x AND to_u32 (- 8)) n = bit (push_bit 3 (drop_bit 3 x)) n"
      by (auto simp: bit_and_iff bit_push_bit_iff bit_drop_bit_eq bit_mask_iff not_less)
  qed
  then show ?thesis by (simp add: push_bit_eq_mult drop_bit_eq_div)
qed

lemma and_7: "(x :: nat) AND 7 = x mod 8"
  using take_bit_eq_mask [of 3 x] by (simp add: mask_eq_exp_minus_1 take_bit_eq_mod)

lemma UNZIP_STAT_mod: "UNZIP_STAT w = w mod 8"
  by (simp add: UNZIP_STAT_def and_7)

lemma ZIP_value:
  assumes "8 dvd n" "n < 2 ^ 32" "st < 8"
  shows "ZIP n st = n + st"
proof -
  have "n AND to_u64 (- 8) = n" using assms by (simp add: and_minus_8)
  moreover have "st AND 7 = st" using assms(3) by (simp add: and_7)
  moreover have "n OR st = n + st"
  proof -
    have "n AND st = 0"
    proof (rule bit_eqI)
      fix k
      have "\<not> bit st k" if "3 \<le> k"
      proof -
        have "st < 2 ^ k" using assms(3) power_increasing [of 3 k "2 :: nat"] that by simp
        then show ?thesis by (simp add: bit_iff_odd)
      qed
      moreover have "\<not> bit n k" if "k < 3"
      proof -
        obtain j where "n = push_bit 3 j" using assms(1) by (auto simp: push_bit_eq_mult mult.commute elim: dvdE)
        then show ?thesis using that by (simp add: bit_push_bit_iff)
      qed
      ultimately show "bit (n AND st) k = bit 0 k" by (cases "k < 3") (auto simp: bit_and_iff)
    qed
    then show ?thesis by (simp add: disjunctive_add_eq_or)
  qed
  ultimately show ?thesis by (simp add: ZIP_def)
qed

lemma tag_fields:
  assumes "8 dvd n" "n < 2 ^ 31" "st < 8"
  shows "u32 (ZIP n st) = n + st" "UNZIP_SIZE (n + st) = n" "UNZIP_STAT (n + st) = st"
proof -
  have lt: "n + st < 2 ^ 32" using assms by simp
  show "u32 (ZIP n st) = n + st" using ZIP_value [of n st] assms lt by (simp add: u32_small)
  from assms obtain k where k: "n = 8 * k" by (auto elim: dvdE)
  then have "(n + st) div 8 = k" "(n + st) mod 8 = st" using assms(3) by simp_all
  then show "UNZIP_SIZE (n + st) = n" "UNZIP_STAT (n + st) = st"
    using and_minus_8_32 [OF lt] k by (simp_all add: UNZIP_SIZE_def UNZIP_STAT_mod)
qed

lemma PTR_INCR_add: "n < 2 ^ 31 \<Longrightarrow> p + n < 2 ^ 64 \<Longrightarrow> PTR_INCR p n = p + n"
proof -
  assume a: "n < 2 ^ 31" "p + n < 2 ^ 64"
  then have "(int p + int n) mod 2 ^ 64 = int (p + n)" by (intro mod_pos_pos_trivial [THEN trans]) auto
  then show ?thesis using a by (simp add: PTR_INCR_def s32_small to_u64_def)
qed

lemma PTR_INCR_sub:
  assumes "n \<le> 2 ^ 31" "0 < n" "n \<le> p" "p < 2 ^ 64" "u32 k = 2 ^ 32 - n"
  shows "PTR_INCR p k = p - n"
proof -
  have "s32 k = - int n" using assms(1,2,5) by (auto simp: s32_def of_nat_diff)
  moreover have "(int p - int n) mod 2 ^ 64 = int p - int n" using assms(3,4) by (intro mod_pos_pos_trivial) auto
  ultimately show ?thesis using assms(3) by (simp add: PTR_INCR_def to_u64_def nat_diff_distrib)
qed

lemma field_ptrs:
  assumes "p < 2 ^ 63"
  shows "8 \<le> p \<Longrightarrow> HDR_PTR p = p - 8" "4 \<le> p \<Longrightarrow> NEX_PTR p = p - 4"
    "16 \<le> p \<Longrightarrow> PTR_INCR p (to_u64 (- 4 * int WORD_SIZE)) = p - 16"
    "16 \<le> n \<Longrightarrow> n < 2 ^ 31 \<Longrightarrow> PTR_INCR p (sub64 n (4 * WORD_SIZE)) = p + n - 16"
    "12 \<le> n \<Longrightarrow> n < 2 ^ 31 \<Longrightarrow> PTR_INCR p (sub64 n (3 * WORD_SIZE)) = p + n - 12"
    "0 < n \<Longrightarrow> n < 2 ^ 31 \<Longrightarrow> n \<le> p \<Longrightarrow> PTR_INCR p (sub32 0 n) = p - n"
proof -
  have c: "u32 (to_u64 (- 8)) = 2 ^ 32 - 8" "u32 (to_u64 (- 4)) = 2 ^ 32 - 4" "u32 (to_u64 (- 16)) = 2 ^ 32 - 16"
    by (simp_all add: to_u64_def u32_def)
  show "8 \<le> p \<Longrightarrow> HDR_PTR p = p - 8" "4 \<le> p \<Longrightarrow> NEX_PTR p = p - 4"
    "16 \<le> p \<Longrightarrow> PTR_INCR p (to_u64 (- 4 * int WORD_SIZE)) = p - 16"
    using assms c PTR_INCR_sub [of 8 p "to_u64 (- 8)"] PTR_INCR_sub [of 4 p "to_u64 (- 4)"] PTR_INCR_sub [of 16 p "to_u64 (- 16)"]
    by (simp_all add: HDR_PTR_def NEX_PTR_def WORD_SIZE_def)
  show "PTR_INCR p (sub64 n (4 * WORD_SIZE)) = p + n - 16" if "16 \<le> n" "n < 2 ^ 31"
    using that assms by (simp add: WORD_SIZE_def sub64_small PTR_INCR_add)
  show "PTR_INCR p (sub64 n (3 * WORD_SIZE)) = p + n - 12" if "12 \<le> n" "n < 2 ^ 31"
    using that assms by (simp add: WORD_SIZE_def sub64_small PTR_INCR_add)
  show "PTR_INCR p (sub32 0 n) = p - n" if "0 < n" "n < 2 ^ 31" "n \<le> p"
    using that assms by (intro PTR_INCR_sub) (simp_all add: sub32_def u32_def)
qed

definition words :: "'p memlib_scheme \<Rightarrow> addr \<Rightarrow> nat" where
  "words s a = (if 4 dvd a then load32 (bytes s) a else 0)"

text \<open>What a step that writes metadata keeps: everything but the bytes, and the live payloads.\<close>

definition upd :: "live \<Rightarrow> 'p adv_state_scheme \<Rightarrow> 'p adv_state_scheme \<Rightarrow> bool" where
  "upd L s s' \<longleftrightarrow> (\<exists>m. s' = s\<lparr>bytes := m\<rparr>) \<and> kept L s s'"

definition clear :: "live \<Rightarrow> addr \<Rightarrow> bool" where
  "clear L a \<longleftrightarrow> (\<forall>p n. L p = Some n \<longrightarrow> a + 4 \<le> p \<or> p + n \<le> a)"

lemma upd_refl [simp]: "upd L s s"
  by (auto simp: upd_def intro: exI [of _ "bytes s"])

lemma upd_trans: "upd L s t \<Longrightarrow> upd L t u \<Longrightarrow> upd L s u"
  by (auto simp: upd_def intro: kept_trans)

lemma upd_fields:
  assumes "upd L s s'"
  shows "heap s' = heap s" "mem_brk s' = mem_brk s" "mem_max_addr s' = mem_max_addr s" "heap_base s' = heap_base s"
    "same_heap s s'" "mem_ok s' = mem_ok s" "kept L s s'"
  using assms by (auto simp: upd_def same_heap_def mem_ok_def)

lemma words_store:
  assumes "4 dvd a" "bytes s' = store32 (bytes s) a v"
  shows "words s' = (words s)(a := u32 v)"
proof
  fix b
  have "b + 4 \<le> a \<or> a + 4 \<le> b" if "4 dvd b" "b \<noteq> a"
    using assms(1) that by (auto elim!: dvdE)
  then show "words s' b = ((words s)(a := u32 v)) b"
    using assms by (auto simp: words_def load_store32_other)
qed

lemma GET_words: "mapped s a 4 \<Longrightarrow> 4 dvd a \<Longrightarrow> GET a s = Some (words s a)"
  by (simp add: GET_def WORD_SIZE_def words_def)

lemma SET_words:
  fixes s :: "'p adv_state_scheme"
  assumes "mapped s a 4" "4 dvd a" "clear L a"
  obtains s' where "SET a v s = Some s'" "words s' = (words s)(a := u32 v)" "upd L s s'"
proof
  let ?s' = "s\<lparr>bytes := store32 (bytes s) a v\<rparr>"
  show "SET a v s = Some ?s'" using assms(1) by (simp add: SET_def WORD_SIZE_def)
  show "words ?s' = (words s)(a := u32 v)" by (rule words_store [OF assms(2)]) simp
  have "p + i < a \<or> a + 4 \<le> p + i" if "L p = Some n" "i < n" for p n i
    using assms(3) that unfolding clear_def by fastforce
  then show "upd L s ?s'" by (auto simp: upd_def kept_def store32_other)
qed

subsection \<open>Blocks\<close>

type_synonym blocks = "addr \<rightharpoonup> nat \<times> nat"

definition sz :: "blocks \<Rightarrow> addr \<Rightarrow> nat" where
  "sz B p = (case B p of Some (n, st) \<Rightarrow> n | None \<Rightarrow> 0)"

definition geom :: "addr \<Rightarrow> addr \<Rightarrow> blocks \<Rightarrow> bool" where
  "geom lo hi B \<longleftrightarrow> 8 dvd lo \<and> 8 dvd hi \<and> lo \<le> hi
   \<and> (\<forall>p n st. B p = Some (n, st) \<longrightarrow> 8 dvd p \<and> lo \<le> p \<and> 24 \<le> n \<and> 8 dvd n \<and> p + n \<le> hi \<and> (st = USED \<or> st = UNUSED)
        \<and> (p + n = hi \<or> p + n \<in> dom B))
   \<and> (\<forall>p q n st. B p = Some (n, st) \<and> q \<in> dom B \<and> p < q \<longrightarrow> p + n \<le> q)
   \<and> (\<forall>q. q \<in> dom B \<or> q = hi \<longrightarrow> q = lo \<or> (\<exists>p n st. B p = Some (n, st) \<and> p + n = q))"

lemma sz_eq [simp]: "B p = Some (n, st) \<Longrightarrow> sz B p = n"
  by (simp add: sz_def)

lemma sz_status [simp]: "B p = Some (n, st) \<Longrightarrow> sz (B(p \<mapsto> (n, st'))) = sz B"
  by (auto simp: sz_def)

lemma geomD:
  assumes "geom lo hi B" "B p = Some (n, st)"
  shows "8 dvd p" "lo \<le> p" "24 \<le> n" "8 dvd n" "p + n \<le> hi" "st = USED \<or> st = UNUSED" "p + n = hi \<or> p + n \<in> dom B"
  using assms unfolding geom_def by blast+

lemma geom_bounds: "geom lo hi B \<Longrightarrow> 8 dvd lo" "geom lo hi B \<Longrightarrow> 8 dvd hi" "geom lo hi B \<Longrightarrow> lo \<le> hi"
  by (simp_all add: geom_def)

lemma geom_apart:
  assumes "geom lo hi B" "B p = Some (n, st)" "B q = Some (k, st')" "p \<noteq> q"
  shows "p + n \<le> q \<or> q + k \<le> p"
proof (cases "p < q")
  case True
  then show ?thesis using assms unfolding geom_def by (meson domI)
next
  case False
  then have "q < p" using assms(4) by simp
  then show ?thesis using assms unfolding geom_def by (meson domI)
qed

lemma geom_prev:
  assumes "geom lo hi B" "q \<in> dom B \<or> q = hi" "q \<noteq> lo"
  obtains p n st where "B p = Some (n, st)" "p + n = q"
  using assms unfolding geom_def by blast

text \<open>A heap that is not empty has a block at its start.\<close>

lemma geom_first:
  assumes g: "geom lo hi B" and ne: "lo \<noteq> hi"
  shows "lo \<in> dom B"
proof -
  have "q \<in> dom B \<or> q = hi \<Longrightarrow> q \<noteq> lo \<Longrightarrow> lo \<in> dom B" for q
  proof (induction q rule: less_induct)
    case (less q)
    then obtain p n st where p: "B p = Some (n, st)" "p + n = q" using geom_prev [OF g] by metis
    then have "p < q" using geomD(3) [OF g p(1)] by simp
    then show ?case using less.IH [of p] p(1) by (cases "p = lo") auto
  qed
  then show ?thesis using ne by blast
qed

lemma geom_status:
  assumes "geom lo hi B" "B p = Some (n, st)" "st' = USED \<or> st' = UNUSED"
  shows "geom lo hi (B(p \<mapsto> (n, st')))"
proof -
  let ?B = "B(p \<mapsto> (n, st'))"
  have d: "dom ?B = dom B" using assms(2) by auto
  have before: "\<exists>w. B q = Some (m, w) \<and> (v = w \<or> v = st')" if "?B q = Some (m, v)" for q m v
    using that assms(2) by (auto split: if_splits)
  have there: "\<exists>w. ?B q = Some (m, w)" if "B q = Some (m, v)" for q m v using that assms(2) by auto
  have "8 dvd q \<and> lo \<le> q \<and> 24 \<le> m \<and> 8 dvd m \<and> q + m \<le> hi \<and> (v = USED \<or> v = UNUSED) \<and> (q + m = hi \<or> q + m \<in> dom B)"
    if q: "?B q = Some (m, v)" for q m v
    using before [OF q] geomD [OF assms(1), of q m] assms(3) by metis
  moreover have "q + m \<le> x" if q: "?B q = Some (m, v)" "x \<in> dom B" "q < x" for q m v x
    using before [OF q(1)] q(2,3) assms(1) unfolding geom_def by metis
  moreover have "q = lo \<or> (\<exists>x m v. ?B x = Some (m, v) \<and> x + m = q)" if q: "q \<in> dom B \<or> q = hi" for q
    using geom_prev [OF assms(1) q] there by metis
  ultimately show ?thesis unfolding geom_def d using geom_bounds [OF assms(1)] by blast
qed

text \<open>A block divided in two, and two neighbours made one.\<close>

lemma geom_split:
  assumes g: "geom lo hi B" and p: "B p = Some (n, st)" and k: "24 \<le> k" "8 dvd k" "k + 24 \<le> n"
    and st: "t = USED \<or> t = UNUSED" "u = USED \<or> u = UNUSED"
  shows "geom lo hi (B(p \<mapsto> (k, t), p + k \<mapsto> (n - k, u)))" "p + k \<notin> dom B"
proof -
  note d = geomD [OF g p]
  show new: "p + k \<notin> dom B"
  proof
    assume "p + k \<in> dom B"
    then obtain m v where "B (p + k) = Some (m, v)" by auto
    from geom_apart [OF g p this] geomD(3) [OF g this] k show False by auto
  qed
  let ?B = "B(p \<mapsto> (k, t), p + k \<mapsto> (n - k, u))"
  have blk: "8 dvd q \<and> lo \<le> q \<and> 24 \<le> m \<and> 8 dvd m \<and> q + m \<le> hi \<and> (v = USED \<or> v = UNUSED) \<and> (q + m = hi \<or> q + m \<in> dom ?B)"
    if q: "?B q = Some (m, v)" for q m v
  proof -
    have "(q = p + k \<and> m = n - k \<and> v = u) \<or> (q = p \<and> m = k \<and> v = t) \<or> B q = Some (m, v)"
      using q unfolding fun_upd_apply by (smt (verit) option.inject prod.inject)
    then consider "q = p + k" "m = n - k" "v = u" | "q = p" "m = k" "v = t" | "B q = Some (m, v)" by blast
    then show ?thesis
    proof cases
      case 1
      have "q + m = p + n" using 1 k by simp
      moreover have "8 dvd q" "8 dvd m" using 1 d(1,4) k(2) by (auto intro: dvd_diff_nat)
      ultimately show ?thesis using 1 d k st by auto
    next
      case 3 then show ?thesis using geomD [OF g 3] by auto
    qed (use d k st in auto)
  qed
  have apart: "q + m \<le> x" if q: "?B q = Some (m, v)" and x: "x \<in> dom ?B" "q < x" for q m v x
  proof -
    have old: "y + i \<le> z" if "B y = Some (i, w)" "B z = Some (j, w')" "y < z" for y z i j w w'
      using geom_apart [OF g that(1,2)] that(3) geomD(3) [OF g that(2)] by auto
    have xx: "x = p \<or> x = p + k \<or> (x \<noteq> p \<and> (\<exists>j w. B x = Some (j, w)))" using x by (auto split: if_splits)
    have qq: "(q = p \<and> m = k) \<or> (q = p + k \<and> m = n - k) \<or> (q \<noteq> p \<and> B q = Some (m, v))"
      using q by (auto split: if_splits)
    from qq xx show ?thesis using old [OF _ p] old [OF p] old x(2) k by (elim disjE conjE exE) (fastforce | force)+
  qed
  have prev: "q = lo \<or> (\<exists>x m v. ?B x = Some (m, v) \<and> x + m = q)" if q: "q \<in> dom ?B \<or> q = hi" for q
  proof (cases "q = p + k \<or> q = lo")
    case True
    then show ?thesis using k by (auto intro!: exI [of _ p] split: if_splits)
  next
    case False
    then have "q \<in> dom B \<or> q = hi" using q p by (auto split: if_splits)
    then obtain x m v where x: "B x = Some (m, v)" "x + m = q" using geom_prev [OF g] False by metis
    show ?thesis
    proof (cases "x = p")
      case True then show ?thesis using x p k by (auto intro!: exI [of _ "p + k"])
    next
      case f: False
      have "x \<noteq> p + k" using new x(1) by auto
      then have "?B x = Some (m, v)" using x f by simp
      then show ?thesis using x(2) by blast
    qed
  qed
  show "geom lo hi ?B"
    unfolding geom_def using geom_bounds [OF g] blk apart prev by blast
qed

lemma geom_merge:
  assumes g: "geom lo hi B" and p: "B p = Some (n, st)" "B (p + n) = Some (k, t)" and u: "u = USED \<or> u = UNUSED"
  shows "geom lo hi (B(p + n := None, p \<mapsto> (n + k, u)))"
proof -
  note d = geomD [OF g p(1)] and e = geomD [OF g p(2)]
  let ?B = "B(p + n := None, p \<mapsto> (n + k, u))"
  have blk: "8 dvd q \<and> lo \<le> q \<and> 24 \<le> m \<and> 8 dvd m \<and> q + m \<le> hi \<and> (v = USED \<or> v = UNUSED) \<and> (q + m = hi \<or> q + m \<in> dom ?B)"
    if q: "?B q = Some (m, v)" for q m v
  proof (cases "q = p")
    case True
    then have m: "m = n + k" "v = u" using q by auto
    have "p + (n + k) = hi \<or> p + (n + k) \<in> dom ?B" using e(3,7) by (auto simp: add.assoc)
    then show ?thesis using d e m u True by auto
  next
    case False
    then have Bq: "B q = Some (m, v)" "q \<noteq> p + n" using q by (auto split: if_splits)
    have "q + m \<noteq> p + n"
      using geom_apart [OF g Bq(1) p(1) False] geomD(3) [OF g Bq(1)] d(3) by auto
    then have "q + m = hi \<or> q + m \<in> dom ?B" using geomD(7) [OF g Bq(1)] by auto
    then show ?thesis using geomD [OF g Bq(1)] by blast
  qed
  have apart: "q + m \<le> x" if q: "?B q = Some (m, v)" and x: "x \<in> dom ?B" "q < x" for q m v x
  proof -
    obtain j w where Bx: "B x = Some (j, w)" "x \<noteq> p + n" using x(1) p d(3) by (auto split: if_splits)
    show ?thesis
    proof (cases "q = p")
      case True
      then have "p + n \<le> x" using geom_apart [OF g p(1) Bx(1)] x(2) geomD(3) [OF g Bx(1)] by auto
      then have "p + n + k \<le> x" using geom_apart [OF g p(2) Bx(1)] Bx(2) geomD(3) [OF g Bx(1)] by auto
      then show ?thesis using True q by auto
    next
      case False
      then have "B q = Some (m, v)" using q by (auto split: if_splits)
      from geom_apart [OF g this Bx(1)] x(2) geomD(3) [OF g Bx(1)] show ?thesis by auto
    qed
  qed
  have prev: "q = lo \<or> (\<exists>x m v. ?B x = Some (m, v) \<and> x + m = q)" if q: "q \<in> dom ?B \<or> q = hi" for q
  proof (cases "q = lo")
    case False
    have "q \<in> dom B \<or> q = hi" using q p by (auto split: if_splits)
    then obtain x m v where x: "B x = Some (m, v)" "x + m = q" using geom_prev [OF g] False by metis
    show ?thesis
    proof (cases "x = p + n \<or> x = p")
      case True
      moreover have "x \<noteq> p"
      proof
        assume "x = p"
        then have "q = p + n" using x p by auto
        then show False using q p d(3) e(3,5) by (auto split: if_splits)
      qed
      ultimately show ?thesis using x p by (auto intro!: exI [of _ p])
    next
      case False
      then have "?B x = Some (m, v)" using x by simp
      then show ?thesis using x(2) by blast
    qed
  qed simp
  show ?thesis
    unfolding geom_def using geom_bounds [OF g] blk apart prev by blast
qed

lemma geom_extend:
  assumes g: "geom lo hi B" and n: "24 \<le> n" "8 dvd n" and u: "u = USED \<or> u = UNUSED"
  shows "geom lo (hi + n) (B(hi \<mapsto> (n, u)))" "hi \<notin> dom B"
proof -
  show new: "hi \<notin> dom B" using geomD(3,5) [OF g] by fastforce
  let ?B = "B(hi \<mapsto> (n, u))"
  have old: "q \<noteq> hi" if "B q = Some (m, v)" for q m v using new that by auto
  have blk: "8 dvd q \<and> lo \<le> q \<and> 24 \<le> m \<and> 8 dvd m \<and> q + m \<le> hi + n \<and> (v = USED \<or> v = UNUSED) \<and> (q + m = hi + n \<or> q + m \<in> dom ?B)"
    if q: "?B q = Some (m, v)" for q m v
  proof (cases "q = hi")
    case False
    then have "B q = Some (m, v)" using q by simp
    from geomD [OF g this] show ?thesis by auto
  qed (use q geom_bounds [OF g] n u in auto)
  have apart: "q + m \<le> x" if q: "?B q = Some (m, v)" and x: "x \<in> dom ?B" "q < x" for q m v x
  proof -
    have q': "B q = Some (m, v)" "q \<noteq> hi"
    proof -
      have "x \<le> hi" using x(1) geomD(5) [OF g] by (force split: if_splits)
      then show "q \<noteq> hi" using x(2) by auto
      then show "B q = Some (m, v)" using q by simp
    qed
    show ?thesis
    proof (cases "x = hi")
      case False
      then obtain j w where Bx: "B x = Some (j, w)" using x(1) by auto
      from geom_apart [OF g q'(1) Bx] x(2) geomD(3) [OF g Bx] show ?thesis by auto
    qed (use geomD(5) [OF g q'(1)] in simp)
  qed
  have prev: "q = lo \<or> (\<exists>x m v. ?B x = Some (m, v) \<and> x + m = q)" if q: "q \<in> dom ?B \<or> q = hi + n" for q
  proof (cases "q = hi + n \<or> q = lo")
    case False
    then have "q \<in> dom B \<or> q = hi" using q by auto
    then obtain x m v where x: "B x = Some (m, v)" "x + m = q" using geom_prev [OF g] False by metis
    then have "?B x = Some (m, v)" using old by simp
    then show ?thesis using x(2) by blast
  qed auto
  have "8 dvd hi + n" "lo \<le> hi + n" using geom_bounds [OF g] n(2) by simp_all
  then show "geom lo (hi + n) ?B"
    unfolding geom_def using geom_bounds(1) [OF g] blk apart prev by blast
qed

end
