(* ===== verification/MM_Advance_Lists.thy ===== *)
theory MM_Advance_Lists
  imports MM_Advance_Inv
begin

section \<open>The doubly linked free lists of mm-advance.c\<close>

text \<open>
  \<open>dll w B hb p xs n\<close>: the words \<open>w\<close> link the blocks \<open>xs\<close>, with \<open>p\<close> before the first and \<open>n\<close> behind the
  last; links are offsets from the start \<open>hb\<close> of the heap. A list ends at the prologue \<open>hb + 24\<close>.
\<close>

definition first :: "addr list \<Rightarrow> addr \<Rightarrow> addr" where "first xs n = (case xs of [] \<Rightarrow> n | x # _ \<Rightarrow> x)"
definition final :: "addr \<Rightarrow> addr list \<Rightarrow> addr" where "final p xs = (if xs = [] then p else last xs)"

lemma first_simps [simp]: "first [] n = n" "first (x # xs) n = x"
  by (simp_all add: first_def)

lemma final_simps [simp]: "final p [] = p" "final p (xs @ [x]) = x"
  by (simp_all add: final_def)

fun dll :: "(addr \<Rightarrow> nat) \<Rightarrow> blocks \<Rightarrow> addr \<Rightarrow> addr \<Rightarrow> addr list \<Rightarrow> addr \<Rightarrow> bool" where
  "dll w B hb p [] n = True"
| "dll w B hb p (x # xs) n \<longleftrightarrow> w (x + sz B x - 12) = p - hb \<and> w (x - 4) = first xs n - hb \<and> dll w B hb x xs n"

lemma first_append: "first (xs @ ys) n = first xs (first ys n)"
  by (cases xs) simp_all

lemma dll_append: "dll w B hb p (xs @ ys) n \<longleftrightarrow> dll w B hb p xs (first ys n) \<and> dll w B hb (final p xs) ys n"
proof (induction xs arbitrary: p)
  case (Cons x xs)
  have "final p (x # xs) = final x xs" by (simp add: final_def)
  with Cons show ?case by (simp add: first_append)
qed simp

lemma dll_cong:
  assumes "\<And>x. x \<in> set xs \<Longrightarrow> sz B' x = sz B x \<and> w' (x + sz B x - 12) = w (x + sz B x - 12) \<and> w' (x - 4) = w (x - 4)"
  shows "dll w' B' hb p xs n = dll w B hb p xs n"
  using assms by (induction xs arbitrary: p) auto

text \<open>The two link words of different blocks are different.\<close>

lemma link_words:
  assumes g: "geom lo hi B" and lo: "32 \<le> lo" and x: "x \<in> dom B" and y: "y \<in> dom B"
  shows "x - 4 = y - 4 \<longleftrightarrow> x = y" "x + sz B x - 12 = y + sz B y - 12 \<longleftrightarrow> x = y" "x + sz B x - 12 \<noteq> y - 4"
    "lo - 4 \<le> x - 4" "lo + 12 \<le> x + sz B x - 12" "\<not> 8 dvd x - 4" "\<not> 8 dvd x + sz B x - 12"
    "4 dvd x - 4" "4 dvd x + sz B x - 12" "x + sz B x - 12 + 12 \<le> hi" "x + 24 \<le> hi"
proof -
  obtain n st k st' where b: "B x = Some (n, st)" "B y = Some (k, st')" using x y by auto
  note dx = geomD [OF g b(1)] and dy = geomD [OF g b(2)]
  have ap: "x \<noteq> y \<Longrightarrow> x + n \<le> y \<or> y + k \<le> x" using geom_apart [OF g b] by blast
  show "x - 4 = y - 4 \<longleftrightarrow> x = y" using dx dy lo by auto
  show "x + sz B x - 12 = y + sz B y - 12 \<longleftrightarrow> x = y"
  proof
    assume "x + sz B x - 12 = y + sz B y - 12"
    then show "x = y" using b dx dy lo ap by (cases "x = y") auto
  qed simp
  show "x + sz B x - 12 \<noteq> y - 4"
  proof
    assume "x + sz B x - 12 = y - 4"
    then show False using b dx dy lo ap by (cases "x = y") auto
  qed
  show "lo - 4 \<le> x - 4" "lo + 12 \<le> x + sz B x - 12" "x + sz B x - 12 + 12 \<le> hi" "x + 24 \<le> hi" using b dx by auto
  have m: "x mod 8 = 0" "n mod 8 = 0" using dx by auto
  have ge: "32 \<le> x" "24 \<le> n" "sz B x = n" using dx lo b by simp_all
  show "\<not> 8 dvd x - 4" using m ge(1) by presburger
  show "4 dvd x - 4" using m ge(1) by presburger
  show "\<not> 8 dvd x + sz B x - 12" using m ge(1,2) unfolding ge(3) by presburger
  show "4 dvd x + sz B x - 12" using m ge(1,2) unfolding ge(3) by presburger
qed

definition lists :: "(addr \<Rightarrow> nat) \<Rightarrow> blocks \<Rightarrow> addr \<Rightarrow> (nat \<Rightarrow> addr list) \<Rightarrow> bool" where
  "lists w B hb F \<longleftrightarrow> (\<forall>r < 3. w (hb + 4 * r) = first (F r) (hb + 24) - hb \<and> dll w B hb (hb + 24) (F r) (hb + 24))"

definition ranked :: "blocks \<Rightarrow> (nat \<Rightarrow> addr list) \<Rightarrow> bool" where
  "ranked B F \<longleftrightarrow> (\<forall>r < 3. distinct (F r) \<and> (\<forall>p \<in> set (F r). p \<in> dom B \<and> get_rank (sz B p) = r))"

lemma rankedD:
  assumes "ranked B F" "r < 3"
  shows "distinct (F r)" "p \<in> set (F r) \<Longrightarrow> p \<in> dom B" "p \<in> set (F r) \<Longrightarrow> get_rank (sz B p) = r"
  using assms by (auto simp: ranked_def)

lemma lists_cong:
  assumes "lists w B hb F" "\<And>r. r < 3 \<Longrightarrow> w' (hb + 4 * r) = w (hb + 4 * r)"
    and "\<And>r x. r < 3 \<Longrightarrow> x \<in> set (F r) \<Longrightarrow> sz B' x = sz B x \<and> w' (x + sz B x - 12) = w (x + sz B x - 12) \<and> w' (x - 4) = w (x - 4)"
  shows "lists w' B' hb F"
  unfolding lists_def
proof (intro allI impI)
  fix r :: nat assume r: "r < 3"
  have "dll w' B' hb (hb + 24) (F r) (hb + 24) = dll w B hb (hb + 24) (F r) (hb + 24)"
    by (rule dll_cong) (use assms(3) [OF r] in blast)
  then show "w' (hb + 4 * r) = first (F r) (hb + 24) - hb \<and> dll w' B' hb (hb + 24) (F r) (hb + 24)"
    using assms(1,2) r by (simp add: lists_def)
qed

text \<open>Tags lie on multiples of eight behind the buckets, so writing them leaves the lists alone.\<close>

lemma lists_tag:
  assumes l: "lists w B hb F" and g: "geom (hb + 32) hi B" and k: "ranked B F" and a: "8 dvd a" "hb + 16 \<le> a"
  shows "lists (w(a := v)) B hb F"
proof (rule lists_cong [OF l])
  fix r x assume r: "r < (3 :: nat)" and x: "x \<in> set (F r)"
  have d: "x \<in> dom B" using rankedD(2) [OF k r x] .
  have "a \<noteq> x - 4" "a \<noteq> x + sz B x - 12" using link_words(6,7) [OF g _ d d] a by auto
  then show "sz B x = sz B x \<and> (w(a := v)) (x + sz B x - 12) = w (x + sz B x - 12) \<and> (w(a := v)) (x - 4) = w (x - 4)" by simp
qed (use a in auto)

subsection \<open>Pushing and removing\<close>

lemma push_words:
  assumes l: "lists w B hb F" and g: "geom (hb + 32) hi B" and k: "ranked B F" and e: "e \<in> dom B"
    and fresh: "\<And>r. r < 3 \<Longrightarrow> e \<notin> set (F r)" and r: "r = get_rank (sz B e)"
  defines "h \<equiv> first (F r) (hb + 24)"
  defines "w1 \<equiv> (if F r = [] then w else w(h + sz B h - 12 := e - hb))"
  shows "lists (w1(e - 4 := h - hb, e + sz B e - 12 := 24, hb + 4 * r := e - hb)) B hb (F(r := e # F r))"
    "ranked B (F(r := e # F r))"
proof -
  define w' where "w' = w1(e - 4 := h - hb, e + sz B e - 12 := 24, hb + 4 * r := e - hb)"
  have r3: "r < 3" using r by simp
  have lw: "x - 4 = y - 4 \<longleftrightarrow> x = y" "x + sz B x - 12 = y + sz B y - 12 \<longleftrightarrow> x = y" "x + sz B x - 12 \<noteq> y - 4"
    "y - 4 \<noteq> x + sz B x - 12" "hb + 28 \<le> x - 4" "hb + 44 \<le> x + sz B x - 12" if "x \<in> dom B" "y \<in> dom B" for x y
    using link_words [OF g _ that] link_words(3) [OF g _ that] by auto
  have b: "hb + 4 * r' < hb + 12" if "r' < 3" for r' using that by simp
  have inD: "x \<in> dom B" if "r' < 3" "x \<in> set (F r')" for x r' using rankedD(2) [OF k that] .
  have h: "h \<in> set (F r)" "h \<in> dom B" if "F r \<noteq> []"
    using that inD [OF r3] by (auto simp: h_def first_def split: list.splits)
  have other: "w' (x - 4) = w (x - 4)" "x \<noteq> h \<or> F r = [] \<Longrightarrow> w' (x + sz B x - 12) = w (x + sz B x - 12)"
    if "x \<in> dom B" "x \<noteq> e" for x
    using that lw(1,2,3,4) [of x e] lw(2,3,4) [of x h] lw(3) [of h x] lw(3) [of e x] lw(5,6) [of x x] b [OF r3] e h by (auto simp: w1_def w'_def)
  have self: "w' (e - 4) = h - hb" "w' (e + sz B e - 12) = 24"
    using lw(3,4) [OF e e] lw(5,6) [OF e e] b [OF r3] by (auto simp: w'_def)
  have bk: "w' (hb + 4 * r') = (if r' = r then e - hb else w (hb + 4 * r'))" if "r' < 3" for r'
    using that lw(5,6) [OF e e] lw(6) [of h h] h b [OF that] by (auto simp: w1_def w'_def)
  have "dll w' B hb (hb + 24) (F r') (hb + 24) \<and> w' (hb + 4 * r') = w (hb + 4 * r')" if r': "r' < 3" "r' \<noteq> r" for r'
  proof -
    have "x \<in> dom B \<and> x \<noteq> e \<and> (x \<noteq> h \<or> F r = [])" if "x \<in> set (F r')" for x
      using inD [OF r'(1) that] fresh [OF r'(1)] that rankedD(3) [OF k r'(1) that] rankedD(3) [OF k r3] h(1) r'(2) by blast
    then have "dll w' B hb (hb + 24) (F r') (hb + 24) = dll w B hb (hb + 24) (F r') (hb + 24)"
      by (intro dll_cong) (use other in blast)
    moreover have "dll w B hb (hb + 24) (F r') (hb + 24)" using l r' by (simp add: lists_def)
    moreover have "w' (hb + 4 * r') = w (hb + 4 * r')" using bk [OF r'(1)] unfolding if_not_P [OF r'(2)] .
    ultimately show ?thesis by blast
  qed
  moreover have "dll w' B hb e (F r) (hb + 24)"
  proof (cases "F r")
    case (Cons y ys)
    then have y: "h = y" "y \<in> set (F r)" by (simp_all add: h_def)
    have L: "w (y - 4) = first ys (hb + 24) - hb" "dll w B hb y ys (hb + 24)"
      using l r3 Cons by (auto simp: lists_def)
    have dy: "y \<in> dom B" "y \<noteq> e" using inD [OF r3 y(2)] fresh [OF r3] y(2) by auto
    have "x \<in> dom B \<and> x \<noteq> e \<and> x \<noteq> h" if "x \<in> set ys" for x
      using inD [OF r3] fresh [OF r3] rankedD(1) [OF k r3] Cons that y(1) by auto
    then have "dll w' B hb y ys (hb + 24) = dll w B hb y ys (hb + 24)"
      by (intro dll_cong) (use other in blast)
    moreover have "w' (y + sz B y - 12) = e - hb"
      using lw(2,3) [OF dy(1) e] lw(6) [OF dy(1) dy(1)] b [OF r3] dy(2) y(1) Cons by (simp add: w1_def w'_def)
    ultimately show ?thesis using Cons L other(1) [OF dy] by simp
  qed simp
  ultimately have "lists w' B hb (F(r := e # F r))"
    using self bk [OF r3] l unfolding lists_def by (auto simp: h_def)
  then show "lists (w1(e - 4 := h - hb, e + sz B e - 12 := 24, hb + 4 * r := e - hb)) B hb (F(r := e # F r))"
    by (simp only: w'_def)
  show "ranked B (F(r := e # F r))"
    unfolding ranked_def
  proof (intro allI impI)
    fix r' :: nat assume r': "r' < 3"
    show "distinct ((F(r := e # F r)) r') \<and> (\<forall>p \<in> set ((F(r := e # F r)) r'). p \<in> dom B \<and> get_rank (sz B p) = r')"
      using rankedD [OF k r'] e fresh [OF r'] r by (cases "r' = r") simp_all
  qed
qed

lemma remove_words:
  assumes l: "lists w B hb F" and g: "geom (hb + 32) hi B" and k: "ranked B F" and r3: "r < 3"
    and F: "F r = as @ e # bs"
  defines "p \<equiv> final (hb + 24) as" and "n \<equiv> first bs (hb + 24)"
  defines "w1 \<equiv> (if as = [] then w else w(p - 4 := n - hb))"
  defines "w2 \<equiv> (if bs = [] then w1 else w1(n + sz B n - 12 := p - hb))"
  defines "w3 \<equiv> (if as = [] then w2(hb + 4 * r := n - hb) else w2)"
  shows "lists w3 B hb (F(r := as @ bs))" "ranked B (F(r := as @ bs))"
    "w (e + sz B e - 12) = p - hb" "w (e - 4) = n - hb"
proof -
  have lw: "x - 4 = y - 4 \<longleftrightarrow> x = y" "x + sz B x - 12 = y + sz B y - 12 \<longleftrightarrow> x = y" "x + sz B x - 12 \<noteq> y - 4"
    "y - 4 \<noteq> x + sz B x - 12" "hb + 28 \<le> x - 4" "hb + 44 \<le> x + sz B x - 12" if "x \<in> dom B" "y \<in> dom B" for x y
    using link_words [OF g _ that] link_words(3) [OF g _ that] by auto
  have b: "hb + 4 * r' < hb + 12" if "r' < 3" for r' using that by simp
  have inD: "x \<in> dom B" if "r' < 3" "x \<in> set (F r')" for x r' using rankedD(2) [OF k that] .
  have dis: "distinct (as @ e # bs)" using rankedD(1) [OF k r3] F by simp
  have p: "p \<in> set as" "p \<in> dom B" if "as \<noteq> []" using that inD [OF r3] F by (auto simp: p_def final_def)
  have n: "n \<in> set bs" "n \<in> dom B" if "bs \<noteq> []"
    using that inD [OF r3] F by (auto simp: n_def first_def split: list.splits)
  have L: "dll w B hb (hb + 24) as e" "dll w B hb p (e # bs) (hb + 24)" "w (hb + 4 * r) = first (as @ e # bs) (hb + 24) - hb"
    using l r3 F by (auto simp: lists_def dll_append p_def)
  then show "w (e + sz B e - 12) = p - hb" "w (e - 4) = n - hb" by (simp_all add: n_def)
  have nex: "w3 (x - 4) = (if as \<noteq> [] \<and> x = p then n - hb else w (x - 4))" if "x \<in> dom B" for x
    using that p n lw(1,3) [of x p] lw(4) [of n x] lw(5) [OF that that] b [OF r3] by (auto simp: w3_def w2_def w1_def)
  have pre: "w3 (x + sz B x - 12) = (if bs \<noteq> [] \<and> x = n then p - hb else w (x + sz B x - 12))" if "x \<in> dom B" for x
    using that p n lw(2) [of x n] lw(3) [of x p] lw(6) [OF that that] b [OF r3] by (auto simp: w3_def w2_def w1_def)
  have bk: "w3 (hb + 4 * r') = (if r' = r \<and> as = [] then n - hb else w (hb + 4 * r'))" if "r' < 3" for r'
    using that p n lw(5) [of p p] lw(6) [of n n] b [OF that] by (auto simp: w3_def w2_def w1_def)
  have "dll w3 B hb (hb + 24) (F r') (hb + 24) \<and> w3 (hb + 4 * r') = w (hb + 4 * r')" if r': "r' < 3" "r' \<noteq> r" for r'
  proof -
    have "x \<in> dom B \<and> \<not> (as \<noteq> [] \<and> x = p) \<and> \<not> (bs \<noteq> [] \<and> x = n)" if x: "x \<in> set (F r')" for x
    proof -
      have "x \<notin> set (F r)" using rankedD(3) [OF k r'(1) x] rankedD(3) [OF k r3, of x] r'(2) by blast
      then show ?thesis using inD [OF r'(1) x] p(1) n(1) F by auto
    qed
    then have "dll w3 B hb (hb + 24) (F r') (hb + 24) = dll w B hb (hb + 24) (F r') (hb + 24)"
      by (intro dll_cong) (use nex pre in auto)
    then show ?thesis using l r' bk by (simp add: lists_def)
  qed
  moreover have "dll w3 B hb (hb + 24) (as @ bs) (hb + 24)"
  proof -
    have "dll w3 B hb (hb + 24) as n"
    proof (cases as rule: rev_cases)
      case (snoc zs z)
      then have z: "p = z" "z \<in> dom B" using p(2) by (auto simp: p_def)
      have "x \<in> dom B \<and> x \<noteq> p \<and> \<not> (bs \<noteq> [] \<and> x = n)" if "x \<in> set zs" for x
        using inD [OF r3] F snoc dis that z n(1) by auto
      then have "dll w3 B hb (hb + 24) zs z = dll w B hb (hb + 24) zs z"
        by (intro dll_cong) (use nex pre in auto)
      moreover have "w3 (z + sz B z - 12) = w (z + sz B z - 12)" using pre [OF z(2)] dis snoc n(1) by auto
      moreover have "w3 (z - 4) = n - hb" using nex [OF z(2)] z snoc by simp
      ultimately show ?thesis using L(1) snoc by (simp add: dll_append)
    qed simp
    moreover have "dll w3 B hb p bs (hb + 24)"
    proof (cases bs)
      case (Cons y ys)
      then have y: "n = y" "y \<in> dom B" using n(2) by (auto simp: n_def)
      have "x \<in> dom B \<and> x \<noteq> n \<and> \<not> (as \<noteq> [] \<and> x = p)" if "x \<in> set ys" for x
        using inD [OF r3] F Cons dis that y p(1) by auto
      then have "dll w3 B hb y ys (hb + 24) = dll w B hb y ys (hb + 24)"
        by (intro dll_cong) (use nex pre in auto)
      moreover have "w3 (y - 4) = w (y - 4)" using nex [OF y(2)] dis Cons p(1) by auto
      moreover have "w3 (y + sz B y - 12) = p - hb" using pre [OF y(2)] y Cons by simp
      ultimately show ?thesis using L(2) Cons by simp
    qed simp
    ultimately show ?thesis by (simp add: dll_append p_def n_def)
  qed
  moreover have "w3 (hb + 4 * r) = first (as @ bs) (hb + 24) - hb"
    using bk [OF r3] L(3) by (cases as) (simp_all add: n_def)
  ultimately show "lists w3 B hb (F(r := as @ bs))" using l unfolding lists_def by auto
  show "ranked B (F(r := as @ bs))" using k F r3 dis unfolding ranked_def by auto
qed

end
