(* ===== verification/MM_Advance_Rep.thy ===== *)
theory MM_Advance_Rep
  imports MM_Advance_Lists
begin

section \<open>The operations of mm-advance.c on blocks and free lists\<close>

text \<open>
  Each helper of mm-advance.c, run on a state that represents the blocks \<open>B\<close> and the free lists \<open>F\<close>,
  ends in a state that represents the changed \<open>B\<close> and \<open>F\<close> and keeps the payloads in \<open>L\<close>.
\<close>

definition tagged :: "addr set \<Rightarrow> blocks \<Rightarrow> addr \<Rightarrow> addr \<Rightarrow> (addr \<Rightarrow> nat) \<Rightarrow> bool" where
  "tagged X B hb brk w \<longleftrightarrow> w (hb + 16) = 8 + BORDER \<and> w (brk - 8) = BORDER
   \<and> (\<forall>p n st. B p = Some (n, st) \<and> p \<notin> X \<longrightarrow> w (p - 8) = n + st \<and> w (p + n - 16) = n + st)"

definition rep :: "addr set \<Rightarrow> blocks \<Rightarrow> (nat \<Rightarrow> addr list) \<Rightarrow> 'p adv_state_scheme \<Rightarrow> bool" where
  "rep X B F s \<longleftrightarrow> mem_ok s \<and> heap_base s = heap s \<and> geom (heap s + 32) (mem_brk s) B
   \<and> tagged X B (heap s) (mem_brk s) (words s) \<and> lists (words s) B (heap s) F \<and> ranked B F
   \<and> (\<forall>r < 3. set (F r) \<inter> X = {})"

text \<open>Every live payload fits the block at its address.\<close>

definition sub :: "live \<Rightarrow> blocks \<Rightarrow> bool" where
  "sub L B \<longleftrightarrow> (\<forall>p n. L p = Some n \<longrightarrow> (\<exists>k st. B p = Some (k, st) \<and> n + 16 \<le> k))"

lemma subD: "sub L B \<Longrightarrow> L p = Some n \<Longrightarrow> \<exists>k st. B p = Some (k, st) \<and> n + 16 \<le> k"
  by (simp add: sub_def)

lemma sub_status: "sub L B \<Longrightarrow> B p = Some (n, st) \<Longrightarrow> sub L (B(p \<mapsto> (n, st')))"
  by (fastforce simp: sub_def)

lemma repD:
  assumes "rep X B F s"
  shows "mem_ok s" "heap_base s = heap s" "geom (heap s + 32) (mem_brk s) B"
    "tagged X B (heap s) (mem_brk s) (words s)" "lists (words s) B (heap s) F" "ranked B F"
    "r < 3 \<Longrightarrow> p \<in> set (F r) \<Longrightarrow> p \<notin> X"
  using assms by (auto simp: rep_def)

lemma rep_heap:
  assumes "rep X B F s"
  shows "0 < heap s" "8 dvd heap s" "heap s + 32 \<le> mem_brk s" "mem_brk s \<le> mem_max_addr s" "mem_max_addr s < 2 ^ 63"
    "mem_brk s \<le> heap s + MAX_HEAP" "8 dvd mem_brk s"
  using mem_okD [OF repD(1) [OF assms]] geom_bounds [OF repD(3) [OF assms]] by simp_all

lemma rep_block:
  assumes "rep X B F s" "B p = Some (n, st)"
  shows "heap s + 32 \<le> p" "p + n \<le> mem_brk s" "24 \<le> n" "n < 2 ^ 31" "p < 2 ^ 63" "8 dvd p" "8 dvd n" "st = USED \<or> st = UNUSED"
  using geomD [OF repD(3) [OF assms(1)] assms(2)] rep_heap [OF assms(1)] by (auto simp: MAX_HEAP_def)

lemma stat_values [simp]: "USED \<noteq> UNUSED" "UNUSED \<noteq> USED" "USED \<noteq> BORDER" "UNUSED \<noteq> BORDER" "BORDER \<noteq> USED" "BORDER \<noteq> UNUSED"
  "USED < 8" "UNUSED < 8" "BORDER < 8"
  by (simp_all add: USED_def UNUSED_def BORDER_def)

text \<open>The words that hold metadata: mapped, aligned and outside every payload.\<close>

definition meta :: "blocks \<Rightarrow> addr \<Rightarrow> addr \<Rightarrow> addr \<Rightarrow> bool" where
  "meta B hb brk a \<longleftrightarrow> (\<exists>p n st. B p = Some (n, st) \<and> (a = p - 8 \<or> a = p - 4 \<or> a = p + n - 16 \<or> a = p + n - 12))
     \<or> a = hb \<or> a = hb + 4 \<or> a = hb + 8 \<or> a = hb + 16 \<or> a = brk - 8"

lemma meta_block:
  assumes "rep X B F s" "B p = Some (n, st)"
  shows "meta B hb brk (p - 8)" "meta B hb brk (p - 4)" "meta B hb brk (p + n - 16)" "meta B hb brk (p + n - 12)"
  using assms(2) by (auto simp: meta_def)

lemma meta_bucket: "r < 3 \<Longrightarrow> meta B hb brk (hb + 4 * r)"
  by (auto simp: meta_def less_Suc_eq numeral_3_eq_3)

lemma meta_ok:
  assumes r: "rep X B F s" and m: "meta B (heap s) (mem_brk s) a"
  shows "mapped s a 4" "4 dvd a" "sub L B \<Longrightarrow> clear L a"
proof -
  note h = rep_heap [OF r] and g = repD(3) [OF r]
  have "mapped s a 4 \<and> 4 dvd a \<and> (sub L B \<longrightarrow> clear L a)"
  proof (cases "\<exists>p n st. B p = Some (n, st) \<and> (a = p - 8 \<or> a = p - 4 \<or> a = p + n - 16 \<or> a = p + n - 12)")
    case True
    then obtain p n st where p: "B p = Some (n, st)" and a: "a = p - 8 \<or> a = p - 4 \<or> a = p + n - 16 \<or> a = p + n - 12" by blast
    note b = rep_block [OF r p]
    have "p mod 8 = 0" "n mod 8 = 0" "32 \<le> p" using b by auto
    then have "4 dvd a" using a b(3) by (elim disjE) presburger+
    moreover have "mapped s a 4" using a b h by (auto simp: mapped_def)
    moreover have "clear L a" if su: "sub L B"
      unfolding clear_def
    proof (intro allI impI)
      fix q k assume "L q = Some k"
      then obtain j st' where q: "B q = Some (j, st')" "k + 16 \<le> j" using subD [OF su] by blast
      have ap: "p + n \<le> q \<or> q + j \<le> p \<or> (p = q \<and> n = j)" using geom_apart [OF g p q(1)] p q(1) by fastforce
      have "8 \<le> p" "24 \<le> n" "32 \<le> q" using b rep_block(1) [OF r q(1)] by simp_all
      with a ap show "a + 4 \<le> q \<or> q + k \<le> a" using q(2) by (elim disjE conjE) linarith+
    qed
    ultimately show ?thesis by blast
  next
    case False
    then have a: "a = heap s \<or> a = heap s + 4 \<or> a = heap s + 8 \<or> a = heap s + 16 \<or> a = mem_brk s - 8"
      using m unfolding meta_def by blast
    have "mem_brk s mod 8 = 0" "heap s mod 8 = 0" "32 \<le> mem_brk s" using h by auto
    then have "4 dvd a" using a by (elim disjE) presburger+
    moreover have "mapped s a 4" using a h by (auto simp: mapped_def)
    moreover have "clear L a" if su: "sub L B"
      unfolding clear_def
    proof (intro allI impI)
      fix q k assume "L q = Some k"
      then obtain j st' where q: "B q = Some (j, st')" "k + 16 \<le> j" using subD [OF su] by blast
      then show "a + 4 \<le> q \<or> q + k \<le> a" using rep_block [OF r q(1)] a by auto
    qed
    ultimately show ?thesis by blast
  qed
  then show "mapped s a 4" "4 dvd a" "sub L B \<Longrightarrow> clear L a" by simp_all
qed

lemma rep_GET: "rep X B F s \<Longrightarrow> meta B (heap s) (mem_brk s) a \<Longrightarrow> GET a s = Some (words s a)"
  using GET_words [OF meta_ok(1,2)] by blast

lemma rep_SET:
  assumes "rep X B F s" "meta B (heap s) (mem_brk s) a" "sub L B"
  obtains s' where "SET a v s = Some s'" "words s' = (words s)(a := u32 v)" "upd L s s'"
  by (rule SET_words [OF meta_ok(1) [OF assms(1,2)] meta_ok(2) [OF assms(1,2)] meta_ok(3) [OF assms]])

subsection \<open>Reading\<close>

lemma word_fields:
  assumes w: "GET (p - 8) s = Some (n + st)" and p: "8 \<le> p" "p < 2 ^ 63" and n: "8 dvd n" "n < 2 ^ 31" "st < 8"
  shows "SIZE p s = Some n" "STAT p s = Some st"
    "16 \<le> n \<Longrightarrow> FTR_PTR p s = Some (p + n - 16)" "12 \<le> n \<Longrightarrow> PRE_PTR p s = Some (p + n - 12)" "HEAP_NEXT p s = Some (p + n)"
proof -
  have "p + n < 2 ^ 64" using p(2) n(2) by simp
  then show "SIZE p s = Some n" "STAT p s = Some st"
    "16 \<le> n \<Longrightarrow> FTR_PTR p s = Some (p + n - 16)" "12 \<le> n \<Longrightarrow> PRE_PTR p s = Some (p + n - 12)" "HEAP_NEXT p s = Some (p + n)"
    using w field_ptrs [OF p(2)] p(1) n tag_fields [OF n] PTR_INCR_add [OF n(2)]
    by (simp_all add: SIZE_def STAT_def FTR_PTR_def PRE_PTR_def HEAP_NEXT_def)
qed

lemma rep_fields:
  assumes r: "rep X B F s" and p: "B p = Some (n, st)" "p \<notin> X"
  shows "SIZE p s = Some n" "STAT p s = Some st" "FTR_PTR p s = Some (p + n - 16)" "PRE_PTR p s = Some (p + n - 12)"
    "HEAP_NEXT p s = Some (p + n)"
proof -
  note b = rep_block [OF r p(1)]
  have g: "GET (p - 8) s = Some (words s (p - 8))" by (rule rep_GET [OF r]) (use p in \<open>auto simp: meta_def\<close>)
  moreover have "words s (p - 8) = n + st" using repD(4) [OF r] p by (simp add: tagged_def)
  moreover have "st < 8" using b(8) by auto
  ultimately have *: "GET (p - 8) s = Some (n + st)" "8 \<le> p" "st < 8" using b by simp_all
  note f = word_fields [OF *(1) *(2) b(5) b(7) b(4) *(3)]
  show "SIZE p s = Some n" "STAT p s = Some st" "FTR_PTR p s = Some (p + n - 16)" "PRE_PTR p s = Some (p + n - 12)"
    "HEAP_NEXT p s = Some (p + n)" using f b(3) by simp_all
qed

lemma rep_member:
  assumes "rep X B F s" "k < 3" "x \<in> set (F k)"
  obtains n st where "B x = Some (n, st)" "x \<notin> X" "get_rank n = k"
proof -
  from rankedD(2,3) [OF repD(6) [OF assms(1)] assms(2,3)] obtain n st where "B x = Some (n, st)" "get_rank n = k" by auto
  then show ?thesis using that repD(7) [OF assms] by blast
qed

lemma rep_borders:
  assumes r: "rep X B F s"
  shows "STAT (heap s + 24) s = Some BORDER" "HEAP_NEXT (heap s + 24) s = Some (heap s + 32)"
    "STAT (mem_brk s) s = Some BORDER" "SIZE (mem_brk s) s = Some 0"
proof -
  note h = rep_heap [OF r]
  have e: "heap s + 24 - 8 = heap s + 16" by simp
  have "GET (heap s + 24 - 8) s = Some (8 + BORDER)" "GET (mem_brk s - 8) s = Some (0 + BORDER)"
    unfolding e using rep_GET [OF r, of "heap s + 16"] rep_GET [OF r, of "mem_brk s - 8"] repD(4) [OF r] by (simp_all only: meta_def tagged_def, simp_all)
  from word_fields [OF this(1)] word_fields [OF this(2)] h
  show "STAT (heap s + 24) s = Some BORDER" "HEAP_NEXT (heap s + 24) s = Some (heap s + 32)"
    "STAT (mem_brk s) s = Some BORDER" "SIZE (mem_brk s) s = Some 0" by simp_all
qed

lemma rep_offset:
  assumes r: "rep X B F s" and x: "heap s \<le> x" "x \<le> mem_brk s"
  shows "PTR_INCR (heap_base s) (x - heap s) = x" "u32 (PTR_DIFF x (heap_base s)) = x - heap s"
proof -
  have "x - heap s < 2 ^ 31" using x rep_heap [OF r] by (simp add: MAX_HEAP_def)
  then show "PTR_INCR (heap_base s) (x - heap s) = x" "u32 (PTR_DIFF x (heap_base s)) = x - heap s"
    using x rep_heap [OF r] repD(2) [OF r] by (simp_all add: PTR_INCR_add PTR_DIFF_def sub64_small u32_small)
qed

lemma rep_BUCK: "rep X B F s \<Longrightarrow> r < 3 \<Longrightarrow> BUCK r s = heap s + 4 * r"
  using rep_heap [of X B F s] repD(2) [of X B F s] by (simp add: BUCK_def WORD_SIZE_def PTR_INCR_add mult.commute)

text \<open>A list entry is a block, and \<open>first\<close> and \<open>final\<close> are blocks or the prologue.\<close>

lemma rep_entry:
  assumes r: "rep X B F s" "k < 3" and x: "x \<in> set (F k) \<or> x = heap s + 24"
  shows "heap s \<le> x" "x \<le> mem_brk s" "8 \<le> x" "x < 2 ^ 63"
    "STAT x s \<noteq> None" "STAT x s = Some BORDER \<longleftrightarrow> x = heap s + 24"
proof -
  have "heap s \<le> x \<and> x \<le> mem_brk s \<and> 8 \<le> x \<and> x < 2 ^ 63 \<and> STAT x s \<noteq> None \<and> (STAT x s = Some BORDER \<longleftrightarrow> x = heap s + 24)"
  proof (cases "x = heap s + 24")
    case True
    then show ?thesis using rep_borders [OF r(1)] rep_heap [OF r(1)] by simp
  next
    case False
    then have "x \<in> set (F k)" using x by simp
    then obtain n st where b: "B x = Some (n, st)" "x \<notin> X" using rep_member [OF r] by metis
    then show ?thesis using rep_block [OF r(1) b(1)] rep_fields(2) [OF r(1) b] by auto
  qed
  then show "heap s \<le> x" "x \<le> mem_brk s" "8 \<le> x" "x < 2 ^ 63" "STAT x s \<noteq> None" "STAT x s = Some BORDER \<longleftrightarrow> x = heap s + 24"
    by simp_all
qed

lemma first_cases: "first xs n \<in> set xs \<or> first xs n = n"
  by (cases xs) simp_all

lemma final_cases: "final p xs \<in> set xs \<or> final p xs = p"
  by (simp add: final_def)

lemma rep_LIST:
  assumes r: "rep X B F s" "k < 3"
  shows "LIST k s = Some (first (F k) (heap s + 24))"
proof -
  have "GET (BUCK k s) s = Some (first (F k) (heap s + 24) - heap s)"
    using rep_GET [OF r(1) meta_bucket [OF r(2)]] repD(5) [OF r(1)] r(2) by (simp add: rep_BUCK [OF r] lists_def)
  then show ?thesis
    using rep_offset(1) [OF r(1) rep_entry(1,2) [OF r first_cases]] by (simp add: LIST_def)
qed

lemma rep_links:
  assumes r: "rep X B F s" "k < 3" and F: "F k = as @ e # bs"
  shows "LIST_PREV e s = Some (final (heap s + 24) as)" "LIST_NEXT e s = Some (first bs (heap s + 24))"
proof -
  have e: "e \<in> set (F k)" using F by simp
  obtain n st where b: "B e = Some (n, st)" "e \<notin> X" using rep_member [OF r e] by metis
  note w = remove_words(3,4) [OF repD(5) [OF r(1)] repD(3) [OF r(1)] repD(6) [OF r(1)] r(2) F]
  have p: "final (heap s + 24) as \<in> set (F k) \<or> final (heap s + 24) as = heap s + 24"
    and n: "first bs (heap s + 24) \<in> set (F k) \<or> first bs (heap s + 24) = heap s + 24"
    using final_cases [of "heap s + 24" as] first_cases [of bs "heap s + 24"] F by auto
  have "GET (e + n - 12) s = Some (final (heap s + 24) as - heap s)"
    using w(1) rep_GET [OF r(1), of "e + n - 12"] b by (auto simp: meta_def)
  then show "LIST_PREV e s = Some (final (heap s + 24) as)"
    using rep_fields(4) [OF r(1) b] rep_offset(1) [OF r(1) rep_entry(1,2) [OF r p]] by (simp add: LIST_PREV_def)
  have "GET (e - 4) s = Some (first bs (heap s + 24) - heap s)"
    using w(2) rep_GET [OF r(1), of "e - 4"] b by (auto simp: meta_def)
  then show "LIST_NEXT e s = Some (first bs (heap s + 24))"
    using field_ptrs(2) [OF rep_block(5) [OF r(1) b(1)]] rep_block(1) [OF r(1) b(1)]
      rep_offset(1) [OF r(1) rep_entry(1,2) [OF r n]] by (simp add: LIST_NEXT_def)
qed

subsection \<open>Writing\<close>

lemma rep_SET_upd:
  assumes r: "rep X B F s" and u: "upd L s t" and m: "meta B (heap s) (mem_brk s) a" and L: "sub L B"
  obtains t' where "SET a v t = Some t'" "words t' = (words t)(a := u32 v)" "upd L s t'"
proof -
  have "mapped t a 4" using meta_ok(1) [OF r m] upd_fields [OF u] by (simp add: mapped_def)
  from SET_words [OF this meta_ok(2) [OF r m] meta_ok(3) [OF r m L]] obtain t'
    where "SET a v t = Some t'" "words t' = (words t)(a := u32 v)" "upd L t t'" by blast
  then show ?thesis using that upd_trans [OF u] by blast
qed

lemma rep_fields_upd:
  assumes r: "rep X B F s" and u: "upd L s t" and p: "B p = Some (n, st)" and w: "words t (p - 8) = n + st'" "st' < 8"
  shows "SIZE p t = Some n" "STAT p t = Some st'" "FTR_PTR p t = Some (p + n - 16)" "PRE_PTR p t = Some (p + n - 12)"
proof -
  note b = rep_block [OF r p]
  have m: "meta B (heap s) (mem_brk s) (p - 8)" using p by (auto simp: meta_def)
  have "mapped t (p - 8) 4" using meta_ok(1) [OF r m] upd_fields [OF u] by (simp add: mapped_def)
  then have "GET (p - 8) t = Some (n + st')" using GET_words [of t "p - 8"] meta_ok(2) [OF r m] w(1) by simp
  from word_fields [OF this _ b(5) b(7) b(4) w(2)] b
  show "SIZE p t = Some n" "STAT p t = Some st'" "FTR_PTR p t = Some (p + n - 16)" "PRE_PTR p t = Some (p + n - 12)" by simp_all
qed

lemma rep_upd:
  assumes "rep X B F s" "upd L s t" "geom (heap s + 32) (mem_brk s) B'" "tagged X' B' (heap s) (mem_brk s) (words t)"
    "lists (words t) B' (heap s) F'" "ranked B' F'" "\<And>k x. k < 3 \<Longrightarrow> x \<in> set (F' k) \<Longrightarrow> x \<notin> X'"
  shows "rep X' B' F' t"
  using assms upd_fields [OF assms(2)] repD(1,2) [OF assms(1)] unfolding rep_def by auto

text \<open>Links and buckets are apart from the tags.\<close>

lemma tagged_link:
  assumes t: "tagged X B hb brk w" and g: "geom (hb + 32) brk B" and a: "a < hb + 12 \<or> \<not> 8 dvd a"
  shows "tagged X B hb brk (w(a := v))"
proof -
  have hb: "hb mod 8 = 0" "brk mod 8 = 0" "hb + 32 \<le> brk" using geom_bounds [OF g] by presburger+
  have ne: "x \<noteq> a" if "8 dvd x" "hb + 16 \<le> x" for x using that a by auto
  have "8 dvd p - 8 \<and> hb + 16 \<le> p - 8 \<and> 8 dvd p + n - 16 \<and> hb + 16 \<le> p + n - 16" if "B p = Some (n, st)" for p n st
  proof -
    have b: "8 dvd p" "8 dvd n" "hb + 32 \<le> p" "24 \<le> n" using geomD [OF g that] by auto
    have "8 dvd p - 8" "8 dvd p + n - 16" using b(1,2) by (auto intro: dvd_diff_nat)
    then show ?thesis using b(3,4) by linarith
  qed
  then have "p - 8 \<noteq> a \<and> p + n - 16 \<noteq> a" if "B p = Some (n, st)" for p n st using ne that by blast
  then have "(w(a := v)) (p - 8) = w (p - 8) \<and> (w(a := v)) (p + n - 16) = w (p + n - 16)" if "B p = Some (n, st)" for p n st
    using that by simp
  moreover have "8 dvd hb + 16" "8 dvd brk - 8" "hb + 16 \<le> brk - 8" using hb by presburger+
  then have "(w(a := v)) (hb + 16) = w (hb + 16)" "(w(a := v)) (brk - 8) = w (brk - 8)" using ne by auto
  ultimately show ?thesis using t unfolding tagged_def by simp
qed

lemma link_addresses:
  assumes r: "rep X B F s" and p: "B p = Some (n, st)"
  shows "\<not> 8 dvd p - 4" "\<not> 8 dvd p + n - 12" "8 dvd p - 8" "8 dvd p + n - 16"
proof -
  have "p mod 8 = 0" "n mod 8 = 0" "32 \<le> p" "24 \<le> n" using rep_block [OF r p] by auto
  then show "\<not> 8 dvd p - 4" "\<not> 8 dvd p + n - 12" "8 dvd p - 8" "8 dvd p + n - 16" by presburger+
qed

lemma rep_push:
  assumes r: "rep X B F s" and L: "sub L B" and e: "B e = Some (n, st)" "e \<notin> X"
    and fresh: "\<And>k. k < 3 \<Longrightarrow> e \<notin> set (F k)"
  obtains s' where "adv_list_push e (get_rank n) s = Some s'"
    "rep X B (F(get_rank n := e # F (get_rank n))) s'" "upd L s s'"
proof -
  define k where "k = get_rank n"
  have k3: "k < 3" by (simp add: k_def)
  let ?l = "first (F k) (heap s + 24)" let ?hb = "heap s"
  note en = rep_entry [OF r k3 first_cases [of "F k" "?hb + 24"]] and b = rep_block [OF r e(1)]
  obtain stl where stl: "STAT ?l s = Some stl" using en(5) by blast
  define w1 where "w1 = (if F k = [] then words s else (words s)(?l + sz B ?l - 12 := e - ?hb))"
  obtain s1 where s1: "(if stl \<noteq> BORDER then do { a \<leftarrow> PRE_PTR ?l s; SET a (PTR_DIFF e (heap_base s)) s } else Some s) = Some s1"
    "words s1 = w1" "upd L s s1" "tagged X B ?hb (mem_brk s) w1" "w1 (e - 8) = words s (e - 8)"
  proof (cases "F k")
    case Nil
    then have "stl = BORDER" using en(6) stl by simp
    then show ?thesis using that [of s] Nil repD(4) [OF r] by (simp add: w1_def)
  next
    case (Cons x xs)
    then have x: "?l = x" "x \<in> set (F k)" by simp_all
    from rep_member [OF r k3 x(2)] obtain m sx where m: "B x = Some (m, sx)" "x \<notin> X" by metis
    have nb: "stl \<noteq> BORDER" using en(6) stl x(1) rep_block(1) [OF r m(1)] by auto
    obtain s1 where "SET (x + m - 12) (PTR_DIFF e (heap_base s)) s = Some s1"
      "words s1 = (words s)(x + m - 12 := u32 (PTR_DIFF e (heap_base s)))" "upd L s s1"
      using rep_SET [OF r meta_block(4) [OF r m(1)] L] by blast
    moreover have "e - 8 \<noteq> x + m - 12" using link_addresses(3) [OF r e(1)] link_addresses(2) [OF r m(1)] by auto
    ultimately show ?thesis
      using that [of s1] nb x(1) m Cons rep_fields(4) [OF r m] rep_offset(2) [OF r, of e] b
        tagged_link [OF repD(4) [OF r] repD(3) [OF r]] link_addresses(2) [OF r m(1)] by (simp add: w1_def)
  qed
  obtain s2 where s2: "SET (NEX_PTR e) (PTR_DIFF ?l (heap_base s)) s1 = Some s2"
    "words s2 = w1(e - 4 := ?l - ?hb)" "upd L s s2"
    using rep_SET_upd [OF r s1(3) meta_block(2) [OF r e(1)] L, of "PTR_DIFF ?l (heap_base s)"]
      field_ptrs(2) [OF b(5)] b(1) s1(2) rep_offset(2) [OF r en(1,2)] by auto
  have "words s2 (e - 8) = n + st" using s2(2) s1(5) repD(4) [OF r] e b(1) by (auto simp: tagged_def)
  then have pre: "PRE_PTR e s2 = Some (e + n - 12)" using rep_fields_upd(4) [OF r s2(3) e(1)] b(8) by auto
  obtain s3 where s3: "SET (e + n - 12) BDR_OFF s2 = Some s3" "words s3 = (words s2)(e + n - 12 := 24)" "upd L s s3"
    using rep_SET_upd [OF r s2(3) meta_block(4) [OF r e(1)] L, of BDR_OFF] by (auto simp: u32_small)
  have bk: "BUCK k t = ?hb + 4 * k" if "upd L s t" for t using rep_BUCK [OF r k3] upd_fields(4) [OF that] by (simp add: BUCK_def)
  obtain s4 where s4: "SET (?hb + 4 * k) (PTR_DIFF e (heap_base s)) s3 = Some s4"
    "words s4 = (words s3)(?hb + 4 * k := e - ?hb)" "upd L s s4"
    using rep_SET_upd [OF r s3(3) meta_bucket [OF k3] L, of "PTR_DIFF e (heap_base s)"] rep_offset(2) [OF r, of e] b by auto
  have sze: "sz B e = n" "e \<in> dom B" using e(1) by auto
  have w4: "words s4 = w1(e - 4 := ?l - ?hb, e + sz B e - 12 := 24, ?hb + 4 * k := e - ?hb)"
    using s4(2) s3(2) s2(2) sze by simp
  note pw = push_words [OF repD(5) [OF r] repD(3) [OF r] repD(6) [OF r] sze(2) fresh, of k, folded w1_def]
  have "tagged X B ?hb (mem_brk s) (words s4)"
    unfolding w4 using s1(4) link_addresses(1,2) [OF r e(1)] sze k3
    by (intro tagged_link [OF _ repD(3) [OF r]]) auto
  moreover have "lists (words s4) B ?hb (F(k := e # F k))" "ranked B (F(k := e # F k))"
    using pw sze k_def unfolding w4 by blast+
  ultimately have "rep X B (F(k := e # F k)) s4"
    by (intro rep_upd [OF r s4(3) repD(3) [OF r]]) (use e(2) repD(7) [OF r] in \<open>auto split: if_splits\<close>)
  moreover have "adv_list_push e k s = Some s4"
    using stl s1(1) s2(1) pre s3(1) s4(1) bk [OF s3(3)] upd_fields(4) [OF s1(3)] upd_fields(4) [OF s3(3)]
    by (simp add: adv_list_push_def rep_LIST [OF r k3])
  ultimately show ?thesis using that s4(3) unfolding k_def by blast
qed

lemma rep_STAT_upd:
  assumes r: "rep X B F s" "k < 3" and u: "upd L s t" and x: "x \<in> set (F k) \<or> x = heap s + 24"
    and w: "words t (x - 8) = words s (x - 8)"
  shows "STAT x t = STAT x s"
proof -
  note en = rep_entry [OF r x]
  have m: "meta B (heap s) (mem_brk s) (x - 8)"
  proof (cases "x = heap s + 24")
    case False
    then show ?thesis using x rep_member [OF r] meta_block(1) [OF r(1)] by metis
  qed (simp add: meta_def)
  have "mapped t (x - 8) 4" using meta_ok(1) [OF r(1) m] upd_fields [OF u] by (simp add: mapped_def)
  then have "GET (x - 8) t = GET (x - 8) s"
    using GET_words [of t "x - 8"] meta_ok(2) [OF r(1) m] rep_GET [OF r(1) m] w by simp
  then show ?thesis using field_ptrs(1) [OF en(4,3)] by (simp add: STAT_def)
qed

lemma rep_remove:
  assumes r: "rep X B F s" and L: "sub L B" and k3: "k < 3" and F: "F k = as @ e # bs"
  obtains s' where "adv_list_remove e k s = Some s'" "rep X B (F(k := as @ bs)) s'" "upd L s s'"
proof -
  let ?hb = "heap s"
  define p q where "p = final (?hb + 24) as" and "q = first bs (?hb + 24)"
  have pq: "p \<in> set (F k) \<or> p = ?hb + 24" "q \<in> set (F k) \<or> q = ?hb + 24"
    using final_cases [of "?hb + 24" as] first_cases [of bs "?hb + 24"] F by (auto simp: p_def q_def)
  note ep = rep_entry [OF r k3 pq(1)] and eq = rep_entry [OF r k3 pq(2)]
  have pm: "\<exists>m st. B p = Some (m, st)" if "as \<noteq> []"
    using rep_member [OF r k3, of p] that F by (metis Un_iff final_def last_in_set p_def set_append)
  have qm: "\<exists>m st. B q = Some (m, st) \<and> q \<notin> X" if "bs \<noteq> []"
  proof -
    have "q \<in> set (F k)" using that F by (cases bs) (simp_all add: q_def)
    then show ?thesis using rep_member [OF r k3] by metis
  qed
  have bp: "p \<noteq> ?hb + 24 \<longleftrightarrow> as \<noteq> []"
    using pm rep_block(1) [OF r, of p] by (cases "as = []") (fastforce simp: p_def)+
  have bq: "q \<noteq> ?hb + 24 \<longleftrightarrow> bs \<noteq> []"
    using qm rep_block(1) [OF r, of q] by (cases "bs = []") (fastforce simp: q_def)+
  obtain sp sq where sp: "STAT p s = Some sp" "sp = BORDER \<longleftrightarrow> as = []" and sq: "STAT q s = Some sq" "sq = BORDER \<longleftrightarrow> bs = []"
    using ep(5,6) eq(5,6) bp bq by auto
  define w1 where "w1 = (if as = [] then words s else (words s)(p - 4 := q - ?hb))"
  define w2 where "w2 = (if bs = [] then w1 else w1(q + sz B q - 12 := p - ?hb))"
  define w3 where "w3 = (if as = [] then w2(?hb + 4 * k := q - ?hb) else w2)"
  obtain s1 where s1: "(if sp \<noteq> BORDER then SET (NEX_PTR p) (PTR_DIFF q (heap_base s)) s else Some s) = Some s1"
    "words s1 = w1" "upd L s s1" "tagged X B ?hb (mem_brk s) w1"
  proof (cases "as = []")
    case True then show ?thesis using that [of s] sp repD(4) [OF r] by (simp add: w1_def)
  next
    case False
    then obtain m st where m: "B p = Some (m, st)" using pm by blast
    then obtain s1 where "SET (p - 4) (PTR_DIFF q (heap_base s)) s = Some s1"
      "words s1 = (words s)(p - 4 := u32 (PTR_DIFF q (heap_base s)))" "upd L s s1"
      using rep_SET [OF r meta_block(2) [OF r m] L] by blast
    then show ?thesis
      using that [of s1] False sp field_ptrs(2) [OF ep(4)] ep(3) rep_offset(2) [OF r eq(1,2)]
        tagged_link [OF repD(4) [OF r] repD(3) [OF r]] link_addresses(1) [OF r m] by (simp add: w1_def)
  qed
  have hdr: "w1 (q - 8) = words s (q - 8)"
  proof (cases "as = []")
    case False
    then obtain m st where m: "B p = Some (m, st)" using pm by blast
    have "8 dvd q - 8" using bq qm link_addresses(3) [OF r] rep_heap(2) [OF r] by (cases "bs = []") auto
    then show ?thesis using link_addresses(1) [OF r m] by (auto simp: w1_def)
  qed (simp add: w1_def)
  then have sq1: "STAT q s1 = Some sq" using rep_STAT_upd [OF r k3 s1(3) pq(2)] s1(2) sq(1) by simp
  obtain s2 where s2: "(if sq \<noteq> BORDER then do { a \<leftarrow> PRE_PTR q s1; SET a (PTR_DIFF p (heap_base s)) s1 } else Some s1) = Some s2"
    "words s2 = w2" "upd L s s2" "tagged X B ?hb (mem_brk s) w2"
  proof (cases "bs = []")
    case True then show ?thesis using that [of s1] sq s1 by (simp add: w2_def)
  next
    case False
    then obtain m st where m: "B q = Some (m, st)" "q \<notin> X" using qm by blast
    have "words s1 (q - 8) = m + st" using hdr s1(2) repD(4) [OF r] m by (simp add: tagged_def)
    then have "PRE_PTR q s1 = Some (q + m - 12)" using rep_fields_upd(4) [OF r s1(3) m(1)] rep_block(8) [OF r m(1)] by auto
    moreover obtain s2 where "SET (q + m - 12) (PTR_DIFF p (heap_base s)) s1 = Some s2"
      "words s2 = (words s1)(q + m - 12 := u32 (PTR_DIFF p (heap_base s)))" "upd L s s2"
      using rep_SET_upd [OF r s1(3) meta_block(4) [OF r m(1)] L] by blast
    ultimately show ?thesis
      using that [of s2] False sq s1(2) rep_offset(2) [OF r ep(1,2)] m(1)
        tagged_link [OF s1(4) repD(3) [OF r]] link_addresses(2) [OF r m(1)] by (simp add: w2_def)
  qed
  have bk: "BUCK k s2 = ?hb + 4 * k" using rep_BUCK [OF r k3] upd_fields(4) [OF s2(3)] by (simp add: BUCK_def)
  have mb: "mapped s2 (?hb + 4 * k) 4" "4 dvd ?hb + 4 * k"
    using meta_ok(1,2) [OF r meta_bucket [OF k3]] upd_fields [OF s2(3)] by (simp_all add: mapped_def)
  have "words s2 (?hb + 4 * k) = words s (?hb + 4 * k)"
  proof -
    have "?hb + 4 * k \<noteq> x - 4 \<and> ?hb + 4 * k \<noteq> x + sz B x - 12" if "B x = Some (m, st)" for x m st
      using rep_block(1,3) [OF r that] k3 that by auto
    then have "as \<noteq> [] \<Longrightarrow> ?hb + 4 * k \<noteq> p - 4" "bs \<noteq> [] \<Longrightarrow> ?hb + 4 * k \<noteq> q + sz B q - 12" using pm qm by blast+
    then show ?thesis unfolding s2(2) w2_def w1_def by (cases "as = []"; cases "bs = []") simp_all
  qed
  then have "LIST k s2 = LIST k s"
    using GET_words [OF mb] rep_GET [OF r meta_bucket [OF k3]] bk rep_BUCK [OF r k3] upd_fields(4) [OF s2(3)] by (simp add: LIST_def)
  then have l: "LIST k s2 = Some (first (as @ [e]) (?hb + 24))" using rep_LIST [OF r k3] F by (simp add: first_append)
  have eh: "e = first (as @ [e]) (?hb + 24) \<longleftrightarrow> as = []"
    using rankedD(1) [OF repD(6) [OF r] k3] F by (cases as) auto
  obtain s3 where s3: "(if as = [] then SET (?hb + 4 * k) (PTR_DIFF q (heap_base s)) s2 else Some s2) = Some s3"
    "words s3 = w3" "upd L s s3" "tagged X B ?hb (mem_brk s) w3"
  proof (cases "as = []")
    case False then show ?thesis using that [of s2] s2 by (simp add: w3_def)
  next
    case True
    obtain s3 where "SET (?hb + 4 * k) (PTR_DIFF q (heap_base s)) s2 = Some s3"
      "words s3 = (words s2)(?hb + 4 * k := u32 (PTR_DIFF q (heap_base s)))" "upd L s s3"
      using rep_SET_upd [OF r s2(3) meta_bucket [OF k3] L] by blast
    then show ?thesis
      using that [of s3] True s2(2) rep_offset(2) [OF r eq(1,2)] tagged_link [OF s2(4) repD(3) [OF r]] k3 by (simp add: w3_def)
  qed
  note rw = remove_words(1,2) [OF repD(5) [OF r] repD(3) [OF r] repD(6) [OF r] k3 F, folded p_def q_def,
      folded w1_def, folded w2_def, folded w3_def]
  have "rep X B (F(k := as @ bs)) s3"
    using s3(4) rw repD(7) [OF r] F k3 unfolding s3(2) [symmetric]
    by (intro rep_upd [OF r s3(3) repD(3) [OF r]]) (auto split: if_splits)
  moreover have "adv_list_remove e k s = Some s3"
    by (simp only: adv_list_remove_def rep_links [OF r k3 F, folded p_def q_def] sp(1) s1(1) sq1 s2(1) l eh bk s3(1)
      upd_fields(4) [OF s1(3)] upd_fields(4) [OF s2(3)] Option.bind.simps)
  ultimately show ?thesis using that s3(3) by blast
qed

end
