(* ===== verification/MM_Advance_Ops.thy ===== *)
theory MM_Advance_Ops
  imports MM_Advance_Rep
begin

section \<open>Tags, splitting, merging and searching in mm-advance.c\<close>

text \<open>
  \<open>hp Y B s\<close> hides the lists: the free lists hold exactly the unused blocks that are not in \<open>Y\<close>.
  With it every helper has a rule over the block map alone.
\<close>

lemma rep_set_tags:
  assumes r: "rep X B F s" and L: "sub L B" and p: "B p = Some (n, st0)" and st: "st = USED \<or> st = UNUSED"
  obtains s' where "set_tags p n st s = Some s'" "rep (X - {p}) (B(p \<mapsto> (n, st))) F s'" "upd L s s'"
proof -
  note b = rep_block [OF r p] and g = repD(3) [OF r] and h = rep_heap [OF r]
  have st8: "st < 8" using st by auto
  note z = tag_fields [OF b(7) b(4) st8]
  obtain s1 where s1: "SET (p - 8) (ZIP n st) s = Some s1" "words s1 = (words s)(p - 8 := n + st)" "upd L s s1"
    using rep_SET [OF r meta_block(1) [OF r p] L, of "ZIP n st"] z(1) by auto
  have "FTR_PTR p s1 = Some (p + n - 16)" using rep_fields_upd(3) [OF r s1(3) p _ st8] s1(2) by simp
  moreover obtain s2 where s2: "SET (p + n - 16) (ZIP n st) s1 = Some s2" "words s2 = (words s1)(p + n - 16 := n + st)" "upd L s s2"
    using rep_SET_upd [OF r s1(3) meta_block(3) [OF r p] L, of "ZIP n st"] z(1) by auto
  ultimately have run: "set_tags p n st s = Some s2"
    using field_ptrs(1) [OF b(5)] b(1) s1(1) by (simp add: set_tags_def)
  have w: "words s2 = (words s)(p - 8 := n + st, p + n - 16 := n + st)" using s2(2) s1(2) by simp
  have tg: "8 dvd p - 8" "heap s + 16 \<le> p - 8" "8 dvd p + n - 16" "heap s + 16 \<le> p + n - 16"
    using link_addresses(3,4) [OF r p] b by auto
  have "lists (words s2) B (heap s) F"
    unfolding w by (intro lists_tag [OF _ g repD(6) [OF r]] repD(5) [OF r] tg)
  then have "lists (words s2) (B(p \<mapsto> (n, st))) (heap s) F" by (rule lists_cong) (simp_all add: sz_status [of B, OF p])
  moreover have "ranked (B(p \<mapsto> (n, st))) F"
    using repD(6) [OF r] p unfolding ranked_def sz_status [of B, OF p] by auto
  moreover have "tagged (X - {p}) (B(p \<mapsto> (n, st))) (heap s) (mem_brk s) (words s2)"
    unfolding tagged_def
  proof (intro conjI allI impI)
    have "words s2 (heap s + 16) = words s (heap s + 16)" "words s2 (mem_brk s - 8) = words s (mem_brk s - 8)"
      using b h by (auto simp: w)
    then show "words s2 (heap s + 16) = 8 + BORDER" "words s2 (mem_brk s - 8) = BORDER"
      using repD(4) [OF r] by (simp_all add: tagged_def)
    fix q k t assume q: "(B(p \<mapsto> (n, st))) q = Some (k, t) \<and> q \<notin> X - {p}"
    have "words s2 (q - 8) = k + t \<and> words s2 (q + k - 16) = k + t"
    proof (cases "q = p")
      case True
      have "p - 8 \<noteq> p + n - 16" using b by linarith
      then show ?thesis using True q by (simp add: w)
    next
      case False
      then have q': "B q = Some (k, t)" "q \<notin> X" using q by auto
      note bq = rep_block [OF r q'(1)]
      have "q - 8 \<noteq> p - 8" "q - 8 \<noteq> p + n - 16" "q + k - 16 \<noteq> p - 8" "q + k - 16 \<noteq> p + n - 16"
        using geom_apart [OF g q'(1) p False] b(1,3) bq(1,3) False by linarith+
      then show ?thesis using repD(4) [OF r] q' by (simp add: w tagged_def)
    qed
    then show "words s2 (q - 8) = k + t" "words s2 (q + k - 16) = k + t" by simp_all
  qed
  ultimately have "rep (X - {p}) (B(p \<mapsto> (n, st))) F s2"
    by (intro rep_upd [OF r s2(3) geom_status [OF g p st]]) (use repD(7) [OF r] in auto)
  with run s2(3) that show ?thesis by blast
qed

lemma rep_set_tags_same:
  assumes r: "rep (insert p X) B F s" and L: "sub L B" and p: "B p = Some (n, st)" "p \<notin> X" and st: "st = USED \<or> st = UNUSED"
  obtains s' where "set_tags p n st s = Some s'" "rep X B F s'" "upd L s s'"
proof (rule rep_set_tags [OF r L p(1) st])
  have e: "insert p X - {p} = X" "B(p \<mapsto> (n, st)) = B" using p by auto
  fix s' assume "set_tags p n st s = Some s'" "rep (insert p X - {p}) (B(p \<mapsto> (n, st))) F s'" "upd L s s'"
  then show thesis unfolding e by (rule that)
qed

text \<open>The block map changes although no word does: a block is seen as two, two as one.\<close>

lemma rep_blocks:
  assumes r: "rep X B F s" and g: "geom (heap s + 32) (mem_brk s) B'"
    and eq: "\<And>q. q \<notin> D \<Longrightarrow> B' q = B q" and off: "\<And>k. k < 3 \<Longrightarrow> set (F k) \<inter> D = {}"
  shows "rep (X \<union> D) B' F s"
proof -
  have same: "B' q = B q" if "q \<in> set (F k)" "k < 3" for q k using eq off [OF that(2)] that(1) by auto
  have "lists (words s) B' (heap s) F"
    using repD(5) [OF r] by (rule lists_cong) (auto simp: sz_def same)
  moreover have "ranked B' F"
    using repD(6) [OF r] same unfolding ranked_def sz_def by (auto simp: domIff)
  moreover have "tagged (X \<union> D) B' (heap s) (mem_brk s) (words s)"
    using repD(4) [OF r] eq unfolding tagged_def by auto
  ultimately show ?thesis
    by (intro rep_upd [OF r upd_refl g]) (use repD(7) [OF r] off in auto)
qed

definition hp :: "addr set \<Rightarrow> blocks \<Rightarrow> 'p adv_state_scheme \<Rightarrow> bool" where
  "hp Y B s \<longleftrightarrow> (\<exists>F. rep {} B F s \<and>
     (\<forall>p n st. B p = Some (n, st) \<longrightarrow> ((\<exists>r < 3. p \<in> set (F r)) \<longleftrightarrow> st = UNUSED \<and> p \<notin> Y)))"

lemma hp_used: "hp Y B s \<Longrightarrow> (\<And>p. p \<in> Z \<Longrightarrow> \<exists>n. B p = Some (n, USED)) \<Longrightarrow> hp (Y \<union> Z) B s"
  unfolding hp_def by (metis Un_iff option.inject prod.inject stat_values(1))

lemma hp_rep: "hp Y B s \<Longrightarrow> \<exists>F. rep {} B F s"
  by (auto simp: hp_def)

lemma hp_remove:
  assumes h: "hp Y B s" and L: "sub L B" and e: "B e = Some (n, UNUSED)" "e \<notin> Y"
  obtains s' where "adv_list_remove e (get_rank n) s = Some s'" "hp (insert e Y) B s'" "upd L s s'"
proof -
  obtain F where F: "rep {} B F s" "\<And>p n st. B p = Some (n, st) \<Longrightarrow> (\<exists>r < 3. p \<in> set (F r)) \<longleftrightarrow> st = UNUSED \<and> p \<notin> Y"
    using h unfolding hp_def by blast
  let ?k = "get_rank n"
  note rk = rankedD [OF repD(6) [OF F(1)]]
  have eF: "e \<in> set (F ?k)" using F(2) [OF e(1)] e rk(3) [of _ e] by auto
  then obtain as bs where sp: "F ?k = as @ e # bs" by (meson split_list)
  obtain s' where s': "adv_list_remove e ?k s = Some s'" "rep {} B (F(?k := as @ bs)) s'" "upd L s s'"
    using rep_remove [OF F(1) L get_rank_less sp] by blast
  have on: "(\<exists>r < 3. p \<in> set ((F(?k := as @ bs)) r)) \<longleftrightarrow> (\<exists>r < 3. p \<in> set (F r)) \<and> p \<noteq> e" for p
  proof (cases "p = e")
    case True
    have "e \<notin> set as \<union> set bs" using rk(1) [of ?k] sp by simp
    moreover have "e \<notin> set (F r)" if "r < 3" "r \<noteq> ?k" for r using rk(3) [OF that(1), of e] e(1) that(2) by auto
    ultimately show ?thesis using True by auto
  next
    case False
    then have "p \<in> set ((F(?k := as @ bs)) r) \<longleftrightarrow> p \<in> set (F r)" for r using sp by auto
    then show ?thesis using False by simp
  qed
  have "(\<exists>r < 3. p \<in> set ((F(?k := as @ bs)) r)) \<longleftrightarrow> st = UNUSED \<and> p \<notin> insert e Y" if "B p = Some (m, st)" for p m st
    unfolding on F(2) [OF that] by blast
  then have "hp (insert e Y) B s'" unfolding hp_def using s'(2) by blast
  then show ?thesis using that s'(1,3) by blast
qed

text \<open>Pushing a block that is off the lists and giving it its tags, in either order.\<close>

lemma push_member:
  "k < (3 :: nat) \<Longrightarrow> (\<exists>r < 3. p \<in> set ((F(k := e # F k)) r)) \<longleftrightarrow> (\<exists>r < 3. p \<in> set (F r)) \<or> p = e"
  by auto

lemma hp_tag_push:
  assumes r: "rep {e} B F s" and L: "sub L B" and e: "B e = Some (n, st)" "\<And>k. k < 3 \<Longrightarrow> e \<notin> set (F k)"
    and F: "\<And>p n st. B p = Some (n, st) \<Longrightarrow> (\<exists>r < 3. p \<in> set (F r)) \<longleftrightarrow> st = UNUSED \<and> p \<notin> insert e Y"
  obtains s' s'' where "set_tags e n UNUSED s = Some s'" "adv_list_push e (get_rank n) s' = Some s''"
    "hp (Y - {e}) (B(e \<mapsto> (n, UNUSED))) s''" "upd L s s''"
proof -
  let ?B = "B(e \<mapsto> (n, UNUSED))"
  obtain s' where s': "set_tags e n UNUSED s = Some s'" "rep {} ?B F s'" "upd L s s'"
    using rep_set_tags [OF r L e(1), of UNUSED] by auto
  obtain s'' where s'': "adv_list_push e (get_rank n) s' = Some s''" "rep {} ?B (F(get_rank n := e # F (get_rank n))) s''" "upd L s' s''"
    using rep_push [OF s'(2) sub_status [OF L e(1)], of e n UNUSED] e(2) by auto
  have "(\<exists>r < 3. p \<in> set ((F(get_rank n := e # F (get_rank n))) r)) \<longleftrightarrow> t = UNUSED \<and> p \<notin> Y - {e}" if "?B p = Some (m, t)" for p m t
    unfolding push_member [OF get_rank_less] using F [of p m t] e(2) that by (cases "p = e") auto
  then have "hp (Y - {e}) ?B s''" unfolding hp_def using s''(2) by blast
  then show ?thesis using that s'(1) s''(1) upd_trans [OF s'(3) s''(3)] by blast
qed

lemma hp_push_tag:
  assumes h: "hp {} B s" and L: "sub L B" and e: "B e = Some (n, USED)"
  obtains s' s'' where "adv_list_push e (get_rank n) s = Some s'" "set_tags e n UNUSED s' = Some s''"
    "hp {} (B(e \<mapsto> (n, UNUSED))) s''" "upd L s s''"
proof -
  obtain F where F: "rep {} B F s" "\<And>p n st. B p = Some (n, st) \<Longrightarrow> (\<exists>r < 3. p \<in> set (F r)) \<longleftrightarrow> st = UNUSED"
    using h unfolding hp_def by auto
  have off: "e \<notin> set (F k)" if "k < 3" for k using F(2) [OF e] that by auto
  obtain s' where s': "adv_list_push e (get_rank n) s = Some s'" "rep {} B (F(get_rank n := e # F (get_rank n))) s'" "upd L s s'"
    using rep_push [OF F(1) L e _ off] by auto
  obtain s'' where s'': "set_tags e n UNUSED s' = Some s''" "rep {} (B(e \<mapsto> (n, UNUSED))) (F(get_rank n := e # F (get_rank n))) s''" "upd L s' s''"
    using rep_set_tags [OF s'(2) L e, of UNUSED] by auto
  have "(\<exists>r < 3. p \<in> set ((F(get_rank n := e # F (get_rank n))) r)) \<longleftrightarrow> t = UNUSED \<and> p \<notin> {}" if "(B(e \<mapsto> (n, UNUSED))) p = Some (m, t)" for p m t
    unfolding push_member [OF get_rank_less] using F(2) [of p m t] that by (cases "p = e") auto
  then have "hp {} (B(e \<mapsto> (n, UNUSED))) s''" unfolding hp_def using s''(2) by blast
  then show ?thesis using that s'(1) s''(1) upd_trans [OF s'(3) s''(3)] by blast
qed

lemma hp_fields:
  assumes "hp Y B s" "B p = Some (n, st)"
  shows "SIZE p s = Some n" "STAT p s = Some st" "HEAP_NEXT p s = Some (p + n)" "assert_stat p st s = Some ()"
    "geom (heap s + 32) (mem_brk s) B" "8 dvd n" "24 \<le> n" "n < 2 ^ 31" "heap s + 32 \<le> p" "p + n \<le> mem_brk s" "p < 2 ^ 63" "8 dvd p"
proof -
  obtain F where r: "rep {} B F s" using hp_rep [OF assms(1)] by blast
  note f = rep_fields [OF r assms(2)]
  then show "SIZE p s = Some n" "STAT p s = Some st" "HEAP_NEXT p s = Some (p + n)" "assert_stat p st s = Some ()"
    by (simp_all add: assert_stat_def)
  show "geom (heap s + 32) (mem_brk s) B" by (rule repD(3) [OF r])
  show "8 dvd n" "24 \<le> n" "n < 2 ^ 31" "heap s + 32 \<le> p" "p + n \<le> mem_brk s" "p < 2 ^ 63" "8 dvd p"
    using rep_block [OF r assms(2)] by simp_all
qed

subsection \<open>Placing a block\<close>

definition carve :: "blocks \<Rightarrow> addr \<Rightarrow> nat \<Rightarrow> nat \<Rightarrow> blocks" where
  "carve B p n k = (if k + 16 < n then B(p \<mapsto> (k, USED), p + k \<mapsto> (n - k, UNUSED)) else B(p \<mapsto> (n, USED)))"

lemma sub_carve:
  assumes L: "sub L (B(p \<mapsto> (k, st)))" and p: "B p = Some (n, st0)" "k \<le> n" and new: "p + k \<notin> dom B"
  shows "sub L (B(p \<mapsto> (k, USED), p + k \<mapsto> u))" "sub L (B(p \<mapsto> (n, USED)))"
proof -
  have k0: "0 < k" using new p(1) by (cases k) auto
  have "\<exists>j t. (B(p \<mapsto> (k, USED), p + k \<mapsto> u)) q = Some (j, t) \<and> m + 16 \<le> j" if q: "L q = Some m" for q m
  proof -
    obtain j t where j: "(B(p \<mapsto> (k, st))) q = Some (j, t)" "m + 16 \<le> j" using subD [OF L q] by blast
    have "q \<noteq> p + k" using j(1) new k0 by auto
    then show ?thesis using j by (cases "q = p") auto
  qed
  then show "sub L (B(p \<mapsto> (k, USED), p + k \<mapsto> u))" unfolding sub_def by blast
  have "\<exists>j t. (B(p \<mapsto> (n, USED))) q = Some (j, t) \<and> m + 16 \<le> j" if q: "L q = Some m" for q m
    using subD [OF L q] p(2) by (cases "q = p") auto
  then show "sub L (B(p \<mapsto> (n, USED)))" unfolding sub_def by blast
qed

lemma sub_grow: "sub L (B(p \<mapsto> (k, st))) \<Longrightarrow> B p = Some (n, st0) \<Longrightarrow> k \<le> n \<Longrightarrow> sub L B"
  unfolding sub_def by (fastforce split: if_splits)

lemma hp_place:
  assumes h: "hp {p} B s" and p: "B p = Some (n, st)" and k: "8 dvd k" "24 \<le> k" "k \<le> n"
    and L: "sub L (B(p \<mapsto> (k, USED)))"
  obtains s' where "place p k True s = Some s'" "hp {} (carve B p n k) s'" "upd L s s'"
proof -
  obtain F where F: "rep {} B F s" "\<And>q m t. B q = Some (m, t) \<Longrightarrow> (\<exists>r < 3. q \<in> set (F r)) \<longleftrightarrow> t = UNUSED \<and> q \<notin> {p}"
    using h unfolding hp_def by blast
  note f = hp_fields [OF h p]
  have off: "p \<notin> set (F r)" if "r < 3" for r using F(2) [OF p] that by auto
  have LB: "sub L B" by (rule sub_grow [OF L p k(3)])
  have sub: "sub32 n k = n - k" using k(3) f(8) by (simp add: sub32_small)
  show ?thesis
  proof (cases "k + 16 < n")
    case False
    obtain s' where s': "set_tags p n USED s = Some s'" "rep {} (B(p \<mapsto> (n, USED))) F s'" "upd L s s'"
      using rep_set_tags [OF F(1) LB p, of USED] by auto
    have "(\<exists>r < 3. q \<in> set (F r)) \<longleftrightarrow> t = UNUSED \<and> q \<notin> {}" if "(B(p \<mapsto> (n, USED))) q = Some (m, t)" for q m t
      using F(2) [of q m t] off that by (cases "q = p") auto
    then have "hp {} (B(p \<mapsto> (n, USED))) s'" unfolding hp_def using s'(2) by blast
    moreover have "\<not> META_SIZE < sub32 n k" using sub False k(3) by simp
    then have "place p k True s = Some s'" using f(1) s'(1) by (simp add: place_def)
    ultimately show ?thesis using that s'(3) False by (simp add: carve_def)
  next
    case True
    let ?q = "p + k" let ?B = "B(p \<mapsto> (k, USED), p + k \<mapsto> (n - k, UNUSED))"
    have "n mod 8 = 0" "k mod 8 = 0" using f(6) k(1) by auto
    then have k24: "k + 24 \<le> n" using True by presburger
    note g = geom_split [OF f(5) p k(2,1) k24, of USED UNUSED]
    have L': "sub L ?B" by (rule sub_carve(1) [OF L p k(3) g(2)]) simp_all
    have q: "?B ?q = Some (n - k, UNUSED)" "?B p = Some (k, USED)" using k(2) by simp_all
    have offq: "?q \<notin> set (F r)" if "r < 3" for r using rankedD(2) [OF repD(6) [OF F(1)] that] g(2) by blast
    have r1: "rep {p, ?q} ?B F s"
      using rep_blocks [OF F(1), of ?B "{p, ?q}"] g(1) off offq by auto
    have qp: "?q \<notin> {p}" using k(2) by simp
    have r1': "rep (insert ?q {p}) ?B F s" using r1 by (simp only: insert_commute)
    obtain s1 where s1: "set_tags ?q (n - k) UNUSED s = Some s1" "rep {p} ?B F s1" "upd L s s1"
      using rep_set_tags_same [OF r1' L' q(1) qp] by blast
    let ?r = "get_rank (n - k)" let ?F = "F(?r := ?q # F ?r)"
    obtain s2 where s2: "adv_list_push ?q ?r s1 = Some s2" "rep {p} ?B ?F s2" "upd L s1 s2"
      by (rule rep_push [OF s1(2) L' q(1) qp offq])
    have as: "assert_stat ?q UNUSED s2 = Some ()"
      using rep_fields(2) [OF s2(2) q(1)] k(2) by (simp add: assert_stat_def)
    obtain s3 where s3: "set_tags p k USED s2 = Some s3" "rep {} ?B ?F s3" "upd L s2 s3"
      using rep_set_tags_same [OF s2(2) L' q(2)] by blast
    have "(\<exists>r < 3. x \<in> set (?F r)) \<longleftrightarrow> t = UNUSED \<and> x \<notin> {}" if x: "?B x = Some (m, t)" for x m t
      unfolding push_member [OF get_rank_less]
      using F(2) [of x m t] off x k(2) by (cases "x = p"; cases "x = ?q") auto
    then have hp3: "hp {} ?B s3" unfolding hp_def using s3(2) by blast
    have "add64 p k = ?q" using f(11,8) k(3) by (simp add: add64_small)
    moreover have "META_SIZE < sub32 n k" using sub True by simp
    ultimately have "place p k True s = Some s3"
      using f(1) sub s1(1) s2(1) s3(1) as by (simp add: place_def adv_split_def)
    moreover have "upd L s s3" using upd_trans [OF upd_trans [OF s1(3) s2(3)] s3(3)] .
    ultimately show ?thesis using that True hp3 by (simp add: carve_def)
  qed
qed

lemma hp_place_listed:
  assumes h: "hp {} B s" and p: "B p = Some (n, UNUSED)" and k: "8 dvd k" "24 \<le> k" "k \<le> n"
    and L: "sub L (B(p \<mapsto> (k, USED)))"
  obtains s' where "place p k False s = Some s'" "hp {} (carve B p n k) s'" "upd L s s'"
proof -
  obtain s1 where s1: "adv_list_remove p (get_rank n) s = Some s1" "hp {p} B s1" "upd L s s1"
    using hp_remove [OF h sub_grow [OF L p k(3)] p] by auto
  obtain s2 where s2: "place p k True s1 = Some s2" "hp {} (carve B p n k) s2" "upd L s1 s2"
    using hp_place [OF s1(2) p k L] by blast
  have "place p k False s = Some s2"
    using s1(1) s2(1) hp_fields(1) [OF h p] hp_fields(1) [OF s1(2) p] by (simp add: place_def)
  then show ?thesis using that s2(2) upd_trans [OF s1(3) s2(3)] by blast
qed

subsection \<open>Merging\<close>

definition merged :: "blocks \<Rightarrow> addr \<Rightarrow> nat \<Rightarrow> nat \<Rightarrow> blocks" where
  "merged B p n k = B(p + n := None, p \<mapsto> (n + k, UNUSED))"

lemma rep_shrink:
  assumes "rep X B F s" "X' \<subseteq> X" "\<And>q. q \<in> X - X' \<Longrightarrow> q \<notin> dom B"
  shows "rep X' B F s"
proof -
  have "tagged X' B (heap s) (mem_brk s) (words s)"
    using repD(4) [OF assms(1)] assms(3) unfolding tagged_def by blast
  then show ?thesis
    by (intro rep_upd [OF assms(1) upd_refl repD(3) [OF assms(1)] _ repD(5,6) [OF assms(1)]])
      (use repD(7) [OF assms(1)] assms(2) in blast)+
qed

lemma sub_merged: "sub L B \<Longrightarrow> B p = Some (n, st) \<Longrightarrow> p + n \<notin> dom L \<Longrightarrow> sub L (merged B p n k)"
  unfolding sub_def merged_def by (fastforce split: if_splits)

lemma hp_coalesce_off:
  assumes h: "hp {p, p + n} B s" and p: "B p = Some (n, st)" "B (p + n) = Some (k, t)" and L: "sub L B" "p + n \<notin> dom L"
  obtains s' where "coalesce p (p + n) False s = Some s'" "hp {} (merged B p n k) s'" "upd L s s'"
proof -
  obtain F where F: "rep {} B F s" "\<And>q m t. B q = Some (m, t) \<Longrightarrow> (\<exists>r < 3. q \<in> set (F r)) \<longleftrightarrow> t = UNUSED \<and> q \<notin> {p, p + n}"
    using h unfolding hp_def by blast
  note f = hp_fields [OF h p(1)] and g = hp_fields [OF h p(2)]
  let ?B = "merged B p n k"
  have B: "?B p = Some (n + k, UNUSED)" "p + n \<notin> dom ?B" "\<And>q. q \<noteq> p \<Longrightarrow> q \<noteq> p + n \<Longrightarrow> ?B q = B q"
    using f(7) by (simp_all add: merged_def domIff)
  have off: "p \<notin> set (F r)" "p + n \<notin> set (F r)" if "r < 3" for r using F(2) [OF p(1)] F(2) [OF p(2)] that by auto
  have gm: "geom (heap s + 32) (mem_brk s) ?B" unfolding merged_def using geom_merge [OF f(5) p] by simp
  have "rep ({} \<union> {p, p + n}) ?B F s" by (rule rep_blocks [OF F(1) gm]) (use B(3) off in auto)
  then have r1: "rep {p} ?B F s" by (rule rep_shrink) (use B(2) in auto)
  have L': "sub L ?B" by (rule sub_merged [OF L(1) p(1) L(2)])
  have ls: "(\<exists>r < 3. q \<in> set (F r)) \<longleftrightarrow> t = UNUSED \<and> q \<notin> insert p {}" if "?B q = Some (m, t)" for q m t
    using F(2) [of q m t] off that B by (cases "q = p"; cases "q = p + n") auto
  obtain s1 s2 where s: "set_tags p (n + k) UNUSED s = Some s1" "adv_list_push p (get_rank (n + k)) s1 = Some s2"
    "hp ({} - {p}) (?B(p \<mapsto> (n + k, UNUSED))) s2" "upd L s s2"
    by (rule hp_tag_push [OF r1 L' B(1) off(1) ls])
  then have hp2: "hp {} ?B s2" using fun_upd_idem [of ?B p, OF B(1)] by simp
  have "n + k < 2 ^ 32" using f(8) g(8) by simp
  then have "coalesce p (p + n) False s = Some s2"
    using f(1) g(1) s(1,2) hp_fields(4) [OF hp2 B(1)] by (simp add: coalesce_def add32_small)
  then show ?thesis using that hp2 s(4) by blast
qed

lemma hp_coalesce:
  assumes h: "hp {} B s" and p: "B p = Some (n, UNUSED)" "B (p + n) = Some (k, UNUSED)" and L: "sub L B" "p + n \<notin> dom L"
  obtains s' where "coalesce p (p + n) True s = Some s'" "hp {} (merged B p n k) s'" "upd L s s'"
proof -
  have ne: "p \<notin> {p + n}" using hp_fields(7) [OF h p(1)] by simp
  obtain s1 where s1: "adv_list_remove (p + n) (get_rank k) s = Some s1" "hp {p + n} B s1" "upd L s s1"
    using hp_remove [OF h L(1) p(2)] by auto
  obtain s2 where s2: "adv_list_remove p (get_rank n) s1 = Some s2" "hp {p, p + n} B s2" "upd L s1 s2"
    using hp_remove [OF s1(2) L(1) p(1) ne] by auto
  obtain s3 where s3: "coalesce p (p + n) False s2 = Some s3" "hp {} (merged B p n k) s3" "upd L s2 s3"
    using hp_coalesce_off [OF s2(2) p L] by blast
  have "coalesce p (p + n) True s = coalesce p (p + n) False s2"
    using s1(1) s2(1) hp_fields(1) [OF h p(1)] hp_fields(1) [OF h p(2)] hp_fields(1) [OF s2(2) p(1)] hp_fields(1) [OF s2(2) p(2)]
    by (simp add: coalesce_def)
  then show ?thesis using that s3 upd_trans [OF upd_trans [OF s1(3) s2(3)] s3(3)] by simp
qed

subsection \<open>Searching\<close>

lemma find_fit_seg:
  assumes r: "rep {} B F s" "k < 3" and F: "F k = as @ bs"
  shows "find_fit_from n (first bs (heap s + 24)) s = Some (case find (\<lambda>x. n \<le> sz B x) bs of None \<Rightarrow> 0 | Some x \<Rightarrow> x)"
  using F
proof (induction bs arbitrary: as)
  case Nil
  then show ?case using rep_borders(1) [OF r(1)] by (simp add: find_fit_from.simps)
next
  case (Cons x bs)
  then have "x \<in> set (F k)" by simp
  then obtain m st where m: "B x = Some (m, st)" using rep_member [OF r] by metis
  have nb: "st \<noteq> BORDER" using rep_block(8) [OF r(1) m] by auto
  have "find_fit_from n (first bs (heap s + 24)) s = Some (case find (\<lambda>x. n \<le> sz B x) bs of None \<Rightarrow> 0 | Some x \<Rightarrow> x)"
    using Cons.IH [of "as @ [x]"] Cons.prems by simp
  then show ?case
    using nb m rep_fields(1,2) [OF r(1) m] rep_links(2) [OF r Cons.prems]
    by (simp add: find_fit_from.simps [of n x])
qed

lemma find_fit_spec:
  assumes r: "rep {} B F s" "k < 3"
  obtains p where "find_fit n k s = Some p" "p = 0 \<or> p \<in> set (F k) \<and> n \<le> sz B p"
proof
  let ?p = "case find (\<lambda>x. n \<le> sz B x) (F k) of None \<Rightarrow> 0 | Some x \<Rightarrow> x"
  show "find_fit n k s = Some ?p"
    using find_fit_seg [OF r, of "[]" "F k"] rep_LIST [OF r] by (simp add: find_fit_def)
  show "?p = 0 \<or> ?p \<in> set (F k) \<and> n \<le> sz B ?p"
    by (auto simp: find_Some_iff split: option.splits)
qed

lemma find_ranks_spec:
  assumes h: "hp Y B s" and k: "k < 3"
  shows "\<exists>p r. find_ranks n k s = Some (p, r) \<and>
    (p = 0 \<or> (\<exists>m. B p = Some (m, UNUSED) \<and> p \<notin> Y \<and> n \<le> m \<and> r = get_rank m))"
proof -
  obtain F where F: "rep {} B F s" "\<And>p n st. B p = Some (n, st) \<Longrightarrow> (\<exists>r < 3. p \<in> set (F r)) \<longleftrightarrow> st = UNUSED \<and> p \<notin> Y"
    using h unfolding hp_def by blast
  show ?thesis
    using k
  proof (induction "3 - k" arbitrary: k rule: less_induct)
    case less
    obtain p where p: "find_fit n k s = Some p" "p = 0 \<or> p \<in> set (F k) \<and> n \<le> sz B p"
      using find_fit_spec [OF F(1) less.prems] by blast
    show ?case
    proof (cases "p = 0 \<and> k + STP_BLK_BITS < RANK_NUM")
      case True
      then have "3 - (k + STP_BLK_BITS) < 3 - k" "k + STP_BLK_BITS < 3"
        using less.prems unfolding STP_BLK_BITS_def RANK_NUM_3 by linarith+
      from less.hyps [OF this] show ?thesis using True p(1) by (simp add: find_ranks.simps [of n k])
    next
      case False
      then have f: "find_ranks n k s = Some (p, k)" using p(1) by (auto simp: find_ranks.simps [of n k])
      have "\<exists>m. B p = Some (m, UNUSED) \<and> p \<notin> Y \<and> n \<le> m \<and> k = get_rank m" if "p \<noteq> 0"
      proof -
        have pk: "p \<in> set (F k)" "n \<le> sz B p" using p(2) that by auto
        obtain m st where m: "B p = Some (m, st)" "get_rank m = k" using rep_member [OF F(1) less.prems pk(1)] by metis
        then show ?thesis using F(2) [OF m(1)] pk less.prems by auto
      qed
      then show ?thesis using f by (cases "p = 0") auto
    qed
  qed
qed

end
