(* ===== verification/MM_Advance_Contract.thy ===== *)
theory MM_Advance_Contract
  imports MM_Advance_Ops
begin

section \<open>mm-advance.c keeps the malloc contract\<close>

text \<open>
  The invariant of the allocator says that the live payloads are exactly the used blocks of a heap
  that \<open>hp\<close> describes. Every entry point keeps it; with \<open>memmove\<close> for the copy in \<open>realloc\<close> the
  package is an instance of \<open>malloc_contract\<close>.
\<close>

definition used :: "blocks \<Rightarrow> addr set" where "used B = {p. \<exists>n. B p = Some (n, USED)}"

text \<open>An unused block right behind an unused block; the allocator merges such neighbours at once.\<close>

definition loose :: "blocks \<Rightarrow> addr \<Rightarrow> bool" where
  "loose B a \<longleftrightarrow> (\<exists>q n k. B q = Some (n, UNUSED) \<and> q + n = a \<and> B a = Some (k, UNUSED))"

lemma loose_merged:
  assumes g: "geom lo hi B" and p: "B p = Some (n, st)" "B (p + n) = Some (k, UNUSED)" and a: "loose (merged B p n k) a"
  shows "a = p \<and> st = USED \<or> loose B a \<and> a \<noteq> p + n"
proof -
  from a obtain q m j where q: "merged B p n k q = Some (m, UNUSED)" "q + m = a" "merged B p n k a = Some (j, UNUSED)"
    unfolding loose_def by blast
  have n: "24 \<le> n" "24 \<le> k" using geomD(3) [OF g] p by blast+
  have ap: "a \<noteq> p + n" using q(3) n by (auto simp: merged_def)
  show ?thesis
  proof (cases "q = p")
    case True
    then have "a = p + n + k" "a \<noteq> p" using q n by (auto simp: merged_def)
    then have "B a = Some (j, UNUSED)" using q(3) ap by (simp add: merged_def)
    then show ?thesis using p(2) \<open>a = p + n + k\<close> ap unfolding loose_def by blast
  next
    case False
    then have Bq: "B q = Some (m, UNUSED)" using q(1) by (auto simp: merged_def split: if_splits)
    show ?thesis
    proof (cases "a = p")
      case True
      then show ?thesis using Bq q(2) p(1) ap geomD(6) [OF g p(1)] unfolding loose_def by blast
    next
      case F: False
      then have "B a = Some (j, UNUSED)" using q(3) ap by (simp add: merged_def)
      then show ?thesis using Bq q(2) ap unfolding loose_def by blast
    qed
  qed
qed

lemma loose_carve:
  assumes g: "geom lo hi B" and p: "B p = Some (n, UNUSED)" and k: "0 < k" and a: "loose (carve B p n k) a"
  shows "loose B a \<and> a \<noteq> p"
proof -
  from a obtain q m j where q: "carve B p n k q = Some (m, UNUSED)" "q + m = a" "carve B p n k a = Some (j, UNUSED)"
    unfolding loose_def by blast
  have ap: "a \<noteq> p" "q \<noteq> p" using q k by (auto simp: carve_def split: if_splits)
  show ?thesis
  proof (cases "k + 16 < n \<and> q = p + k")
    case True
    then have "a = p + n" "a \<noteq> p + k" using q(1,2) by (auto simp: carve_def)
    then have "B a = Some (j, UNUSED)" using q(3) ap True by (simp add: carve_def)
    then show ?thesis using p \<open>a = p + n\<close> ap unfolding loose_def by blast
  next
    case False
    then have Bq: "B q = Some (m, UNUSED)" using q(1) ap by (auto simp: carve_def split: if_splits)
    have "\<not> (k + 16 < n \<and> a = p + k)"
    proof
      assume x: "k + 16 < n \<and> a = p + k"
      have "q + m \<le> p \<or> p + n \<le> q" using geom_apart [OF g Bq p] ap(2) by blast
      then show False using x q(2) k geomD(3) [OF g Bq] by linarith
    qed
    then have "B a = Some (j, UNUSED)" using q(3) ap by (auto simp: carve_def split: if_splits)
    then show ?thesis using Bq q(2) ap unfolding loose_def by blast
  qed
qed

definition adv_inv :: "live \<Rightarrow> 'p adv_state_scheme \<Rightarrow> bool" where
  "adv_inv L s \<longleftrightarrow> (\<exists>B. hp {} B s \<and> sub L B \<and> (\<forall>p n. L p = Some n \<longrightarrow> 0 < n) \<and> dom L = used B \<and> (\<forall>a. \<not> loose B a))"

definition adv_cost :: "nat \<Rightarrow> nat" where "adv_cost n = align8 (n + 16)"

lemma adv_cost: "n + 16 \<le> adv_cost n" "8 dvd adv_cost n" "0 < n \<Longrightarrow> 24 \<le> adv_cost n"
proof -
  show a: "n + 16 \<le> adv_cost n" "8 dvd adv_cost n" using align8_bounds [of "n + 16"] by (simp_all add: adv_cost_def)
  show "24 \<le> adv_cost n" if "0 < n" using a that by presburger
qed

lemma adv_align:
  assumes "adv_cost n \<le> MAX_HEAP"
  shows "ALIGN (add64 n META_SIZE) = adv_cost n" "u32 (adv_cost n) = adv_cost n" "u32 n = n"
proof -
  have "n + 16 \<le> MAX_HEAP" using assms adv_cost(1) [of n] by simp
  then have n: "n + 16 + 7 < 2 ^ 31" by (simp add: MAX_HEAP_def)
  then show "ALIGN (add64 n META_SIZE) = adv_cost n"
    by (simp add: adv_cost_def align8_def add64_small ALIGN_small)
  show "u32 (adv_cost n) = adv_cost n" "u32 n = n" using assms n by (simp_all add: u32_small MAX_HEAP_def)
qed

text \<open>Bytes inside payloads may change.\<close>

lemma rep_payload:
  assumes r: "rep X B F s" and t: "t = s\<lparr>bytes := m\<rparr>"
    and out: "\<And>x. (\<And>p n st. B p = Some (n, st) \<Longrightarrow> x < p \<or> p + n \<le> x + 16) \<Longrightarrow> m x = bytes s x"
  shows "rep X B F t"
proof -
  define P where "P = (\<lambda>p. case B p of Some (n, st) \<Rightarrow> Some (n - 16) | None \<Rightarrow> None)"
  have P: "P p = Some k \<longleftrightarrow> (\<exists>n st. B p = Some (n, st) \<and> k = n - 16)" for p k
    by (auto simp: P_def split: option.splits)
  have "sub P B" using rep_block(3) [OF r] unfolding sub_def P by fastforce
  have w: "words t a = words s a" if "meta B (heap s) (mem_brk s) a" for a
  proof -
    note c = meta_ok [OF r that]
    have "m (a + i) = bytes s (a + i)" if i: "i < 4" for i
    proof (rule out)
      fix p n st assume p: "B p = Some (n, st)"
      then have "a + 4 \<le> p \<or> p + (n - 16) \<le> a" using c(3) [OF \<open>sub P B\<close>] unfolding clear_def P by blast
      then show "a + i < p \<or> p + n \<le> a + i + 16" using i rep_block(3) [OF r p] by auto
    qed
    then show ?thesis using load32_cong [of m a "bytes s"] by (simp add: words_def t)
  qed
  have blk: "meta B (heap s) (mem_brk s) (x - 4) \<and> meta B (heap s) (mem_brk s) (x + sz B x - 12)"
    if k: "k < 3" "x \<in> set (F k)" for k x
  proof -
    obtain n st where "B x = Some (n, st)" using rep_member [OF r k] by metis
    then show ?thesis using meta_block [OF r] by simp
  qed
  have "lists (words t) B (heap s) F"
    using repD(5) [OF r] by (rule lists_cong) (use w meta_bucket blk in blast)+
  moreover have "tagged X B (heap s) (mem_brk s) (words t)"
  proof -
    have "words t (p - 8) = words s (p - 8) \<and> words t (p + n - 16) = words s (p + n - 16)" if "B p = Some (n, st)" for p n st
      using w meta_block(1,3) [OF r that] by blast
    moreover have "words t (heap s + 16) = words s (heap s + 16)" "words t (mem_brk s - 8) = words s (mem_brk s - 8)"
      using w by (simp_all add: meta_def)
    ultimately show ?thesis using repD(4) [OF r] unfolding tagged_def by simp
  qed
  moreover have "upd Map.empty s t" using t by (auto simp: upd_def kept_def)
  ultimately show ?thesis
    by (intro rep_upd [OF r _ repD(3) [OF r]]) (use repD(6,7) [OF r] in auto)
qed

lemma adv_inv_bytes:
  assumes i: "adv_inv L s" and t: "t = s\<lparr>bytes := m\<rparr>"
    and out: "\<And>x. (\<And>p n. L p = Some n \<Longrightarrow> x < p \<or> p + n \<le> x) \<Longrightarrow> m x = bytes s x"
  shows "adv_inv L t"
proof -
  obtain B where B: "hp {} B s" "sub L B" "\<forall>p n. L p = Some n \<longrightarrow> 0 < n" "dom L = used B" "\<forall>a. \<not> loose B a"
    using i unfolding adv_inv_def by blast
  have "m x = bytes s x" if o: "\<And>p n st. B p = Some (n, st) \<Longrightarrow> x < p \<or> p + n \<le> x + 16" for x
  proof (rule out)
    fix p n assume "L p = Some n"
    then obtain k st where "B p = Some (k, st)" "n + 16 \<le> k" using subD [OF B(2)] by blast
    then show "x < p \<or> p + n \<le> x" using o [of p k st] by auto
  qed
  moreover obtain F where F: "rep {} B F s" "\<forall>p n st. B p = Some (n, st) \<longrightarrow> (\<exists>r < 3. p \<in> set (F r)) \<longleftrightarrow> st = UNUSED \<and> p \<notin> {}"
    using B(1) unfolding hp_def by blast
  ultimately have "rep {} B F t" using rep_payload [OF F(1) t] by blast
  then have "hp {} B t" using F(2) unfolding hp_def by blast
  then show ?thesis unfolding adv_inv_def using B by blast
qed

lemma adv_inv_live:
  assumes "adv_inv L s"
  shows "mem_ok s" "live_ok L s"
proof -
  obtain B where B: "hp {} B s" "sub L B" "\<forall>p n. L p = Some n \<longrightarrow> 0 < n"
    using assms unfolding adv_inv_def by blast
  then obtain F where r: "rep {} B F s" unfolding hp_def by blast
  show "mem_ok s" by (rule repD(1) [OF r])
  have "0 < n \<and> 8 dvd p \<and> heap s \<le> p \<and> p + n \<le> mem_brk s" if pn: "L p = Some n" for p n
  proof -
    obtain k st where k: "B p = Some (k, st)" "n + 16 \<le> k" using subD [OF B(2) pn] by blast
    show ?thesis using rep_block [OF r k(1)] k(2) B(3) pn by simp
  qed
  moreover have "p + n \<le> q" if pq: "L p = Some n" "L q = Some j" "p < q" for p q n j
  proof -
    obtain k st where k: "B p = Some (k, st)" "n + 16 \<le> k" using subD [OF B(2) pq(1)] by blast
    obtain i t where i: "B q = Some (i, t)" using subD [OF B(2) pq(2)] by blast
    show ?thesis using geom_apart [OF repD(3) [OF r] k(1) i] k(2) pq(3) rep_block(3) [OF r i] by auto
  qed
  ultimately show "live_ok L s" unfolding live_ok_def by blast
qed

lemma adv_write: "adv_inv L s \<Longrightarrow> L p = Some n \<Longrightarrow> i < n \<Longrightarrow> adv_inv L (write_byte (p + i) b s)"
  by (rule adv_inv_bytes [of L s _ "(bytes s)(p + i := b)"]) (force simp: write_byte_def)+

subsection \<open>Growing the heap\<close>

lemma rep_list_init:
  assumes r: "rep X B F s" and L: "sub L B" and p: "B p = Some (n, st)" "p \<notin> X" and off: "\<And>k. k < 3 \<Longrightarrow> p \<notin> set (F k)"
  obtains s' where "adv_list_init p s = Some s'" "rep X B F s'" "upd L s s'"
proof -
  note b = rep_block [OF r p(1)] and g = repD(3) [OF r] and la = link_addresses [OF r p(1)]
  obtain s1 where s1: "SET (p - 4) BDR_OFF s = Some s1" "words s1 = (words s)(p - 4 := 24)" "upd L s s1"
    using rep_SET [OF r meta_block(2) [OF r p(1)] L, of BDR_OFF] by (auto simp: u32_small)
  have "words s1 (p - 8) = n + st" using s1(2) repD(4) [OF r] p la by (auto simp: tagged_def)
  then have "PRE_PTR p s1 = Some (p + n - 12)" using rep_fields_upd(4) [OF r s1(3) p(1)] b(8) by auto
  moreover obtain s2 where s2: "SET (p + n - 12) BDR_OFF s1 = Some s2" "words s2 = (words s1)(p + n - 12 := 24)" "upd L s s2"
    using rep_SET_upd [OF r s1(3) meta_block(4) [OF r p(1)] L, of BDR_OFF] by (auto simp: u32_small)
  ultimately have run: "adv_list_init p s = Some s2"
    using field_ptrs(2) [OF b(5)] b(1) s1(1) by (simp add: adv_list_init_def)
  have w: "words s2 = (words s)(p - 4 := 24, p + n - 12 := 24)" using s1(2) s2(2) by simp
  have pd: "p \<in> dom B" "sz B p = n" using p(1) by auto
  have "lists (words s2) B (heap s) F"
    using repD(5) [OF r]
  proof (rule lists_cong)
    fix k :: nat assume "k < 3"
    then show "words s2 (heap s + 4 * k) = words s (heap s + 4 * k)" using b by (auto simp: w)
    fix x assume x: "x \<in> set (F k)"
    have xd: "x \<in> dom B" "x \<noteq> p" using rankedD(2) [OF repD(6) [OF r] \<open>k < 3\<close> x] off [OF \<open>k < 3\<close>] x by auto
    note lw = link_words(1,2,3) [OF g _ xd(1) pd(1)] link_words(3) [OF g _ pd(1) xd(1)]
    show "sz B x = sz B x \<and> words s2 (x + sz B x - 12) = words s (x + sz B x - 12) \<and> words s2 (x - 4) = words s (x - 4)"
      using lw pd(2) xd(2) by (auto simp: w)
  qed
  moreover have "tagged X B (heap s) (mem_brk s) (words s2)"
    unfolding w by (intro tagged_link [OF tagged_link [OF repD(4) [OF r] g] g]) (use la in auto)
  ultimately have "rep X B F s2"
    by (intro rep_upd [OF r s2(3) g]) (use repD(6,7) [OF r] in auto)
  then show ?thesis using that run s2(3) by blast
qed

lemma hp_extend:
  assumes h: "hp {} B s" and L: "sub L B" and n: "24 \<le> n" "8 dvd n" and fit: "mem_brk s + n \<le> mem_max_addr s"
  obtains s1 s2 s3 where "adv_extend n s = Some (mem_brk s, s1)" "set_tags (mem_brk s) n USED s1 = Some s2"
    "adv_list_init (mem_brk s) s2 = Some s3" "hp {} (B(mem_brk s \<mapsto> (n, USED))) s3"
    "kept L s s3" "same_heap s s3" "mem_brk s3 = mem_brk s + n"
proof -
  obtain F where F: "rep {} B F s" "\<And>p n st. B p = Some (n, st) \<Longrightarrow> (\<exists>r < 3. p \<in> set (F r)) \<longleftrightarrow> st = UNUSED"
    using h unfolding hp_def by auto
  let ?p = "mem_brk s" let ?B = "B(?p \<mapsto> (n, USED))"
  note hh = rep_heap [OF F(1)]
  note g = geom_extend [OF repD(3) [OF F(1)] n, of USED]
  define s0 where "s0 = s\<lparr>mem_brk := ?p + n\<rparr>"
  have n31: "n < 2 ^ 31" using fit hh mem_okD(5) [OF repD(1) [OF F(1)]] by (simp add: MAX_HEAP_def)
  then have sb: "mem_sbrk (s32 n) s = (?p, s0)" using mem_sbrk_int [OF fit] by (simp add: s32_small s0_def)
  have epi: "HDR_PTR (EPI_BDR_PTR s0) = ?p + n - 8"
    using hh n n31 fit field_ptrs(1) [of "?p + n"]
    by (simp add: EPI_BDR_PTR_def s0_def mem_heap_hi_small PTR_INCR_add)
  have m0: "mapped s0 (?p + n - 8) 4" using hh n fit by (auto simp: mapped_def s0_def)
  have d4: "4 dvd ?p + n - 8"
  proof -
    have "?p mod 8 = 0" "n mod 8 = 0" using hh(7) n(2) by auto
    then show ?thesis using n(1) by presburger
  qed
  have cl: "clear L (?p + n - 8)"
    unfolding clear_def
  proof (intro allI impI)
    fix q k assume "L q = Some k"
    then obtain j st where "B q = Some (j, st)" "k + 16 \<le> j" using subD [OF L] by blast
    then show "?p + n - 8 + 4 \<le> q \<or> q + k \<le> ?p + n - 8" using rep_block(2) [OF F(1), of q j st] n(1) by auto
  qed
  obtain s1 where s1: "SET (?p + n - 8) (ZIP 0 BORDER) s0 = Some s1"
    "words s1 = (words s0)(?p + n - 8 := u32 (ZIP 0 BORDER))" "upd L s0 s1"
    by (rule SET_words [OF m0 d4 cl])
  have w: "words s1 = (words s)(?p + n - 8 := BORDER)"
  proof -
    have "words s0 = words s" by (simp add: words_def s0_def fun_eq_iff)
    then show ?thesis using s1(2) tag_fields(1) [of 0 BORDER] by simp
  qed
  have ok0: "mem_ok s0" using repD(1) [OF F(1)] fit unfolding mem_ok_def s0_def by simp
  have low: "q + m \<le> ?p" if "B q = Some (m, st)" for q m st using rep_block(2) [OF F(1) that] .
  have same: "words s1 a = words s a" if "a < ?p" for a using that n(1) by (auto simp: w)
  have "tagged {?p} ?B (heap s) (?p + n) (words s1)"
  proof -
    have "words s1 (q - 8) = m + st \<and> words s1 (q + m - 16) = m + st" if "B q = Some (m, st)" for q m st
    proof -
      have "q - 8 < ?p" "q + m - 16 < ?p" using low [OF that] rep_block(1,3) [OF F(1) that] by linarith+
      then show ?thesis using same repD(4) [OF F(1)] that by (simp add: tagged_def)
    qed
    moreover have "heap s + 16 < ?p" using hh by simp
    then have "words s1 (heap s + 16) = 8 + BORDER" using same repD(4) [OF F(1)] by (simp add: tagged_def)
    moreover have "words s1 (?p + n - 8) = BORDER" by (simp add: w)
    ultimately show ?thesis unfolding tagged_def by auto
  qed
  moreover have "lists (words s1) ?B (heap s) F"
    using repD(5) [OF F(1)]
  proof (rule lists_cong)
    fix k :: nat assume k: "k < 3"
    show "words s1 (heap s + 4 * k) = words s (heap s + 4 * k)" using same hh k by simp
    fix x assume x: "x \<in> set (F k)"
    obtain m st where m: "B x = Some (m, st)" using rep_member [OF F(1) k x] by metis
    have "x - 4 < ?p" "x + m - 12 < ?p" "x \<noteq> ?p" using low [OF m] rep_block(1,3) [OF F(1) m] by linarith+
    then show "sz ?B x = sz B x \<and> words s1 (x + sz B x - 12) = words s (x + sz B x - 12) \<and> words s1 (x - 4) = words s (x - 4)"
      using same m by (simp add: sz_def)
  qed
  moreover have "ranked ?B F"
    using repD(6) [OF F(1)] g(2) unfolding ranked_def by (fastforce simp: sz_def)
  moreover have off: "?p \<notin> set (F k)" if "k < 3" for k using rankedD(2) [OF repD(6) [OF F(1)] that] g(2) by blast
  ultimately have r1: "rep {?p} ?B F s1"
    using upd_fields [OF s1(3)] ok0 repD(2) [OF F(1)] g(1) unfolding rep_def by (auto simp: s0_def)
  have L': "sub L ?B"
    unfolding sub_def
  proof (intro allI impI)
    fix q k assume "L q = Some k"
    then obtain j st where j: "B q = Some (j, st)" "k + 16 \<le> j" using subD [OF L] by blast
    then have "q \<noteq> ?p" using g(2) by auto
    then show "\<exists>j st. ?B q = Some (j, st) \<and> k + 16 \<le> j" using j by simp
  qed
  have pB: "?B ?p = Some (n, USED)" by simp
  obtain s2 where s2: "set_tags ?p n USED s1 = Some s2" "rep {} ?B F s2" "upd L s1 s2"
    using rep_set_tags_same [OF r1 L' pB] by blast
  obtain s3 where s3: "adv_list_init ?p s2 = Some s3" "rep {} ?B F s3" "upd L s2 s3"
    by (rule rep_list_init [OF s2(2) L' pB _ off]) simp_all
  have "(\<exists>r < 3. q \<in> set (F r)) \<longleftrightarrow> st = UNUSED \<and> q \<notin> {}" if "?B q = Some (m, st)" for q m st
    using F(2) [of q m st] off that by (cases "q = ?p") auto
  then have "hp {} ?B s3" unfolding hp_def using s3(2) by blast
  moreover have u: "upd L s0 s3" using upd_trans [OF upd_trans [OF s1(3) s2(3)] s3(3)] .
  then have "kept L s s3" using upd_fields(7) [OF u] by (simp add: kept_def s0_def)
  moreover have "same_heap s s3" "mem_brk s3 = ?p + n" using upd_fields [OF u] by (simp_all add: same_heap_def s0_def)
  moreover have "adv_extend n s = Some (?p, s1)"
    using hh s1(1) by (simp add: adv_extend_def sb epi)
  ultimately show ?thesis using that s2(1) s3(1) by blast
qed

subsection \<open>malloc\<close>

lemma used_carve: "B p = Some (n, st) \<Longrightarrow> p + k \<notin> dom B \<or> n \<le> k + 16 \<Longrightarrow> 0 < k \<Longrightarrow> used (carve B p n k) = insert p (used B)"
  by (auto simp: used_def carve_def)

lemma carve_at: "k \<le> n \<Longrightarrow> 0 < k \<Longrightarrow> \<exists>m. carve B p n k p = Some (m, USED) \<and> k \<le> m"
  by (simp add: carve_def)

lemma sub_carved:
  assumes "sub L (B(p \<mapsto> (k, USED)))" "B p = Some (n, st)" "k \<le> n" "geom lo hi B" "8 dvd k" "24 \<le> k"
  shows "sub L (carve B p n k)" "used (carve B p n k) = insert p (used B)"
proof -
  have new: "p + k \<notin> dom B" if "k + 16 < n"
  proof -
    have "n mod 8 = 0" "k mod 8 = 0" using geomD(4) [OF assms(4,2)] assms(5) by auto
    then have "k + 24 \<le> n" using that by presburger
    then show ?thesis using geom_split(2) [OF assms(4,2,6,5), of USED USED] by simp
  qed
  show "sub L (carve B p n k)"
  proof (cases "k + 16 < n")
    case True
    show ?thesis using sub_carve(1) [OF assms(1-3) new [OF True]] True by (simp add: carve_def)
  next
    case False
    have "\<exists>j t. (B(p \<mapsto> (n, USED))) q = Some (j, t) \<and> m + 16 \<le> j" if q: "L q = Some m" for q m
      using subD [OF assms(1) q] assms(3) by (cases "q = p") auto
    then show ?thesis using False unfolding sub_def carve_def by simp
  qed
  show "used (carve B p n k) = insert p (used B)"
    using used_carve [of B p n st k] assms(2) new assms(6) by (cases "k + 16 < n") auto
qed

lemma adv_malloc_inv:
  assumes i: "adv_inv L s" and n: "0 < n" and fit: "mem_brk s + adv_cost n \<le> mem_max_addr s"
  shows "\<exists>q s'. adv_malloc n s = Some (q, s') \<and> q \<noteq> 0 \<and> q \<notin> dom L \<and> adv_inv (L(q \<mapsto> n)) s' \<and> kept L s s' \<and>
    same_heap s s' \<and> mem_brk s' \<le> mem_brk s + adv_cost n"
proof -
  obtain B where B: "hp {} B s" "sub L B" "\<forall>p n. L p = Some n \<longrightarrow> 0 < n" "dom L = used B" "\<forall>a. \<not> loose B a"
    using i unfolding adv_inv_def by blast
  obtain F where r: "rep {} B F s" using hp_rep [OF B(1)] by blast
  note hh = rep_heap [OF r]
  let ?k = "adv_cost n"
  note k = adv_cost [of n]
  have kM: "?k \<le> MAX_HEAP" using fit hh mem_okD(5) [OF repD(1) [OF r]] by simp
  note al = adv_align [OF kM]
  have run: "adv_malloc n s = do {
      (p, rank) \<leftarrow> find_ranks ?k (get_rank ?k) s;
      (p, s) \<leftarrow>
        (if p = 0
         then do {
           (p, s) \<leftarrow> adv_extend ?k s;
           if p = 0 then Some (0, s)
           else do { s \<leftarrow> set_tags p ?k USED s; s \<leftarrow> adv_list_init p s; _ \<leftarrow> assert_stat p USED s; Some (p, s) } }
         else do {
           s \<leftarrow> adv_list_remove p rank s;
           s \<leftarrow> place p ?k True s;
           _ \<leftarrow> assert_stat p USED s;
           Some (p, s) });
      Some (p, s) }"
    using n unfolding adv_malloc_def Let_def al by simp
  obtain p rank where find: "find_ranks ?k (get_rank ?k) s = Some (p, rank)"
    "p = 0 \<or> (\<exists>m. B p = Some (m, UNUSED) \<and> p \<notin> {} \<and> ?k \<le> m \<and> rank = get_rank m)"
    using find_ranks_spec [OF B(1) get_rank_less] by blast
  show ?thesis
  proof (cases "p = 0")
    case False
    then obtain m where m: "B p = Some (m, UNUSED)" "?k \<le> m" "rank = get_rank m" using find(2) by blast
    have new: "p \<notin> dom L" using B(4) m(1) by (simp add: used_def)
    have kn: "n + 16 \<le> ?k" by (rule k(1))
    have sub': "sub (L(p \<mapsto> n)) (B(p \<mapsto> (?k, USED)))" "sub L (B(p \<mapsto> (?k, USED)))"
      using B(2) new kn unfolding sub_def by auto
    obtain s1 where s1: "adv_list_remove p rank s = Some s1" "hp {p} B s1" "upd L s s1"
      using hp_remove [OF B(1,2) m(1)] m(3) by auto
    obtain s2 where s2: "place p ?k True s1 = Some s2" "hp {} (carve B p m ?k) s2" "upd L s1 s2"
      using hp_place [OF s1(2) m(1) k(2) k(3) [OF n] m(2) sub'(2)] by blast
    note c = sub_carved [OF sub'(1) m(1,2) repD(3) [OF r] k(2) k(3) [OF n]]
    obtain j where "carve B p m ?k p = Some (j, USED)" using carve_at [OF m(2)] k(3) [OF n] by (metis less_le_trans zero_less_numeral)
    then have "assert_stat p USED s2 = Some ()" using hp_fields(4) [OF s2(2)] by blast
    then have res: "adv_malloc n s = Some (p, s2)" unfolding run find(1) using False s1(1) s2(1) by simp
    have "dom (L(p \<mapsto> n)) = used (carve B p m ?k)" using c(2) B(4) by simp
    moreover have "\<forall>a. \<not> loose (carve B p m ?k) a"
      using loose_carve [OF repD(3) [OF r] m(1) less_le_trans [OF _ k(3) [OF n]]] B(5) by (meson zero_less_numeral)
    ultimately have "adv_inv (L(p \<mapsto> n)) s2" unfolding adv_inv_def using s2(2) c(1) B(3) n by auto
    then show ?thesis
      using res False new upd_fields [OF upd_trans [OF s1(3) s2(3)]] by auto
  next
    case True
    let ?p = "mem_brk s"
    obtain s1 s2 s3 where s: "adv_extend ?k s = Some (?p, s1)" "set_tags ?p ?k USED s1 = Some s2" "adv_list_init ?p s2 = Some s3"
      "hp {} (B(?p \<mapsto> (?k, USED))) s3" "kept L s s3" "same_heap s s3" "mem_brk s3 = ?p + ?k"
      using hp_extend [OF B(1,2) k(3) [OF n] k(2) fit] by blast
    have new: "?p \<notin> dom B" using geom_extend(2) [OF repD(3) [OF r] k(3) [OF n] k(2), of USED] by simp
    then have newL: "?p \<notin> dom L" using B(4) by (auto simp: used_def)
    have "assert_stat ?p USED s3 = Some ()" using hp_fields(4) [OF s(4)] by simp
    then have res: "adv_malloc n s = Some (?p, s3)" unfolding run find(1) using True s(1-3) hh by simp
    have "sub (L(?p \<mapsto> n)) (B(?p \<mapsto> (?k, USED)))" using B(2) newL k(1) unfolding sub_def by auto
    moreover have "dom (L(?p \<mapsto> n)) = used (B(?p \<mapsto> (?k, USED)))" using B(4) new by (auto simp: used_def)
    moreover have "loose B a" if "loose (B(?p \<mapsto> (?k, USED))) a" for a
      using that unfolding loose_def by (auto split: if_splits)
    then have "\<forall>a. \<not> loose (B(?p \<mapsto> (?k, USED))) a" using B(5) by blast
    ultimately have "adv_inv (L(?p \<mapsto> n)) s3" unfolding adv_inv_def using s(4) B(3) n by auto
    then show ?thesis using res newL s(5-7) hh by auto
  qed
qed

subsection \<open>free\<close>

lemma hp_prev:
  assumes h: "hp Y B s" and p: "B p = Some (n, st)"
  obtains (first) "HEAP_PREV p s = Some (heap s + 24)" "STAT (heap s + 24) s = Some BORDER" "p = heap s + 32"
  | (block) q m t where "HEAP_PREV p s = Some q" "B q = Some (m, t)" "q + m = p"
proof -
  obtain F where r: "rep {} B F s" using hp_rep [OF h] by blast
  note b = rep_block [OF r p] and hh = rep_heap [OF r]
  have read: "HEAP_PREV p s = Some (p - m)"
    if w: "GET (p - 16) s = Some (m + t)" and m: "8 dvd m" "0 < m" "m < 2 ^ 31" "m \<le> p" "t < 8" for m t
    using w field_ptrs(3) [OF b(5)] field_ptrs(6) [OF b(5) m(2,3,4)] tag_fields(2) [OF m(1,3,5)] b(1) by (simp add: HEAP_PREV_def)
  show ?thesis
  proof (cases "p = heap s + 32")
    case True
    then have "p - 16 = heap s + 16" by simp
    then have "GET (p - 16) s = Some (8 + BORDER)"
      using rep_GET [OF r, of "heap s + 16"] repD(4) [OF r] by (simp add: meta_def tagged_def)
    from read [OF this] True show ?thesis using first rep_borders(1) [OF r] by simp
  next
    case False
    then obtain q m t where q: "B q = Some (m, t)" "q + m = p" using geom_prev [OF repD(3) [OF r]] p by blast
    note c = rep_block [OF r q(1)]
    have "p - 16 = q + m - 16" using q(2) by simp
    then have "GET (p - 16) s = Some (m + t)"
      using rep_GET [OF r meta_block(3) [OF r q(1)]] repD(4) [OF r] q(1) by (simp add: tagged_def)
    from read [OF this c(7) _ c(4)] c q(2) have "HEAP_PREV p s = Some q" by auto
    then show ?thesis using block q by blast
  qed
qed

lemma hp_next:
  assumes h: "hp Y B s" and p: "B p = Some (n, st)"
  obtains (last) "p + n = mem_brk s" "STAT (p + n) s = Some BORDER" "SIZE (p + n) s = Some 0"
  | (block) k t where "B (p + n) = Some (k, t)"
proof -
  obtain F where r: "rep {} B F s" using hp_rep [OF h] by blast
  show ?thesis using geomD(7) [OF repD(3) [OF r] p] last block rep_borders(3,4) [OF r] by auto
qed

text \<open>A block has one predecessor.\<close>

lemma prev_unique:
  assumes h: "hp Y B s" and q: "B q' = Some (i, u)" "q' + i = p" "B q = Some (j, t)" "q + j = p"
  shows "q' = q"
proof (rule ccontr)
  assume "q' \<noteq> q"
  from geom_apart [OF hp_fields(5) [OF h q(1)] q(1,3) this] show False
    using q(2,4) hp_fields(7) [OF h q(1)] hp_fields(7) [OF h q(3)] by linarith
qed

lemma used_status: "used (B(p \<mapsto> (n, UNUSED))) = used B - {p}"
  by (auto simp: used_def)

lemma used_merged: "B (p + n) = Some (k, UNUSED) \<Longrightarrow> used (merged B p n k) = used B - {p}"
  by (auto simp: used_def merged_def)

lemma adv_free_inv:
  assumes i: "adv_inv L s" and p: "L p = Some n"
  shows "\<exists>s'. adv_free p s = Some s' \<and> adv_inv (L(p := None)) s' \<and> kept (L(p := None)) s s' \<and>
    same_heap s s' \<and> mem_brk s' = mem_brk s"
proof -
  obtain B where B: "hp {} B s" "sub L B" "\<forall>p n. L p = Some n \<longrightarrow> 0 < n" "dom L = used B" "\<forall>a. \<not> loose B a"
    using i unfolding adv_inv_def by blast
  have "p \<in> used B" using B(4) p by auto
  then obtain m where m: "B p = Some (m, USED)" by (auto simp: used_def)
  let ?L = "L(p := None)"
  have L: "sub ?L B" using B(2) by (simp add: sub_def)
  note f = hp_fields [OF B(1) m]
  define B2 where "B2 = B(p \<mapsto> (m, UNUSED))"
  obtain s1 s2 where s2: "adv_list_push p (get_rank m) s = Some s1" "set_tags p m UNUSED s1 = Some s2"
    "hp {} B2 s2" "upd ?L s s2"
    using hp_push_tag [OF B(1) L m] unfolding B2_def by blast
  have p2: "B2 p = Some (m, UNUSED)" by (simp add: B2_def)
  have L2: "sub ?L B2" unfolding B2_def by (rule sub_status [OF L m])
  have d2: "dom ?L = used B2" using B(4) by (simp add: B2_def used_status)
  have l2: "a = p \<or> a = p + m" if "loose B2 a" for a
    using that B(5) unfolding loose_def B2_def by (auto split: if_splits)
  note f2 = hp_fields [OF s2(3) p2]
  obtain prv where prv: "HEAP_PREV p s2 = Some prv"
    "(prv = heap s + 24 \<and> STAT prv s2 = Some BORDER \<and> p = heap s + 32) \<or> (\<exists>j t. B2 prv = Some (j, t) \<and> prv + j = p)"
    using upd_fields(1) [OF s2(4)] by (rule_tac hp_prev [OF s2(3) p2]) metis+
  obtain st where st: "STAT (p + m) s2 = Some st" "st = UNUSED \<longleftrightarrow> (\<exists>k. B2 (p + m) = Some (k, UNUSED))"
  proof (rule hp_next [OF s2(3) p2])
    assume a: "p + m = mem_brk s2" "STAT (p + m) s2 = Some BORDER"
    have "p + m \<notin> dom B2" using geomD(3,5) [OF f2(5)] a(1) by fastforce
    then show thesis using a that [of BORDER] by auto
  next
    fix k t assume k: "B2 (p + m) = Some (k, t)"
    show thesis using that [of t] hp_fields(2) [OF s2(3) k] k by auto
  qed
  obtain B3 s3 k where s3: "(if st = UNUSED then coalesce p (p + m) True s2 else Some s2) = Some s3"
    "hp {} B3 s3" "upd ?L s s3" "sub ?L B3" "dom ?L = used B3" "B3 p = Some (k, UNUSED)"
    "\<And>q. q < p \<Longrightarrow> B3 q = B2 q" "\<And>a. loose B3 a \<Longrightarrow> a = p"
  proof (cases "st = UNUSED")
    case False
    have "\<not> loose B2 (p + m)" using False st(2) unfolding loose_def by auto
    then have "a = p" if "loose B2 a" for a using l2 [OF that] that by blast
    then show ?thesis by (intro that [of s2 B2 m]) (use False s2 L2 d2 p2 in auto)
  next
    case True
    then obtain k where k: "B2 (p + m) = Some (k, UNUSED)" using st(2) by blast
    have nl: "p + m \<notin> dom ?L" unfolding d2 using k by (simp add: used_def)
    obtain s3 where "coalesce p (p + m) True s2 = Some s3" "hp {} (merged B2 p m k) s3" "upd ?L s2 s3"
      using hp_coalesce [OF s2(3) p2 k L2 nl] by blast
    moreover have "used B2 - {p} = used B2" using p2 by (auto simp: used_def)
    moreover have "a = p" if "loose (merged B2 p m k) a" for a
      using loose_merged [OF f2(5) p2 k that] l2 by auto
    ultimately show ?thesis
      using that [of s3 "merged B2 p m k" "m + k"] True upd_trans [OF s2(4)] sub_merged [OF L2 p2 nl] used_merged [of B2 p m k] k d2
      by (auto simp: merged_def)
  qed
  obtain B4 s4 st' where s4: "STAT prv s3 = Some st'" "(if st' = UNUSED then coalesce prv p True s3 else Some s3) = Some s4"
    "hp {} B4 s4" "upd ?L s s4" "sub ?L B4" "dom ?L = used B4" "\<forall>a. \<not> loose B4 a"
  proof (cases "\<exists>j. B2 prv = Some (j, UNUSED) \<and> prv + j = p")
    case False
    obtain st' where "STAT prv s3 = Some st'" "st' \<noteq> UNUSED"
      using prv(2)
    proof (elim disjE exE conjE)
      assume a: "prv = heap s + 24" "STAT prv s2 = Some BORDER"
      obtain F where r: "rep {} B3 F s3" using hp_rep [OF s3(2)] by blast
      have "STAT prv s3 = Some BORDER" using rep_borders(1) [OF r] a(1) upd_fields(1) [OF s3(3)] by simp
      then show thesis using that by simp
    next
      fix j t assume q: "B2 prv = Some (j, t)" "prv + j = p"
      then have "prv < p" using hp_fields(7) [OF s2(3) q(1)] by simp
      then have "B3 prv = Some (j, t)" using s3(7) q(1) by simp
      moreover have "t \<noteq> UNUSED" using False q by blast
      ultimately show thesis using that hp_fields(2) [OF s3(2)] by blast
    qed
    moreover have "\<not> loose B3 p"
    proof
      assume "loose B3 p"
      then obtain q j where q: "B3 q = Some (j, UNUSED)" "q + j = p" unfolding loose_def by blast
      then have qp: "q < p" using hp_fields(7) [OF s3(2) q(1)] by simp
      then have q2: "B2 q = Some (j, UNUSED)" using s3(7) q(1) by simp
      from prv(2) show False
      proof (elim disjE exE conjE)
        assume "p = heap s + 32"
        then show False using hp_fields(7,9) [OF s2(3) q2] q(2) upd_fields(1) [OF s2(4)] by simp
      next
        fix i t assume x: "B2 prv = Some (i, t)" "prv + i = p"
        then show False using prev_unique [OF s2(3) x q2 q(2)] False q2 q(2) by auto
      qed
    qed
    then have "\<forall>a. \<not> loose B3 a" using s3(8) by blast
    ultimately show ?thesis using that [of st' s3 B3] s3 by simp
  next
    case True
    then obtain j where j: "B2 prv = Some (j, UNUSED)" "prv + j = p" by blast
    then have "prv < p" using hp_fields(7) [OF s2(3) j(1)] by simp
    then have j3: "B3 prv = Some (j, UNUSED)" using s3(7) j(1) by simp
    have pj: "B3 (prv + j) = Some (k, UNUSED)" using s3(6) j(2) by simp
    have nl: "prv + j \<notin> dom ?L" using j(2) by simp
    obtain s4 where c4: "coalesce prv (prv + j) True s3 = Some s4" "hp {} (merged B3 prv j k) s4" "upd ?L s3 s4"
      using hp_coalesce [OF s3(2) j3 pj s3(4) nl] by blast
    have "\<forall>a. \<not> loose (merged B3 prv j k) a"
      using loose_merged [OF hp_fields(5) [OF s3(2) j3] j3 pj] s3(8) j(2) by auto
    moreover have "used B3 - {prv} = used B3" using j3 by (auto simp: used_def)
    then have "dom ?L = used (merged B3 prv j k)" using used_merged [of B3 prv j k] pj s3(5) by simp
    ultimately show ?thesis
      using that [of UNUSED s4 "merged B3 prv j k"] c4 hp_fields(2) [OF s3(2) j3] upd_trans [OF s3(3) c4(3)]
        sub_merged [OF s3(4) j3 nl] j(2) by simp
  qed
  have pne: "p \<noteq> 0" using f(9) by simp
  have res: "adv_free p s = Some s4"
    using pne f(1,2) s2(1,2) f2(3,4) prv(1) st(1) s3(1) s4(1,2) by (simp only: adv_free_def if_not_P Option.bind.simps simp_thms if_False)
  have "adv_inv ?L s4" unfolding adv_inv_def using s4(3,5,6,7) B(3) by auto
  then show ?thesis using res upd_fields [OF s4(4)] by auto
qed

subsection \<open>realloc\<close>

lemma adv_realloc_inv:
  assumes i: "adv_inv L s" and p: "L p = Some n" and k: "0 < k" and fit: "mem_brk s + adv_cost k \<le> mem_max_addr s"
  shows "\<exists>q s'. adv_realloc memmove p k s = Some (q, s') \<and> q \<noteq> 0 \<and> q \<notin> dom (L(p := None)) \<and>
    adv_inv (L(p := None, q \<mapsto> k)) s' \<and> kept (L(p := None)) s s' \<and>
    (\<forall>i < min n k. bytes s' (q + i) = bytes s (p + i)) \<and> same_heap s s' \<and> mem_brk s' \<le> mem_brk s + adv_cost k"
proof -
  obtain B where B: "hp {} B s" "sub L B" "\<forall>p n. L p = Some n \<longrightarrow> 0 < n" "dom L = used B" "\<forall>a. \<not> loose B a"
    using i unfolding adv_inv_def by blast
  have "p \<in> used B" using B(4) p by auto
  then obtain m where m: "B p = Some (m, USED)" by (auto simp: used_def)
  obtain F where r: "rep {} B F s" using hp_rep [OF B(1)] by blast
  note hh = rep_heap [OF r] and f = hp_fields [OF B(1) m]
  let ?k = "adv_cost k" let ?L = "L(p := None, p \<mapsto> k)"
  have kM: "?k \<le> MAX_HEAP" using fit hh mem_okD(5) [OF repD(1) [OF r]] by simp
  note al = adv_align [OF kM] and kc = adv_cost [of k]
  have p0: "p \<noteq> 0" "k \<noteq> 0" using f(9) k by simp_all
  have nm: "n + 16 \<le> m" using subD [OF B(2) p] m by auto
  obtain st nexsize where nx: "STAT (p + m) s = Some st" "SIZE (p + m) s = Some nexsize"
    "(\<exists>t. B (p + m) = Some (nexsize, t) \<and> st = t) \<or> st = BORDER"
    by (rule hp_next [OF B(1) m]) (use hp_fields(1,2) [OF B(1)] in blast)+
  have run: "adv_realloc memmove p k s =
    (if ?k \<le> m then Some (p, s)
     else if st = UNUSED \<and> ?k \<le> add32 m nexsize
     then do { s \<leftarrow> adv_list_remove (p + m) (get_rank nexsize) s; s \<leftarrow> coalesce p (p + m) False s;
               s \<leftarrow> place p ?k False s; Some (p, s) }
     else do { (newptr, s) \<leftarrow> adv_malloc k s; s \<leftarrow> memmove newptr p k s; s \<leftarrow> adv_free p s; Some (newptr, s) })"
    using p0 nx(1,2) unfolding adv_realloc_def Let_def al f(1,3) by simp
  have keep: ?thesis
    if a: "adv_realloc memmove p k s = Some (p, s')" "hp {} B' s'" "sub ?L B'" "used B' = used B" "upd L s s'" "\<forall>a. \<not> loose B' a" for B' s'
  proof -
    have "dom ?L = used B'" using a(4) B(4) p by auto
    then have "adv_inv ?L s'" unfolding adv_inv_def using a(2,3,6) B(3) k by auto
    moreover have "kept (L(p := None)) s s'" using upd_fields(7) [OF a(5)] by (auto simp: kept_def)
    moreover have "\<forall>i < min n k. bytes s' (p + i) = bytes s (p + i)" using keptD [OF upd_fields(7) [OF a(5)] p] by simp
    ultimately show ?thesis using a(1) p0 upd_fields [OF a(5)] by auto
  qed
  consider (enough) "?k \<le> m" | (next_free) "\<not> ?k \<le> m" "st = UNUSED" "?k \<le> add32 m nexsize"
    | (move) "\<not> ?k \<le> m" "\<not> (st = UNUSED \<and> ?k \<le> add32 m nexsize)" by blast
  then show ?thesis
  proof cases
    case enough
    have "sub ?L B" using B(2) m enough kc(1) unfolding sub_def by auto
    then show ?thesis using keep [of s B] B(1,5) run enough by simp
  next
    case next_free
    have q: "B (p + m) = Some (nexsize, UNUSED)" using nx(3) next_free(2) by auto
    note g = hp_fields [OF B(1) q]
    have big: "?k \<le> m + nexsize" using next_free(3) f(8) g(8) by (simp add: add32_small)
    have nl: "p + m \<notin> dom L" unfolding B(4) using q by (simp add: used_def)
    obtain s1 where s1: "adv_list_remove (p + m) (get_rank nexsize) s = Some s1" "hp {p + m} B s1" "upd L s s1"
      using hp_remove [OF B(1,2) q] by auto
    have "hp ({p + m} \<union> {p}) B s1" by (rule hp_used [OF s1(2)]) (use m in simp)
    then have h1: "hp {p, p + m} B s1" by (simp add: insert_commute)
    obtain s2 where s2: "coalesce p (p + m) False s1 = Some s2" "hp {} (merged B p m nexsize) s2" "upd L s1 s2"
      using hp_coalesce_off [OF h1 m q B(2) nl] by blast
    let ?B = "merged B p m nexsize"
    have pB: "?B p = Some (m + nexsize, UNUSED)" by (simp add: merged_def)
    have kb: "n + 16 \<le> ?k" using nm next_free(1) by simp
    have sm: "sub L ?B" by (rule sub_merged [OF B(2) m nl])
    have s': "sub L (?B(p \<mapsto> (?k, USED)))" "sub ?L (?B(p \<mapsto> (?k, USED)))"
      using sm p kb kc(1) unfolding sub_def by auto
    obtain s3 where s3: "place p ?k False s2 = Some s3" "hp {} (carve ?B p (m + nexsize) ?k) s3" "upd L s2 s3"
      using hp_place_listed [OF s2(2) pB kc(2) kc(3) [OF k] big s'(1)] by blast
    note c = sub_carved [OF s'(2) pB big hp_fields(5) [OF s2(2) pB] kc(2) kc(3) [OF k]]
    have "used ?B = used B - {p}" using used_merged [of B p m nexsize] q by simp
    then have "used (carve ?B p (m + nexsize) ?k) = used B" unfolding c(2) using m by (auto simp: used_def)
    moreover have "adv_realloc memmove p k s = Some (p, s3)"
      unfolding run using next_free s1(1) s2(1) s3(1) by simp
    moreover have "\<forall>a. \<not> loose (carve ?B p (m + nexsize) ?k) a"
    proof (intro allI notI)
      fix a assume "loose (carve ?B p (m + nexsize) ?k) a"
      then have "loose ?B a" "a \<noteq> p" 
        using loose_carve [OF hp_fields(5) [OF s2(2) pB] pB less_le_trans [OF _ kc(3) [OF k]]] by simp_all
      then show False using loose_merged [OF f(5) m q] B(5) by blast
    qed
    ultimately show ?thesis using keep s3(2) c(1) upd_trans [OF upd_trans [OF s1(3) s2(3)] s3(3)] by blast
  next
    case move
    obtain q s1 where s1: "adv_malloc k s = Some (q, s1)" "q \<noteq> 0" "q \<notin> dom L" "adv_inv (L(q \<mapsto> k)) s1" "kept L s s1"
      "same_heap s s1" "mem_brk s1 \<le> mem_brk s + ?k"
      using adv_malloc_inv [OF i k fit] by blast
    note lv = adv_inv_live [OF s1(4)]
    have qp: "q \<noteq> p" using s1(3) p by auto
    have q: "heap s \<le> q" "q + k \<le> mem_max_addr s"
      using live_okD [OF lv(2), of q k] mem_okD(4) [OF lv(1)] s1(6) by (simp_all add: same_heap_def)
    have "p + k \<le> mem_max_addr s" using f(9,10) fit kc(1) by simp
    then have "mapped s1 q k" "mapped s1 p k" using q f(9) s1(6) by (simp_all add: mapped_def same_heap_def)
    define s2 where "s2 = s1\<lparr>bytes := copy_bytes q p k (bytes s1)\<rparr>"
    then have mv: "memmove q p k s1 = Some s2" using \<open>mapped s1 q k\<close> \<open>mapped s1 p k\<close> by (simp add: memmove_def)
    have out: "bytes s2 x = bytes s1 x" if "x < q \<or> q + k \<le> x" for x using that by (auto simp: s2_def copy_bytes_at)
    have in_q: "bytes s2 (q + j) = bytes s1 (p + j)" if "j < k" for j using that by (simp add: s2_def copy_bytes_at)
    have i2: "adv_inv (L(q \<mapsto> k)) s2"
    proof (rule adv_inv_bytes [OF s1(4)])
      show "s2 = s1\<lparr>bytes := copy_bytes q p k (bytes s1)\<rparr>" by (simp add: s2_def)
      fix x assume o: "\<And>y n. (L(q \<mapsto> k)) y = Some n \<Longrightarrow> x < y \<or> y + n \<le> x"
      have "x < q \<or> q + k \<le> x" using o [of q k] by simp
      then show "copy_bytes q p k (bytes s1) x = bytes s1 x" by (auto simp: copy_bytes_at)
    qed
    have k2: "kept L s1 s2"
      unfolding kept_def
    proof (intro allI impI)
      fix x a j assume x: "L x = Some a \<and> j < a"
      then have xq: "x \<noteq> q" using s1(3) by auto
      then have "x + a \<le> q \<or> q + k \<le> x" using live_ok_disjoint [OF lv(2), of x a q k] x by auto
      then show "bytes s2 (x + j) = bytes s1 (x + j)" using out x by auto
    qed
    obtain s3 where s3: "adv_free p s2 = Some s3" "adv_inv ((L(q \<mapsto> k))(p := None)) s3" "kept ((L(q \<mapsto> k))(p := None)) s2 s3"
      "same_heap s2 s3" "mem_brk s3 = mem_brk s2"
      using adv_free_inv [OF i2, of p n] qp p by auto
    have e: "(L(q \<mapsto> k))(p := None) = L(p := None, q \<mapsto> k)" using qp by (auto simp: fun_eq_iff)
    have "bytes s3 (q + j) = bytes s (p + j)" if "j < min n k" for j
      using keptD [OF s3(3), of q k j] in_q keptD [OF s1(5) p] qp that by simp
    moreover have "kept (L(p := None)) s s3"
    proof -
      have "kept (L(p := None)) s s2" using kept_trans [OF s1(5) k2] by (auto simp: kept_def)
      moreover have "kept (L(p := None)) s2 s3"
        using s3(3) s1(3) unfolding kept_def e by (metis domIff fun_upd_apply option.distinct(1))
      ultimately show ?thesis by (rule kept_trans)
    qed
    moreover have "adv_realloc memmove p k s = Some (q, s3)" 
      unfolding run if_not_P [OF move(1)] if_not_P [OF move(2)] using s1(1) mv s3(1) by simp
    moreover have "same_heap s s3" "mem_brk s3 \<le> mem_brk s + ?k"
      using s1(6,7) s3(4,5) by (simp_all add: same_heap_def s2_def)
    ultimately show ?thesis using s1(2,3) s3(2) unfolding e by auto
  qed
qed

subsection \<open>The start of a trace and the check\<close>

lemma adv_init_inv:
  assumes ok: "mem_ok s" and e: "mem_brk s = heap s"
  shows "\<exists>s'. adv_init s = Some (0, s') \<and> adv_inv Map.empty s' \<and> same_heap s s' \<and> mem_brk s' \<le> heap s + 32"
proof -
  note k = mem_okD [OF ok]
  let ?hb = "heap s"
  define s0 where "s0 = s\<lparr>mem_brk := ?hb + 32, heap_base := ?hb\<rparr>"
  have sb: "mem_sbrk (s32 32) s = (?hb, s\<lparr>mem_brk := ?hb + 32\<rparr>)"
    using mem_sbrk_int [of s 32] k e by (simp add: s32_small MAX_HEAP_def)
  have set: "\<exists>t'. SET (?hb + i) v t = Some t' \<and> words t' = (words t)(?hb + i := u32 v) \<and> upd Map.empty s0 t'"
    if u: "upd Map.empty s0 t" and i: "i \<le> 24" "4 dvd i" for i v t
  proof -
    have "mapped t (?hb + i) 4" using k(5) upd_fields [OF u] i(1) by (simp add: mapped_def s0_def MAX_HEAP_def)
    moreover have "4 dvd ?hb + i" using k(2) i(2) by presburger
    moreover have "clear Map.empty (?hb + i)" by (simp add: clear_def)
    ultimately obtain t' where "SET (?hb + i) v t = Some t'" "words t' = (words t)(?hb + i := u32 v)" "upd Map.empty t t'"
      by (rule SET_words)
    then show ?thesis using upd_trans [OF u] by blast
  qed
  have bk: "BUCK i t = ?hb + 4 * i" if "upd Map.empty s0 t" "i < 3" for i t
    using upd_fields(4) [OF that(1)] k that(2) by (simp add: BUCK_def WORD_SIZE_def s0_def PTR_INCR_add mult.commute)
  have b24: "u32 24 = 24" "u32 (ZIP 8 BORDER) = 8 + BORDER" "u32 (ZIP 0 BORDER) = BORDER"
    using tag_fields(1) [of 8 BORDER] tag_fields(1) [of 0 BORDER] by (simp_all add: u32_small)
  obtain s1 where s1: "SET (?hb + 0) 24 s0 = Some s1" "words s1 = (words s0)(?hb + 0 := 24)" "upd Map.empty s0 s1"
    using set [of s0 0 24] b24 by auto
  obtain s2 where s2: "SET (?hb + 4) 24 s1 = Some s2" "words s2 = (words s1)(?hb + 4 := 24)" "upd Map.empty s0 s2"
    using set [OF s1(3), of 4 24] b24 by auto
  obtain s3 where s3: "SET (?hb + 8) 24 s2 = Some s3" "words s3 = (words s2)(?hb + 8 := 24)" "upd Map.empty s0 s3"
    using set [OF s2(3), of 8 24] b24 by auto
  obtain s4 where s4: "SET (?hb + 16) (ZIP 8 BORDER) s3 = Some s4" "words s4 = (words s3)(?hb + 16 := 8 + BORDER)" "upd Map.empty s0 s4"
    using set [OF s3(3), of 16 "ZIP 8 BORDER"] b24 by auto
  obtain s5 where s5: "SET (?hb + 24) (ZIP 0 BORDER) s4 = Some s5" "words s5 = (words s4)(?hb + 24 := BORDER)" "upd Map.empty s0 s5"
    using set [OF s4(3), of 24 "ZIP 0 BORDER"] b24 by auto
  have ptr: "HDR_PTR (PRO_BDR_PTR s3) = ?hb + 16" "HDR_PTR (EPI_BDR_PTR s4) = ?hb + 24"

  proof -
    have lt: "?hb + 24 < 2 ^ 63" "?hb + 32 < 2 ^ 63" using k by (simp_all add: MAX_HEAP_def)
    have "PRO_BDR_PTR s3 = ?hb + 24"
      using upd_fields(4) [OF s3(3)] lt by (simp add: PRO_BDR_PTR_def s0_def PTR_INCR_add)
    then show "HDR_PTR (PRO_BDR_PTR s3) = ?hb + 16" using field_ptrs(1) [OF lt(1)] by simp
    have "mem_heap_hi s4 = ?hb + 31" using upd_fields(2) [OF s4(3)] lt by (simp add: s0_def mem_heap_hi_small)
    then have "EPI_BDR_PTR s4 = ?hb + 32" using lt PTR_INCR_add [of 1 "?hb + 31"] by (simp add: EPI_BDR_PTR_def)
    then show "HDR_PTR (EPI_BDR_PTR s4) = ?hb + 24" using field_ptrs(1) [OF lt(2)] by simp
  qed
  have fl: "fold (\<lambda>i so. do { s \<leftarrow> so; SET (BUCK i s) BDR_OFF s }) [0..<RANK_NUM] (Some s0) = Some s3"
    using s1 s2 s3 bk [of s0 0] bk [OF s1(3), of 1] bk [OF s2(3), of 2] by (simp add: numeral_3_eq_3 numeral_2_eq_2)
  have c: "u32 (BDR_OFF + 2 * WORD_SIZE) = 32" "2 * WORD_SIZE = 8" by (simp_all add: WORD_SIZE_def u32_small)
  have run: "adv_init s = Some (0, s5)"
    unfolding adv_init_def Let_def c(1) sb prod.case
    unfolding s0_def [symmetric] c(2) fl using s4(1) s5(1) ptr k(1) by simp
  have st: "heap s5 = ?hb" "mem_brk s5 = ?hb + 32" "heap_base s5 = ?hb" "mem_max_addr s5 = mem_max_addr s"
    using upd_fields [OF s5(3)] by (simp_all add: s0_def)
  have "mem_ok s5" using k unfolding mem_ok_def st by (simp add: MAX_HEAP_def)
  moreover have "geom (?hb + 32) (?hb + 32) Map.empty" using k(2) by (simp add: geom_def)
  moreover have "tagged {} Map.empty ?hb (?hb + 32) (words s5)" by (simp add: tagged_def s5(2) s4(2))
  moreover have "lists (words s5) Map.empty ?hb (\<lambda>r. [])"
    unfolding lists_def s5(2) s4(2) s3(2) s2(2) s1(2) by (auto simp: less_Suc_eq numeral_3_eq_3)
  ultimately have "rep {} Map.empty (\<lambda>r. []) s5" unfolding rep_def st by (simp add: ranked_def)
  then have "hp {} Map.empty s5" unfolding hp_def by auto
  then have "adv_inv Map.empty s5" unfolding adv_inv_def by (auto simp: sub_def used_def loose_def)
  then show ?thesis using run st e by (auto simp: same_heap_def)
qed

lemma walk_heap_ok:
  assumes h: "hp {} B s" and p: "p \<in> dom B \<or> STAT p s = Some BORDER"
  shows "walk_heap cnt p s = Some ()"
  using p
proof (induction cnt arbitrary: p)
  case 0
  then show ?case using hp_fields(2) [OF h] by auto
next
  case (Suc cnt)
  show ?case
  proof (cases "p \<in> dom B")
    case True
    then obtain n st where b: "B p = Some (n, st)" by auto
    have "p + n \<in> dom B \<or> STAT (p + n) s = Some BORDER" by (rule hp_next [OF h b]) auto
    then show ?thesis using Suc.IH hp_fields(2,3) [OF h b] by simp
  qed (use Suc.prems in simp)
qed

lemma walk_list_ok:
  assumes r: "rep {} B F s" "k < 3" and un: "\<And>x. x \<in> set (F k) \<Longrightarrow> STAT x s = Some UNUSED" and F: "F k = as @ bs"
  shows "walk_list cnt (first bs (heap s + 24)) s = Some ()"
  using F
proof (induction cnt arbitrary: as bs)
  case 0
  have "STAT (first bs (heap s + 24)) s \<noteq> None"
    using first_cases [of bs "heap s + 24"] un rep_borders(1) [OF r(1)] 0 by auto
  then show ?case by auto
next
  case (Suc cnt)
  show ?case
  proof (cases bs)
    case Nil then show ?thesis using rep_borders(1) [OF r(1)] by simp
  next
    case (Cons x xs)
    then have "STAT x s = Some UNUSED" using un Suc.prems by simp
    then show ?thesis
      using Suc.IH [of "as @ [x]" xs] Suc.prems Cons rep_links(2) [OF r, of as x xs] by (simp add: assert_stat_def)
  qed
qed

lemma adv_check:
  assumes "adv_inv L s"
  shows "adv_checkheap v s = Some s"
proof -
  obtain B where B: "hp {} B s" using assms unfolding adv_inv_def by blast
  obtain F where F: "rep {} B F s" "\<And>p n st. B p = Some (n, st) \<Longrightarrow> (\<exists>r < 3. p \<in> set (F r)) \<longleftrightarrow> st = UNUSED"
    using B unfolding hp_def by auto
  note k = rep_heap [OF F(1)]
  have "PTR_INCR (PRO_BDR_PTR s) (2 * WORD_SIZE) = heap s + 32"
    using k repD(2) [OF F(1)] by (simp add: PRO_BDR_PTR_def PTR_INCR_add WORD_SIZE_def)
  moreover have "heap s + 32 \<in> dom B \<or> STAT (heap s + 32) s = Some BORDER"
  proof (cases "heap s + 32 = mem_brk s")
    case True then show ?thesis using rep_borders(3) [OF F(1)] by simp
  next
    case False
    then show ?thesis using geom_first [OF repD(3) [OF F(1)]] by blast
  qed
  ultimately have "walk_heap 50 (PTR_INCR (PRO_BDR_PTR s) (2 * WORD_SIZE)) s = Some ()" using walk_heap_ok [OF B] by metis
  moreover have "walk_list 50 p s = Some ()" if "LIST i s = Some p" "i < 3" for i p
  proof -
    have "STAT x s = Some UNUSED" if x: "x \<in> set (F i)" for x
    proof -
      obtain n st where b: "B x = Some (n, st)" using rep_member [OF F(1) \<open>i < 3\<close> x] by metis
      then show ?thesis using F(2) [OF b] x \<open>i < 3\<close> hp_fields(2) [OF B b] by auto
    qed
    from walk_list_ok [OF F(1) that(2) this, of "[]" "F i"] show ?thesis using that rep_LIST [OF F(1) that(2)] by simp
  qed
  then have "fold (\<lambda>i u. do { _ \<leftarrow> u; p \<leftarrow> LIST i s; walk_list 50 p s }) [0..<RANK_NUM] (Some ()) = Some ()"
    using rep_LIST [OF F(1)] by (simp add: numeral_3_eq_3)
  ultimately show ?thesis by (simp add: adv_checkheap_def)
qed

interpretation adv: malloc_contract "adv_package memmove" adv_inv adv_cost 32
proof unfold_locales
  fix s :: "'a adv_state_scheme" and L p n k i b
  show "mem_ok s \<Longrightarrow> mem_brk s = heap s \<Longrightarrow> 32 \<le> MAX_HEAP \<Longrightarrow> \<exists>s'. mm_init (adv_package memmove) s = Some (0, s') \<and>
      adv_inv Map.empty s' \<and> same_heap s s' \<and> mem_brk s' \<le> heap s + 32"
    using adv_init_inv [of s] by (simp add: adv_package_def)
  show "adv_inv L s \<Longrightarrow> mem_ok s \<and> live_ok L s" using adv_inv_live by blast
  show "adv_inv L s \<Longrightarrow> L p = Some n \<Longrightarrow> i < n \<Longrightarrow> adv_inv L (write_byte (p + i) b s)" by (rule adv_write)
  show "n \<le> adv_cost n" using adv_cost(1) [of n] by simp
  show "adv_inv L s \<Longrightarrow> 0 < n \<Longrightarrow> mem_brk s + adv_cost n \<le> mem_max_addr s \<Longrightarrow>
      \<exists>q s'. mm_malloc (adv_package memmove) n s = Some (q, s') \<and> q \<noteq> 0 \<and> q \<notin> dom L \<and> adv_inv (L(q \<mapsto> n)) s' \<and>
        kept L s s' \<and> same_heap s s' \<and> mem_brk s' \<le> mem_brk s + adv_cost n"
    using adv_malloc_inv by (simp add: adv_package_def)
  show "adv_inv L s \<Longrightarrow> L p = Some n \<Longrightarrow> \<exists>s'. mm_free (adv_package memmove) p s = Some s' \<and> adv_inv (L(p := None)) s' \<and>
      kept (L(p := None)) s s' \<and> same_heap s s' \<and> mem_brk s' = mem_brk s"
    using adv_free_inv by (simp add: adv_package_def)
  show "adv_inv L s \<Longrightarrow> L p = Some n \<Longrightarrow> 0 < k \<Longrightarrow> mem_brk s + adv_cost k \<le> mem_max_addr s \<Longrightarrow>
      \<exists>q s'. mm_realloc (adv_package memmove) p k s = Some (q, s') \<and> q \<noteq> 0 \<and> q \<notin> dom (L(p := None)) \<and>
        adv_inv (L(p := None, q \<mapsto> k)) s' \<and> kept (L(p := None)) s s' \<and>
        (\<forall>i < min n k. bytes s' (q + i) = bytes s (p + i)) \<and> same_heap s s' \<and> mem_brk s' \<le> mem_brk s + adv_cost k"
    using adv_realloc_inv by (simp add: adv_package_def)
  show "adv_inv L s \<Longrightarrow> mm_checkheap (adv_package memmove) v s = Some s" for v
    using adv_check by (simp add: adv_package_def)
  show "adv_inv L s \<Longrightarrow> mm_realloc (adv_package memmove) p 0 s = map_option (Pair 0) (mm_free (adv_package memmove) p s)"
    by (cases "adv_free p s") (simp_all add: adv_package_def adv_realloc_def)
qed (simp_all add: adv_package_def adv_free_def adv_realloc_def)

end
