(* ===== verification/MM_Advance_Correct.thy ===== *)
theory MM_Advance_Correct
  imports MM_Advance_Contract Malloc_Correct
begin

section \<open>Correctness of the allocator with segregated free lists\<close>

text \<open>
  A client history of mm-advance.c starts after \<open>mm_init\<close> and calls \<open>malloc\<close>, \<open>free\<close> and \<open>realloc\<close> on
  live payloads and writes into them, as long as the requests fit the heap. \<open>adv_reach L s\<close> says
  that such a history ends in \<open>s\<close> with the live payloads \<open>L\<close>. The copy in \<open>realloc\<close> is \<open>memmove\<close>
  except where the property is about \<open>memcpy\<close>.
\<close>

inductive adv_reach :: "live \<Rightarrow> 'p adv_state_scheme \<Rightarrow> bool" where
  init: "mem_ok s \<Longrightarrow> mem_brk s = heap s \<Longrightarrow> adv_init s = Some (r, s') \<Longrightarrow> adv_reach Map.empty s'"
| malloc: "adv_reach L s \<Longrightarrow> 0 < n \<Longrightarrow> mem_brk s + adv_cost n \<le> mem_max_addr s \<Longrightarrow> adv_malloc n s = Some (q, s')
    \<Longrightarrow> adv_reach (L(q \<mapsto> n)) s'"
| free: "adv_reach L s \<Longrightarrow> p \<in> dom L \<Longrightarrow> adv_free p s = Some s' \<Longrightarrow> adv_reach (L(p := None)) s'"
| realloc: "adv_reach L s \<Longrightarrow> p \<in> dom L \<Longrightarrow> 0 < n \<Longrightarrow> mem_brk s + adv_cost n \<le> mem_max_addr s
    \<Longrightarrow> adv_realloc memmove p n s = Some (q, s') \<Longrightarrow> adv_reach (L(p := None, q \<mapsto> n)) s'"
| client: "adv_reach L s \<Longrightarrow> L p = Some n \<Longrightarrow> i < n \<Longrightarrow> adv_reach L (write_byte (p + i) b s)"

inductive_cases adv_reach_emptyE: "adv_reach Map.empty s"

lemma adv_reach_inv: "adv_reach L s \<Longrightarrow> adv_inv L s"
proof (induction rule: adv_reach.induct)
  case (init s r s') then show ?case using adv_init_inv [of s] by (auto simp del: fun_upd_apply)
next
  case (malloc L s n q s') then show ?case using adv_malloc_inv [of L s n] by (auto simp del: fun_upd_apply)
next
  case (free L s p s') then show ?case using adv_free_inv [of L s p] by (auto simp del: fun_upd_apply)
next
  case (realloc L s p n q s') then show ?case using adv_realloc_inv [of L s p _ n] by (auto simp del: fun_upd_apply)
next
  case (client L s p n i b) then show ?case by (blast intro: adv_write)
qed

subsection \<open>First fit over all classes\<close>

lemma get_rank_cases: "get_rank n = (if n \<le> 256 then 0 else if n \<le> 512 then 1 else 2)"
  by (simp add: get_rank_def MAX_BLK_BITS_def MIN_BLK_BITS_def STP_BLK_BITS_def upt_rec shl32_small)

lemma get_rank_mono: "n \<le> m \<Longrightarrow> get_rank n \<le> get_rank m"
  by (simp add: get_rank_cases)

lemma find_ranks_none:
  assumes r: "rep {} B F s" and f: "find_ranks n k s = Some (0, j)" "k < 3" and x: "x \<in> set (F i)" "k \<le> i" "i < 3"
  shows "sz B x < n"
  using f x
proof (induction "3 - k" arbitrary: k rule: less_induct)
  case less
  have ne: "y \<noteq> 0" if y: "y \<in> set (F k)" for y
  proof -
    obtain m st where "B y = Some (m, st)" using rep_member [OF r less.prems(2) y] by metis
    then show ?thesis using rep_block(1) [OF r] by fastforce
  qed
  have fit: "find_fit n k s = Some (case find (\<lambda>x. n \<le> sz B x) (F k) of None \<Rightarrow> 0 | Some x \<Rightarrow> x)"
    using find_fit_seg [OF r less.prems(2), of "[]" "F k"] rep_LIST [OF r less.prems(2)] by (simp add: find_fit_def)
  note u = find_ranks.simps [of n k s, unfolded STP_BLK_BITS_def RANK_NUM_3]
  have none: "find (\<lambda>x. n \<le> sz B x) (F k) = None \<and> (k + 1 < 3 \<longrightarrow> find_ranks n (k + 1) s = Some (0, j))"
  proof (cases "find (\<lambda>x. n \<le> sz B x) (F k)")
    case None
    then show ?thesis using less.prems(1) fit unfolding u by (auto split: if_splits)
  next
    case (Some y)
    then have "y \<in> set (F k)" by (auto simp: find_Some_iff)
    then show ?thesis using less.prems(1) fit Some ne unfolding u by auto
  qed
  show ?case
  proof (cases "i = k")
    case True
    then show ?thesis using none less.prems(3) by (auto simp: find_None_iff not_le)
  next
    case False
    then have "k + 1 < 3" "3 - (k + 1) < 3 - k" "k + 1 \<le> i" using less.prems(4,5) by linarith+
    with less.hyps [of "k + 1"] none less.prems(3,5) show ?thesis by blast
  qed
qed

lemma adv_malloc_reuses:
  assumes h: "hp {} B s" and b: "B p = Some (m, UNUSED)" "adv_cost n \<le> m" and n: "0 < n" "adv_cost n \<le> MAX_HEAP" and L: "sub L B" "p \<notin> dom L"
    and res: "adv_malloc n s = Some (q, s')" and off: "\<And>x k. B x = Some (k, UNUSED) \<Longrightarrow> x \<notin> dom L"
  shows "mem_brk s' = mem_brk s"
proof -
  let ?k = "adv_cost n"
  obtain F where F: "rep {} B F s" "\<And>p n st. B p = Some (n, st) \<Longrightarrow> (\<exists>r < 3. p \<in> set (F r)) \<longleftrightarrow> st = UNUSED"
    using h unfolding hp_def by auto
  obtain r where r: "r < 3" "p \<in> set (F r)" using F(2) [OF b(1)] by blast
  have "r = get_rank m" using rankedD(3) [OF repD(6) [OF F(1)] r] b(1) by simp
  then have "get_rank ?k \<le> r" using get_rank_mono [OF b(2)] by simp
  obtain x rank where find: "find_ranks ?k (get_rank ?k) s = Some (x, rank)"
    "x = 0 \<or> (\<exists>m. B x = Some (m, UNUSED) \<and> x \<notin> {} \<and> ?k \<le> m \<and> rank = get_rank m)"
    using find_ranks_spec [OF h get_rank_less] by blast
  have x0: "x \<noteq> 0"
  proof
    assume "x = 0"
    then have "sz B p < ?k" using find_ranks_none [OF F(1) _ get_rank_less r(2) \<open>get_rank ?k \<le> r\<close> r(1)] find(1) by blast
    then show False using b by simp
  qed
  then obtain j where j: "B x = Some (j, UNUSED)" "?k \<le> j" "rank = get_rank j" using find(2) by blast
  note al = adv_align [OF n(2)] and k = adv_cost [of n]
  have Lx: "sub L (B(x \<mapsto> (?k, USED)))" using L(1) off [OF j(1)] unfolding sub_def by auto
  obtain s1 where s1: "adv_list_remove x rank s = Some s1" "hp {x} B s1" "upd L s s1"
    using hp_remove [OF h L(1) j(1)] j(3) by auto
  obtain s2 where s2: "place x ?k True s1 = Some s2" "hp {} (carve B x j ?k) s2" "upd L s1 s2"
    using hp_place [OF s1(2) j(1) k(2) k(3) [OF n(1)] j(2) Lx] by blast
  have "s' = s2"
    using res n(1) x0 s1(1) s2(1) find(1) unfolding adv_malloc_def Let_def al by (auto split: bind_splits)
  then show ?thesis using upd_fields(2) [OF s1(3)] upd_fields(2) [OF s2(3)] by simp
qed

subsection \<open>What the memory holds\<close>

text \<open>
  The blocks \<open>B\<close> tile the heap between prologue and epilogue, every header names the size and the
  status of its block, the used blocks are those of the live payloads and no two neighbours are both free.
\<close>

definition heap_blocks :: "blocks \<Rightarrow> live \<Rightarrow> 'p adv_state_scheme \<Rightarrow> bool" where
  "heap_blocks B L s \<longleftrightarrow> geom (heap s + 32) (mem_brk s) B
   \<and> (\<forall>p n st. B p = Some (n, st) \<longrightarrow> SIZE p s = Some n \<and> STAT p s = Some st \<and> (st = USED \<longleftrightarrow> p \<in> dom L))
   \<and> (\<forall>p n. L p = Some n \<longrightarrow> 0 < n \<and> (\<exists>k. B p = Some (k, USED) \<and> n + 16 \<le> k))
   \<and> (\<forall>a. \<not> loose B a)"

lemma adv_inv_blocks:
  assumes "adv_inv L s"
  obtains B where "hp {} B s" "sub L B" "dom L = used B" "heap_blocks B L s"
proof -
  obtain B where B: "hp {} B s" "sub L B" "\<forall>p n. L p = Some n \<longrightarrow> 0 < n" "dom L = used B" "\<forall>a. \<not> loose B a"
    using assms unfolding adv_inv_def by blast
  obtain F where r: "rep {} B F s" using hp_rep [OF B(1)] by blast
  have "SIZE p s = Some n \<and> STAT p s = Some st \<and> (st = USED \<longleftrightarrow> p \<in> dom L)" if "B p = Some (n, st)" for p n st
    using hp_fields(1,2) [OF B(1) that] that unfolding B(4) used_def by auto
  moreover have "\<exists>k. B p = Some (k, USED) \<and> n + 16 \<le> k" if "L p = Some n" for p n
  proof -
    have "p \<in> used B" using that B(4) by auto
    then show ?thesis using subD [OF B(2) that] by (auto simp: used_def)
  qed
  ultimately have "heap_blocks B L s"
    unfolding heap_blocks_def using repD(3) [OF r] B(3,5) by blast
  then show ?thesis using that B by blast
qed

lemma adv_malloc_extends:
  assumes i: "adv_inv L s" and n: "0 < n" and fit: "mem_brk s + adv_cost n \<le> mem_max_addr s"
    and none: "find_ranks (adv_cost n) (get_rank (adv_cost n)) s = Some (0, r)"
  shows "\<exists>s'. adv_malloc n s = Some (mem_brk s, s') \<and> mem_brk s' = mem_brk s + adv_cost n"
proof -
  obtain B where B: "hp {} B s" "sub L B" by (rule adv_inv_blocks [OF i])
  note k = mem_okD [OF adv_inv_live(1) [OF i]] and c = adv_cost(2) [of n] adv_cost(3) [OF n]
  have "adv_cost n \<le> MAX_HEAP" using fit k by simp
  note al = adv_align [OF this]
  obtain s1 s2 s3 where s: "adv_extend (adv_cost n) s = Some (mem_brk s, s1)" "set_tags (mem_brk s) (adv_cost n) USED s1 = Some s2"
    "adv_list_init (mem_brk s) s2 = Some s3" "hp {} (B(mem_brk s \<mapsto> (adv_cost n, USED))) s3" "mem_brk s3 = mem_brk s + adv_cost n"
    using hp_extend [OF B c(2,1) fit] by blast
  have "assert_stat (mem_brk s) USED s3 = Some ()" using hp_fields(4) [OF s(4)] by simp
  then show ?thesis
    using n none s(1-3,5) k unfolding adv_malloc_def Let_def al by simp
qed

subsection \<open>Properties\<close>

text \<open>C26: the heap of mm-advance.c is well formed after any history of valid requests: the headers in memory
  describe blocks that tile the heap, exactly the blocks of the live payloads are used, each is large
  enough for its payload and its four words of metadata, no two neighbouring blocks are both free, and
  \<open>mm\_checkheap\<close> walks over all of it without a failed assertion.\<close>

theorem advance_heap_wellformed:
  assumes "adv_reach L s"
  shows "(\<exists>B. heap_blocks B L s) \<and> adv_checkheap v s = Some s"
  using adv_inv_blocks [OF adv_reach_inv [OF assms]] adv_check [OF adv_reach_inv [OF assms]] by metis

definition adv_heap0 :: adv_state where
  "adv_heap0 = mem_init 0x800000000 \<lparr>heap = 0, mem_brk = 0, mem_max_addr = 0, errno = 0, bytes = (\<lambda>_. 0), heap_base = 0\<rparr>"

lemma adv_heap0_ok: "mem_ok adv_heap0" "mem_brk adv_heap0 = heap adv_heap0"
  by (simp_all add: adv_heap0_def mem_ok_init MAX_HEAP_def) (simp_all add: mem_init_def Let_def)

text \<open>A first history: \<open>mm_init\<close>, then one block of eight bytes, which is the only one.\<close>

lemma adv_one_block:
  obtains s0 q s where "adv_init adv_heap0 = Some (0, s0)" "adv_malloc 8 s0 = Some (q, s)" "adv_reach [q \<mapsto> 8] s"
    "SIZE q s = Some 24" "q + 24 = mem_brk s" "mem_brk s + 200 \<le> mem_max_addr s"
    "\<And>k. k < 3 \<Longrightarrow> \<exists>r. find_ranks 24 k s = Some (0, r)" "\<And>n k. k < 3 \<Longrightarrow> \<exists>r. find_ranks n k s = Some (0, r)"
proof -
  note k = mem_okD [OF adv_heap0_ok(1)] adv_heap0_ok(2)
  obtain s0 where s0: "adv_init adv_heap0 = Some (0, s0)" "adv_inv Map.empty s0" "same_heap adv_heap0 s0" "mem_brk s0 \<le> heap adv_heap0 + 32"
    using adv_init_inv [OF adv_heap0_ok] by blast
  have r0: "adv_reach Map.empty s0" by (rule adv_reach.init [OF adv_heap0_ok s0(1)])
  have c: "adv_cost 8 = 24" by (simp add: adv_cost_def align8_def)
  have st: "heap s0 = heap adv_heap0" "mem_max_addr s0 = heap adv_heap0 + MAX_HEAP" using s0(3) k by (simp_all add: same_heap_def)
  have fit: "mem_brk s0 + adv_cost 8 \<le> mem_max_addr s0" using s0(4) st c by (simp add: MAX_HEAP_def)
  obtain q s where s: "adv_malloc 8 s0 = Some (q, s)" "same_heap s0 s" "mem_brk s \<le> mem_brk s0 + adv_cost 8"
    using adv_malloc_inv [OF s0(2) _ fit] by auto
  have r1: "adv_reach [q \<mapsto> 8] s" by (rule adv_reach.malloc [OF r0 _ fit s(1)]) simp
  have hi: "heap s = heap adv_heap0" "mem_brk s \<le> heap s + 32 + 24" "mem_max_addr s = heap adv_heap0 + MAX_HEAP"
    using s(2,3) s0(4) st c by (simp_all add: same_heap_def)
  obtain B where B: "hp {} B s" "heap_blocks B [q \<mapsto> 8] s" by (rule adv_inv_blocks [OF adv_reach_inv [OF r1]])
  have "[q \<mapsto> 8] q = Some 8" by simp
  then obtain j where j: "B q = Some (j, USED)" using B(2) unfolding heap_blocks_def by blast
  note f = hp_fields [OF B(1) j]
  have q: "q = heap s + 32" "j = 24" "mem_brk s = heap s + 32 + 24" using f(7,9,10) hi by linarith+
  have only: "p = q" if "B p = Some (m, t)" for p m t
  proof (rule ccontr)
    assume "p \<noteq> q"
    then show False using geom_apart [OF f(5) that j] hp_fields(7,9,10) [OF B(1) that] q by auto
  qed
  have none: "\<exists>r. find_ranks n k s = Some (0, r)" if "k < 3" for n k
    using find_ranks_spec [OF B(1) that, of n] only j by fastforce
  show ?thesis
    by (rule that [OF s0(1) s(1) r1]) (use f(1) q hi none in \<open>simp_all add: MAX_HEAP_def\<close>)
qed

theorem advance_heap_wellformed_witness:
  "\<exists>s0 q s. adv_init adv_heap0 = Some (0, s0) \<and> adv_malloc 8 s0 = Some (q, s) \<and> (\<exists>B. heap_blocks B [q \<mapsto> 8] s) \<and>
    adv_checkheap 0 s = Some s"
  by (rule adv_one_block) (use advance_heap_wellformed in blast)

text \<open>C27: \<open>malloc\<close> of mm-advance.c after any history: every request that fits is answered with an aligned
  payload inside the heap that shares no byte with a live payload, no live payload changes, no word
  outside the heap is touched and no assertion fails; and the heap grows only when no free block is
  large enough for the request and its metadata.\<close>

theorem advance_malloc_correct:
  assumes "adv_reach L s" "0 < n" "mem_brk s + adv_cost n \<le> mem_max_addr s"
  shows "\<exists>B q s'. heap_blocks B L s \<and> adv_malloc n s = Some (q, s') \<and> 8 dvd q \<and> heap s \<le> q \<and> q + n \<le> mem_brk s' \<and>
    (\<forall>p k. L p = Some k \<longrightarrow> p + k \<le> q \<or> q + n \<le> p) \<and> kept L s s' \<and> adv_reach (L(q \<mapsto> n)) s' \<and>
    ((\<exists>p m. B p = Some (m, UNUSED) \<and> adv_cost n \<le> m) \<longrightarrow> mem_brk s' = mem_brk s)"
proof -
  note i = adv_reach_inv [OF assms(1)]
  obtain q s' where s': "adv_malloc n s = Some (q, s')" "q \<notin> dom L" "adv_inv (L(q \<mapsto> n)) s'" "kept L s s'" "same_heap s s'"
    using adv_malloc_inv [OF i assms(2,3)] by blast
  obtain B where B: "hp {} B s" "sub L B" "dom L = used B" "heap_blocks B L s" by (rule adv_inv_blocks [OF i])
  note lv = adv_inv_live(2) [OF s'(3)]
  have q: "8 dvd q" "heap s \<le> q" "q + n \<le> mem_brk s'" using live_okD [OF lv, of q n] s'(5) by (simp_all add: same_heap_def)
  have apart: "p + k \<le> q \<or> q + n \<le> p" if "L p = Some k" for p k
    using live_ok_disjoint [OF lv, of p k q n] that s'(2) by (cases "p = q") auto
  have "adv_cost n \<le> MAX_HEAP" using assms(3) mem_okD [OF adv_inv_live(1) [OF i]] by simp
  moreover have "x \<notin> dom L" if "B x = Some (k, UNUSED)" for x k using that unfolding B(3) used_def by auto
  ultimately have "mem_brk s' = mem_brk s" if "B p = Some (m, UNUSED)" "adv_cost n \<le> m" for p m
    using adv_malloc_reuses [OF B(1) that assms(2) _ B(2) _ s'(1)] that(1) by blast
  then show ?thesis using s'(1,4) B(4) q apart adv_reach.malloc [OF assms s'(1)] by blast
qed

theorem advance_malloc_correct_witness:
  "\<exists>s0 q s q' s'. adv_init adv_heap0 = Some (0, s0) \<and> adv_malloc 8 s0 = Some (q, s) \<and> adv_malloc 100 s = Some (q', s') \<and>
    q + 8 \<le> q' \<or> q' + 100 \<le> q"
proof (rule adv_one_block)
  fix s0 q s
  assume a: "adv_init adv_heap0 = Some (0, s0)" "adv_malloc 8 s0 = Some (q, s)" "adv_reach [q \<mapsto> 8] s" "mem_brk s + 200 \<le> mem_max_addr s"
  have "\<exists>B q' s'. heap_blocks B [q \<mapsto> 8] s \<and> adv_malloc 100 s = Some (q', s') \<and> 8 dvd q' \<and> heap s \<le> q' \<and> q' + 100 \<le> mem_brk s' \<and>
    (\<forall>p k. [q \<mapsto> 8] p = Some k \<longrightarrow> p + k \<le> q' \<or> q' + 100 \<le> p) \<and> kept [q \<mapsto> 8] s s' \<and> adv_reach ([q \<mapsto> 8](q' \<mapsto> 100)) s' \<and>
    ((\<exists>p m. B p = Some (m, UNUSED) \<and> adv_cost 100 \<le> m) \<longrightarrow> mem_brk s' = mem_brk s)"
    by (rule advance_malloc_correct [OF a(3)]) (use a(4) in \<open>simp_all add: adv_cost_def align8_def\<close>)
  then show ?thesis using a(1,2) by (metis (lifting) fun_upd_same)
qed

text \<open>C28: \<open>realloc\<close> of mm-advance.c passes to \<open>memcpy\<close> the new size, not the old one. When the block is the last
  one, the request is larger than the block and the search finds no free block, the new block lies right
  behind the old one, so the ranges overlap: the call is undefined.\<close>

theorem advance_realloc_overlap:
  assumes "adv_reach L s" "p \<in> dom L" "SIZE p s = Some m" "p + m = mem_brk s" "m < n"
    and "mem_brk s + adv_cost n \<le> mem_max_addr s"
    and "find_ranks (adv_cost n) (get_rank (adv_cost n)) s = Some (0, r)"
  shows "adv_realloc memcpy p n s = None"
proof -
  note i = adv_reach_inv [OF assms(1)]
  obtain B where B: "hp {} B s" "dom L = used B" by (rule adv_inv_blocks [OF i])
  obtain j where j: "B p = Some (j, USED)" using assms(2) unfolding B(2) used_def by blast
  note f = hp_fields [OF B(1) j]
  have jm: "j = m" using f(1) assms(3) by simp
  obtain F where "rep {} B F s" using hp_rep [OF B(1)] by blast
  note bd = rep_borders(3,4) [OF this]
  have n: "0 < n" "n < adv_cost n" using assms(5) adv_cost(1) [of n] by simp_all
  have "adv_cost n \<le> MAX_HEAP" using assms(6) mem_okD [OF adv_inv_live(1) [OF i]] by simp
  note al = adv_align [OF this]
  obtain s' where s': "adv_malloc n s = Some (mem_brk s, s')" using adv_malloc_extends [OF i n(1) assms(6,7)] by blast
  have "memcpy (mem_brk s) p n s' = None" using assms(3-5) f(7) jm unfolding memcpy_def by simp
  then show ?thesis
    using n assms(3-5) f(3,9) jm bd s' unfolding adv_realloc_def Let_def al by simp
qed

theorem advance_realloc_overlap_witness:
  "\<exists>s0 q s. adv_init adv_heap0 = Some (0, s0) \<and> adv_malloc 8 s0 = Some (q, s) \<and> adv_realloc memcpy q 100 s = None"
proof (rule adv_one_block)
  fix s0 q s
  assume a: "adv_init adv_heap0 = Some (0, s0)" "adv_malloc 8 s0 = Some (q, s)" "adv_reach [q \<mapsto> 8] s" "SIZE q s = Some 24"
    "q + 24 = mem_brk s" "mem_brk s + 200 \<le> mem_max_addr s" "\<And>n k. k < 3 \<Longrightarrow> \<exists>r. find_ranks n k s = Some (0, r)"
  obtain r where "find_ranks (adv_cost 100) (get_rank (adv_cost 100)) s = Some (0, r)" using a(7) get_rank_less by blast
  then have "adv_realloc memcpy q 100 s = None"
    by (intro advance_realloc_overlap [OF a(3) _ a(4,5)]) (use a(6) in \<open>simp_all add: adv_cost_def align8_def\<close>)
  then show ?thesis using a(1,2) by blast
qed

text \<open>Where \<open>realloc\<close> with \<open>memcpy\<close> is defined, it does what it does with \<open>memmove\<close>.\<close>

lemma realloc_memcpy_agrees: "adv_realloc memcpy p n s = Some r \<Longrightarrow> adv_realloc memmove p n s = Some r"
proof (cases "n = 0 \<or> p = 0")
  case False
  then show "adv_realloc memcpy p n s = Some r \<Longrightarrow> adv_realloc memmove p n s = Some r"
    unfolding adv_realloc_def Let_def by (auto simp: memcpy_def split: if_splits bind_splits)
qed (auto simp: adv_realloc_def)

text \<open>C25: mm-advance.c under the driver: with a copy that tolerates overlap, \<open>eval\_mm\_valid\<close> accepts the
  package on every well-formed trace that fits the heap, and reports no error.\<close>

theorem advance_driver_valid:
  assumes "mem_ok (sys d)" and "wf_ops (num_ids (trace d)) (\<lambda>_. Null) (trace_ops d)"
    and "32 + total_cost adv_cost (trace_ops d) \<le> MAX_HEAP"
  shows "\<exists>d'. eval_mm_valid (adv_package memmove) rnd verbose d = Some (1, d') \<and> errors d' = errors d"
  using malloc_contract.eval_mm_valid_ok [OF adv.malloc_contract_axioms assms(1-3) [unfolded trace_ops_def]] by blast

definition adv_driver :: "unit adv_state_ext driver" where
  "adv_driver = \<lparr>sys = adv_heap0, trace = demo_trace, ranges = [], errors = 0, debug_mode = DBG_EXPENSIVE,
     random_data = of_nat, rand_next = 0\<rparr>"

theorem advance_driver_valid_witness:
  "\<exists>d'. eval_mm_valid (adv_package memmove) (\<lambda>k. 7 * k) 1 adv_driver = Some (1, d') \<and> errors d' = 0"
proof -
  have t: "trace_ops adv_driver = trace_ops demo_driver" "num_ids (trace adv_driver) = num_ids (trace demo_driver)"
    by (simp_all add: adv_driver_def demo_driver_def trace_ops_def)
  have "32 + total_cost adv_cost (trace_ops adv_driver) \<le> MAX_HEAP"
    unfolding t by (simp add: demo_driver_def demo_trace_def trace_ops_def total_cost_def op_cost_def adv_cost_def align8_def MAX_HEAP_def)
  then have "\<exists>d'. eval_mm_valid (adv_package memmove) (\<lambda>k. 7 * k) 1 adv_driver = Some (1, d') \<and> errors d' = errors adv_driver"
    by (intro advance_driver_valid) (use demo_trace_ok(3) adv_heap0_ok(1) in \<open>simp_all only: t, simp_all add: adv_driver_def\<close>)
  then show ?thesis by (simp add: adv_driver_def)
qed

end
