(* ===== verification/MM_Basic.thy ===== *)
theory MM_Basic
  imports MM_Advance_Inv MM_Naive
begin

section \<open>The allocator with boundary tags (practice-2/practice\_2-2/mm-basic.c)\<close>

text \<open>
  An implicit list of blocks, each with a header word before it and a footer word at its end, of
  eight bytes. As in mm-advance.c, accesses outside the mapped heap are \<open>None\<close> and a loop that does
  not end is \<open>None\<close>; \<open>ZIP\<close> and the status values are the same. The comparison of the answer of
  \<open>mem_sbrk\<close> with \<open>< 0\<close> compares a pointer and is never true.
\<close>

record basic_state = memlib +
  basic_base :: addr
  block_list :: addr

definition GET64 :: "addr \<Rightarrow> 'p memlib_scheme \<Rightarrow> nat option" where
  "GET64 a s = (if mapped s a 8 then Some (load64 (bytes s) a) else None)"

definition SET64 :: "addr \<Rightarrow> nat \<Rightarrow> 'p memlib_scheme \<Rightarrow> 'p memlib_scheme option" where
  "SET64 a v s = (if mapped s a 8 then Some (s\<lparr>bytes := store64 (bytes s) a v\<rparr>) else None)"

definition MIN_BLK_SIZE :: nat where "MIN_BLK_SIZE = SIZE_T_SIZE * 2"

definition UNZIP_SIZE64 :: "nat \<Rightarrow> nat" where "UNZIP_SIZE64 w = w AND to_u64 (- 8)"

definition HDR64 :: "addr \<Rightarrow> addr" where "HDR64 p = sub64 p SIZE_T_SIZE"
definition SIZE64 :: "addr \<Rightarrow> 'p memlib_scheme \<Rightarrow> nat option" where "SIZE64 p s = map_option UNZIP_SIZE64 (GET64 (HDR64 p) s)"
definition STAT64 :: "addr \<Rightarrow> 'p memlib_scheme \<Rightarrow> nat option" where "STAT64 p s = map_option UNZIP_STAT (GET64 (HDR64 p) s)"

definition FTR64 :: "addr \<Rightarrow> 'p memlib_scheme \<Rightarrow> addr option" where
  "FTR64 p s = map_option (\<lambda>n. sub64 (add64 p n) (SIZE_T_SIZE * 2)) (SIZE64 p s)"

definition NEXT_PTR :: "addr \<Rightarrow> 'p memlib_scheme \<Rightarrow> addr option" where "NEXT_PTR p s = map_option (add64 p) (SIZE64 p s)"

definition NEXT_STAT :: "addr \<Rightarrow> 'p memlib_scheme \<Rightarrow> nat option" where
  "NEXT_STAT p s = do { q \<leftarrow> NEXT_PTR p s; STAT64 q s }"

definition PREV_SIZE :: "addr \<Rightarrow> 'p memlib_scheme \<Rightarrow> nat option" where
  "PREV_SIZE p s = map_option UNZIP_SIZE64 (GET64 (sub64 p (SIZE_T_SIZE * 2)) s)"

definition PREV_STAT :: "addr \<Rightarrow> 'p memlib_scheme \<Rightarrow> nat option" where
  "PREV_STAT p s = map_option UNZIP_STAT (GET64 (sub64 p (SIZE_T_SIZE * 2)) s)"

definition PREV_PTR :: "addr \<Rightarrow> 'p memlib_scheme \<Rightarrow> addr option" where "PREV_PTR p s = map_option (sub64 p) (PREV_SIZE p s)"

text \<open>Header and footer of a block; a size of type \<open>int\<close> is converted to \<open>size_t\<close>.\<close>

definition basic_tags :: "addr \<Rightarrow> nat \<Rightarrow> nat \<Rightarrow> 'p memlib_scheme \<Rightarrow> 'p memlib_scheme option" where
  "basic_tags p n status s = do {
     s \<leftarrow> SET64 (HDR64 p) (ZIP n status) s;
     a \<leftarrow> FTR64 p s;
     SET64 a (ZIP n status) s }"

definition basic_split :: "addr \<Rightarrow> int \<Rightarrow> 'p memlib_scheme \<Rightarrow> 'p memlib_scheme option" where
  "basic_split p n s = do {
     k \<leftarrow> SIZE64 p s;
     let org_size = s32 k;
     s \<leftarrow> basic_tags p (to_u64 n) UNUSED s;
     q \<leftarrow> NEXT_PTR p s;
     basic_tags q (to_u64 (s32 (to_u32 (org_size - n)))) UNUSED s }"

definition basic_coalesce :: "addr \<Rightarrow> 'p memlib_scheme \<Rightarrow> 'p memlib_scheme option" where
  "basic_coalesce p s = do {
     n \<leftarrow> SIZE64 p s;
     k \<leftarrow> PREV_SIZE p s;
     q \<leftarrow> PREV_PTR p s;
     basic_tags q (to_u64 (s32 (add64 n k))) UNUSED s }"

definition basic_init :: "'p basic_state_scheme \<Rightarrow> (int \<times> 'p basic_state_scheme) option" where
  "basic_init s =
     (let (p, s) = mem_sbrk (int (ALIGN (2 * SIZE_T_SIZE))) s;
          s = s\<lparr>basic_base := p\<rparr>;
          s = s\<lparr>block_list := add64 (basic_base s) (ALIGN SIZE_T_SIZE)\<rparr>
      in do {
        s \<leftarrow> SET64 (basic_base s) (ZIP 0 BORDER) s;
        s \<leftarrow> SET64 (block_list s) (ZIP 0 BORDER) s;
        Some (0, s) })"

text \<open>The search of \<open>malloc\<close>: a block that fits, or the end of the list.\<close>

partial_function (option) basic_find :: "nat \<Rightarrow> addr \<Rightarrow> 'p memlib_scheme \<Rightarrow> (addr \<times> bool) option" where
  "basic_find n p s = do {
     st \<leftarrow> STAT64 p s;
     if st = BORDER then Some (p, False)
     else do {
       k \<leftarrow> SIZE64 p s;
       if st = UNUSED \<and> n < k then Some (p, True)
       else do { q \<leftarrow> NEXT_PTR p s; basic_find n q s } } }"

definition basic_malloc :: "nat \<Rightarrow> 'p basic_state_scheme \<Rightarrow> (addr \<times> 'p basic_state_scheme) option" where
  "basic_malloc n s =
     (if n = 0 then Some (0, s)
      else let n = ALIGN (add64 n (2 * SIZE_T_SIZE)) in do {
        (p, fits) \<leftarrow> basic_find n (block_list s) s;
        if fits
        then do {
          k \<leftarrow> SIZE64 p s;
          s \<leftarrow> (if add64 n MIN_BLK_SIZE < k then basic_split p (s32 n) s else basic_tags p k USED s);
          Some (p, s) }
        else let (old_brk, s) = mem_sbrk (s32 n) s in do {
          s \<leftarrow> basic_tags p n USED s;
          q \<leftarrow> NEXT_PTR p s;
          s \<leftarrow> SET64 q (ZIP 0 BORDER) s;
          Some (p, s) } })"

definition basic_free :: "addr \<Rightarrow> 'p basic_state_scheme \<Rightarrow> 'p basic_state_scheme option" where
  "basic_free p s = do {
     st \<leftarrow> PREV_STAT p s;
     if st = UNUSED then basic_coalesce p s
     else do { n \<leftarrow> SIZE64 p s; basic_tags p (to_u64 (s32 n)) UNUSED s } }"

text \<open>
  When the block is large enough and nothing is split off, \<open>realloc\<close> writes the tags of the block at
  the address \<open>size\<close> instead of \<open>oldptr\<close>.
\<close>

definition basic_realloc :: "'p basic_state_scheme copier \<Rightarrow> addr \<Rightarrow> nat \<Rightarrow> 'p basic_state_scheme \<Rightarrow>
    (addr \<times> 'p basic_state_scheme) option" where
  "basic_realloc cpy oldptr n s =
     (if n = 0 then do { s \<leftarrow> basic_free oldptr s; Some (0, s) }
      else if oldptr = 0 then basic_malloc n s
      else let orgsize = to_u64 (s32 n); n = ALIGN (add64 n (2 * SIZE_T_SIZE)) in do {
        st \<leftarrow> NEXT_STAT oldptr s;
        s \<leftarrow> (if st = UNUSED then do { q \<leftarrow> NEXT_PTR oldptr s; basic_coalesce q s } else Some s);
        k \<leftarrow> SIZE64 oldptr s;
        let oldsize = to_u64 (s32 k);
        if n \<le> oldsize
        then do {
          s \<leftarrow> (if add64 n MIN_BLK_SIZE < oldsize then basic_split oldptr (s32 n) s else basic_tags oldsize oldsize USED s);
          Some (oldptr, s) }
        else do {
          (newptr, s) \<leftarrow> basic_malloc orgsize s;
          s \<leftarrow> cpy newptr oldptr orgsize s;
          s \<leftarrow> basic_free oldptr s;
          Some (newptr, s) } })"

definition basic_calloc :: "nat \<Rightarrow> nat \<Rightarrow> 'p basic_state_scheme \<Rightarrow> (addr \<times> 'p basic_state_scheme) option" where
  "basic_calloc nmemb n s =
     (let total = mul64 nmemb n in do {
        (newptr, s) \<leftarrow> basic_malloc total s;
        if total = 0 \<or> mapped s newptr total
        then Some (newptr, s\<lparr>bytes := fill_bytes newptr 0 total (bytes s)\<rparr>) else None })"

text \<open>The check walks to the first unused block or the end and prints; only whether it returns is modelled.\<close>

partial_function (option) basic_walk :: "addr \<Rightarrow> 'p memlib_scheme \<Rightarrow> unit option" where
  "basic_walk p s = do {
     st \<leftarrow> STAT64 p s;
     if st = BORDER \<or> st = UNUSED then Some () else do { q \<leftarrow> NEXT_PTR p s; basic_walk q s } }"

definition basic_checkheap :: "int \<Rightarrow> 'p basic_state_scheme \<Rightarrow> 'p basic_state_scheme option" where
  "basic_checkheap verbose s = do { _ \<leftarrow> basic_walk (block_list s) s; Some s }"

definition basic_package :: "'p basic_state_scheme copier \<Rightarrow> ('p basic_state_ext) mm_package" where
  "basic_package cpy = \<lparr>mm_init = basic_init, mm_malloc = basic_malloc, mm_free = basic_free,
     mm_realloc = basic_realloc cpy, mm_checkheap = basic_checkheap\<rparr>"

subsection \<open>The search does not end\<close>

text \<open>A block whose header is 0 is neither the end nor unused, and its next block is itself.\<close>

lemma basic_find_stuck:
  assumes "STAT64 p s = Some 0" "SIZE64 p s = Some 0" "p < 2 ^ 64"
  shows "basic_find n p s = None"
proof -
  have "\<not> (x = p \<and> t = s)" if "basic_find n x t = Some y" for n x t y
  proof (rule basic_find.raw_induct [where P = "\<lambda>n x t y. \<not> (x = p \<and> t = s)", OF _ that])
    fix f :: "nat \<Rightarrow> addr \<Rightarrow> 'a memlib_scheme \<Rightarrow> (addr \<times> bool) option" and n x t y
    assume ih: "\<And>n x t y. f n x t = Some y \<Longrightarrow> \<not> (x = p \<and> t = s)"
      and step: "(STAT64 x t \<bind> (\<lambda>st. if st = BORDER then Some (x, False)
        else SIZE64 x t \<bind> (\<lambda>k. if st = UNUSED \<and> n < k then Some (x, True)
          else NEXT_PTR x t \<bind> (\<lambda>q. f n q t)))) = Some y"
    show "\<not> (x = p \<and> t = s)"
    proof
      assume x: "x = p \<and> t = s"
      have "f n p s = Some y"
        using step x assms by (simp add: BORDER_def UNUSED_def NEXT_PTR_def add64_small)
      then show False using ih by blast
    qed
  qed
  then show ?thesis by (metis not_None_eq)
qed

lemma load64_zero: "(\<And>i. i < 8 \<Longrightarrow> m (a + i) = 0) \<Longrightarrow> load64 m a = 0"
proof -
  assume z: "\<And>i. i < 8 \<Longrightarrow> m (a + i) = 0"
  have "load_le (\<lambda>_. 0) a k = 0" for k by (induction k arbitrary: a) simp_all
  then show ?thesis using load64_cong [of m a "\<lambda>_. 0"] z by (simp add: load64_def)
qed

lemma tag_fields64:
  assumes "8 dvd n" "n < 2 ^ 31" "st < 8"
  shows "u64 (ZIP n st) = n + st" "UNZIP_SIZE64 (n + st) = n" "UNZIP_STAT (n + st) = st"
proof -
  have lt: "n + st < 2 ^ 64" using assms by simp
  show "u64 (ZIP n st) = n + st" using ZIP_value [of n st] assms lt by (simp add: u64_small)
  from assms obtain k where k: "n = 8 * k" by (auto elim: dvdE)
  then have "(n + st) div 8 = k" "(n + st) mod 8 = st" using assms(3) by simp_all
  then show "UNZIP_SIZE64 (n + st) = n" "UNZIP_STAT (n + st) = st"
    using and_minus_8 [OF lt] k by (simp_all add: UNZIP_SIZE64_def UNZIP_STAT_mod)
qed


subsection \<open>Two requests\<close>

lemma GET64_eq: "mapped s a 8 \<Longrightarrow> GET64 a s = Some (load64 (bytes s) a)"
  by (simp add: GET64_def)

lemma block_fields64:
  assumes "mapped s (p - 8) 8" "load64 (bytes s) (p - 8) = n + st" "8 \<le> p" "p < 2 ^ 63" "8 dvd n" "n < 2 ^ 31" "st < 8"
  shows "HDR64 p = p - 8" "SIZE64 p s = Some n" "STAT64 p s = Some st" "NEXT_PTR p s = Some (p + n)"
    "16 \<le> n \<Longrightarrow> FTR64 p s = Some (p + n - 16)"
proof -
  have h: "HDR64 p = p - 8" using assms(3,4) by (simp add: HDR64_def sub64_small)
  show "HDR64 p = p - 8" by (rule h)
  show "SIZE64 p s = Some n" "STAT64 p s = Some st"
    using h assms tag_fields64(2,3) [OF assms(5-7)] by (simp_all add: SIZE64_def STAT64_def GET64_eq)
  then show "NEXT_PTR p s = Some (p + n)" "16 \<le> n \<Longrightarrow> FTR64 p s = Some (p + n - 16)"
    using assms(4,6) by (simp_all add: NEXT_PTR_def FTR64_def add64_small sub64_small)
qed

text \<open>The states after \<open>mm_init\<close> and after the first \<open>malloc\<close>, which takes a block of \<open>c\<close> bytes.\<close>

definition basic_ready :: "'p basic_state_scheme \<Rightarrow> 'p basic_state_scheme" where
  "basic_ready s = s\<lparr>mem_brk := heap s + 16, basic_base := heap s, block_list := heap s + 8,
     bytes := store64 (store64 (bytes s) (heap s) (ZIP 0 BORDER)) (heap s + 8) (ZIP 0 BORDER)\<rparr>"

definition basic_tagged :: "nat \<Rightarrow> addr \<Rightarrow> (addr \<Rightarrow> 8 word) \<Rightarrow> addr \<Rightarrow> 8 word" where
  "basic_tagged c a m = store64 (store64 m a (ZIP c USED)) (a + c - 8) (ZIP c USED)"

definition basic_one :: "nat \<Rightarrow> 'p basic_state_scheme \<Rightarrow> 'p basic_state_scheme" where
  "basic_one c s = (basic_ready s)\<lparr>mem_brk := heap s + 16 + c,
     bytes := store64 (basic_tagged c (heap s) (bytes (basic_ready s))) (heap s + 8 + c) (ZIP 0 BORDER)\<rparr>"

lemma basic_fields [simp]:
  "heap (basic_ready s) = heap s" "mem_max_addr (basic_ready s) = mem_max_addr s" "block_list (basic_ready s) = heap s + 8"
  "heap (basic_one c s) = heap s" "mem_max_addr (basic_one c s) = mem_max_addr s" "block_list (basic_one c s) = heap s + 8"
  by (simp_all add: basic_ready_def basic_one_def)

lemma basic_init_ready:
  assumes ok: "mem_ok s" "mem_brk s = heap s" and room: "heap s + 16 \<le> mem_max_addr s"
  shows "basic_init s = Some (0, basic_ready s)"
proof -
  note mk = mem_okD [OF ok(1)] ok(2)
  have "ALIGN (2 * SIZE_T_SIZE) = 16" "ALIGN SIZE_T_SIZE = 8" by (simp_all add: ALIGN_small)
  moreover have "mem_sbrk (int 16) s = (heap s, s\<lparr>mem_brk := heap s + 16\<rparr>)"
    using mem_sbrk_int [of s 16] mk by (simp add: MAX_HEAP_def)
  moreover have "add64 (heap s) 8 = heap s + 8" using mk by (simp add: add64_small MAX_HEAP_def)
  ultimately show ?thesis
    using room by (simp add: basic_init_def Let_def SET64_def basic_ready_def mapped_def)
qed

text \<open>The tags of the new block are the words at the end of the heap.\<close>

lemma basic_tags_used:
  assumes room: "heap t + 16 + c \<le> mem_max_addr t" and lt: "heap t + 16 + c < 2 ^ 63"
    and c: "8 dvd c" "24 \<le> c" "c < 2 ^ 31"
  shows "basic_tags (heap t + 8) c USED t = Some (t\<lparr>bytes := basic_tagged c (heap t) (bytes t)\<rparr>)"
    "NEXT_PTR (heap t + 8) (t\<lparr>bytes := basic_tagged c (heap t) (bytes t)\<rparr>) = Some (heap t + 8 + c)"
proof -
  let ?p = "heap t + 8" and ?b = "store64 (bytes t) (heap t) (ZIP c USED)"
  have p8: "8 \<le> ?p" "?p < 2 ^ 63" "?p - 8 = heap t" using lt by simp_all
  have z: "u64 (ZIP c USED) = c + USED" using tag_fields64(1) [OF c(1,3), of USED] by (simp add: USED_def)
  have w: "load64 ?b (heap t) = c + USED" "load64 (basic_tagged c (heap t) (bytes t)) (heap t) = c + USED"
    using z c(2) by (simp_all add: basic_tagged_def load_store64_other)
  have m: "mapped (t\<lparr>bytes := b\<rparr>) (?p - 8) 8" "mapped (t\<lparr>bytes := b\<rparr>) (heap t + c - 8) 8" "mapped t (heap t) 8" for b
    using room c(2) by (auto simp: mapped_def)
  have f: "FTR64 ?p (t\<lparr>bytes := ?b\<rparr>) = Some (heap t + c - 8)" "HDR64 ?p = heap t"
    using block_fields64(1,5) [OF m(1) _ p8(1,2) c(1,3), of ?b USED] w(1) c(2) p8(3) by (simp_all add: USED_def)
  show "NEXT_PTR ?p (t\<lparr>bytes := basic_tagged c (heap t) (bytes t)\<rparr>) = Some (heap t + 8 + c)"
    using block_fields64(4) [OF m(1) _ p8(1,2) c(1,3), of _ USED] w(2) p8(3) by (simp add: USED_def)
  show "basic_tags ?p c USED t = Some (t\<lparr>bytes := basic_tagged c (heap t) (bytes t)\<rparr>)"
    using f m(2,3) by (simp add: basic_tags_def SET64_def basic_tagged_def)
qed

lemma basic_block:
  assumes "mem_ok s" "heap s + 16 + align8 (n + 16) \<le> mem_max_addr s"
  shows "n + 16 \<le> align8 (n + 16)" "8 dvd align8 (n + 16)" "0 < n \<Longrightarrow> 24 \<le> align8 (n + 16)"
    "align8 (n + 16) < 2 ^ 31" "ALIGN (add64 n (2 * SIZE_T_SIZE)) = align8 (n + 16)"
    "heap s + 16 + align8 (n + 16) < 2 ^ 63"
proof -
  show a: "n + 16 \<le> align8 (n + 16)" "8 dvd align8 (n + 16)" using align8_bounds [of "n + 16"] by simp_all
  then show "0 < n \<Longrightarrow> 24 \<le> align8 (n + 16)" by presburger
  have l: "align8 (n + 16) < 2 ^ 31" "n + 23 < 2 ^ 31" using assms(2) mem_okD [OF assms(1)] a(1) by (simp_all add: MAX_HEAP_def)
  then show "align8 (n + 16) < 2 ^ 31" "ALIGN (add64 n (2 * SIZE_T_SIZE)) = align8 (n + 16)"
    by (simp_all add: add64_small ALIGN_small align8_def)
  show "heap s + 16 + align8 (n + 16) < 2 ^ 63" using assms(2) mem_okD [OF assms(1)] by simp
qed

lemma basic_first_malloc:
  assumes ok: "mem_ok s" "mem_brk s = heap s" and n: "0 < n" and room: "heap s + 16 + align8 (n + 16) \<le> mem_max_addr s"
  shows "basic_malloc n (basic_ready s) = Some (heap s + 8, basic_one (align8 (n + 16)) s)"
proof -
  let ?c = "align8 (n + 16)" and ?s = "basic_ready s"
  note b = basic_block [OF ok(1) room] and mk = mem_okD [OF ok(1)]
  have "load64 (bytes ?s) (heap s) = 0 + BORDER"
    using tag_fields64(1) [of 0 BORDER] by (simp add: basic_ready_def load_store64_other BORDER_def)
  moreover have "mapped ?s (heap s + 8 - 8) 8" using room by (simp add: mapped_def)
  ultimately have find: "basic_find ?c (heap s + 8) ?s = Some (heap s + 8, False)"
    using block_fields64(3) [of ?s "heap s + 8" 0 BORDER] b(6) by (simp add: basic_find.simps BORDER_def)
  define t where "t = ?s\<lparr>mem_brk := heap s + 16 + ?c\<rparr>"
  have brk: "mem_sbrk (s32 ?c) ?s = (heap s + 16, t)"
    using mem_sbrk_int [of ?s ?c] room b(4) by (simp add: basic_ready_def t_def s32_small)
  have ht: "heap t = heap s" "mem_max_addr t = mem_max_addr s" "bytes t = bytes ?s" by (simp_all add: t_def)
  have tags: "basic_tags (heap s + 8) ?c USED t = Some (t\<lparr>bytes := basic_tagged ?c (heap s) (bytes ?s)\<rparr>)"
    "NEXT_PTR (heap s + 8) (t\<lparr>bytes := basic_tagged ?c (heap s) (bytes ?s)\<rparr>) = Some (heap s + 8 + ?c)"
    using basic_tags_used [of t ?c] room b(2,4,6) b(3) [OF n] by (simp_all add: ht)
  have "basic_one ?c s = t\<lparr>bytes := store64 (basic_tagged ?c (heap s) (bytes ?s)) (heap s + 8 + ?c) (ZIP 0 BORDER)\<rparr>"
    by (simp add: basic_one_def t_def)
  then show ?thesis
    using n find brk tags ht room unfolding basic_malloc_def Let_def b(5) by (simp add: SET64_def mapped_def)
qed

text \<open>The header behind the first block is a word of the fresh heap.\<close>

lemma basic_one_words:
  assumes c: "8 dvd c" "24 \<le> c" "c < 2 ^ 31" and room: "heap s + 16 + c \<le> mem_max_addr s"
    and fresh: "\<forall>a. heap s \<le> a \<and> a < mem_max_addr s \<longrightarrow> bytes s a = 0"
  shows "load64 (bytes (basic_one c s)) (heap s) = c + USED" "load64 (bytes (basic_one c s)) (heap s + c) = 0"
proof -
  have "u64 (ZIP c USED) = c + USED" using tag_fields64(1) [OF c(1,3), of USED] by (simp add: USED_def)
  then show "load64 (bytes (basic_one c s)) (heap s) = c + USED"
    using c(2) by (simp add: basic_one_def basic_tagged_def load_store64_other)
  have "load64 (bytes s) (heap s + c) = 0" by (rule load64_zero) (use fresh room in auto)
  then show "load64 (bytes (basic_one c s)) (heap s + c) = 0"
    using c(2) by (simp add: basic_one_def basic_tagged_def basic_ready_def load_store64_other)
qed

lemma basic_malloc_stuck:
  assumes w: "load64 (bytes t) (heap t) = c + USED" "load64 (bytes t) (heap t + c) = 0" and list: "block_list t = heap t + 8"
    and c: "8 dvd c" "c < 2 ^ 31" and room: "heap t + 16 + c \<le> mem_max_addr t" and lt: "heap t + 16 + c < 2 ^ 63"
    and k: "0 < k"
  shows "basic_malloc k t = None"
proof -
  let ?p = "heap t + 8"
  have p8: "8 \<le> ?p" "?p < 2 ^ 63" "?p - 8 = heap t" "?p + c - 8 = heap t + c" using lt by simp_all
  have m: "mapped t (?p - 8) 8" "mapped t (?p + c - 8) 8" using room by (simp_all add: mapped_def)
  have q: "STAT64 ?p t = Some USED" "SIZE64 ?p t = Some c" "NEXT_PTR ?p t = Some (?p + c)"
    using block_fields64(2-4) [OF m(1) _ p8(1,2) c, of USED] w(1) p8(3) by (simp_all add: USED_def)
  have "STAT64 (?p + c) t = Some 0" "SIZE64 (?p + c) t = Some 0"
    using block_fields64(2,3) [OF m(2), of 0 0] w(2) lt p8(4) by simp_all
  then have "basic_find j (?p + c) t = None" for j by (rule basic_find_stuck) (use lt in simp)
  then have "basic_find j ?p t = None" for j
    using q by (simp add: basic_find.simps [of j ?p] USED_def UNUSED_def BORDER_def)
  then show ?thesis using k list by (simp add: basic_malloc_def Let_def)
qed

text \<open>C29: \<open>malloc\<close> of mm-basic.c writes the end mark eight bytes too far, so the header of the block behind
  the first one keeps the 0 of a fresh heap. Whatever the client writes into the first payload, the
  search of the second \<open>malloc\<close> reaches that header and never ends.\<close>

theorem basic_second_malloc_hangs:
  assumes ok: "mem_ok s" "mem_brk s = heap s" and fresh: "\<forall>a. heap s \<le> a \<and> a < mem_max_addr s \<longrightarrow> bytes s a = 0"
    and n: "0 < n" "0 < k" "heap s + 16 + align8 (n + 16) \<le> mem_max_addr s"
  shows "\<exists>s0 p s1. basic_init s = Some (0, s0) \<and> basic_malloc n s0 = Some (p, s1) \<and> heap s1 \<le> p \<and> p + n \<le> mem_brk s1 \<and>
    (\<forall>m. (\<forall>a. a < p \<or> p + n \<le> a \<longrightarrow> m a = bytes s1 a) \<longrightarrow> basic_malloc k (s1\<lparr>bytes := m\<rparr>) = None)"
proof -
  let ?c = "align8 (n + 16)" and ?p = "heap s + 8"
  define s1 where "s1 = basic_one ?c s"
  note b = basic_block [OF ok(1) n(3)]
  note c = b(2) b(3) [OF n(1)] b(4)
  have w: "load64 (bytes s1) (heap s) = ?c + USED" "load64 (bytes s1) (heap s + ?c) = 0"
    unfolding s1_def by (rule basic_one_words [OF c n(3) fresh])+
  have hang: "basic_malloc k (s1\<lparr>bytes := m\<rparr>) = None" if m: "\<forall>a. a < ?p \<or> ?p + n \<le> a \<longrightarrow> m a = bytes s1 a" for m
  proof (rule basic_malloc_stuck [OF _ _ _ c(1,3) _ _ n(2)])
    have "load64 m (heap s) = load64 (bytes s1) (heap s)" "load64 m (heap s + ?c) = load64 (bytes s1) (heap s + ?c)"
      by (rule load64_cong, use m b(1) in simp)+
    with w show "load64 (bytes (s1\<lparr>bytes := m\<rparr>)) (heap (s1\<lparr>bytes := m\<rparr>)) = ?c + USED"
      "load64 (bytes (s1\<lparr>bytes := m\<rparr>)) (heap (s1\<lparr>bytes := m\<rparr>) + ?c) = 0" by (simp_all add: s1_def)
  qed (use n(3) b(6) in \<open>simp_all add: s1_def\<close>)
  have "basic_init s = Some (0, basic_ready s)" using n(3) by (intro basic_init_ready ok) simp
  moreover have "basic_malloc n (basic_ready s) = Some (?p, s1)" unfolding s1_def by (rule basic_first_malloc [OF ok n(1,3)])
  moreover have "?p + n \<le> mem_brk s1" "heap s1 \<le> ?p" using b(1) by (simp_all add: s1_def basic_one_def)
  ultimately show ?thesis using hang by blast
qed

definition basic_heap0 :: basic_state where
  "basic_heap0 = mem_init 0x800000000 \<lparr>heap = 0, mem_brk = 0, mem_max_addr = 0, errno = 0, bytes = (\<lambda>_. 0), basic_base = 0, block_list = 0\<rparr>"

theorem basic_second_malloc_hangs_witness:
  "\<exists>s0 p s1. basic_init basic_heap0 = Some (0, s0) \<and> basic_malloc 1 s0 = Some (p, s1) \<and> basic_malloc 1 s1 = None"
proof -
  have h: "mem_ok basic_heap0" "mem_brk basic_heap0 = heap basic_heap0" "heap basic_heap0 = 0x800000000"
    "mem_max_addr basic_heap0 = 0x800000000 + MAX_HEAP"
    by (simp_all add: basic_heap0_def mem_ok_init MAX_HEAP_def) (simp_all add: mem_init_def Let_def MAX_HEAP_def)
  have z: "bytes basic_heap0 a = 0" for a by (simp add: basic_heap0_def mem_init_def Let_def fill_bytes_at)
  obtain s0 p s1 where r: "basic_init basic_heap0 = Some (0, s0)" "basic_malloc 1 s0 = Some (p, s1)"
    "\<forall>m. (\<forall>a. a < p \<or> p + 1 \<le> a \<longrightarrow> m a = bytes s1 a) \<longrightarrow> basic_malloc 1 (s1\<lparr>bytes := m\<rparr>) = None"
    using basic_second_malloc_hangs [OF h(1,2), of 1 1] z h by (auto simp: align8_def MAX_HEAP_def)
  have "basic_malloc 1 (s1\<lparr>bytes := bytes s1\<rparr>) = None" using r(3) by blast
  then show ?thesis using r(1,2) by auto
qed

end
