(* ===== verification/Get_Trace.thy ===== *)
theory Get_Trace
  imports Mem C_Text "HOL-Library.Monad_Syntax"
begin

section \<open>The trace recorder (practice-2/practice\_2-2/traces/get-trace.c)\<close>

text \<open>
  A replacement of \<open>malloc\<close>, \<open>calloc\<close>, \<open>realloc\<close> and \<open>free\<close> that takes blocks from a static array, never
  reuses them, and writes every request to a file through a buffer of lines. What the file depends on
  outside the program is the record \<open>trace_env\<close>: the address of the array, the process id, the answers of
  \<open>getenv\<close> and \<open>readlink\<close> and which file names \<open>open\<close> creates; a write to the new file is complete. \<open>None\<close> is a failed
  assertion, an overflow of a character array or an access outside the array of blocks.
\<close>

subsection \<open>State\<close>

record trace_env =
  mem_base :: addr
  pid :: nat
  trace_output :: "string option"
  exe_link :: "string option"
  creates :: "string \<Rightarrow> bool"

definition MEM_CELLS :: nat where "MEM_CELLS = 2 ^ 26"
definition BUFFER_LEN :: nat where "BUFFER_LEN = 4000"
definition LINE_LEN :: nat where "LINE_LEN = 64"

record recorder =
  cells :: memory
  myheapend :: int
  outfd :: "string option"
  fd_open :: bool
  file_text :: string
  line_buffer :: "nat \<Rightarrow> string"
  nbuffered :: nat
  ptr_buf :: "bool \<Rightarrow> string"
  which :: bool
  exit_handlers :: nat

definition recorder_start :: recorder where
  "recorder_start = \<lparr>cells = (\<lambda>_. 0), myheapend = 0, outfd = None, fd_open = False, file_text = [],
     line_buffer = (\<lambda>_. []), nbuffered = 0, ptr_buf = (\<lambda>_. []), which = False, exit_handlers = 0\<rparr>"

definition trace_header :: string where
  "trace_header = concat (map (\<lambda>l. l @ [NL])
     [''# Memory trace collected by get-trace.o'', ''# Use produce-simple-trace to translate to the format'',
      ''# used by the driver.'', ''# Format:'', ''# m p u     => p = malloc(u);'',
      ''# c p u1 u2 => p = calloc(u1,u2);'', ''# r p1 p2 u => p1 = realloc(p2, u);'', ''# f p       => free(p);'', ''''])"

subsection \<open>The output file\<close>

definition NAME_LEN :: nat where "NAME_LEN = 4096"

text \<open>\<open>sprintf\<close> into an array of \<open>n\<close> characters.\<close>

definition sprintf :: "nat \<Rightarrow> string \<Rightarrow> string option" where
  "sprintf n s = (if length s < n then Some s else None)"

text \<open>The loop over the suffixes.\<close>

function try_open :: "(string \<Rightarrow> bool) \<Rightarrow> string \<Rightarrow> nat \<Rightarrow> string option" where
  "try_open opn basename trynum =
     (if trynum < 10000
      then case sprintf NAME_LEN (basename @ CHR ''.'' # show_nat (Suc trynum)) of
             None \<Rightarrow> None
           | Some namebuf \<Rightarrow> if opn namebuf then Some namebuf else try_open opn basename (Suc trynum)
      else None)"
  by pat_completeness auto
termination
  by (relation "measure (\<lambda>(opn, basename, trynum). 10000 - trynum)") auto

declare try_open.simps [simp del]

definition open_trace :: "trace_env \<Rightarrow> string option" where
  "open_trace e = do {
     let outname = (case trace_output e of None \<Rightarrow> ''/tmp/trace'' | Some s \<Rightarrow> s);
     namebuf \<leftarrow> sprintf NAME_LEN (''/proc/'' @ show_nat (u32 (pid e)) @ ''/exe'');
     namebuf \<leftarrow> (case exe_link e of
                   None \<Rightarrow> Some namebuf
                 | Some link \<Rightarrow>
                     if length link < NAME_LEN
                     then sprintf NAME_LEN (outname @ CHR ''.'' # map (\<lambda>c. if c = CHR ''/'' then CHR ''_'' else c) link)
                     else None);
     if creates e namebuf then Some namebuf else try_open (creates e) namebuf 0 }"

definition trace_write :: "string \<Rightarrow> recorder \<Rightarrow> recorder" where
  "trace_write t s = (if fd_open s then s\<lparr>file_text := file_text s @ t\<rparr> else s)"

definition clear_buffer :: "trace_env \<Rightarrow> recorder \<Rightarrow> recorder option" where
  "clear_buffer e s = do {
     s \<leftarrow> (if outfd s = None
           then do {
             name \<leftarrow> open_trace e;
             Some (trace_write trace_header (s\<lparr>outfd := Some name, fd_open := True, file_text := []\<rparr>)) }
           else Some s);
     let s = for_range 0 (nbuffered s) (\<lambda>i s. trace_write (line_buffer s i) s) s;
     Some (s\<lparr>nbuffered := 0\<rparr>) }"

definition clear_buffer_and_close :: "trace_env \<Rightarrow> recorder \<Rightarrow> recorder option" where
  "clear_buffer_and_close e s = do { s \<leftarrow> clear_buffer e s; Some (s\<lparr>fd_open := False\<rparr>) }"

text \<open>\<open>t\<close> is the formatted text; it passes through a buffer of 256 characters to a line of the buffer.\<close>

definition mywrite :: "trace_env \<Rightarrow> string \<Rightarrow> recorder \<Rightarrow> recorder option" where
  "mywrite e t s = do {
     buf \<leftarrow> sprintf 256 t;
     l \<leftarrow> sprintf LINE_LEN buf;
     let s = s\<lparr>line_buffer := (line_buffer s)(nbuffered s := l), nbuffered := nbuffered s + 1\<rparr>;
     if nbuffered s = BUFFER_LEN then clear_buffer e s else Some s }"

subsection \<open>Pointers as text\<close>

definition hex_lower :: "nat \<Rightarrow> char" where "hex_lower n = char_of (if n < 10 then 48 + n else 87 + n)"

fun show_hex :: "nat \<Rightarrow> string" where
  "show_hex n = (if n < 16 then [hex_lower n] else show_hex (n div 16) @ [hex_lower (n mod 16)])"

declare show_hex.simps [simp del]

definition ptr_text :: "trace_env \<Rightarrow> addr \<Rightarrow> string" where
  "ptr_text e p = (if p = 0 then ''0'' else ''0x'' @ show_hex p @ CHR ''/'' # show_nat (u32 (pid e)))"

text \<open>The two static buffers are used in turn; the answer is the buffer that was written.\<close>

definition print_ptr :: "trace_env \<Rightarrow> addr \<Rightarrow> recorder \<Rightarrow> bool \<times> recorder" where
  "print_ptr e p s =
     (let mine = which s;
          s = s\<lparr>ptr_buf := (ptr_buf s)(mine := ptr_text e p)\<rparr>
      in (mine, s\<lparr>which := \<not> mine\<rparr>))"

subsection \<open>The four functions\<close>

definition init :: "recorder \<Rightarrow> recorder" where
  "init s = (if myheapend s = 0 then s\<lparr>exit_handlers := exit_handlers s + 1\<rparr> else s)"

definition take_cells :: "trace_env \<Rightarrow> nat \<Rightarrow> recorder \<Rightarrow> addr \<times> recorder" where
  "take_cells e sz s =
     (to_u64 (int (mem_base e) + 8 * myheapend s),
      s\<lparr>myheapend := wrap32 (myheapend s + int (add64 (sub64 sz 1 div 8) 1))\<rparr>)"

definition in_array :: "trace_env \<Rightarrow> addr \<Rightarrow> nat \<Rightarrow> bool" where
  "in_array e a n \<longleftrightarrow> n = 0 \<or> mem_base e \<le> a \<and> a + n \<le> mem_base e + 8 * MEM_CELLS"

definition rec_malloc :: "trace_env \<Rightarrow> nat \<Rightarrow> recorder \<Rightarrow> (addr \<times> recorder) option" where
  "rec_malloc e sz s =
     (let s = init s;
          (p, s) = take_cells e sz s;
          (a, s) = print_ptr e p s
      in do {
        s \<leftarrow> mywrite e (''m '' @ ptr_buf s a @ SP # show_nat (u32 sz) @ [NL]) s;
        Some (p, s) })"

definition rec_calloc :: "trace_env \<Rightarrow> nat \<Rightarrow> nat \<Rightarrow> recorder \<Rightarrow> (addr \<times> recorder) option" where
  "rec_calloc e sz1 sz2 s =
     (let s = init s;
          sz = mul64 sz1 sz2;
          (p, s) = take_cells e sz s
      in if \<not> in_array e p sz then None
         else (let s = s\<lparr>cells := fill_bytes p 0 sz (cells s)\<rparr>;
                   (a, s) = print_ptr e p s
               in do {
                 s \<leftarrow> mywrite e (''c '' @ ptr_buf s a @ SP # show_nat (u32 sz1) @ SP # show_nat (u32 sz2) @ [NL]) s;
                 Some (p, s) }))"

text \<open>The byte by byte copy, which goes upwards.\<close>

definition copy_up :: "addr \<Rightarrow> addr \<Rightarrow> nat \<Rightarrow> memory \<Rightarrow> memory" where
  "copy_up p q n m = for_range 0 n (\<lambda>i m. m(p + i := m (q + i))) m"

type_synonym mem_copier = "addr \<Rightarrow> addr \<Rightarrow> nat \<Rightarrow> memory \<Rightarrow> memory"

text \<open>\<open>memcpy\<close> is an argument: the two ranges can overlap, and then its result is not determined.\<close>

definition rec_realloc :: "mem_copier \<Rightarrow> trace_env \<Rightarrow> addr \<Rightarrow> nat \<Rightarrow> recorder \<Rightarrow> (addr \<times> recorder) option" where
  "rec_realloc memcpy e oldp sz s =
     (let s = init s;
          (p, s) = (if sz = 0 then (0, s) else take_cells e sz s)
      in if sz \<noteq> 0 \<and> oldp \<noteq> 0 \<and> \<not> (in_array e p sz \<and> in_array e oldp sz) then None
         else (let s = (if sz \<noteq> 0 \<and> oldp \<noteq> 0
                        then s\<lparr>cells := copy_up p oldp sz (memcpy p oldp sz (cells s))\<rparr> else s);
                   (a, s) = print_ptr e p s;
                   (b, s) = print_ptr e oldp s
               in do {
                 s \<leftarrow> mywrite e (''r '' @ ptr_buf s a @ SP # ptr_buf s b @ SP # show_nat (u32 sz) @ [NL]) s;
                 Some (p, s) }))"

definition rec_free :: "trace_env \<Rightarrow> addr \<Rightarrow> recorder \<Rightarrow> recorder option" where
  "rec_free e p s =
     (let s = init s; (a, s) = print_ptr e p s
      in mywrite e (''f '' @ ptr_buf s a @ [NL]) s)"

subsection \<open>A recorded program\<close>

datatype request = Malloc nat | Calloc nat nat | Realloc addr nat | Free addr

fun record_one :: "mem_copier \<Rightarrow> trace_env \<Rightarrow> request \<Rightarrow> recorder \<Rightarrow> (addr \<times> recorder) option" where
  "record_one memcpy e (Malloc n) s = rec_malloc e n s"
| "record_one memcpy e (Calloc n k) s = rec_calloc e n k s"
| "record_one memcpy e (Realloc q n) s = rec_realloc memcpy e q n s"
| "record_one memcpy e (Free q) s = map_option (Pair 0) (rec_free e q s)"

fun record_all :: "mem_copier \<Rightarrow> trace_env \<Rightarrow> request list \<Rightarrow> recorder \<Rightarrow> (addr list \<times> recorder) option" where
  "record_all memcpy e [] s = Some ([], s)"
| "record_all memcpy e (r # rs) s = do {
     (p, s) \<leftarrow> record_one memcpy e r s;
     (ps, s) \<leftarrow> record_all memcpy e rs s;
     Some (p # ps, s) }"

text \<open>At the exit the registered handlers run.\<close>

primrec run_handlers :: "trace_env \<Rightarrow> nat \<Rightarrow> recorder \<Rightarrow> recorder option" where
  "run_handlers e 0 s = Some s"
| "run_handlers e (Suc n) s = clear_buffer_and_close e s \<bind> run_handlers e n"

definition record_program :: "mem_copier \<Rightarrow> trace_env \<Rightarrow> request list \<Rightarrow> (addr list \<times> recorder) option" where
  "record_program memcpy e rs = do {
     (ps, s) \<leftarrow> record_all memcpy e rs recorder_start;
     s \<leftarrow> run_handlers e (exit_handlers s) s;
     Some (ps, s) }"

end
