(* ===== verification/Get_Trace_Correct.thy ===== *)
theory Get_Trace_Correct
  imports Get_Trace
begin

section \<open>What the trace recorder promises\<close>

text \<open>
  The buffer of lines and the two pointer buffers are invisible: the file holds one line for every
  request, in order. The blocks that are answered do not overlap, and \<open>realloc\<close> keeps the content.
\<close>

subsection \<open>The reference: addresses and lines without buffers\<close>

definition cells_for :: "nat \<Rightarrow> nat" where "cells_for n = (n + 7) div 8"

fun request_size :: "request \<Rightarrow> nat" where
  "request_size (Malloc n) = n"
| "request_size (Calloc n k) = n * k"
| "request_size (Realloc q n) = n"
| "request_size (Free q) = 0"

fun block_for :: "trace_env \<Rightarrow> nat \<Rightarrow> request \<Rightarrow> addr" where
  "block_for e k (Realloc q n) = (if n = 0 then 0 else mem_base e + 8 * k)"
| "block_for e k (Free q) = 0"
| "block_for e k r = mem_base e + 8 * k"

fun blocks_for :: "trace_env \<Rightarrow> nat \<Rightarrow> request list \<Rightarrow> addr list" where
  "blocks_for e k [] = []"
| "blocks_for e k (r # rs) = block_for e k r # blocks_for e (k + cells_for (request_size r)) rs"

text \<open>The cells in use after the requests.\<close>

fun used_after :: "nat \<Rightarrow> request list \<Rightarrow> nat" where
  "used_after k [] = k"
| "used_after k (r # rs) = used_after (k + cells_for (request_size r)) rs"

fun line_for :: "trace_env \<Rightarrow> addr \<Rightarrow> request \<Rightarrow> string" where
  "line_for e p (Malloc n) = ''m '' @ ptr_text e p @ SP # show_nat n @ [NL]"
| "line_for e p (Calloc n k) = ''c '' @ ptr_text e p @ SP # show_nat n @ SP # show_nat k @ [NL]"
| "line_for e p (Realloc q n) = ''r '' @ ptr_text e p @ SP # ptr_text e q @ SP # show_nat n @ [NL]"
| "line_for e p (Free q) = ''f '' @ ptr_text e q @ [NL]"

definition lines_for :: "trace_env \<Rightarrow> request list \<Rightarrow> addr list \<Rightarrow> string" where
  "lines_for e rs ps = concat (map2 (line_for e) ps rs)"

text \<open>Sizes that a \<open>%u\<close> can show, and pointers that are null or answered earlier.\<close>

fun request_ok :: "trace_env \<Rightarrow> nat \<Rightarrow> request \<Rightarrow> bool" where
  "request_ok e k (Malloc n) = True"
| "request_ok e k (Calloc n j) \<longleftrightarrow> n < 2 ^ 32 \<and> j < 2 ^ 32"
| "request_ok e k (Realloc q n) \<longleftrightarrow> q = 0 \<or> (mem_base e \<le> q \<and> q \<le> mem_base e + 8 * k)"
| "request_ok e k (Free q) \<longleftrightarrow> q = 0 \<or> (mem_base e \<le> q \<and> q \<le> mem_base e + 8 * k)"

fun requests_ok :: "trace_env \<Rightarrow> nat \<Rightarrow> request list \<Rightarrow> bool" where
  "requests_ok e k [] \<longleftrightarrow> k \<le> MEM_CELLS"
| "requests_ok e k (r # rs) \<longleftrightarrow> request_ok e k r \<and> requests_ok e (k + cells_for (request_size r)) rs"

definition env_ok :: "trace_env \<Rightarrow> bool" where
  "env_ok e \<longleftrightarrow> 0 < mem_base e \<and> mem_base e + 8 * MEM_CELLS \<le> 2 ^ 47 \<and> pid e < 10 ^ 7 \<and> open_trace e \<noteq> None"

subsection \<open>Lengths\<close>

lemma length_show_hex: "n < 16 ^ Suc k \<Longrightarrow> length (show_hex n) \<le> Suc k"
proof (induction k arbitrary: n)
  case (Suc k)
  have "n div 16 < 16 ^ Suc k" using Suc.prems by (simp add: less_mult_imp_div_less)
  from Suc.IH [OF this] show ?case by (subst show_hex.simps) simp
qed (simp add: show_hex.simps)

lemma length_ptr_text:
  assumes "env_ok e" "p < 2 ^ 48"
  shows "length (ptr_text e p) \<le> 22"
proof -
  have "p < 16 ^ Suc 11" using assms(2) by simp
  from length_show_hex [OF this] have "length (show_hex p) \<le> 12" by simp
  moreover have "length (show_nat (u32 (pid e))) \<le> 7"
    using length_show_nat [of "pid e" 6] assms(1) by (simp add: env_ok_def u32_small)
  ultimately show ?thesis by (simp add: ptr_text_def)
qed

lemma length_line:
  assumes e: "env_ok e" and p: "p < 2 ^ 48" and r: "request_ok e k r" "8 * k \<le> 8 * MEM_CELLS" "request_size r < 2 ^ 32"
  shows "length (line_for e p r) < LINE_LEN"
proof -
  have n: "length (show_nat m) \<le> 10" if "m < 2 ^ 32" for m using length_show_nat [of m 9] that by simp
  have q: "q < 2 ^ 48" if "q = 0 \<or> (mem_base e \<le> q \<and> q \<le> mem_base e + 8 * k)" for q
    using that e r(2) by (auto simp: env_ok_def)
  note lp = length_ptr_text [OF e p]
  show ?thesis
  proof (cases r)
    case (Malloc m)
    then show ?thesis using lp n [of m] r(3) by (simp add: LINE_LEN_def)
  next
    case (Calloc m j)
    then show ?thesis using lp n [of m] n [of j] r(1) by (simp add: LINE_LEN_def)
  next
    case (Realloc q m)
    then show ?thesis using lp length_ptr_text [OF e q [of q]] n [of m] r(1,3) by (simp add: LINE_LEN_def)
  next
    case (Free q)
    then show ?thesis using length_ptr_text [OF e q [of q]] r(1) by (simp add: LINE_LEN_def)
  qed
qed

subsection \<open>The buffers are invisible\<close>

text \<open>What the file will hold once the buffer is cleared.\<close>

definition logged :: "recorder \<Rightarrow> string" where
  "logged s = (if outfd s = None then trace_header else file_text s) @ concat (map (line_buffer s) [0..<nbuffered s])"

definition rec_ok :: "recorder \<Rightarrow> bool" where
  "rec_ok s \<longleftrightarrow> nbuffered s < BUFFER_LEN \<and> (outfd s \<noteq> None \<longrightarrow> fd_open s)"

text \<open>The part of the state that the output does not touch.\<close>

definition same_blocks :: "recorder \<Rightarrow> recorder \<Rightarrow> bool" where
  "same_blocks s s' \<longleftrightarrow> cells s' = cells s \<and> myheapend s' = myheapend s \<and> exit_handlers s' = exit_handlers s"

lemma write_lines:
  assumes "fd_open s"
  shows "for_range 0 n (\<lambda>i s. trace_write (line_buffer s i) s) s =
    s\<lparr>file_text := file_text s @ concat (map (line_buffer s) [0..<n])\<rparr>"
  using assms by (induction n) (simp_all add: for_range_def trace_write_def)

lemma clear_buffer_log:
  assumes s: "outfd s \<noteq> None \<longrightarrow> fd_open s" and e: "env_ok e"
  obtains s' where "clear_buffer e s = Some s'" "file_text s' = logged s" "logged s' = logged s" "nbuffered s' = 0"
    "fd_open s'" "outfd s' \<noteq> None" "same_blocks s s'"
proof -
  obtain name where name: "open_trace e = Some name" using e by (auto simp: env_ok_def)
  define s1 where "s1 = (if outfd s = None then s\<lparr>outfd := Some name, fd_open := True, file_text := trace_header\<rparr> else s)"
  have s1: "fd_open s1" "outfd s1 \<noteq> None" "nbuffered s1 = nbuffered s" "line_buffer s1 = line_buffer s" "same_blocks s s1"
    "file_text s1 = (if outfd s = None then trace_header else file_text s)"
    using s by (simp_all add: s1_def same_blocks_def)
  have opened: "(if outfd s = None then do {
         name \<leftarrow> open_trace e;
         Some (trace_write trace_header (s\<lparr>outfd := Some name, fd_open := True, file_text := []\<rparr>)) } else Some s) = Some s1"
    by (simp add: name s1_def trace_write_def)
  have "clear_buffer e s = Some (s1\<lparr>file_text := logged s, nbuffered := 0\<rparr>)"
    unfolding clear_buffer_def opened by (simp add: write_lines [OF s1(1)] s1(3,4,6) logged_def)
  then show ?thesis
    using that [of "s1\<lparr>file_text := logged s, nbuffered := 0\<rparr>"] s1 by (simp add: logged_def same_blocks_def)
qed

lemma mywrite_log:
  assumes s: "rec_ok s" and e: "env_ok e" and t: "length t < LINE_LEN"
  obtains s' where "mywrite e t s = Some s'" "rec_ok s'" "logged s' = logged s @ t" "same_blocks s s'"
proof -
  define s1 where "s1 = s\<lparr>line_buffer := (line_buffer s)(nbuffered s := t), nbuffered := nbuffered s + 1\<rparr>"
  have fits: "sprintf 256 t = Some t" "sprintf LINE_LEN t = Some t" using t by (simp_all add: sprintf_def LINE_LEN_def)
  have lg: "logged s1 = logged s @ t" by (simp add: logged_def s1_def)
  have fd: "outfd s1 \<noteq> None \<longrightarrow> fd_open s1" "same_blocks s s1" using s by (simp_all add: s1_def rec_ok_def same_blocks_def)
  have eq: "mywrite e t s = (if nbuffered s1 = BUFFER_LEN then clear_buffer e s1 else Some s1)"
    by (simp add: mywrite_def fits s1_def)
  show ?thesis
  proof (cases "nbuffered s1 = BUFFER_LEN")
    case True
    obtain s' where "clear_buffer e s1 = Some s'" "logged s' = logged s1" "nbuffered s' = 0" "fd_open s'" "same_blocks s1 s'"
      by (rule clear_buffer_log [OF fd(1) e])
    then show ?thesis using that [of s'] eq True lg fd(2) by (simp add: rec_ok_def same_blocks_def BUFFER_LEN_def)
  next
    case False
    then have "rec_ok s1" using s fd(1) by (simp add: rec_ok_def s1_def)
    then show ?thesis using that [of s1] eq False lg fd(2) by simp
  qed
qed

subsection \<open>One request\<close>

fun cells_after :: "mem_copier \<Rightarrow> trace_env \<Rightarrow> nat \<Rightarrow> request \<Rightarrow> memory \<Rightarrow> memory" where
  "cells_after memcpy e k (Malloc n) m = m"
| "cells_after memcpy e k (Calloc n j) m = fill_bytes (mem_base e + 8 * k) 0 (n * j) m"
| "cells_after memcpy e k (Realloc q n) m =
     (if n \<noteq> 0 \<and> q \<noteq> 0 then copy_up (mem_base e + 8 * k) q n (memcpy (mem_base e + 8 * k) q n m) else m)"
| "cells_after memcpy e k (Free q) m = m"

lemma cells_for_bounds: "n \<le> 8 * cells_for n" "8 * cells_for n < n + 8"
  unfolding cells_for_def by presburger+

text \<open>A request of size 0 takes no cell: its size minus one wraps to a number of cells that vanishes in an \<open>int\<close>.\<close>

lemma wrap32_power61: "wrap32 (i + 2 ^ 61) = wrap32 i"
proof -
  have "(i + 2 ^ 61) mod 2 ^ 32 = (i mod 2 ^ 32 + 2 ^ 61 mod 2 ^ 32) mod 2 ^ 32" by (rule mod_add_eq [symmetric])
  then show ?thesis by (simp add: wrap32_def to_u32_def)
qed

lemma take_cells_eq:
  assumes e: "env_ok e" and k: "myheapend s = int k" "k + cells_for n \<le> MEM_CELLS"
  shows "take_cells e n s = (mem_base e + 8 * k, s\<lparr>myheapend := int (k + cells_for n)\<rparr>)"
proof -
  have b: "mem_base e + 8 * k < 2 ^ 64" "k + cells_for n < 2 ^ 31" "k < 2 ^ 31"
    using e k(2) by (simp_all add: env_ok_def MEM_CELLS_def)
  have p: "to_u64 (int (mem_base e) + 8 * int k) = mem_base e + 8 * k"
    using b(1) by (simp add: to_u64_def nat_mod_distrib flip: of_nat_add of_nat_mult)
  have "wrap32 (int k + int (add64 (sub64 n 1 div 8) 1)) = int (k + cells_for n)"
  proof (cases "n = 0")
    case True
    have "sub64 0 1 = 2 ^ 64 - 1" by (simp add: sub64_def u64_def)
    then have "add64 (sub64 n 1 div 8) 1 = 2 ^ 61" using True by (simp add: add64_def u64_def)
    then show ?thesis using wrap32_power61 [of "int k"] True b(3) by (simp add: wrap32_small cells_for_def)
  next
    case False
    have n: "n < 2 ^ 32" using cells_for_bounds(1) [of n] k(2) by (simp add: MEM_CELLS_def)
    obtain m where m: "n = Suc m" using False by (cases n) auto
    have "(m + 8) div 8 = m div 8 + 1" by simp
    then have "(n - 1) div 8 + 1 = cells_for n" by (simp add: cells_for_def m)
    moreover have "sub64 n 1 = n - 1" using False n by (simp add: sub64_small)
    moreover have "(n - 1) div 8 + 1 < 2 ^ 64" using n by (simp add: div_le_dividend)
    ultimately have "add64 (sub64 n 1 div 8) 1 = cells_for n" by (simp add: add64_small)
    then show ?thesis using b(2) by (simp add: wrap32_small flip: of_nat_add)
  qed
  then show ?thesis using p k(1) by (simp add: take_cells_def)
qed

definition logged_as :: "recorder \<Rightarrow> nat \<Rightarrow> memory \<Rightarrow> string \<Rightarrow> recorder \<Rightarrow> bool" where
  "logged_as s k m t s' \<longleftrightarrow> rec_ok s' \<and> logged s' = logged s @ t \<and> myheapend s' = int k \<and> cells s' = m \<and>
     exit_handlers s' = exit_handlers s + (if myheapend s = 0 then 1 else 0)"

lemma mywrite_after:
  assumes "rec_ok s" "env_ok e" "length t < LINE_LEN"
    and s1: "rec_ok s1" "logged s1 = logged s" "exit_handlers s1 = exit_handlers s + (if myheapend s = 0 then 1 else 0)"
      "myheapend s1 = int k"
  obtains s' where "mywrite e t s1 = Some s'" "logged_as s k (cells s1) t s'"
proof -
  obtain s' where "mywrite e t s1 = Some s'" "rec_ok s'" "logged s' = logged s1 @ t" "same_blocks s1 s'"
    by (rule mywrite_log [OF s1(1) assms(2,3)])
  then show ?thesis using that [of s'] s1 by (simp add: logged_as_def same_blocks_def)
qed

lemma print_ptr_text: "print_ptr e p s = (a, s') \<Longrightarrow> ptr_buf s' a = ptr_text e p"
  by (auto simp: print_ptr_def Let_def)

lemma init_simps [simp]:
  "myheapend (init s) = myheapend s" "cells (init s) = cells s" "rec_ok (init s) = rec_ok s" "logged (init s) = logged s"
  "exit_handlers (init s) = exit_handlers s + (if myheapend s = 0 then 1 else 0)"
  by (auto simp: init_def rec_ok_def logged_def)

lemma log_simps [simp]:
  "rec_ok (s\<lparr>myheapend := h\<rparr>) = rec_ok s" "rec_ok (s\<lparr>cells := m\<rparr>) = rec_ok s"
  "rec_ok (s\<lparr>ptr_buf := b\<rparr>) = rec_ok s" "rec_ok (s\<lparr>which := w\<rparr>) = rec_ok s"
  "logged (s\<lparr>myheapend := h\<rparr>) = logged s" "logged (s\<lparr>cells := m\<rparr>) = logged s"
  "logged (s\<lparr>ptr_buf := b\<rparr>) = logged s" "logged (s\<lparr>which := w\<rparr>) = logged s"
  by (simp_all add: rec_ok_def logged_def)

lemma record_one_after:
  assumes s: "rec_ok s" and e: "env_ok e" and k: "myheapend s = int k" "k + cells_for (request_size r) \<le> MEM_CELLS"
    and r: "request_ok e k r"
  obtains s' where "record_one memcpy e r s = Some (block_for e k r, s')"
    "logged_as s (k + cells_for (request_size r)) (cells_after memcpy e k r (cells s)) (line_for e (block_for e k r) r) s'"
proof -
  note answer = that
  let ?p = "mem_base e + 8 * k" and ?n = "request_size r"
  have k': "myheapend (init s) = int k" using k(1) by simp
  note take = take_cells_eq [OF e k' k(2)]
  have n: "?n < 2 ^ 32" "8 * k + ?n \<le> 8 * MEM_CELLS"
    using cells_for_bounds(1) [of ?n] k(2) by (simp_all add: MEM_CELLS_def)
  have in_p: "in_array e ?p ?n" using n(2) by (simp add: in_array_def)
  have pl: "block_for e k r < 2 ^ 48" using e k(2) by (cases r) (auto simp: env_ok_def)
  have len: "length (line_for e (block_for e k r) r) < LINE_LEN"
    by (rule length_line [OF e pl r]) (use n k(2) in simp_all)
  have finish: thesis if f: "rec_ok s1" "logged s1 = logged s" "exit_handlers s1 = exit_handlers s + (if myheapend s = 0 then 1 else 0)"
      "myheapend s1 = int (k + cells_for ?n)" "cells s1 = cells_after memcpy e k r (cells s)"
      "\<And>s'. mywrite e (line_for e (block_for e k r) r) s1 = Some s' \<Longrightarrow> record_one memcpy e r s = Some (block_for e k r, s')" for s1
  proof -
    obtain s' where "mywrite e (line_for e (block_for e k r) r) s1 = Some s'"
      "logged_as s (k + cells_for ?n) (cells s1) (line_for e (block_for e k r) r) s'"
      by (rule mywrite_after [OF s e len f(1-4)])
    then show ?thesis using answer [of s'] f(6) [of s'] unfolding f(5) by blast
  qed
  define ini where "ini = init s"
  let ?h = "int (k + cells_for ?n)" and ?w = "which ini" and ?b = "ptr_buf ini"
  show ?thesis
  proof (cases r)
    case (Malloc n')
    show ?thesis
      by (rule finish [of "ini\<lparr>myheapend := ?h, ptr_buf := ?b(?w := ptr_text e ?p), which := \<not> ?w\<rparr>"])
        (use s take n(1) Malloc in \<open>simp_all add: ini_def rec_malloc_def print_ptr_def Let_def u32_small\<close>)
  next
    case (Calloc n' j)
    have m: "mul64 n' j = n' * j" using n(1) Calloc by (simp add: mul64_small)
    show ?thesis
      by (rule finish [of "ini\<lparr>myheapend := ?h, cells := fill_bytes ?p 0 (n' * j) (cells s), ptr_buf := ?b(?w := ptr_text e ?p), which := \<not> ?w\<rparr>"])
        (use s take r in_p Calloc m in \<open>simp_all add: ini_def rec_calloc_def print_ptr_def Let_def u32_small\<close>)
  next
    case (Free q)
    show ?thesis
      by (rule finish [of "ini\<lparr>ptr_buf := ?b(?w := ptr_text e q), which := \<not> ?w\<rparr>"])
        (use s k Free in \<open>simp_all add: ini_def rec_free_def print_ptr_def Let_def cells_for_def\<close>)
  next
    case (Realloc q n')
    have in_q: "in_array e q n'" if "q \<noteq> 0" using that r n(2) Realloc by (auto simp: in_array_def)
    let ?s = "\<lambda>s. s\<lparr>ptr_buf := ?b(?w := ptr_text e (block_for e k r), \<not> ?w := ptr_text e q), which := ?w\<rparr>"
    consider "n' = 0" | "n' \<noteq> 0" "q = 0" | "n' \<noteq> 0" "q \<noteq> 0" by blast
    then show ?thesis
    proof cases
      case 1
      show ?thesis
        by (rule finish [of "?s ini"]) (use s k Realloc 1 in \<open>simp_all add: ini_def rec_realloc_def print_ptr_def Let_def u32_small cells_for_def\<close>)
    next
      case 2
      show ?thesis
        by (rule finish [of "?s (ini\<lparr>myheapend := ?h\<rparr>)"])
          (use s k take n(1) Realloc 2 in \<open>simp_all add: ini_def rec_realloc_def print_ptr_def Let_def u32_small\<close>)
    next
      case 3
      show ?thesis
        by (rule finish [of "?s (ini\<lparr>myheapend := ?h, cells := cells_after memcpy e k r (cells s)\<rparr>)"])
          (use s k take n(1) in_p in_q Realloc 3 in \<open>simp_all add: ini_def rec_realloc_def print_ptr_def Let_def u32_small\<close>)
    qed
  qed
qed

subsection \<open>A whole program\<close>

lemma requests_ok_cells: "requests_ok e k rs \<Longrightarrow> k \<le> MEM_CELLS"
  by (induction e k rs rule: requests_ok.induct) auto

lemma record_all_log:
  "rec_ok s \<Longrightarrow> env_ok e \<Longrightarrow> myheapend s = int k \<Longrightarrow> requests_ok e k rs \<Longrightarrow>
   \<exists>s'. record_all memcpy e rs s = Some (blocks_for e k rs, s') \<and> rec_ok s' \<and>
     logged s' = logged s @ lines_for e rs (blocks_for e k rs) \<and> exit_handlers s \<le> exit_handlers s' \<and>
     (rs \<noteq> [] \<and> k = 0 \<longrightarrow> 0 < exit_handlers s') \<and> myheapend s' = int (used_after k rs)"
proof (induction rs arbitrary: s k)
  case (Cons r rs)
  let ?k = "k + cells_for (request_size r)"
  have ok: "request_ok e k r" "requests_ok e ?k rs" using Cons.prems(4) by simp_all
  obtain s1 where s1: "record_one memcpy e r s = Some (block_for e k r, s1)"
    "logged_as s ?k (cells_after memcpy e k r (cells s)) (line_for e (block_for e k r) r) s1"
    by (rule record_one_after [OF Cons.prems(1-3) requests_ok_cells [OF ok(2)] ok(1)])
  have a: "rec_ok s1" "myheapend s1 = int ?k" "logged s1 = logged s @ line_for e (block_for e k r) r"
    "exit_handlers s1 = exit_handlers s + (if k = 0 then 1 else 0)"
    using s1(2) Cons.prems(3) by (simp_all add: logged_as_def)
  obtain s2 where "record_all memcpy e rs s1 = Some (blocks_for e ?k rs, s2)" "rec_ok s2"
      "logged s2 = logged s1 @ lines_for e rs (blocks_for e ?k rs)" "exit_handlers s1 \<le> exit_handlers s2"
      "myheapend s2 = int (used_after ?k rs)"
    using Cons.IH [OF a(1) Cons.prems(2) a(2) ok(2)] by blast
  then show ?case using s1(1) a(3,4) by (auto simp: lines_for_def)
qed (simp add: lines_for_def)

lemma handlers_text:
  assumes e: "env_ok e"
  shows "rec_ok s \<Longrightarrow> 0 < n \<Longrightarrow> \<exists>s'. run_handlers e n s = Some s' \<and> file_text s' = logged s"
proof -
  have again: "run_handlers e n s = Some (if n = 0 then s else s\<lparr>fd_open := False\<rparr>)" if "outfd s \<noteq> None" "nbuffered s = 0" for n s
    using that
  proof (induction n arbitrary: s)
    case (Suc n)
    have "clear_buffer_and_close e s = Some (s\<lparr>fd_open := False\<rparr>)"
      using Suc.prems by (auto simp: clear_buffer_and_close_def clear_buffer_def for_range_def)
    then show ?case using Suc.IH [of "s\<lparr>fd_open := False\<rparr>"] Suc.prems by simp
  qed simp
  assume s: "rec_ok s" and n: "0 < n"
  obtain n' where n': "n = Suc n'" using n by (cases n) auto
  have fd: "outfd s \<noteq> None \<longrightarrow> fd_open s" using s by (simp add: rec_ok_def)
  obtain s1 where "clear_buffer e s = Some s1" "file_text s1 = logged s" "outfd s1 \<noteq> None" "nbuffered s1 = 0"
    by (rule clear_buffer_log [OF fd e])
  then show ?thesis using again [of "s1\<lparr>fd_open := False\<rparr>" n'] by (simp add: n' clear_buffer_and_close_def)
qed

lemma recorder_start_ok: "rec_ok recorder_start" "myheapend recorder_start = int 0" "logged recorder_start = trace_header"
  by (simp_all add: rec_ok_def recorder_start_def logged_def BUFFER_LEN_def)

lemma recorder_file:
  assumes "env_ok e" "requests_ok e 0 rs" "rs \<noteq> []"
  shows "\<exists>s. record_program memcpy e rs = Some (blocks_for e 0 rs, s) \<and>
    file_text s = trace_header @ lines_for e rs (blocks_for e 0 rs)"
proof -
  obtain s where s: "record_all memcpy e rs recorder_start = Some (blocks_for e 0 rs, s)" "rec_ok s"
      "logged s = trace_header @ lines_for e rs (blocks_for e 0 rs)" "0 < exit_handlers s"
    using record_all_log [OF recorder_start_ok(1) assms(1) recorder_start_ok(2) assms(2), of memcpy] assms(3) recorder_start_ok(3) by auto
  from handlers_text [OF assms(1) s(2,4)] show ?thesis using s(1,3) by (auto simp: record_program_def)
qed

subsection \<open>The blocks\<close>

lemma blocks_for_bounds:
  "requests_ok e k rs \<Longrightarrow> j < length rs \<Longrightarrow> 0 < request_size (rs ! j) \<Longrightarrow>
   mem_base e + 8 * k \<le> blocks_for e k rs ! j \<and> blocks_for e k rs ! j + request_size (rs ! j) \<le> mem_base e + 8 * MEM_CELLS"
proof (induction rs arbitrary: k j)
  case (Cons r rs)
  have ok: "requests_ok e (k + cells_for (request_size r)) rs" using Cons.prems(1) by simp
  show ?case
  proof (cases j)
    case 0
    have "block_for e k r = mem_base e + 8 * k" using Cons.prems(3) 0 by (cases r) simp_all
    then show ?thesis using 0 requests_ok_cells [OF ok] cells_for_bounds(1) [of "request_size r"] by simp
  next
    case (Suc i)
    then show ?thesis using Cons.IH [OF ok, of i] Cons.prems by simp
  qed
qed simp

lemma blocks_for_apart:
  "requests_ok e k rs \<Longrightarrow> i < j \<Longrightarrow> j < length rs \<Longrightarrow> 0 < request_size (rs ! i) \<Longrightarrow> 0 < request_size (rs ! j) \<Longrightarrow>
   blocks_for e k rs ! i + request_size (rs ! i) \<le> blocks_for e k rs ! j"
proof (induction rs arbitrary: k i j)
  case (Cons r rs)
  have ok: "requests_ok e (k + cells_for (request_size r)) rs" using Cons.prems(1) by simp
  obtain j' where j: "j = Suc j'" using Cons.prems(2) by (cases j) auto
  show ?case
  proof (cases i)
    case 0
    have "block_for e k r = mem_base e + 8 * k" using Cons.prems(4) 0 by (cases r) simp_all
    then show ?thesis
      using 0 j blocks_for_bounds [OF ok, of j'] Cons.prems cells_for_bounds(1) [of "request_size r"] by simp
  next
    case (Suc i')
    then show ?thesis using Cons.IH [OF ok, of i' j'] Cons.prems j by simp
  qed
qed simp

lemma blocks_below_used:
  "i < length rs \<Longrightarrow> 0 < request_size (rs ! i) \<Longrightarrow>
   blocks_for e k rs ! i + request_size (rs ! i) \<le> mem_base e + 8 * used_after k rs \<and> k \<le> used_after k rs"
proof (induction rs arbitrary: k i)
  case (Cons r rs)
  have le: "k' \<le> used_after k' rs'" for k' rs' by (induction rs' arbitrary: k') (auto intro: order_trans [OF le_add1])
  show ?case
  proof (cases i)
    case 0
    have "block_for e k r = mem_base e + 8 * k" using Cons.prems(2) 0 by (cases r) simp_all
    moreover have "8 * (k + cells_for (request_size r)) \<le> 8 * used_after k (r # rs)" using le [of "k + cells_for (request_size r)" rs] by simp
    ultimately show ?thesis using 0 cells_for_bounds(1) [of "request_size r"] le [of k "r # rs"] by simp
  next
    case (Suc i')
    then show ?thesis using Cons.IH [of i' "k + cells_for (request_size r)"] Cons.prems by simp
  qed
qed simp

lemma requests_ok_append:
  "requests_ok e k (rs @ [r]) \<longleftrightarrow> requests_ok e k rs \<and> request_ok e (used_after k rs) r \<and>
     used_after k rs + cells_for (request_size r) \<le> MEM_CELLS"
  by (induction rs arbitrary: k) (auto dest: requests_ok_cells)

lemma copy_up_other: "x < p \<or> p + n \<le> x \<Longrightarrow> copy_up p q n m x = m x"
  by (induction n) (auto simp: copy_up_def for_range_def)

text \<open>The bytes below the new block are copied, also where the ranges overlap.\<close>

lemma copy_up_at:
  assumes "j < n" "q + j < p"
  shows "copy_up p q n m (p + j) = m (q + j)"
proof -
  have step: "copy_up p q (Suc n) m = (copy_up p q n m)(p + n := copy_up p q n m (q + n))" for n
    by (simp add: copy_up_def for_range_def)
  show ?thesis
    using assms(1)
  proof (induction n)
    case (Suc n)
    show ?case
    proof (cases "j = n")
      case True
      have "copy_up p q n m (q + n) = m (q + n)" by (rule copy_up_other) (use assms(2) True in simp)
      then show ?thesis by (simp add: step True)
    next
      case False
      then show ?thesis using Suc by (simp add: step)
    qed
  qed simp
qed

definition memcpy_ok :: "mem_copier \<Rightarrow> bool" where
  "memcpy_ok memcpy \<longleftrightarrow> (\<forall>p q n m x. x < p \<or> p + n \<le> x \<longrightarrow> memcpy p q n m x = m x)"

subsection \<open>Properties\<close>

text \<open>An environment and a program for the examples.\<close>

definition demo_env :: trace_env where
  "demo_env = \<lparr>mem_base = 2 ^ 40, pid = 42, trace_output = None, exe_link = Some ''/bin/ls'', creates = (\<lambda>_. True)\<rparr>"

definition demo_requests :: "request list" where
  "demo_requests = [Malloc 10, Calloc 3 4, Realloc (2 ^ 40) 20, Free (2 ^ 40 + 16), Free 0]"

lemma demo_env_ok: "env_ok demo_env" "requests_ok demo_env 0 demo_requests"
    "blocks_for demo_env 0 demo_requests = [2 ^ 40, 2 ^ 40 + 16, 2 ^ 40 + 32, 0, 0]"
proof -
  have "length (show_nat 42) \<le> Suc 1" by (rule length_show_nat) simp
  then show "env_ok demo_env"
    by (simp add: env_ok_def demo_env_def MEM_CELLS_def open_trace_def sprintf_def NAME_LEN_def Let_def u32_small)
  show "requests_ok demo_env 0 demo_requests" "blocks_for demo_env 0 demo_requests = [2 ^ 40, 2 ^ 40 + 16, 2 ^ 40 + 32, 0, 0]"
    by (simp_all add: demo_env_def demo_requests_def MEM_CELLS_def cells_for_def)
qed

text \<open>C35: the file of the recorder. For every sequence of requests that fits the array, with whatever \<open>memcpy\<close> does,
  the program gets its blocks one after the other, and after the exit the file holds the comment and exactly
  one line for each request in order: the buffer of 4000 lines and the two pointer buffers leave no trace.\<close>

theorem recorder_file_correct:
  assumes "env_ok e" "requests_ok e 0 rs" "rs \<noteq> []"
  shows "\<exists>s. record_program memcpy e rs = Some (blocks_for e 0 rs, s) \<and>
    file_text s = trace_header @ lines_for e rs (blocks_for e 0 rs)"
  by (rule recorder_file [OF assms])

theorem recorder_file_correct_witness:
  "\<exists>s. record_program copy_bytes demo_env demo_requests = Some ([2 ^ 40, 2 ^ 40 + 16, 2 ^ 40 + 32, 0, 0], s) \<and>
    file_text s = trace_header @ lines_for demo_env demo_requests [2 ^ 40, 2 ^ 40 + 16, 2 ^ 40 + 32, 0, 0]"
proof -
  have "demo_requests \<noteq> []" by (simp add: demo_requests_def)
  from recorder_file_correct [OF demo_env_ok(1,2) this, of copy_bytes] show ?thesis unfolding demo_env_ok(3) .
qed

text \<open>Blocks of the recorder lie in its array and do not overlap, if none is empty.\<close>

lemma recorder_blocks_apart:
  assumes "env_ok e" "requests_ok e 0 rs" "record_program memcpy e rs = Some (ps, s)"
    and "i < j" "j < length rs" "0 < request_size (rs ! i)" "0 < request_size (rs ! j)"
  shows "mem_base e \<le> ps ! i \<and> ps ! i + request_size (rs ! i) \<le> ps ! j \<and>
    ps ! j + request_size (rs ! j) \<le> mem_base e + 8 * MEM_CELLS"
proof -
  have "rs \<noteq> []" using assms(5) by auto
  then have "ps = blocks_for e 0 rs" using recorder_file [OF assms(1,2), of memcpy] assms(3) by auto
  then show ?thesis
    using blocks_for_bounds [OF assms(2), of i] blocks_for_bounds [OF assms(2), of j] blocks_for_apart [OF assms(2), of i j] assms(4-7)
    by simp
qed

text \<open>\<open>realloc\<close> of the recorder keeps the content. Whatever the program has written (\<open>m\<close>), the new block
  starts with the bytes of the old one, and nothing outside the new block changes. The bytes that \<open>memcpy\<close> leaves
  undetermined when the ranges overlap are written again by the loop.\<close>

lemma recorder_realloc_keeps:
  assumes e: "env_ok e" and run: "requests_ok e 0 rs" "record_all memcpy e rs recorder_start = Some (ps, s)"
    and i: "i < length rs" "0 < request_size (rs ! i)" and n: "0 < n" "used_after 0 rs + cells_for n \<le> MEM_CELLS"
    and cpy: "memcpy_ok memcpy"
  shows "\<exists>p s'. record_one memcpy e (Realloc (ps ! i) n) (s\<lparr>cells := m\<rparr>) = Some (p, s') \<and>
    (\<forall>j < min n (request_size (rs ! i)). cells s' (p + j) = m (ps ! i + j)) \<and> (\<forall>x. x < p \<or> p + n \<le> x \<longrightarrow> cells s' x = m x)"
proof -
  let ?k = "used_after 0 rs" and ?q = "ps ! i" let ?p = "mem_base e + 8 * ?k"
  have s: "ps = blocks_for e 0 rs" "rec_ok s" "myheapend s = int ?k"
    using record_all_log [OF recorder_start_ok(1) e recorder_start_ok(2) run(1), of memcpy] run(2) by auto
  have q: "?q + request_size (rs ! i) \<le> ?p" using blocks_below_used [OF i] s(1) by simp
  have b: "mem_base e \<le> ?q" "?q \<noteq> 0" using blocks_for_bounds [OF run(1) i] e s(1) by (auto simp: env_ok_def)
  have st: "rec_ok (s\<lparr>cells := m\<rparr>)" "myheapend (s\<lparr>cells := m\<rparr>) = int ?k" using s by simp_all
  have ok: "request_ok e ?k (Realloc ?q n)" "?k + cells_for (request_size (Realloc ?q n)) \<le> MEM_CELLS" using b q n by auto
  obtain s' where s': "record_one memcpy e (Realloc ?q n) (s\<lparr>cells := m\<rparr>) = Some (block_for e ?k (Realloc ?q n), s')"
    "logged_as (s\<lparr>cells := m\<rparr>) (?k + cells_for (request_size (Realloc ?q n))) (cells_after memcpy e ?k (Realloc ?q n) (cells (s\<lparr>cells := m\<rparr>)))
       (line_for e (block_for e ?k (Realloc ?q n)) (Realloc ?q n)) s'"
    by (rule record_one_after [OF st(1) e st(2) ok(2,1)])
  have c: "cells s' = copy_up ?p ?q n (memcpy ?p ?q n m)" using s'(2) n(1) b(2) by (simp add: logged_as_def)
  have low: "memcpy ?p ?q n m x = m x" if "x < ?p \<or> ?p + n \<le> x" for x using cpy that unfolding memcpy_ok_def by blast
  have "cells s' (?p + j) = m (?q + j)" if "j < min n (request_size (rs ! i))" for j
    unfolding c using copy_up_at [of j n ?q ?p] low [of "?q + j"] q that by simp
  moreover have "cells s' x = m x" if "x < ?p \<or> ?p + n \<le> x" for x
    unfolding c using copy_up_other [OF that] low [OF that] by simp
  ultimately show ?thesis using s'(1) n(1) by (intro exI [of _ ?p] exI [of _ s']) simp
qed


end
