(* ===== verification/Trace_Convert.thy ===== *)
theory Trace_Convert
  imports Get_Trace_Correct MDriver_Trace
begin

section \<open>From a recorded program to a trace of the driver\<close>

text \<open>
  The script traces/convert-exec-trace-to-rep turns the file of the recorder into a trace file: pointers
  become numbers of blocks. \<open>None\<close> is a call of \<open>die\<close>. The main result of this theory composes the recorder, the
  script and the reader of the driver.
\<close>

subsection \<open>The script\<close>

text \<open>The hash \<open>%pointers\<close>, the number of ids \<open>$n\<close> and the lines of the output; the numeric value of a field of digits.\<close>

record conv =
  pointers :: "string \<rightharpoonup> nat"
  ids_used :: nat
  outlines :: "string list"

definition field :: "nat \<Rightarrow> string list \<Rightarrow> string" where "field k fs = (if k < length fs then fs ! k else [])"

definition convert_line :: "string list \<Rightarrow> conv \<Rightarrow> conv option" where
  "convert_line fs c =
     (let fn = field 0 fs; p = field 1 fs; args = drop 2 fs
      in if fn = ''m'' \<or> fn = ''c''
         then (let sz = (if fn = ''m'' then field 0 args else show_nat (digits_val (field 0 args) * digits_val (field 1 args)));
                   i = ids_used c
               in if pointers c p \<noteq> None then None
                  else Some (c\<lparr>ids_used := i + 1, pointers := (pointers c)(p \<mapsto> i),
                         outlines := outlines c @ [CHR ''a'' # SP # show_nat i @ SP # sz]\<rparr>))
         else if fn = ''r''
         then (let oldp = field 0 args; sz = field 1 args
               in if oldp \<noteq> ''0'' \<and> pointers c oldp = None then None
                  else (let (i, c) = (case pointers c oldp of
                                        None \<Rightarrow> (ids_used c, c\<lparr>ids_used := ids_used c + 1\<rparr>)
                                      | Some i \<Rightarrow> (i, c))
                        in if p \<noteq> oldp \<and> pointers c p \<noteq> None then None
                           else (let c = (if p \<noteq> oldp then c\<lparr>pointers := (pointers c)(p \<mapsto> i, oldp := None)\<rparr> else c)
                                 in Some (c\<lparr>outlines := outlines c @ [CHR ''r'' # SP # show_nat i @ SP # sz]\<rparr>))))
         else if fn = ''f''
         then (if p \<noteq> ''0'' \<and> pointers c p = None then None
               else (let i = (case pointers c p of None \<Rightarrow> ''-1'' | Some i \<Rightarrow> show_nat i)
                     in Some (c\<lparr>pointers := (pointers c)(p := None), outlines := outlines c @ [CHR ''f'' # SP # i]\<rparr>)))
         else Some c)"

fun convert_lines :: "string list \<Rightarrow> conv \<Rightarrow> conv option" where
  "convert_lines [] c = Some c"
| "convert_lines (l # ls) c =
     (let l = takeWhile (\<lambda>x. x \<noteq> CHR ''#'') l
      in if l = [] then convert_lines ls c else convert_line (words_of l) c \<bind> convert_lines ls)"

definition convert_trace :: "string \<Rightarrow> string option" where
  "convert_trace s = do {
     c \<leftarrow> convert_lines (split_lines s) \<lparr>pointers = Map.empty, ids_used = 0, outlines = []\<rparr>;
     Some (''0'' @ NL # show_nat (ids_used c) @ NL # show_nat (length (outlines c)) @ NL # ''0'' @ NL #
       concat (map (\<lambda>l. l @ [NL]) (outlines c)) @ (if outlines c = [] then [NL] else [])) }"

subsection \<open>Pointers as words\<close>

lemma hex_lower_code: "n < 16 \<Longrightarrow> code (hex_lower n) = (if n < 10 then 48 + n else 87 + n)"
  by (simp add: hex_lower_def)

lemma hex_lower_inj: "n < 16 \<Longrightarrow> k < 16 \<Longrightarrow> hex_lower n = hex_lower k \<Longrightarrow> n = k"
proof -
  assume n: "n < 16" "k < 16" "hex_lower n = hex_lower k"
  have "code (hex_lower n) = code (hex_lower k)" by (simp only: n(3))
  then have "(if n < 10 then 48 + n else 87 + n) = (if k < 10 then 48 + k else 87 + k)"
    by (simp only: hex_lower_code n(1,2))
  then show "n = k" by (simp split: if_splits)
qed

lemma hex_lower_plain: "n < 16 \<Longrightarrow> \<not> is_space (hex_lower n) \<and> hex_lower n \<noteq> CHR ''#'' \<and> hex_lower n \<noteq> CHR ''/''"
proof -
  assume n: "n < 16"
  have "code (hex_lower n) \<noteq> 35" "code (hex_lower n) \<noteq> 47" "\<not> is_space (hex_lower n)"
    using n by (simp_all add: hex_lower_code is_space_def)
  moreover have "code CHR ''#'' = 35" "code CHR ''/'' = 47" by (simp_all add: code_def)
  ultimately show ?thesis by metis
qed

lemma show_hex_chars: "show_hex n \<noteq> [] \<and> (\<forall>c \<in> set (show_hex n). \<not> is_space c \<and> c \<noteq> CHR ''#'' \<and> c \<noteq> CHR ''/'')"
proof (induction n rule: show_hex.induct)
  case (1 n)
  have "\<not> is_space (hex_lower (n mod 16)) \<and> hex_lower (n mod 16) \<noteq> CHR ''#'' \<and> hex_lower (n mod 16) \<noteq> CHR ''/''"
    by (rule hex_lower_plain) simp
  then show ?case using 1 hex_lower_plain [of n] unfolding show_hex.simps [of n] by (cases "n < 16") auto
qed

lemma show_hex_inj: "show_hex n = show_hex k \<Longrightarrow> n = k"
proof (induction n arbitrary: k rule: show_hex.induct)
  case (1 n)
  have ne: "show_hex j \<noteq> []" for j using show_hex_chars by blast
  show ?case
  proof (cases "n < 16")
    case True
    then have "show_hex k = [hex_lower n]" using 1(2) by (simp add: show_hex.simps [of n])
    then have "k < 16" "hex_lower k = hex_lower n" using ne [of "k div 16"] by (auto simp: show_hex.simps [of k] split: if_splits)
    then show ?thesis using True hex_lower_inj by metis
  next
    case False
    then have "show_hex k = show_hex (n div 16) @ [hex_lower (n mod 16)]" using 1(2) by (simp add: show_hex.simps [of n])
    then have k: "\<not> k < 16" "show_hex (n div 16) = show_hex (k div 16)" "hex_lower (n mod 16) = hex_lower (k mod 16)"
      using ne [of "n div 16"] by (auto simp: show_hex.simps [of k] split: if_splits)
    then have "n div 16 = k div 16" "n mod 16 = k mod 16"
      using 1(1) [OF False k(2)] hex_lower_inj [of "n mod 16" "k mod 16"] by simp_all
    then show ?thesis by (metis div_mult_mod_eq)
  qed
qed

lemma ptr_text_inj: "ptr_text e p = ptr_text e q \<Longrightarrow> p = q"
proof -
  assume eq: "ptr_text e p = ptr_text e q"
  have sp: "takeWhile (\<lambda>c. c \<noteq> CHR ''/'') (show_hex a @ CHR ''/'' # t) = show_hex a" for a t
    using show_hex_chars [of a] by (simp add: takeWhile_append2)
  show "p = q"
  proof (cases "p = 0 \<or> q = 0")
    case True
    then show ?thesis using eq by (auto simp: ptr_text_def split: if_splits)
  next
    case False
    then have "show_hex p @ CHR ''/'' # show_nat (u32 (pid e)) = show_hex q @ CHR ''/'' # show_nat (u32 (pid e))"
      using eq by (simp add: ptr_text_def)
    then show ?thesis using sp [of p] sp [of q] show_hex_inj by metis
  qed
qed

lemma clean_append: "clean a \<Longrightarrow> clean b \<Longrightarrow> clean (a @ b)" by (auto simp: clean_def)

lemma clean_ptr [simp]: "clean (ptr_text e p)"
proof -
  have "clean (show_hex p)" using show_hex_chars [of p] by (simp add: clean_def)
  moreover have "clean ''0''" "clean ''0x''" "clean ''/''" by (simp_all add: clean_def is_space_def code_def)
  ultimately have "clean (''0x'' @ show_hex p @ ''/'' @ show_nat (u32 (pid e)))" by (intro clean_append) simp_all
  with \<open>clean ''0''\<close> show ?thesis by (simp add: ptr_text_def)
qed

subsection \<open>The lines of the recorder\<close>

lemma sep_values: "CHR '' '' = SP" "CHR 0x0A = NL" "SP \<noteq> CHR ''#''" "SP \<noteq> NL"
proof -
  have "of_char (CHR '' '') = (32 :: nat)" "of_char (CHR 0x0A) = (10 :: nat)" by simp_all
  then show sp: "CHR '' '' = SP" and nl: "CHR 0x0A = NL" unfolding SP_def NL_def by (metis char_of_char)+
  show "SP \<noteq> CHR ''#''" "SP \<noteq> NL" unfolding sp [symmetric] nl [symmetric] by simp_all
qed

fun unwords :: "string list \<Rightarrow> string" where
  "unwords [] = []"
| "unwords [w] = w"
| "unwords (w # ws) = w @ SP # unwords ws"

lemma unwords_line:
  "ws \<noteq> [] \<Longrightarrow> \<forall>w \<in> set ws. clean w \<Longrightarrow> words_of (unwords ws) = ws \<and> unwords ws \<noteq> [] \<and>
     (\<forall>c \<in> set (unwords ws). c \<noteq> CHR ''#'' \<and> c \<noteq> NL)"
proof (induction ws rule: unwords.induct)
  case (2 w)
  then show ?case by (auto simp: words_last clean_def dest: NL_space)
next
  case (3 w v vs)
  have w1: "clean w" using 3(3) by simp
  then have w: "clean w" "\<forall>c \<in> set w. c \<noteq> CHR ''#'' \<and> c \<noteq> NL" unfolding clean_def using NL_space by blast+
  have ih: "words_of (unwords (v # vs)) = v # vs" "\<forall>c \<in> set (unwords (v # vs)). c \<noteq> CHR ''#'' \<and> c \<noteq> NL"
    using 3(1,3) by simp_all
  have "words_of (unwords (w # v # vs)) = w # v # vs" unfolding unwords.simps by (simp only: words_Cons [OF w(1)] ih(1))
  moreover have "\<forall>c \<in> set (unwords (w # v # vs)). c \<noteq> CHR ''#'' \<and> c \<noteq> NL"
  proof
    fix c assume "c \<in> set (unwords (w # v # vs))"
    then consider "c \<in> set w" | "c = SP" | "c \<in> set (unwords (v # vs))" unfolding unwords.simps by auto
    then show "c \<noteq> CHR ''#'' \<and> c \<noteq> NL"
    proof cases
      case 2
      show ?thesis unfolding 2 using sep_values(3,4) ..
    qed (use w(2) ih(2) in blast)+
  qed
  moreover have "unwords (w # v # vs) \<noteq> []" by simp
  ultimately show ?case by blast
qed simp

fun fields_for :: "trace_env \<Rightarrow> addr \<Rightarrow> request \<Rightarrow> string list" where
  "fields_for e p (Malloc n) = [''m'', ptr_text e p, show_nat n]"
| "fields_for e p (Calloc n k) = [''c'', ptr_text e p, show_nat n, show_nat k]"
| "fields_for e p (Realloc q n) = [''r'', ptr_text e p, ptr_text e q, show_nat n]"
| "fields_for e p (Free q) = [''f'', ptr_text e q]"

lemma line_fields: "line_for e p r = unwords (fields_for e p r) @ [NL]"
  by (cases r) (simp_all add: sep_values(1))

lemma fields_clean: "fields_for e p r \<noteq> []" "\<forall>w \<in> set (fields_for e p r). clean w"
proof -
  have "clean ''m''" "clean ''c''" "clean ''r''" "clean ''f''" by (simp_all add: clean_def is_space_def code_def)
  then show "fields_for e p r \<noteq> []" "\<forall>w \<in> set (fields_for e p r). clean w" by (cases r; simp)+
qed

lemma convert_one:
  "convert_lines (split_lines (line_for e p r @ s)) c = convert_line (fields_for e p r) c \<bind> convert_lines (split_lines s)"
proof -
  note u = unwords_line [OF fields_clean, of e p r]
  have "split_lines (line_for e p r @ s) = unwords (fields_for e p r) # split_lines s"
    unfolding line_fields using split_lines_NL [of "unwords (fields_for e p r)" s] u by simp
  moreover have "takeWhile (\<lambda>x. x \<noteq> CHR ''#'') (unwords (fields_for e p r)) = unwords (fields_for e p r)"
    using u by (simp add: takeWhile_eq_all_conv)
  ultimately show ?thesis using u by (simp only: convert_lines.simps Let_def if_False)
qed

text \<open>The comment at the head of the file is skipped.\<close>

lemma convert_header: "convert_lines (split_lines (trace_header @ s)) c = convert_lines (split_lines s) c"
proof -
  have skip: "convert_lines (split_lines (concat (map (\<lambda>l. l @ [NL]) ls) @ s)) c = convert_lines (split_lines s) c"
    if "\<forall>l \<in> set ls. (l = [] \<or> hd l = CHR ''#'') \<and> NL \<notin> set l" for ls
    using that
  proof (induction ls)
    case (Cons l ls)
    then have "split_lines (l @ NL # concat (map (\<lambda>l. l @ [NL]) ls) @ s) = l # split_lines (concat (map (\<lambda>l. l @ [NL]) ls) @ s)"
      by (intro split_lines_NL) auto
    then show ?case using Cons by (cases l) auto
  qed simp
  show ?thesis unfolding trace_header_def by (rule skip) (simp add: sep_values(2) [symmetric])
qed

subsection \<open>The requests as operations of the driver\<close>

text \<open>
  The operation that a request becomes, for a program that passes only live pointers and asks for no empty
  block: \<open>L\<close> maps the live pointers to their ids, \<open>i\<close> is the next id; \<open>junk\<close> is the size that the driver reads for
  a FREE. \<open>None\<close> is a pointer that is not live or an empty block.
\<close>

fun op_of :: "nat \<Rightarrow> addr \<Rightarrow> request \<Rightarrow> (addr \<rightharpoonup> nat) \<times> nat \<Rightarrow> (traceop_t \<times> (addr \<rightharpoonup> nat) \<times> nat) option" where
  "op_of junk p (Free q) (L, i) =
     (if q = 0 then Some (\<lparr>op_type = FREE, op_index = -1, op_size = junk\<rparr>, L, i)
      else map_option (\<lambda>j. (\<lparr>op_type = FREE, op_index = int j, op_size = junk\<rparr>, L(q := None), i)) (L q))"
| "op_of junk p (Realloc q n) (L, i) =
     (if n = 0 then None
      else if q = 0 then Some (\<lparr>op_type = REALLOC, op_index = int i, op_size = n\<rparr>, L(p \<mapsto> i), i + 1)
      else map_option (\<lambda>j. (\<lparr>op_type = REALLOC, op_index = int j, op_size = n\<rparr>, L(p \<mapsto> j, q := None), i)) (L q))"
| "op_of junk p r (L, i) =
     (if request_size r = 0 then None
      else Some (\<lparr>op_type = ALLOC, op_index = int i, op_size = request_size r\<rparr>, L(p \<mapsto> i), i + 1))"

fun ops_of :: "nat \<Rightarrow> addr list \<Rightarrow> request list \<Rightarrow> (addr \<rightharpoonup> nat) \<times> nat \<Rightarrow> (traceop_t list \<times> nat) option" where
  "ops_of junk (p # ps) (r # rs) (L, i) = do {
     (oper, L, i) \<leftarrow> op_of junk p r (L, i);
     (os, i) \<leftarrow> ops_of junk ps rs (L, i);
     Some (oper # os, i) }"
| "ops_of junk ps rs (L, i) = Some ([], i)"

definition conv_ok :: "trace_env \<Rightarrow> nat \<Rightarrow> (addr \<rightharpoonup> nat) \<times> nat \<Rightarrow> conv \<Rightarrow> bool" where
  "conv_ok e k = (\<lambda>(L, i) c. (\<forall>p. pointers c (ptr_text e p) = L p) \<and> ids_used c = i \<and> L 0 = None \<and>
     (\<forall>p j. L p = Some j \<longrightarrow> p < mem_base e + 8 * k \<and> j < i))"

definition line_of :: "traceop_t \<Rightarrow> string" where "line_of oper = butlast (show_op oper)"

lemma show_op_line: "show_op oper = line_of oper @ [NL]"
  by (cases "op_type oper") (simp_all add: show_op_def line_of_def butlast_append)

lemma ptr_text_0 [simp]: "ptr_text e p = ''0'' \<longleftrightarrow> p = 0"
  by (simp add: ptr_text_def)

lemma line_of_simps:
  "line_of \<lparr>op_type = ALLOC, op_index = int i, op_size = n\<rparr> = CHR ''a'' # SP # show_nat i @ SP # show_nat n"
  "line_of \<lparr>op_type = REALLOC, op_index = int i, op_size = n\<rparr> = CHR ''r'' # SP # show_nat i @ SP # show_nat n"
  "line_of \<lparr>op_type = FREE, op_index = int i, op_size = n\<rparr> = CHR ''f'' # SP # show_nat i"
  "line_of \<lparr>op_type = FREE, op_index = -1, op_size = n\<rparr> = CHR ''f'' # SP # ''-1''"
proof -
  have eqI: "line_of oper = x" if "show_op oper = x @ [NL]" for oper x using that by (simp add: line_of_def)
  have i: "show_int (int i) = show_nat i" by (simp add: show_int_def)
  have "of_char (CHR ''-'') = (45 :: nat)" "of_char (CHR ''1'') = (49 :: nat)" by simp_all
  then have "CHR ''-'' = char_of (45 :: nat)" "CHR ''1'' = char_of (49 :: nat)" by (metis char_of_char)+
  then have m: "show_int (-1) = ''-1''" by (simp add: show_int_def show_nat.simps [of "Suc 0"])
  show "line_of \<lparr>op_type = ALLOC, op_index = int i, op_size = n\<rparr> = CHR ''a'' # SP # show_nat i @ SP # show_nat n"
    "line_of \<lparr>op_type = REALLOC, op_index = int i, op_size = n\<rparr> = CHR ''r'' # SP # show_nat i @ SP # show_nat n"
    "line_of \<lparr>op_type = FREE, op_index = int i, op_size = n\<rparr> = CHR ''f'' # SP # show_nat i"
    "line_of \<lparr>op_type = FREE, op_index = -1, op_size = n\<rparr> = CHR ''f'' # SP # ''-1''"
    by (rule eqI, simp add: show_op_def i m)+
qed

lemma conv_okD:
  assumes "conv_ok e k (L, i) c"
  shows "pointers c (ptr_text e p) = L p" "ids_used c = i" "L 0 = None"
    "L p = Some j \<Longrightarrow> p < mem_base e + 8 * k" "L p = Some j \<Longrightarrow> j < i"
  using assms by (auto simp: conv_ok_def)

lemma conv_ok_add:
  assumes c: "conv_ok e k (L, i) c" and "p < mem_base e + 8 * k'" "p \<noteq> 0" "k \<le> k'" "j < i'" "i \<le> i'"
    and c': "pointers c' = (pointers c)(ptr_text e p \<mapsto> j)" "ids_used c' = i'"
  shows "conv_ok e k' (L(p \<mapsto> j), i') c'"
proof -
  have "q < mem_base e + 8 * k' \<and> n < i'" if "(L(p \<mapsto> j)) q = Some n" for q n
  proof (cases "q = p")
    case False
    then have "L q = Some n" using that by simp
    then show ?thesis using conv_okD(4,5) [OF c, of q n] assms(4,6) by simp
  qed (use that assms in simp)
  moreover have "((pointers c)(ptr_text e p \<mapsto> j)) (ptr_text e q) = (L(p \<mapsto> j)) q" for q
    using conv_okD(1) [OF c] ptr_text_inj [of e q p] by auto
  ultimately show ?thesis using conv_okD(3) [OF c] assms(3) by (simp add: conv_ok_def c')
qed

lemma conv_ok_del:
  assumes c: "conv_ok e k (L, i) c" and "k \<le> k'"
    and c': "pointers c' = (pointers c)(ptr_text e q := None)" "ids_used c' = ids_used c"
  shows "conv_ok e k' (L(q := None), i) c'"
proof -
  have "p < mem_base e + 8 * k' \<and> n < i" if "(L(q := None)) p = Some n" for p n
  proof -
    have "L p = Some n" using that by (simp split: if_splits)
    then show ?thesis using conv_okD(4,5) [OF c, of p n] assms(2) by simp
  qed
  moreover have "((pointers c)(ptr_text e q := None)) (ptr_text e p) = (L(q := None)) p" for p
    using conv_okD(1) [OF c] ptr_text_inj [of e p q] by auto
  ultimately show ?thesis using conv_okD(2,3) [OF c] by (simp add: conv_ok_def c')
qed

lemma convert_line_sim:
  assumes e: "env_ok e" and c: "conv_ok e k (L, i) c" and o: "op_of junk (block_for e k r) r (L, i) = Some (oper, L', i')"
  shows "\<exists>c'. convert_line (fields_for e (block_for e k r) r) c = Some c' \<and>
    conv_ok e (k + cells_for (request_size r)) (L', i') c' \<and> outlines c' = outlines c @ [line_of oper]"
proof -
  let ?p = "mem_base e + 8 * k" and ?k = "k + cells_for (request_size r)"
  note P = conv_okD [OF c]
  have fresh: "L ?p = None" "?p \<noteq> 0" using P(4) [of ?p] e by (cases "L ?p"; auto simp: env_ok_def)+
  have tk: "?p < mem_base e + 8 * ?k" if "0 < request_size r" using cells_for_bounds(1) [of "request_size r"] that by simp
  note add = conv_ok_add [OF c tk fresh(2) le_add1]
  have alloc: ?thesis if r: "r = Malloc m \<or> r = Calloc a b" for m a b
  proof -
    let ?c = "c\<lparr>ids_used := i + 1, pointers := (pointers c)(ptr_text e ?p \<mapsto> i), outlines := outlines c @ [line_of oper]\<rparr>"
    have n: "0 < request_size r" and o': "oper = \<lparr>op_type = ALLOC, op_index = int i, op_size = request_size r\<rparr>"
        "L' = L(?p \<mapsto> i)" "i' = i + 1"
      using o r by (auto split: if_splits)
    have "conv_ok e ?k (L', i') ?c" unfolding o'(2,3) by (rule add) (use n in simp_all)
    moreover have "convert_line (fields_for e (block_for e k r) r) c = Some ?c"
    proof (cases r)
      case (Malloc m')
      then show ?thesis using n P(1) [of ?p] P(2) fresh(1) o'(1) by (simp add: convert_line_def field_def Let_def line_of_simps)
    next
      case (Calloc a' b')
      then show ?thesis using n P(1) [of ?p] P(2) fresh(1) o'(1) by (simp add: convert_line_def field_def Let_def line_of_simps)
    qed (use r in auto)
    ultimately show ?thesis by simp
  qed
  show ?thesis
  proof (cases r)
    case (Realloc q n)
    show ?thesis
    proof (cases "q = 0")
      case True
      have t0: "ptr_text e 0 = ''0''" by simp
      let ?c = "c\<lparr>ids_used := i + 1, pointers := (pointers c)(ptr_text e ?p \<mapsto> i, ''0'' := None), outlines := outlines c @ [line_of oper]\<rparr>"
      have n: "0 < n" and o': "oper = \<lparr>op_type = REALLOC, op_index = int i, op_size = n\<rparr>" "L' = L(?p \<mapsto> i)" "i' = i + 1"
        using o Realloc True by (auto split: if_splits)
      let ?c1 = "c\<lparr>ids_used := i + 1, pointers := (pointers c)(ptr_text e ?p \<mapsto> i)\<rparr>"
      have c1: "conv_ok e ?k (L', i') ?c1" unfolding o'(2,3) by (rule add) (use n Realloc in simp_all)
      have "L'(0 := None) = L'" using conv_okD(3) [OF c1] by (simp add: fun_upd_idem)
      moreover have "conv_ok e ?k (L'(0 := None), i') ?c"
        by (rule conv_ok_del [OF c1 order_refl]) (simp_all add: ptr_text_def)
      moreover have "convert_line (fields_for e (block_for e k r) r) c = Some ?c"
        using Realloc True n P(1) [of 0, unfolded t0] P(1) [of ?p] P(2,3) fresh o'
        by (simp add: convert_line_def field_def Let_def line_of_simps t0)
      ultimately show ?thesis by simp
    next
      case False
      then obtain j where j: "L q = Some j" and n: "0 < n" and o': "oper = \<lparr>op_type = REALLOC, op_index = int j, op_size = n\<rparr>"
          "L' = L(?p \<mapsto> j, q := None)" "i' = i"
        using o Realloc by (auto split: if_splits)
      let ?c = "c\<lparr>pointers := (pointers c)(ptr_text e ?p \<mapsto> j, ptr_text e q := None), outlines := outlines c @ [line_of oper]\<rparr>"
      let ?c1 = "c\<lparr>pointers := (pointers c)(ptr_text e ?p \<mapsto> j)\<rparr>"
      have ne: "ptr_text e ?p \<noteq> ptr_text e q" using ptr_text_inj [of e ?p q] fresh(1) j by auto
      have c1: "conv_ok e ?k (L(?p \<mapsto> j), i) ?c1" by (rule add) (use n Realloc P(2) P(5) [OF j] in simp_all)
      have "conv_ok e ?k (L', i') ?c" unfolding o'(2,3) by (rule conv_ok_del [OF c1 order_refl]) simp_all
      moreover have "convert_line (fields_for e (block_for e k r) r) c = Some ?c"
        using Realloc False n P(1) [of q] P(1) [of ?p] fresh o' j ne
        by (simp add: convert_line_def field_def Let_def line_of_simps)
      ultimately show ?thesis by simp
    qed
  next
    case (Free q)
    let ?c = "c\<lparr>pointers := (pointers c)(ptr_text e q := None), outlines := outlines c @ [line_of oper]\<rparr>"
    have o': "oper = \<lparr>op_type = FREE, op_index = (case L q of None \<Rightarrow> - 1 | Some j \<Rightarrow> int j), op_size = junk\<rparr>" "L' = L(q := None)" "i' = i"
        "q = 0 \<or> L q \<noteq> None"
      using o P(3) Free by (auto split: if_splits option.splits)
    have "conv_ok e ?k (L', i') ?c" unfolding o'(2,3) by (rule conv_ok_del [OF c]) simp_all
    moreover have "convert_line (fields_for e (block_for e k r) r) c = Some ?c"
      using Free P(1) [of q] o'(1,4) P(3)
      by (auto simp: convert_line_def field_def Let_def line_of_simps split: option.splits)
    ultimately show ?thesis by simp
  qed (use alloc in auto)
qed

subsection \<open>From the recorder to the reader\<close>

lemma convert_run:
  "env_ok e \<Longrightarrow> conv_ok e k (L, i) c \<Longrightarrow> ops_of junk (blocks_for e k rs) rs (L, i) = Some (os, n) \<Longrightarrow>
   \<exists>c'. convert_lines (split_lines (lines_for e rs (blocks_for e k rs))) c = Some c' \<and> ids_used c' = n \<and>
     outlines c' = outlines c @ map line_of os"
proof (induction rs arbitrary: k L i c os)
  case Nil
  then show ?case by (simp add: lines_for_def conv_ok_def)
next
  case (Cons r rs)
  let ?p = "block_for e k r" and ?k = "k + cells_for (request_size r)"
  obtain oper L1 i1 os1 where o: "op_of junk ?p r (L, i) = Some (oper, L1, i1)"
    "ops_of junk (blocks_for e ?k rs) rs (L1, i1) = Some (os1, n)" "os = oper # os1"
    using Cons.prems(3) by (auto simp: bind_eq_Some_conv)
  obtain c1 where c1: "convert_line (fields_for e ?p r) c = Some c1" "conv_ok e ?k (L1, i1) c1" "outlines c1 = outlines c @ [line_of oper]"
    using convert_line_sim [OF Cons.prems(1,2) o(1)] by blast
  obtain c' where "convert_lines (split_lines (lines_for e rs (blocks_for e ?k rs))) c1 = Some c'" "ids_used c' = n"
      "outlines c' = outlines c1 @ map line_of os1"
    using Cons.IH [OF Cons.prems(1) c1(2) o(2)] by blast
  then show ?case using c1(1,3) o(3) convert_one [of e ?p r] by (simp add: lines_for_def)
qed

definition below :: "(addr \<rightharpoonup> nat) \<Rightarrow> nat \<Rightarrow> bool" where "below L i \<longleftrightarrow> (\<forall>q j. L q = Some j \<longrightarrow> j < i)"

lemma op_of_facts:
  assumes "op_of junk p r (L, i) = Some (oper, L', i')" "below L i"
  shows "i \<le> i'" "i' \<le> Suc i" "op_index oper < int i'" "-1 \<le> op_index oper"
    "op_type oper = FREE \<Longrightarrow> op_size oper = junk \<and> i' = i" "op_type oper \<noteq> FREE \<Longrightarrow> op_size oper = request_size r \<and> 0 < request_size r"
    "op_type oper \<noteq> FREE \<Longrightarrow> i' = i \<or> op_index oper = int i" "below L' i'" "op_type oper \<noteq> FREE \<Longrightarrow> 0 \<le> op_index oper"
proof -
  have less: "j < i" if "L q = Some j" for q j using assms(2) that by (simp add: below_def)
  have "i \<le> i' \<and> i' \<le> Suc i \<and> op_index oper < int i' \<and> -1 \<le> op_index oper \<and>
    (op_type oper = FREE \<longrightarrow> op_size oper = junk \<and> i' = i) \<and> (op_type oper \<noteq> FREE \<longrightarrow> op_size oper = request_size r \<and> 0 < request_size r) \<and>
    (op_type oper \<noteq> FREE \<longrightarrow> i' = i \<or> op_index oper = int i) \<and> below L' i' \<and> (op_type oper \<noteq> FREE \<longrightarrow> 0 \<le> op_index oper)"
    using assms(1) less less_Suc_eq
    by (cases "(junk, p, r, L, i)" rule: op_of.cases) (auto simp: below_def split: if_splits dest: less)
  then show "i \<le> i'" "i' \<le> Suc i" "op_index oper < int i'" "-1 \<le> op_index oper"
    "op_type oper = FREE \<Longrightarrow> op_size oper = junk \<and> i' = i" "op_type oper \<noteq> FREE \<Longrightarrow> op_size oper = request_size r \<and> 0 < request_size r"
    "op_type oper \<noteq> FREE \<Longrightarrow> i' = i \<or> op_index oper = int i" "below L' i'" "op_type oper \<noteq> FREE \<Longrightarrow> 0 \<le> op_index oper"
    by auto
qed

lemma ops_of_facts:
  "ops_of junk ps rs (L, i) = Some (os, n) \<Longrightarrow> below L i \<Longrightarrow> i \<le> n \<and> n \<le> i + length os \<and>
     length os \<le> length rs \<and> (\<forall>oper \<in> set os. -1 \<le> op_index oper \<and> op_index oper < int n \<and>
       (if op_type oper = FREE then op_size oper = junk else \<exists>r \<in> set rs. op_size oper = request_size r))"
proof (induction junk ps rs "(L, i)" arbitrary: L i os rule: ops_of.induct)
  case (1 junk p ps r rs L i)
  obtain oper L1 i1 os1 where o: "op_of junk p r (L, i) = Some (oper, L1, i1)" "ops_of junk ps rs (L1, i1) = Some (os1, n)"
    "os = oper # os1" using 1(2) by (auto simp: bind_eq_Some_conv)
  note f = op_of_facts [OF o(1) 1(3)]
  have "i1 \<le> n \<and> n \<le> i1 + length os1 \<and> length os1 \<le> length rs \<and> (\<forall>oper \<in> set os1. -1 \<le> op_index oper \<and> op_index oper < int n \<and>
       (if op_type oper = FREE then op_size oper = junk else \<exists>r \<in> set rs. op_size oper = request_size r))"
    by (rule 1(1) [OF o(1) refl refl o(2)]) (rule f(8))
  then show ?case using f(1-6) o(3) by auto
qed auto

text \<open>The largest index is the number of ids less one.\<close>

lemma top_index_ops:
  "ops_of junk ps rs (L, i) = Some (os, n) \<Longrightarrow> below L i \<Longrightarrow> m = int i - 1 \<or> (i = 0 \<and> m = 0) \<Longrightarrow>
   top_index m os = (if n = 0 then m else int n - 1)"
proof (induction junk ps rs "(L, i)" arbitrary: L i os m rule: ops_of.induct)
  case (1 junk p ps r rs L i)
  obtain oper L1 i1 os1 where o: "op_of junk p r (L, i) = Some (oper, L1, i1)" "ops_of junk ps rs (L1, i1) = Some (os1, n)"
    "os = oper # os1" using 1(2) by (auto simp: bind_eq_Some_conv)
  note f = op_of_facts [OF o(1) 1(3)]
  define m1 where "m1 = (if op_type oper \<noteq> FREE \<and> m < op_index oper then op_index oper else m)"
  have m1: "m1 = int i1 - 1 \<or> (i1 = 0 \<and> m1 = 0)" using f(1-7,9) 1(4) unfolding m1_def by (cases "op_type oper = FREE") (auto simp: le_Suc_eq)
  have "top_index m os = top_index m1 os1" by (simp add: top_index_def m1_def o(3))
  also have "\<dots> = (if n = 0 then m1 else int n - 1)" by (rule 1(1) [OF o(1) refl refl o(2) f(8) m1])
  finally show ?case using f(1,2,3,7,9) 1(4) m1 ops_of_facts [OF o(2) f(8)] unfolding m1_def by (auto simp: le_Suc_eq split: if_splits)
qed (auto simp: top_index_def)

text \<open>The trace is one the driver can replay.\<close>

definition ids_live :: "(addr \<rightharpoonup> nat) \<Rightarrow> nat \<Rightarrow> (int \<Rightarrow> id_state) \<Rightarrow> bool" where
  "ids_live L i st \<longleftrightarrow> (\<forall>q j. L q = Some j \<longrightarrow> st (int j) = Live \<and> j < i) \<and> (\<forall>j \<ge> i. st (int j) = Null) \<and>
     (\<forall>q q' j. L q = Some j \<longrightarrow> L q' = Some j \<longrightarrow> q = q')"

lemma ids_liveD:
  assumes "ids_live L i st"
  shows "L q = Some j \<Longrightarrow> st (int j) = Live" "L q = Some j \<Longrightarrow> j < i" "i \<le> j \<Longrightarrow> st (int j) = Null"
    "L q = Some j \<Longrightarrow> L q' = Some j \<Longrightarrow> q = q'"
  using assms unfolding ids_live_def by blast+

lemma ids_live_add:
  assumes "ids_live L i st"
  shows "ids_live (L(p \<mapsto> i)) (i + 1) (st(int i := Live))"
proof -
  note d = ids_liveD [OF assms]
  have "(st(int i := Live)) (int j) = Live \<and> j < i + 1" if "(L(p \<mapsto> i)) q = Some j" for q j
    using that d(1) [of q j] d(2) [of q j] by (cases "q = p") auto
  moreover have "(st(int i := Live)) (int j) = Null" if "i + 1 \<le> j" for j using d(3) [of j] that by simp
  moreover have "q = q'" if "(L(p \<mapsto> i)) q = Some j" "(L(p \<mapsto> i)) q' = Some j" for q q' j
    using that d(2) [of q i] d(2) [of q' i] d(4) [of q j q'] by (cases "q = p"; cases "q' = p") auto
  ultimately show ?thesis unfolding ids_live_def by blast
qed

lemma ids_live_del:
  assumes "ids_live L i st" and q: "L q = Some j"
  shows "ids_live (L(q := None)) i (st(int j := Dangling))"
proof -
  note d = ids_liveD [OF assms(1)]
  have "(st(int j := Dangling)) (int n) = Live \<and> n < i" if "(L(q := None)) p = Some n" for p n
  proof -
    have p: "p \<noteq> q" "L p = Some n" using that by (auto split: if_splits)
    then have "n \<noteq> j" using d(4) [of p n q] q by auto
    then show ?thesis using d(1,2) [OF p(2)] by simp
  qed
  moreover have "(st(int j := Dangling)) (int n) = Null" if "i \<le> n" for n using d(3) [OF that] d(2) [OF q] that by simp
  moreover have "p = p'" if "(L(q := None)) p = Some n" "(L(q := None)) p' = Some n" for p p' n
    using that d(4) [of p n p'] by (auto split: if_splits)
  ultimately show ?thesis unfolding ids_live_def by blast
qed

lemma ids_live_move:
  assumes "ids_live L i st" and q: "L q = Some j" and p: "p \<noteq> q"
  shows "ids_live (L(p \<mapsto> j, q := None)) i (st(int j := Live))"
proof -
  note d = ids_liveD [OF assms(1)]
  let ?L = "L(p \<mapsto> j, q := None)"
  have "(st(int j := Live)) (int n) = Live \<and> n < i" if "?L p' = Some n" for p' n
    using that d(1,2) [of p' n] d(2) [OF q] by (auto split: if_splits)
  moreover have "(st(int j := Live)) (int n) = Null" if "i \<le> n" for n using d(3) [OF that] d(2) [OF q] that by simp
  moreover have "a = b" if "?L a = Some n" "?L b = Some n" for a b n
  proof -
    have ne: "a \<noteq> q" "b \<noteq> q" using that by (auto split: if_splits)
    have val: "if c = p then n = j else L c = Some n" if "c \<noteq> q" "?L c = Some n" for c using that by (simp split: if_splits)
    show ?thesis
    proof (rule ccontr)
      assume "a \<noteq> b"
      then consider "a \<noteq> p" "b = p" | "a = p" "b \<noteq> p" | "a \<noteq> p" "b \<noteq> p" by blast
      then show False
      proof cases
        case 1
        then have "L a = Some j" using val [OF ne(1) that(1)] val [OF ne(2) that(2)] by simp
        then show False using d(4) [OF _ q] ne(1) by blast
      next
        case 2
        then have "L b = Some j" using val [OF ne(1) that(1)] val [OF ne(2) that(2)] by simp
        then show False using d(4) [OF _ q] ne(2) by blast
      next
        case 3
        then have "L a = Some n" "L b = Some n" using val [OF ne(1) that(1)] val [OF ne(2) that(2)] by simp_all
        then show False using d(4) \<open>a \<noteq> b\<close> by blast
      qed
    qed
  qed
  ultimately show ?thesis unfolding ids_live_def by blast
qed

lemma op_of_live:
  assumes o: "op_of junk p r (L, i) = Some (oper, L', i')" and st: "ids_live L i st" and N: "int i' \<le> N"
    and "request_size r < 2 ^ 31" "L p = None"
  obtains st' where "next_ids N oper st = Some st'" "ids_live L' i' st'"
proof -
  note d = ids_liveD [OF st]
  have "\<exists>st'. next_ids N oper st = Some st' \<and> ids_live L' i' st'"
  proof (cases r)
    case (Free q)
    show ?thesis
    proof (cases "q = 0")
      case True
      then show ?thesis using o st Free by (auto simp: next_ids_def Let_def)
    next
      case False
      then obtain j where j: "L q = Some j" "oper = \<lparr>op_type = FREE, op_index = int j, op_size = junk\<rparr>" "L' = L(q := None)" "i' = i"
        using o Free by auto
      then show ?thesis using ids_live_del [OF st j(1)] d(1,2) [OF j(1)] N by (simp add: next_ids_def Let_def)
    qed
  next
    case (Realloc q n)
    then have n: "0 < n" using o by (auto split: if_splits)
    show ?thesis
    proof (cases "q = 0")
      case True
      then show ?thesis using o Realloc n ids_live_add [OF st, of p] d(3) [of i] N assms(4) by (auto simp: next_ids_def Let_def)
    next
      case False
      then obtain j where j: "L q = Some j" "oper = \<lparr>op_type = REALLOC, op_index = int j, op_size = n\<rparr>" "L' = L(p \<mapsto> j, q := None)" "i' = i"
        using o Realloc n by auto
      moreover have "p \<noteq> q" using j(1) assms(5) by auto
      ultimately show ?thesis using ids_live_move [OF st j(1)] d(1,2) [OF j(1)] N n assms(4) Realloc by (simp add: next_ids_def Let_def)
    qed
  qed (use o ids_live_add [OF st, of p] d(3) [of i] N assms(4) in \<open>auto simp: next_ids_def Let_def split: if_splits\<close>)
  then show ?thesis using that by blast
qed

definition known :: "trace_env \<Rightarrow> nat \<Rightarrow> (addr \<rightharpoonup> nat) \<Rightarrow> bool" where
  "known e k L \<longleftrightarrow> L 0 = None \<and> (\<forall>p j. L p = Some j \<longrightarrow> p < mem_base e + 8 * k)"

lemma op_of_known:
  assumes "known e k L" "op_of junk (block_for e k r) r (L, i) = Some (oper, L', i')" "0 < mem_base e"
  shows "L (block_for e k r) = None" "known e (k + cells_for (request_size r)) L'"
proof -
  show "L (block_for e k r) = None"
    using assms(1,3) by (cases r; cases "L (block_for e k r)") (auto simp: known_def split: if_splits)
  have tk: "mem_base e + 8 * k < mem_base e + 8 * (k + cells_for (request_size r))" if "0 < request_size r"
    using cells_for_bounds(1) [of "request_size r"] that by simp
  have new: "known e (k + cells_for (request_size r)) (L(mem_base e + 8 * k \<mapsto> j))" if "0 < request_size r" for j
    using assms(1,3) tk [OF that] unfolding known_def by (auto intro: less_le_trans)
  have drop: "known e m (M(q := None))" if "known e m M" for q M m using that unfolding known_def by simp
  have same: "known e (k + cells_for (request_size r)) L" using assms(1) unfolding known_def by (auto intro: less_le_trans)
  show "known e (k + cells_for (request_size r)) L'"
    using assms(2) new same drop [OF same] drop [OF new]
    by (cases r) (auto split: if_splits)
qed

lemma ops_wf:
  "ops_of junk (blocks_for e k rs) rs (L, i) = Some (os, n) \<Longrightarrow> known e k L \<Longrightarrow> below L i \<Longrightarrow> ids_live L i st \<Longrightarrow> 0 < mem_base e \<Longrightarrow>
   int n \<le> N \<Longrightarrow> (\<And>r. r \<in> set rs \<Longrightarrow> request_size r < 2 ^ 31) \<Longrightarrow> wf_ops N st os"
proof (induction rs arbitrary: k L i os st)
  case (Cons r rs)
  let ?p = "block_for e k r" and ?k = "k + cells_for (request_size r)"
  obtain oper L1 i1 os1 where o: "op_of junk ?p r (L, i) = Some (oper, L1, i1)"
    "ops_of junk (blocks_for e ?k rs) rs (L1, i1) = Some (os1, n)" "os = oper # os1"
    using Cons.prems(1) by (auto simp: bind_eq_Some_conv)
  note k = op_of_known [OF Cons.prems(2) o(1) Cons.prems(5)] and b = op_of_facts(8) [OF o(1) Cons.prems(3)]
  have i1: "int i1 \<le> N" using ops_of_facts [OF o(2) b] Cons.prems(6) by simp
  have sz: "request_size r < 2 ^ 31" using Cons.prems(7) by simp
  obtain st1 where st1: "next_ids N oper st = Some st1" "ids_live L1 i1 st1"
    by (rule op_of_live [OF o(1) Cons.prems(4) i1 sz k(1)])
  have "wf_ops N st1 os1" by (rule Cons.IH [OF o(2) k(2) b st1(2) Cons.prems(5,6,7)]) simp
  then show ?case using o(3) st1(1) by simp
qed simp

lemma requests_small: "requests_ok e k rs \<Longrightarrow> r \<in> set rs \<Longrightarrow> request_size r < 2 ^ 31"
proof (induction rs arbitrary: k)
  case (Cons r' rs)
  then show ?case
    using requests_ok_cells [of e "k + cells_for (request_size r')" rs] cells_for_bounds(1) [of "request_size r'"]
    by (auto simp: MEM_CELLS_def)
qed simp

text \<open>The trace that a recorded program becomes.\<close>

definition recorded_trace :: "string \<Rightarrow> traceop_t list \<Rightarrow> nat \<Rightarrow> trace_t" where
  "recorded_trace name os n = \<lparr>filename = name, ignore_ranges = 0, num_ids = int n, num_ops = int (length os), weight = 0, ops = os,
     blocks = (\<lambda>_. 0), block_sizes = (\<lambda>_. 0), block_rand_base = (\<lambda>_. 0)\<rparr>"

lemma ops_start: "below Map.empty 0" "ids_live Map.empty 0 (\<lambda>_. Null)" "known e 0 Map.empty"
  by (simp_all add: below_def ids_live_def known_def)

lemma recorded_printable:
  assumes "requests_ok e 0 rs" "length rs < 2 ^ 31" "ops_of junk (blocks_for e 0 rs) rs (Map.empty, 0) = Some (os, n)" "0 < n"
  shows "printable junk (recorded_trace name os n)"
proof -
  note f = ops_of_facts [OF assms(3) ops_start(1)]
  have "op_printable junk oper" if "oper \<in> set os" for oper
    using f that assms(2) requests_small [OF assms(1)] by (fastforce simp: op_printable_def)
  moreover have "top_index 0 os = int n - 1" using top_index_ops [OF assms(3) ops_start(1), of 0] assms(4) by simp
  moreover have "int n < 2 ^ 31" "int (length os) < 2 ^ 31" using f assms(2) by auto
  ultimately show ?thesis by (simp add: printable_def recorded_trace_def)
qed

lemma convert_text:
  assumes e: "env_ok e" and o: "ops_of junk (blocks_for e 0 rs) rs (Map.empty, 0) = Some (os, n)" and n: "0 < n"
  shows "convert_trace (trace_header @ lines_for e rs (blocks_for e 0 rs)) = Some (show_trace (recorded_trace name os n))"
proof -
  let ?c = "\<lparr>pointers = Map.empty, ids_used = 0, outlines = []\<rparr> :: conv"
  have c: "conv_ok e 0 (Map.empty, 0) ?c" by (simp add: conv_ok_def)
  obtain c' where c': "convert_lines (split_lines (lines_for e rs (blocks_for e 0 rs))) ?c = Some c'" "ids_used c' = n"
      "outlines c' = map line_of os" using convert_run [OF e c o] by auto
  have ne: "os \<noteq> []" using ops_of_facts [OF o ops_start(1)] n by auto
  have "of_char (CHR ''0'') = (48 :: nat)" by simp
  then have "CHR ''0'' = char_of (48 :: nat)" by (metis char_of_char)
  then have zero: "show_int 0 = ''0''" by (simp add: show_int_def show_nat.simps [of 0])
  have nat: "show_int (int m) = show_nat m" for m by (simp add: show_int_def)
  have os: "concat (map show_op os) = concat (map (\<lambda>l. l @ [NL]) (map line_of os))"
    by (simp add: show_op_line [abs_def] comp_def)
  show ?thesis
    by (simp add: convert_trace_def convert_header c' ne show_trace_def recorded_trace_def zero nat os)
qed

lemma recorded_trace_read:
  assumes "env_ok e" "requests_ok e 0 rs" "length rs < 2 ^ 31"
    and "ops_of junk (blocks_for e 0 rs) rs (Map.empty, 0) = Some (os, n)" "0 < n"
  shows "\<exists>s out. record_program memcpy e rs = Some (blocks_for e 0 rs, s) \<and> convert_trace (file_text s) = Some out \<and>
    read_from junk name out = Some (recorded_trace name os n) \<and> wf_ops (int n) (\<lambda>_. Null) os"
proof -
  have "rs \<noteq> []" using assms(4,5) by auto
  with recorder_file [OF assms(1,2)] obtain s where s: "record_program memcpy e rs = Some (blocks_for e 0 rs, s)"
    "file_text s = trace_header @ lines_for e rs (blocks_for e 0 rs)" by blast
  have "read_from junk name (show_trace (recorded_trace name os n)) = Some (recorded_trace name os n)"
    using read_from_show [OF recorded_printable [OF assms(2-5)]] by (simp add: recorded_trace_def)
  moreover have "wf_ops (int n) (\<lambda>_. Null) os"
    using ops_wf [OF assms(4) ops_start(3,1,2) _ order_refl] assms(1) requests_small [OF assms(2)] by (simp add: env_ok_def)
  ultimately show ?thesis using s convert_text [OF assms(1,4,5)] by auto
qed

subsection \<open>Properties\<close>

text \<open>C36: a recorded program becomes a trace of the driver. If a program passes only live pointers, or null, and asks for no
  empty block, then the file of the recorder is converted without an error, and the driver reads from the result a
  trace with the program's requests in order, where every pointer has become the id of its block, and whose
  ids are used as the driver expects.\<close>

theorem recorded_trace_readable:
  assumes "env_ok e" "requests_ok e 0 rs" "length rs < 2 ^ 31"
    and "ops_of junk (blocks_for e 0 rs) rs (Map.empty, 0) = Some (os, n)" "0 < n"
  shows "\<exists>s out. record_program memcpy e rs = Some (blocks_for e 0 rs, s) \<and> convert_trace (file_text s) = Some out \<and>
    read_from junk name out = Some (recorded_trace name os n) \<and> wf_ops (int n) (\<lambda>_. Null) os"
  by (rule recorded_trace_read [OF assms])

definition demo_ops :: "nat \<Rightarrow> traceop_t list" where
  "demo_ops junk = [\<lparr>op_type = ALLOC, op_index = 0, op_size = 10\<rparr>, \<lparr>op_type = ALLOC, op_index = 1, op_size = 12\<rparr>,
     \<lparr>op_type = REALLOC, op_index = 0, op_size = 20\<rparr>, \<lparr>op_type = FREE, op_index = 1, op_size = junk\<rparr>,
     \<lparr>op_type = FREE, op_index = -1, op_size = junk\<rparr>]"

lemma demo_ops_of: "ops_of junk (blocks_for demo_env 0 demo_requests) demo_requests (Map.empty, 0) = Some (demo_ops junk, 2)"
  unfolding demo_env_ok(3) by (simp add: demo_requests_def demo_ops_def)

lemma demo_length: "length demo_requests < 2 ^ 31" by (simp add: demo_requests_def)

theorem recorded_trace_readable_witness:
  "\<exists>s out. record_program copy_bytes demo_env demo_requests = Some ([2 ^ 40, 2 ^ 40 + 16, 2 ^ 40 + 32, 0, 0], s) \<and>
    convert_trace (file_text s) = Some out \<and> read_from 9 ''t'' out = Some (recorded_trace ''t'' (demo_ops 9) 2)"
  using recorded_trace_readable [OF demo_env_ok(1,2) demo_length demo_ops_of, of copy_bytes 9 "''t''"]
  unfolding demo_env_ok(3) by auto

text \<open>After a request of size 0 the next block has the same address, and the script dies on the second line.\<close>

lemma empty_block_breaks_trace:
  assumes e: "env_ok e"
  shows "\<exists>s. record_program memcpy e [Malloc 0, Malloc 8] = Some ([mem_base e, mem_base e], s) \<and> convert_trace (file_text s) = None"
proof -
  let ?rs = "[Malloc 0, Malloc 8]"
  have ok: "requests_ok e 0 ?rs" "?rs \<noteq> []" "blocks_for e 0 ?rs = [mem_base e, mem_base e]"
    by (simp_all add: cells_for_def MEM_CELLS_def)
  obtain s where s: "record_program memcpy e ?rs = Some ([mem_base e, mem_base e], s)"
    "file_text s = trace_header @ lines_for e ?rs [mem_base e, mem_base e]"
    using recorder_file [OF e ok(1,2), of memcpy] unfolding ok(3) by blast
  have "lines_for e ?rs [mem_base e, mem_base e] = line_for e (mem_base e) (Malloc 0) @ line_for e (mem_base e) (Malloc 8) @ []"
    by (simp add: lines_for_def)
  then have "convert_trace (file_text s) = None"
    unfolding s(2) convert_trace_def convert_header by (simp add: convert_one convert_one [of e _ _ "[]", simplified append_Nil2] convert_line_def field_def Let_def del: line_for.simps)
  then show ?thesis using s(1) by blast
qed

text \<open>\<open>realloc(p, 0)\<close> makes the script take the null pointer for a live block, so it dies on the next one.\<close>

lemma realloc_zero_breaks_script:
  assumes "p \<noteq> 0" "q \<noteq> 0" "p \<noteq> q"
  shows "convert_lines (split_lines (line_for e p (Malloc 8) @ line_for e q (Malloc 8) @ line_for e 0 (Realloc p 0) @
    line_for e 0 (Realloc q 0) @ [])) \<lparr>pointers = Map.empty, ids_used = 0, outlines = []\<rparr> = None"
proof -
  have "ptr_text e p \<noteq> ''0''" "ptr_text e q \<noteq> ''0''" "ptr_text e p \<noteq> ptr_text e q" "ptr_text e q \<noteq> ptr_text e p" "ptr_text e 0 = ''0''"
    using assms ptr_text_inj by auto
  then show ?thesis by (simp add: convert_one convert_line_def field_def Let_def del: ptr_text_0 line_for.simps append_Nil2)
qed

end
