(* ===== verification/Chat.thy ===== *)
theory Chat
  imports C_Text
begin

section \<open>The chat room (practice-4)\<close>

text \<open>
  Every process runs a server, whose sessions are the members of its group, and possibly one client,
  which is connected to the server of another process. The handlers of the event loop are functions on
  the group, each executed as a whole, which is what happens when one thread runs the event loop. A
  session lives as long as the set of members holds its pointer, so the members are the pairs of a
  pointer and its session in the order of the pointers. \<open>None\<close> is undefined behaviour: a text without
  its final 0, or a handler of a session that was freed. The bytes of uninitialised variables are the
  parameter \<open>junk\<close>.
\<close>

subsection \<open>Addresses and messages (message.h)\<close>

text \<open>The union \<open>IPv4\<close> is kept as its \<open>int\<close>; on a little endian machine byte \<open>k\<close> has weight \<open>256 ^ k\<close>.\<close>

record addr_t =
  ip :: int
  port :: int

definition ip_byte :: "int \<Rightarrow> nat \<Rightarrow> nat" where
  "ip_byte i k = to_u32 i div 256 ^ k mod 256"

definition ip_of_bytes :: "nat \<Rightarrow> nat \<Rightarrow> nat \<Rightarrow> nat \<Rightarrow> int" where
  "ip_of_bytes a b c d = s32 (a + 256 * b + 65536 * c + 16777216 * d)"

definition to_string :: "addr_t \<Rightarrow> string" where
  "to_string a =
     show_nat (ip_byte (ip a) 0) @ ''.'' @ show_nat (ip_byte (ip a) 1) @ ''.'' @
     show_nat (ip_byte (ip a) 2) @ ''.'' @ show_nat (ip_byte (ip a) 3) @ '':'' @ show_int (port a)"

text \<open>\<open>sscanf\<close> with \<open>%d\<close> conversions separated by dots into the given elements of an array.\<close>

fun scan_dotted :: "nat list \<Rightarrow> string \<Rightarrow> (nat \<Rightarrow> int) \<Rightarrow> (nat \<Rightarrow> int)" where
  "scan_dotted [] s tmp = tmp"
| "scan_dotted (k # ks) s tmp =
     (case scan_number s of
        (None, _) \<Rightarrow> tmp
      | (Some v, r) \<Rightarrow>
          (case r of
             c # cs \<Rightarrow> if c = CHR ''.'' then scan_dotted ks cs (tmp(k := wrap32 v)) else tmp(k := wrap32 v)
           | [] \<Rightarrow> tmp(k := wrap32 v)))"

definition to_uchar :: "int \<Rightarrow> nat" where "to_uchar i = nat (i mod 256)"

definition parse_addr :: "(nat \<Rightarrow> int) \<Rightarrow> string \<Rightarrow> string \<Rightarrow> addr_t" where
  "parse_addr junk ip_text port_text =
     (let tmp = scan_dotted [0, 1, 2, 3] ip_text junk;
          tmp = tmp(4 := fst (scan_d (tmp 4) port_text))
      in \<lparr>ip = ip_of_bytes (to_uchar (tmp 0)) (to_uchar (tmp 1)) (to_uchar (tmp 2)) (to_uchar (tmp 3)),
          port = tmp 4\<rparr>)"

record msg_t =
  sender :: addr_t
  ttl :: int
  msg_id :: int
  text_of :: string

definition DEFAULT_TTL :: int where "DEFAULT_TTL = 10"
definition MAX_BUFF_SIZE :: nat where "MAX_BUFF_SIZE = 1024"

definition new_msg :: "addr_t \<Rightarrow> string \<Rightarrow> int \<Rightarrow> msg_t" where
  "new_msg a text i = \<lparr>sender = a, ttl = DEFAULT_TTL, msg_id = i, text_of = text\<rparr>"

text \<open>The shift of a letter; \<open>smod\<close> is the operator \<open>%\<close> on \<open>int\<close>.\<close>

definition shift_char :: "(int \<Rightarrow> int) \<Rightarrow> char \<Rightarrow> char" where
  "shift_char f c =
     (if 97 \<le> code c \<and> code c \<le> 122 then char_of (nat (97 + f (int (code c) - 97)))
      else if 65 \<le> code c \<and> code c \<le> 90 then char_of (nat (65 + f (int (code c) - 65)))
      else c)"

definition enc :: "int \<Rightarrow> int \<Rightarrow> int" where "enc p x = wrap32 (x + p) smod 26"
definition dec :: "int \<Rightarrow> int \<Rightarrow> int" where "dec p x = (x - p smod 26 + 26) smod 26"

definition encode :: "int \<Rightarrow> string \<Rightarrow> string" where "encode p s = map (shift_char (enc p)) s"
definition decode :: "int \<Rightarrow> string \<Rightarrow> string" where "decode p s = map (shift_char (dec p)) s"

definition serialize :: "msg_t \<Rightarrow> string" where
  "serialize m =
     show_int (ip (sender m)) @ SP # show_int (port (sender m)) @ SP # show_int (msg_id m) @ SP #
     show_int (ttl m) @ CHR '';'' # encode (port (sender m)) (text_of m)"

text \<open>
  A stream read by the extraction operators: characters left, the end met while reading, or a failed
  read, after which every further read does nothing.
\<close>

datatype stream = Good string | AtEnd | Failed

definition extract_int :: "int \<Rightarrow> stream \<Rightarrow> int \<times> stream" where
  "extract_int old st =
     (case st of
        Good s \<Rightarrow>
          (if skip_space s = [] then (old, Failed)
           else case scan_number s of
                  (None, _) \<Rightarrow> (0, Failed)
                | (Some v, r) \<Rightarrow>
                    (if v < - (2 ^ 31) then (- (2 ^ 31), Failed)
                     else if 2 ^ 31 \<le> v then (2 ^ 31 - 1, Failed)
                     else (v, if r = [] then AtEnd else Good r)))
      | _ \<Rightarrow> (old, Failed))"

fun ignore_until :: "nat \<Rightarrow> char \<Rightarrow> stream \<Rightarrow> stream" where
  "ignore_until 0 d (Good s) = Good s"
| "ignore_until (Suc n) d (Good []) = AtEnd"
| "ignore_until (Suc n) d (Good (c # s)) = (if c = d then Good s else ignore_until n d (Good s))"
| "ignore_until n d st = Failed"

definition getline :: "string \<Rightarrow> stream \<Rightarrow> string" where
  "getline old st = (case st of Good s \<Rightarrow> takeWhile (\<lambda>c. c \<noteq> NL) s | _ \<Rightarrow> old)"

definition deserialize :: "msg_t \<Rightarrow> string \<Rightarrow> msg_t" where
  "deserialize old str =
     (let (i, st) = extract_int (ip (sender old)) (Good str);
          (p, st) = extract_int (port (sender old)) st;
          (n, st) = extract_int (msg_id old) st;
          (t, st) = extract_int (ttl old) st;
          st = ignore_until MAX_BUFF_SIZE (CHR '';'') st;
          text = getline (text_of old) st
      in \<lparr>sender = \<lparr>ip = i, port = p\<rparr>, ttl = t, msg_id = n, text_of = decode p text\<rparr>)"

text \<open>What \<open>strncpy\<close> puts into a buffer, and the \<open>std::string\<close> made from one.\<close>

definition NUL :: char where "NUL = char_of (0 :: nat)"

definition frame :: "string \<Rightarrow> string" where
  "frame s = (let t = take MAX_BUFF_SIZE (takeWhile (\<lambda>c. c \<noteq> NUL) s)
              in t @ replicate (MAX_BUFF_SIZE - length t) NUL)"

definition unframe :: "string \<Rightarrow> string option" where
  "unframe buf = (if NUL \<in> set buf then Some (takeWhile (\<lambda>c. c \<noteq> NUL) buf) else None)"

text \<open>A local \<open>msg_t msg;\<close> has an empty text and undefined numbers.\<close>

definition receive :: "msg_t \<Rightarrow> string \<Rightarrow> msg_t option" where
  "receive junk buf = map_option (deserialize (junk\<lparr>text_of := []\<rparr>)) (unframe buf)"

subsection \<open>The cache of messages\<close>

definition MAX_CACHE_SIZE :: nat where "MAX_CACHE_SIZE = 100"

definition cache_hit :: "msg_t \<Rightarrow> msg_t list \<Rightarrow> bool" where
  "cache_hit m c = list_ex (\<lambda>x. sender x = sender m \<and> msg_id x = msg_id m) c"

text \<open>Dropping from the front while the list is too long.\<close>

definition keep_last :: "nat \<Rightarrow> 'a list \<Rightarrow> 'a list" where
  "keep_last n xs = drop (length xs - n) xs"

definition cache_add :: "msg_t \<Rightarrow> msg_t list \<Rightarrow> msg_t list" where
  "cache_add m c = keep_last MAX_CACHE_SIZE (if cache_hit m c then c else c @ [m])"

subsection \<open>The send queues of sessions and clients\<close>

text \<open>
  A write is idle, under way, or written with its handler still to run. Both kinds of members keep the
  message being written at the head of \<open>pending\<close>.
\<close>

datatype wstate = Idle | Writing | Written

record sendq =
  pending :: "msg_t list"
  wbuff :: string
  wstate :: wstate

definition empty_q :: sendq where
  "empty_q = \<lparr>pending = [], wbuff = replicate MAX_BUFF_SIZE NUL, wstate = Idle\<rparr>"

definition start_write :: "sendq \<Rightarrow> sendq" where
  "start_write q = q\<lparr>wbuff := frame (serialize (hd (pending q))), wstate := Writing\<rparr>"

definition enqueue :: "msg_t \<Rightarrow> sendq \<Rightarrow> sendq" where
  "enqueue m q =
     (let write_in_progress = pending q \<noteq> [];
          q = q\<lparr>pending := pending q @ [m]\<rparr>
      in if write_in_progress then q else start_write q)"

definition on_written :: "sendq \<Rightarrow> sendq" where
  "on_written q =
     (let q = q\<lparr>pending := tl (pending q)\<rparr>
      in if pending q \<noteq> [] then start_write q else q\<lparr>wstate := Idle\<rparr>)"

definition session_send :: "msg_t \<Rightarrow> sendq \<Rightarrow> sendq" where
  "session_send m s = enqueue m s"

text \<open>\<open>posted\<close>: the handlers that \<open>Client::send\<close> gave to the event loop and that did not run yet.\<close>

record client =
  cq :: sendq
  ccache :: "msg_t list"
  caddr :: addr_t
  posted :: "msg_t list"
  opened :: bool
  shown :: "msg_t list"

definition new_client :: "addr_t \<Rightarrow> client" where
  "new_client a = \<lparr>cq = empty_q, ccache = [], caddr = a, posted = [], opened = True, shown = []\<rparr>"

definition client_send :: "msg_t \<Rightarrow> client \<Rightarrow> client" where
  "client_send m c = c\<lparr>posted := posted c @ [m]\<rparr>"

subsection \<open>The group (group.h)\<close>

definition MAX_RECENT_MSG_NUM :: nat where "MAX_RECENT_MSG_NUM = 20"

record group =
  recent_msg :: "msg_t list"
  cache :: "msg_t list"
  members :: "(nat \<times> sendq) list"
  clnt :: "client option"
  black_list :: "addr_t list"

fun words_of :: "nat \<Rightarrow> string \<Rightarrow> string list" where
  "words_of 0 s = []"
| "words_of (Suc n) s = (case scan_s s of None \<Rightarrow> [] | Some (w, r) \<Rightarrow> w # words_of n r)"

fun parse_pairs :: "(nat \<Rightarrow> int) \<Rightarrow> string list \<Rightarrow> addr_t list" where
  "parse_pairs junk (host # prt # ws) = parse_addr junk host prt # parse_pairs junk ws"
| "parse_pairs junk _ = []"

text \<open>\<open>config\<close> is the text of the configuration file, if it can be opened.\<close>

definition new_group :: "(nat \<Rightarrow> int) \<Rightarrow> string option \<Rightarrow> client option \<Rightarrow> group" where
  "new_group junk config c =
     \<lparr>recent_msg = [], cache = [], members = [], clnt = c,
      black_list = (case config of None \<Rightarrow> [] | Some t \<Rightarrow> parse_pairs junk (words_of (length t) t))\<rparr>"

definition insert_member :: "nat \<Rightarrow> sendq \<Rightarrow> (nat \<times> sendq) list \<Rightarrow> (nat \<times> sendq) list" where
  "insert_member p s ms =
     takeWhile (\<lambda>(q, _). q < p) ms @ (p, s) # dropWhile (\<lambda>(q, _). q < p) ms"

definition update_member :: "nat \<Rightarrow> (sendq \<Rightarrow> sendq) \<Rightarrow> group \<Rightarrow> group" where
  "update_member p f g = g\<lparr>members := map (\<lambda>(q, s). (q, if q = p then f s else s)) (members g)\<rparr>"

definition join :: "nat \<Rightarrow> sendq \<Rightarrow> group \<Rightarrow> group" where
  "join p s g =
     fold (\<lambda>m. update_member p (session_send m)) (recent_msg g)
       (g\<lparr>members := insert_member p s (members g)\<rparr>)"

definition leave :: "nat \<Rightarrow> group \<Rightarrow> group" where
  "leave p g = g\<lparr>members := filter (\<lambda>(q, _). q \<noteq> p) (members g)\<rparr>"

definition find_in_black_list :: "group \<Rightarrow> addr_t \<Rightarrow> bool" where
  "find_in_black_list g a = list_ex (\<lambda>x. a = x) (black_list g)"

definition broadcast :: "msg_t \<Rightarrow> group \<Rightarrow> group" where
  "broadcast m g =
     (let send_msg = m\<lparr>ttl := wrap32 (ttl m - 1)\<rparr>
      in if ttl send_msg \<le> 0 \<or> cache_hit m (cache g) \<or> find_in_black_list g (sender m) then g
         else
           (let g = g\<lparr>cache := cache_add send_msg (cache g)\<rparr>;
                g = g\<lparr>members := map (\<lambda>(p, s). (p, session_send send_msg s)) (members g)\<rparr>;
                g = g\<lparr>clnt := map_option (client_send send_msg) (clnt g)\<rparr>
            in g\<lparr>recent_msg := keep_last MAX_RECENT_MSG_NUM (recent_msg g @ [send_msg])\<rparr>))"

subsection \<open>Handlers of sessions (server.h)\<close>

text \<open>\<open>run\<close> on an accepted connection; a read is outstanding from then on.\<close>

definition on_accept :: "nat \<Rightarrow> group \<Rightarrow> group" where
  "on_accept p g = join p empty_q g"

definition session_on_read :: "msg_t \<Rightarrow> string \<Rightarrow> group \<Rightarrow> group option" where
  "session_on_read junk rbuff g = map_option (\<lambda>m. broadcast m g) (receive junk rbuff)"

definition session_on_write :: "nat \<Rightarrow> group \<Rightarrow> group" where
  "session_on_write p g = update_member p on_written g"

text \<open>
  After an error the session leaves the group, which frees it. The handler of any other operation that
  is still outstanding then uses the freed session; a read is always outstanding during a write.
\<close>

definition session_error :: "bool \<Rightarrow> nat \<Rightarrow> group \<Rightarrow> group option" where
  "session_error other_outstanding p g = (if other_outstanding then None else Some (leave p g))"

definition session_read_error :: "nat \<Rightarrow> group \<Rightarrow> group option" where
  "session_read_error p g =
     (case map_of (members g) p of None \<Rightarrow> None | Some s \<Rightarrow> session_error (wstate s \<noteq> Idle) p g)"

definition session_write_error :: "nat \<Rightarrow> group \<Rightarrow> group option" where
  "session_write_error p g = session_error True p g"

subsection \<open>Handlers of the client (client.h)\<close>

definition client_on_post :: "msg_t \<Rightarrow> group \<Rightarrow> group" where
  "client_on_post m g =
     (let g = broadcast m g
      in g\<lparr>clnt := map_option (\<lambda>c. c\<lparr>cq := enqueue m (cq c)\<rparr>) (clnt g)\<rparr>)"

definition client_on_read :: "msg_t \<Rightarrow> string \<Rightarrow> group \<Rightarrow> group option" where
  "client_on_read junk rbuff g =
     (case (receive junk rbuff, clnt g) of
        (Some m, Some c) \<Rightarrow>
          Some (if 0 < ttl m \<and> \<not> cache_hit m (ccache c) then
                  (let g = g\<lparr>clnt := Some (c\<lparr>ccache := cache_add m (ccache c), shown := shown c @ [m]\<rparr>)\<rparr>;
                       m = m\<lparr>ttl := ttl m - 1\<rparr>
                   in if 0 < ttl m then broadcast m g else g)
                else g)
      | _ \<Rightarrow> None)"

definition client_on_write :: "group \<Rightarrow> group" where
  "client_on_write g = g\<lparr>clnt := map_option (\<lambda>c. c\<lparr>cq := on_written (cq c)\<rparr>) (clnt g)\<rparr>"

text \<open>An error closes the socket; \<open>pending\<close> keeps its head, so nothing is ever written again.\<close>

definition client_close :: "group \<Rightarrow> group" where
  "client_close g = g\<lparr>clnt := map_option (\<lambda>c. c\<lparr>opened := False\<rparr>) (clnt g)\<rparr>"

subsection \<open>The input loop (chat.cpp) and its timer (utils.h)\<close>

text \<open>Times are nanoseconds of the system clock.\<close>

definition millis_since :: "int \<Rightarrow> int \<Rightarrow> int" where
  "millis_since tp cur = (cur - tp) sdiv 1000000"

definition exceed :: "int \<Rightarrow> int \<Rightarrow> int \<Rightarrow> bool" where
  "exceed millis cur tp \<longleftrightarrow> millis < millis_since tp cur"

definition within :: "int \<Rightarrow> int \<Rightarrow> int \<Rightarrow> bool" where
  "within millis cur tp \<longleftrightarrow> millis_since tp cur < millis"

text \<open>
  Every line comes with the time at which \<open>within\<close> and the time at which \<open>touch\<close> read the clock. The
  result are the messages given to \<open>Client::send\<close>.
\<close>

fun input_loop :: "addr_t \<Rightarrow> string \<Rightarrow> int \<Rightarrow> int \<Rightarrow> (string \<times> int \<times> int) list \<Rightarrow> msg_t list" where
  "input_loop a nickname i tp [] = []"
| "input_loop a nickname i tp ((line, cur, touched) # rest) =
     (let m = new_msg a (nickname @ '': '' @ line) i
      in if within 500 cur tp then input_loop a nickname (wrap32 (i + 1)) tp rest
         else m # input_loop a nickname (wrap32 (i + 1)) touched rest)"

end
