(* ===== verification/Chat_Correct.thy ===== *)
theory Chat_Correct
  imports Chat
begin

section \<open>Messages, caches and queues of the chat room\<close>

text \<open>
  What is written for a message is read back as the same message (\<open>receive_frame\<close>); the caches stay
  bounded; and the send queue of a session or client is a first-in first-out queue whose buffer holds
  the frame of its head while a write is under way. The contract between the group and its members is
  the locale \<open>group_member\<close>, interpreted for sessions and for the client.
\<close>

subsection \<open>The shift cipher\<close>

lemma smod_mod: "0 \<le> (a :: int) \<Longrightarrow> 0 < b \<Longrightarrow> a smod b = a mod b"
  by (cases "a = 0") (simp_all add: signed_modulo_int_def sgn_if)

lemma dec_enc:
  assumes x: "0 \<le> x" "x < 26" and p: "0 \<le> p" "p + 25 < 2 ^ 31"
  shows "dec p (enc p x) = x" "0 \<le> enc p x" "enc p x < 26"
proof -
  have w: "wrap32 (x + p) = x + p" using x p by (intro wrap32_small) auto
  have e: "enc p x = (x + p) mod 26" using x p by (simp add: enc_def w smod_mod)
  show "0 \<le> enc p x" "enc p x < 26" unfolding e by simp_all
  have "p mod 26 < 26" "0 \<le> (x + p) mod 26" by simp_all
  then have n: "0 \<le> (x + p) mod 26 - p mod 26 + 26" by linarith
  have "dec p (enc p x) = ((x + p) mod 26 - p mod 26 + 26) mod 26"
    unfolding dec_def e using p n by (simp add: smod_mod)
  also have "\<dots> = x mod 26" by (simp add: mod_diff_eq)
  finally show "dec p (enc p x) = x" using x by simp
qed

lemma code_eq: "char_of (code c) = c"
  by (simp add: code_def)

lemma shift_char_inverse:
  assumes p: "0 \<le> p" "p + 25 < 2 ^ 31"
  shows "shift_char (dec p) (shift_char (enc p) c) = c"
    "shift_char (enc p) c = NUL \<longleftrightarrow> c = NUL" "shift_char (enc p) c = NL \<longleftrightarrow> c = NL"
proof -
  have *: "shift_char (dec p) (shift_char (enc p) c) = c \<and> (shift_char (enc p) c = NUL \<longleftrightarrow> c = NUL) \<and>
      (shift_char (enc p) c = NL \<longleftrightarrow> c = NL)"
  proof -
    { fix b :: nat assume b: "b \<le> code c" "code c \<le> b + 25" and bb: "b = 97 \<or> b = 65"
      define x where "x = int (code c) - int b"
      have x: "0 \<le> x" "x < 26" using b by (simp_all add: x_def)
      note d = dec_enc [OF x p]
      define y where "y = nat (int b + enc p x)"
      have y: "y < 256" "b \<le> y" "y \<le> b + 25" using d(2,3) bb by (auto simp: y_def)
      have cx: "c = char_of (nat (int b + x))" using b by (simp add: x_def code_eq)
      have s: "shift_char (enc p) c = char_of y"
        using b bb by (auto simp: shift_char_def y_def x_def)
      have iy: "int y - int b = enc p x" using d(2) by (simp add: y_def)
      have "shift_char (dec p) (char_of y) = char_of (nat (int b + dec p (enc p x)))"
        using bb y iy by (auto simp: shift_char_def)
      then have "shift_char (dec p) (shift_char (enc p) c) = c" by (simp add: s d(1) cx [symmetric])
      moreover have "char_of y \<noteq> NUL" "char_of y \<noteq> NL" using y bb by (auto simp: NUL_def NL_def)
      moreover have "c \<noteq> NUL" "c \<noteq> NL" using b bb by (auto simp: NUL_def NL_def)
      ultimately have ?thesis by (simp add: s) }
    note letter = this
    consider "97 \<le> code c" "code c \<le> 122" | "65 \<le> code c" "code c \<le> 90"
      | "\<not> (97 \<le> code c \<and> code c \<le> 122)" "\<not> (65 \<le> code c \<and> code c \<le> 90)"
      by auto
    then show ?thesis
    proof cases
      case 3
      then have "shift_char f c = c" for f by (simp only: shift_char_def if_False)
      then show ?thesis by simp
    qed (use letter [of 97] letter [of 65] in auto)
  qed
  then show "shift_char (dec p) (shift_char (enc p) c) = c"
    "shift_char (enc p) c = NUL \<longleftrightarrow> c = NUL" "shift_char (enc p) c = NL \<longleftrightarrow> c = NL" by auto
qed

lemma decode_encode: "0 \<le> p \<Longrightarrow> p + 25 < 2 ^ 31 \<Longrightarrow> decode p (encode p s) = s"
  by (induction s) (simp_all add: decode_def encode_def shift_char_inverse)

subsection \<open>Writing and reading a message\<close>

definition int32 :: "int \<Rightarrow> bool" where "int32 i \<longleftrightarrow> - (2 ^ 31) \<le> i \<and> i < 2 ^ 31"

text \<open>The messages that fit a frame.\<close>

definition msg_ok :: "msg_t \<Rightarrow> bool" where
  "msg_ok m \<longleftrightarrow> int32 (ip (sender m)) \<and> 0 \<le> port (sender m) \<and> port (sender m) + 25 < 2 ^ 31 \<and>
     int32 (msg_id m) \<and> int32 (ttl m) \<and> length (text_of m) \<le> 975 \<and>
     NUL \<notin> set (text_of m) \<and> NL \<notin> set (text_of m)"

lemma length_show_int: "int32 i \<Longrightarrow> length (show_int i) \<le> 11" "int32 i \<Longrightarrow> 0 \<le> i \<Longrightarrow> length (show_int i) \<le> 10"
proof -
  assume i: "int32 i"
  have "nat (- i) < 10 ^ Suc 9" "nat i < 10 ^ Suc 9" using i by (auto simp: int32_def)
  from length_show_nat [OF this(1)] length_show_nat [OF this(2)]
  show "length (show_int i) \<le> 11" by (simp add: show_int_def)
  show "length (show_int i) \<le> 10" if "0 \<le> i"
    using that length_show_nat [OF \<open>nat i < 10 ^ Suc 9\<close>] by (simp add: show_int_def)
qed

lemma length_serialize:
  assumes "msg_ok m"
  shows "length (serialize m) < MAX_BUFF_SIZE"
proof -
  have p: "int32 (port (sender m))" "0 \<le> port (sender m)" using assms by (auto simp: msg_ok_def int32_def)
  show ?thesis
    using assms length_show_int(1) [of "ip (sender m)"] length_show_int(2) [OF p]
      length_show_int(1) [of "msg_id m"] length_show_int(1) [of "ttl m"]
    by (simp add: msg_ok_def serialize_def MAX_BUFF_SIZE_def encode_def)
qed

lemma show_int_clean: "c \<in> set (show_int i) \<Longrightarrow> c \<noteq> NUL"
  using show_nat_digits(2) by (fastforce simp: show_int_def is_digit_def NUL_def split: if_splits)

lemma encode_clean:
  assumes "0 \<le> p" "p + 25 < 2 ^ 31"
  shows "NUL \<in> set (encode p s) \<longleftrightarrow> NUL \<in> set s" "NL \<in> set (encode p s) \<longleftrightarrow> NL \<in> set s"
proof -
  have "NUL = shift_char (enc p) c \<longleftrightarrow> NUL = c" "NL = shift_char (enc p) c \<longleftrightarrow> NL = c" for c
    using shift_char_inverse(2,3) [OF assms, of c] by metis+
  then show "NUL \<in> set (encode p s) \<longleftrightarrow> NUL \<in> set s" "NL \<in> set (encode p s) \<longleftrightarrow> NL \<in> set s"
    by (induction s) (simp_all add: encode_def)
qed

lemma serialize_clean: "msg_ok m \<Longrightarrow> NUL \<notin> set (serialize m)"
proof -
  assume m: "msg_ok m"
  have i: "NUL \<notin> set (show_int i)" for i using show_int_clean by blast
  have e: "NUL \<notin> set (encode (port (sender m)) (text_of m))"
    using m by (simp add: msg_ok_def encode_clean(1))
  have "NUL \<noteq> SP" by (simp add: SP_def NUL_def)
  moreover have "code NUL \<noteq> code (CHR '';'')" by (simp add: code_def NUL_def)
  then have "NUL \<noteq> CHR '';''" by metis
  ultimately show ?thesis using i e by (simp add: serialize_def)
qed

lemma length_frame [simp]: "length (frame s) = MAX_BUFF_SIZE"
  by (simp add: frame_def Let_def)

lemma unframe_frame:
  assumes "NUL \<notin> set s" "length s < MAX_BUFF_SIZE"
  shows "unframe (frame s) = Some s"
proof -
  have t: "takeWhile (\<lambda>c. c \<noteq> NUL) s = s" using assms by (induction s) auto
  obtain k where k: "MAX_BUFF_SIZE - length s = Suc k" using assms(2) by (metis Suc_diff_Suc)
  have "takeWhile (\<lambda>c. c \<noteq> NUL) (s @ NUL # xs) = s" for xs using assms(1) by (induction s) auto
  then show ?thesis using assms by (simp add: frame_def unframe_def t k)
qed

lemma extract_int_show:
  assumes "int32 i" "\<not> is_digit c"
  shows "extract_int old (Good (show_int i @ c # s)) = (i, Good (c # s))"
proof -
  have "skip_space (show_int i @ c # s) \<noteq> []"
  proof
    assume "skip_space (show_int i @ c # s) = []"
    then have "scan_number (show_int i @ c # s) = (None, [])" by (simp add: scan_number_def)
    then show False by (simp add: scan_number_show [OF assms(2)])
  qed
  then show ?thesis using assms by (simp add: extract_int_def int32_def)
qed

lemma extract_int_space: "is_space c \<Longrightarrow> extract_int old (Good (c # s)) = extract_int old (Good s)"
  by (simp add: extract_int_def)

lemma deserialize_serialize:
  assumes "msg_ok m"
  shows "deserialize old (serialize m) = m"
proof -
  have sep: "\<not> is_digit (CHR '';'')" by (simp add: is_digit_def code_def)
  have p: "int32 (port (sender m))" using assms by (auto simp: msg_ok_def int32_def)
  have i: "int32 (ip (sender m))" "int32 (msg_id m)" "int32 (ttl m)" using assms by (auto simp: msg_ok_def)
  have pp: "0 \<le> port (sender m)" "port (sender m) + 25 < 2 ^ 31" using assms by (auto simp: msg_ok_def)
  have "NL \<notin> set (encode (port (sender m)) (text_of m))"
    using assms encode_clean(2) by (auto simp: msg_ok_def)
  then have t: "takeWhile (\<lambda>c. c \<noteq> NL) (encode (port (sender m)) (text_of m)) = encode (port (sender m)) (text_of m)"
    by (metis (mono_tags) takeWhile_eq_all_conv)
  have ig: "ignore_until MAX_BUFF_SIZE (CHR '';'') (Good (CHR '';'' # s)) = Good s" for s
    by (simp add: MAX_BUFF_SIZE_def numeral_eq_Suc)
  show ?thesis
    unfolding deserialize_def serialize_def
    by (simp add: extract_int_show extract_int_space i p sep ig getline_def t decode_encode [OF pp])
qed

lemma receive_frame: "msg_ok m \<Longrightarrow> receive junk (frame (serialize m)) = Some m"
  by (simp add: receive_def unframe_frame serialize_clean length_serialize deserialize_serialize)
subsection \<open>Addresses\<close>

lemma scan_dotted_show:
  "scan_dotted (k # ks) (show_int i @ CHR ''.'' # s) tmp = scan_dotted ks s (tmp(k := wrap32 i))"
  by (simp add: is_digit_def code_def)

lemma scan_number_end: "scan_number (show_nat n) = (Some (int n), [])"
proof -
  obtain x xs where x: "show_nat n = x # xs" "is_digit x" using show_nat_hd by blast
  have sk: "skip_space (show_nat n) = show_nat n" using x not_digit(1) by (simp add: skip_space_def)
  have "takeWhile is_digit (show_nat n) = show_nat n" "dropWhile is_digit (show_nat n) = []"
    using show_nat_digits(2) [of n] by (simp_all add: takeWhile_eq_all_conv)
  then show ?thesis
    unfolding scan_number_def Let_def sk using x(1) not_digit(2,3) [OF x(2)] digits_val_show [of n]
      show_nat_digits(2) [of n] by (simp add: takeWhile_eq_all_conv [THEN iffD2])
qed

text \<open>An address that \<open>to_string\<close> prints is parsed back, its two parts apart.\<close>

lemma parse_addr_show:
  assumes b: "a < 256" "b < 256" "c < 256" "d < 256" and p: "p < 2 ^ 31"
  shows "parse_addr junk (show_nat a @ ''.'' @ show_nat b @ ''.'' @ show_nat c @ ''.'' @ show_nat d) (show_nat p) =
    \<lparr>ip = ip_of_bytes a b c d, port = int p\<rparr>"
proof -
  have dot: "\<not> is_digit (CHR ''.'')" by (simp add: is_digit_def code_def)
  show ?thesis
    using b p
    by (simp add: parse_addr_def Let_def scan_number_nat [OF dot] scan_number_end scan_d_def wrap32_small to_uchar_def)
qed

lemma bytes_of_ip:
  assumes "a < 256" "b < 256" "c < 256" "d < 256"
  shows "ip_byte (ip_of_bytes a b c d) 0 = a" "ip_byte (ip_of_bytes a b c d) 1 = b"
    "ip_byte (ip_of_bytes a b c d) 2 = c" "ip_byte (ip_of_bytes a b c d) 3 = d"
proof -
  define v where "v = a + 256 * b + 65536 * c + 16777216 * d"
  have v: "v < 2 ^ 32" using assms by (simp add: v_def)
  have "to_u32 (s32 v) = v"
  proof (cases "v < 2 ^ 31")
    case False
    have "(int v - 2 ^ 32) mod 2 ^ 32 = int v"
      using v False by (simp add: mod_diff_eq [symmetric, of "int v"])
    then show ?thesis using v False by (simp add: to_u32_def s32_def u32_def)
  qed (simp add: to_u32_def s32_def u32_def)
  then have u: "to_u32 (ip_of_bytes a b c d) = a + 256 * (b + 256 * (c + 256 * d))"
    by (simp add: ip_of_bytes_def v_def)
  have "(x + 256 * y) mod 256 = x" "(x + 256 * y) div 256 = y" if "x < 256" for x y :: nat
    using that by simp_all
  note byte = this [OF assms(1)] this [OF assms(2)] this [OF assms(3)]
  then show "ip_byte (ip_of_bytes a b c d) 0 = a" "ip_byte (ip_of_bytes a b c d) 1 = b"
    "ip_byte (ip_of_bytes a b c d) 2 = c" "ip_byte (ip_of_bytes a b c d) 3 = d"
    unfolding ip_byte_def u
    by (simp_all only: power_0 div_by_1 power_one_right power2_eq_square power3_eq_cube div_mult2_eq byte
        mod_less [OF assms(4)])
qed

subsection \<open>The caches\<close>

definition key :: "msg_t \<Rightarrow> addr_t \<times> int" where "key m = (sender m, msg_id m)"

lemma cache_hit_key: "cache_hit m c \<longleftrightarrow> key m \<in> key ` set c"
  unfolding cache_hit_def list_ex_iff key_def image_iff prod.inject by metis

lemma set_keep_last: "set (keep_last n xs) \<subseteq> set xs"
  by (simp add: keep_last_def set_drop_subset)

lemma length_keep_last [simp]: "length (keep_last n xs) = min n (length xs)"
  by (simp add: keep_last_def)

text \<open>A cache holds at most a hundred messages and none of them twice.\<close>

definition cache_ok :: "msg_t list \<Rightarrow> bool" where
  "cache_ok c \<longleftrightarrow> length c \<le> MAX_CACHE_SIZE \<and> distinct (map key c)"

lemma cache_add_ok: "cache_ok c \<Longrightarrow> cache_ok (cache_add m c)"
  by (auto simp: cache_ok_def cache_add_def keep_last_def cache_hit_key drop_map [symmetric] intro!: distinct_drop)

lemma cache_add_hit: "cache_hit m (cache_add m c) \<or> cache_hit m c"
  by (cases c rule: rev_cases) (auto simp: cache_add_def cache_hit_key keep_last_def MAX_CACHE_SIZE_def)

subsection \<open>Send queues\<close>

text \<open>Messages that were created with a positive time to live keep one that is not negative.\<close>

definition live :: "msg_t \<Rightarrow> bool" where "live m \<longleftrightarrow> msg_ok m \<and> 0 \<le> ttl m"

definition q_ok :: "sendq \<Rightarrow> bool" where
  "q_ok q \<longleftrightarrow> (pending q = [] \<longleftrightarrow> wstate q = Idle) \<and>
     (wstate q \<noteq> Idle \<longrightarrow> wbuff q = frame (serialize (hd (pending q)))) \<and> (\<forall>m \<in> set (pending q). live m)"

text \<open>The messages that are not yet on the wire.\<close>

definition waiting :: "sendq \<Rightarrow> msg_t list" where
  "waiting q = (if wstate q = Written then tl (pending q) else pending q)"

lemma empty_q_ok [simp]: "q_ok empty_q" "waiting empty_q = []"
  by (simp_all add: q_ok_def empty_q_def waiting_def)

lemma enqueue_ok: "q_ok q \<Longrightarrow> live m \<Longrightarrow> q_ok (enqueue m q)"
  by (auto simp: q_ok_def enqueue_def start_write_def)

lemma waiting_enqueue: "q_ok q \<Longrightarrow> waiting (enqueue m q) = waiting q @ [m]"
  by (cases "pending q") (auto simp: q_ok_def enqueue_def start_write_def waiting_def)

lemma wstate_enqueue: "q_ok q \<Longrightarrow> wstate (enqueue m q) = (if wstate q = Idle then Writing else wstate q)"
  by (auto simp: q_ok_def enqueue_def start_write_def)

lemma hd_pending_enqueue: "q_ok q \<Longrightarrow> wstate q = Written \<Longrightarrow> hd (pending (enqueue m q)) = hd (pending q)"
  by (cases "pending q") (auto simp: q_ok_def enqueue_def)

lemma on_written_ok: "q_ok q \<Longrightarrow> wstate q = Written \<Longrightarrow> q_ok (on_written q)"
  by (cases "pending q") (auto simp: q_ok_def on_written_def start_write_def Let_def)

lemma waiting_on_written: "q_ok q \<Longrightarrow> wstate q = Written \<Longrightarrow> waiting (on_written q) = waiting q"
  by (auto simp: q_ok_def on_written_def start_write_def waiting_def Let_def)

lemma wstate_on_written: "wstate (on_written q) \<noteq> Written"
  by (auto simp: on_written_def start_write_def Let_def)

text \<open>The bytes reach the wire; the handler runs later.\<close>

lemma written_ok: "q_ok q \<Longrightarrow> wstate q = Writing \<Longrightarrow> q_ok (q\<lparr>wstate := Written\<rparr>)"
  by (auto simp: q_ok_def)

lemma waiting_writing:
  assumes "q_ok q" "wstate q = Writing"
  shows "\<exists>m. live m \<and> wbuff q = frame (serialize m) \<and> pending q = m # waiting (q\<lparr>wstate := Written\<rparr>)"
  using assms by (cases "pending q") (auto simp: q_ok_def waiting_def)

subsection \<open>The contract of a member of the group\<close>

locale group_member =
  fixes send :: "msg_t \<Rightarrow> 'm \<Rightarrow> 'm"
    and backlog :: "'m \<Rightarrow> msg_t list"
    and ok :: "'m \<Rightarrow> bool"
  assumes backlog_send: "ok s \<Longrightarrow> backlog (send m s) = backlog s @ [m]"
    and ok_send: "ok s \<Longrightarrow> live m \<Longrightarrow> ok (send m s)"
begin

lemma send_all:
  "ok s \<Longrightarrow> \<forall>m \<in> set ms. live m \<Longrightarrow> ok (fold send ms s) \<and> backlog (fold send ms s) = backlog s @ ms"
  by (induction ms arbitrary: s) (simp_all add: backlog_send ok_send)

end

definition client_ok :: "client \<Rightarrow> bool" where
  "client_ok c \<longleftrightarrow> q_ok (cq c) \<and> cache_ok (ccache c) \<and> (\<forall>m \<in> set (posted c). live m)"

interpretation session_member: group_member session_send waiting q_ok
  by unfold_locales (simp_all add: session_send_def waiting_enqueue enqueue_ok)

interpretation client_member: group_member client_send posted client_ok
  by unfold_locales (auto simp: client_send_def client_ok_def)

end
