(* ===== verification/Chat_Group.thy ===== *)
theory Chat_Group
  imports Chat_Correct "HOL-Library.Multiset"
begin

section \<open>The group of the chat room and its handlers\<close>

text \<open>
  The invariant \<open>group\_ok\<close> of a process and its preservation by every handler, what the handlers do to
  the queues, and the weight of the messages that a process still has to move, which bounds how often
  a message is forwarded.
\<close>

named_theorems group_simps \<open>the fields that a handler leaves alone\<close>

subsection \<open>The invariant\<close>

definition group_ok :: "group \<Rightarrow> bool" where
  "group_ok g \<longleftrightarrow>
     (\<forall>m \<in> set (recent_msg g). live m) \<and> length (recent_msg g) \<le> MAX_RECENT_MSG_NUM \<and> cache_ok (cache g) \<and>
     sorted_wrt (<) (map fst (members g)) \<and> (\<forall>x \<in> set (members g). q_ok (snd x)) \<and>
     pred_option client_ok (clnt g)"

lemma new_group_ok: "pred_option client_ok c \<Longrightarrow> group_ok (new_group junk config c)"
  by (simp add: group_ok_def new_group_def cache_ok_def)

lemma new_client_ok: "client_ok (new_client a)"
  by (simp add: client_ok_def new_client_def cache_ok_def)

lemma wrap32_int32: "int32 (wrap32 i)"
proof -
  have "to_u32 i < 2 ^ 32" by (simp add: to_u32_def nat_less_iff)
  then show ?thesis by (simp add: int32_def wrap32_def s32_def u32_def)
qed

lemma live_ttl: "live m \<Longrightarrow> 0 \<le> t \<Longrightarrow> int32 t \<Longrightarrow> live (m\<lparr>ttl := t\<rparr>)"
  by (simp add: live_def msg_ok_def)

text \<open>The message that a broadcast sends on, if it does.\<close>

definition forwarded :: "msg_t \<Rightarrow> msg_t" where "forwarded m = m\<lparr>ttl := wrap32 (ttl m - 1)\<rparr>"

definition blocked :: "msg_t \<Rightarrow> group \<Rightarrow> bool" where
  "blocked m g \<longleftrightarrow> ttl (forwarded m) \<le> 0 \<or> cache_hit m (cache g) \<or> find_in_black_list g (sender m)"

lemma broadcast_blocked: "blocked m g \<Longrightarrow> broadcast m g = g"
  by (simp add: blocked_def broadcast_def forwarded_def Let_def)

lemma broadcast_passed:
  "\<not> blocked m g \<Longrightarrow> broadcast m g =
     g\<lparr>cache := cache_add (forwarded m) (cache g),
       members := map (\<lambda>(p, s). (p, session_send (forwarded m) s)) (members g),
       clnt := map_option (client_send (forwarded m)) (clnt g),
       recent_msg := keep_last MAX_RECENT_MSG_NUM (recent_msg g @ [forwarded m])\<rparr>"
  by (simp add: blocked_def broadcast_def forwarded_def Let_def)

lemma forwarded_live: "live m \<Longrightarrow> \<not> blocked m g \<Longrightarrow> live (forwarded m)"
  unfolding forwarded_def by (rule live_ttl) (auto simp: blocked_def forwarded_def wrap32_int32)

lemma forwarded_ttl: "live m \<Longrightarrow> ttl (forwarded m) = ttl m - 1"
  by (simp add: live_def msg_ok_def int32_def forwarded_def wrap32_int)

lemma broadcast_ok:
  assumes g: "group_ok g" and m: "live m"
  shows "group_ok (broadcast m g)"
proof (cases "blocked m g")
  case False
  let ?m = "forwarded m"
  have f: "live ?m" by (rule forwarded_live [OF m False])
  have r: "\<forall>x \<in> set (keep_last MAX_RECENT_MSG_NUM (recent_msg g @ [?m])). live x"
    using set_keep_last [of _ "recent_msg g @ [?m]"] g f by (auto simp: group_ok_def)
  have k: "map fst (map (\<lambda>(p, s). (p, session_send ?m s)) (members g)) = map fst (members g)"
    by (simp add: case_prod_unfold)
  have c: "pred_option client_ok (map_option (client_send ?m) (clnt g))"
    using g client_member.ok_send [OF _ f] by (cases "clnt g") (auto simp: group_ok_def)
  have s: "\<forall>x \<in> set (map (\<lambda>(p, s). (p, session_send ?m s)) (members g)). q_ok (snd x)"
    using g session_member.ok_send [OF _ f] by (force simp: group_ok_def)
  show ?thesis
    using g r c s cache_add_ok [of "cache g" ?m] unfolding broadcast_passed [OF False] group_ok_def k [symmetric]
    by simp
qed (simp add: broadcast_blocked g)

lemma member_ok: "group_ok g \<Longrightarrow> (p, s) \<in> set (members g) \<Longrightarrow> q_ok s"
  by (auto simp: group_ok_def dest: bspec)

lemma update_member_ok:
  assumes "group_ok g" "\<And>s. (p, s) \<in> set (members g) \<Longrightarrow> q_ok (f s)"
  shows "group_ok (update_member p f g)"
proof -
  have k: "map fst (members (update_member p f g)) = map fst (members g)"
    by (simp add: update_member_def case_prod_unfold)
  have "\<forall>x \<in> set (members (update_member p f g)). q_ok (snd x)"
    using assms(2) member_ok [OF assms(1)] by (auto simp: update_member_def)
  then show ?thesis using assms(1) unfolding group_ok_def k by (simp add: update_member_def)
qed

lemma sorted_insert_member:
  assumes "sorted_wrt (<) (map fst ms)" "p \<notin> fst ` set ms"
  shows "sorted_wrt (<) (map fst (insert_member p s ms)) \<and> set (insert_member p s ms) = insert (p, s) (set ms)"
  using assms
proof (induction ms)
  case (Cons x ms)
  obtain q t where x: "x = (q, t)" by (cases x)
  have q: "\<forall>k \<in> fst ` set ms. q < k" "sorted_wrt (<) (map fst ms)" "q \<noteq> p" "p \<notin> fst ` set ms"
    using Cons.prems by (auto simp: x)
  show ?case
  proof (cases "q < p")
    case True
    then have "insert_member p s (x # ms) = x # insert_member p s ms" by (simp add: insert_member_def x)
    then show ?thesis using True q Cons.IH by (auto simp: x)
  next
    case False
    then have "insert_member p s (x # ms) = (p, s) # x # ms" by (simp add: insert_member_def x)
    moreover have "p < q" using False q(3) by simp
    ultimately show ?thesis using q by (auto simp: x intro: less_trans)
  qed
qed (simp add: insert_member_def)

lemma fold_update_member:
  "fold (\<lambda>m. update_member p (session_send m)) ms g = update_member p (fold session_send ms) g"
proof (induction ms arbitrary: g)
  case Nil
  have "update_member p (\<lambda>s. s) g = g" by (simp only: update_member_def if_cancel) simp
  then show ?case by simp
next
  case (Cons m ms)
  have "update_member p f (update_member p h g) = update_member p (f \<circ> h) g" for f h
  proof -
    have "(\<lambda>(q, s). (q, if q = p then f s else s)) \<circ> (\<lambda>(q, s). (q, if q = p then h s else s)) =
        (\<lambda>(q, s). (q, if q = p then (f \<circ> h) s else s))" by auto
    then show ?thesis by (simp add: update_member_def del: o_apply)
  qed
  with Cons show ?case by (simp add: comp_def)
qed

lemma join_ok:
  assumes g: "group_ok g" and p: "p \<notin> fst ` set (members g)"
  shows "group_ok (on_accept p g)"
proof -
  define g1 where "g1 = g\<lparr>members := insert_member p empty_q (members g)\<rparr>"
  have i: "sorted_wrt (<) (map fst (insert_member p empty_q (members g)))"
    "set (insert_member p empty_q (members g)) = insert (p, empty_q) (set (members g))"
    using sorted_insert_member [OF _ p, of empty_q] g by (auto simp: group_ok_def)
  have g1: "group_ok g1" using g i by (auto simp: g1_def group_ok_def)
  have "q_ok (fold session_send (recent_msg g) s)" if "(p, s) \<in> set (members g1)" for s
    using session_member.send_all [of s "recent_msg g"] g1 g that by (force simp: group_ok_def)
  from update_member_ok [OF g1 this]
  show ?thesis by (simp add: on_accept_def join_def fold_update_member g1_def)
qed

lemma leave_ok: "group_ok g \<Longrightarrow> group_ok (leave p g)"
  by (auto simp: group_ok_def leave_def sorted_wrt_map intro: sorted_wrt_filter)

lemma session_on_write_ok:
  assumes "group_ok g" "map_of (members g) p = Some s" "wstate s = Written"
  shows "group_ok (session_on_write p g)"
proof -
  have "distinct (map fst (members g))"
    using assms(1) by (auto simp: group_ok_def strict_sorted_iff)
  then have "t = s" if "(p, t) \<in> set (members g)" for t using that assms(2) by simp
  then show ?thesis
    unfolding session_on_write_def using assms on_written_ok
    by (intro update_member_ok) (auto simp: group_ok_def)
qed

lemma clnt_ok: "group_ok g \<Longrightarrow> clnt g = Some c \<Longrightarrow> client_ok c"
  by (simp add: group_ok_def)

lemma set_client_ok: "group_ok g \<Longrightarrow> client_ok c \<Longrightarrow> group_ok (g\<lparr>clnt := Some c\<rparr>)"
  by (simp add: group_ok_def)

lemma client_on_post_ok:
  assumes "group_ok g" "live m"
  shows "group_ok (client_on_post m g)"
  using broadcast_ok [OF assms] assms(2)
  by (cases "clnt (broadcast m g)") (auto simp: client_on_post_def group_ok_def client_ok_def enqueue_ok)

lemma client_on_read_ok:
  assumes g: "group_ok g" and m: "live m" and c: "clnt g = Some c"
  shows "\<exists>g'. client_on_read junk (frame (serialize m)) g = Some g' \<and> group_ok g'"
proof -
  have r: "receive junk (frame (serialize m)) = Some m" using m by (simp add: live_def receive_frame)
  let ?g = "g\<lparr>clnt := Some (c\<lparr>ccache := cache_add m (ccache c), shown := shown c @ [m]\<rparr>)\<rparr>"
  have "client_ok (c\<lparr>ccache := cache_add m (ccache c), shown := shown c @ [m]\<rparr>)"
    using clnt_ok [OF g c] by (simp add: client_ok_def cache_add_ok)
  then have "group_ok ?g" by (rule set_client_ok [OF g])
  moreover have "group_ok (broadcast (m\<lparr>ttl := ttl m - 1\<rparr>) ?g)" if "0 < ttl m - 1"
    using calculation that m by (intro broadcast_ok live_ttl) (auto simp: live_def msg_ok_def int32_def)
  ultimately show ?thesis using g by (simp add: client_on_read_def r c Let_def)
qed

lemma client_on_write_ok:
  "group_ok g \<Longrightarrow> clnt g = Some c \<Longrightarrow> wstate (cq c) = Written \<Longrightarrow> group_ok (client_on_write g)"
  using clnt_ok [of g c] by (simp add: client_on_write_def group_ok_def client_ok_def on_written_ok)

lemma session_on_read_ok:
  "group_ok g \<Longrightarrow> live m \<Longrightarrow> session_on_read junk (frame (serialize m)) g = Some (broadcast m g)"
  by (simp add: session_on_read_def receive_frame live_def)
subsection \<open>The work that is left\<close>

text \<open>
  Every message weighs its time to live and, below that, how far it is on its way: posted to the event
  loop (3), in a send queue (2), written with the handler to run (1), on the wire (0).
\<close>

type_synonym weight = "nat \<times> nat"

definition wt :: "nat \<Rightarrow> msg_t \<Rightarrow> weight" where "wt k m = (nat (ttl m), k)"

definition queue_weight :: "sendq \<Rightarrow> weight multiset" where
  "queue_weight q = image_mset (wt 2) (mset (waiting q)) +
     (if wstate q = Written then {#wt 1 (hd (pending q))#} else {#})"

definition client_weight :: "client \<Rightarrow> weight multiset" where
  "client_weight c = queue_weight (cq c) + image_mset (wt 3) (mset (posted c))"

definition group_weight :: "group \<Rightarrow> weight multiset" where
  "group_weight g = (\<Sum>x \<leftarrow> members g. queue_weight (snd x)) +
     (case clnt g of None \<Rightarrow> {#} | Some c \<Rightarrow> client_weight c)"

lemma queue_weight_enqueue: "q_ok q \<Longrightarrow> queue_weight (enqueue m q) = queue_weight q + {#wt 2 m#}"
  by (simp add: queue_weight_def waiting_enqueue wstate_enqueue hd_pending_enqueue)

lemma queue_weight_on_written:
  "q_ok q \<Longrightarrow> wstate q = Written \<Longrightarrow> queue_weight q = queue_weight (on_written q) + {#wt 1 (hd (pending q))#}"
  by (simp add: queue_weight_def waiting_on_written wstate_on_written)

lemma queue_weight_written:
  assumes "q_ok q" "wstate q = Writing"
  shows "\<exists>m R. live m \<and> wbuff q = frame (serialize m) \<and> queue_weight q = R + {#wt 2 m#} \<and>
    queue_weight (q\<lparr>wstate := Written\<rparr>) = R + {#wt 1 m#}"
proof -
  obtain m where m: "live m" "wbuff q = frame (serialize m)" "pending q = m # waiting (q\<lparr>wstate := Written\<rparr>)"
    using waiting_writing [OF assms] by blast
  have "waiting q = m # waiting (q\<lparr>wstate := Written\<rparr>)" using m(3) assms(2) by (simp add: waiting_def)
  moreover have "hd (pending q) = m" using m(3) by (metis list.sel(1))
  ultimately show ?thesis using m(1,2) assms(2) by (auto simp: queue_weight_def)
qed

lemma session_sends_weight:
  "\<forall>x \<in> set ms. q_ok (snd x) \<Longrightarrow>
    (\<Sum>x \<leftarrow> map (\<lambda>(p, s). (p, session_send m s)) ms. queue_weight (snd x)) =
    (\<Sum>x \<leftarrow> ms. queue_weight (snd x)) + replicate_mset (length ms) (wt 2 m)"
  by (induction ms) (auto simp: session_send_def queue_weight_enqueue)

text \<open>A broadcast adds only messages with a smaller time to live.\<close>

lemma broadcast_weight:
  assumes g: "group_ok g" and m: "live m"
  shows "\<exists>K. group_weight (broadcast m g) = group_weight g + K \<and> (\<forall>k \<in># K. fst k < nat (ttl m))"
proof (cases "blocked m g")
  case False
  let ?m = "forwarded m"
  have t: "nat (ttl ?m) < nat (ttl m)"
    using forwarded_ttl [OF m] False by (auto simp: blocked_def)
  have s: "(\<Sum>x \<leftarrow> map (\<lambda>(p, s). (p, session_send ?m s)) (members g). queue_weight (snd x)) =
      (\<Sum>x \<leftarrow> members g. queue_weight (snd x)) + replicate_mset (length (members g)) (wt 2 ?m)"
    using g by (intro session_sends_weight) (simp add: group_ok_def)
  define K where "K = replicate_mset (length (members g)) (wt 2 ?m) +
      (case clnt g of None \<Rightarrow> {#} | Some c \<Rightarrow> {#wt 3 ?m#})"
  have "group_weight (broadcast m g) = group_weight g + K"
    unfolding broadcast_passed [OF False] group_weight_def K_def
    by (cases "clnt g") (simp_all add: s [unfolded map_map] client_send_def client_weight_def)
  moreover have "fst k < nat (ttl m)" if "k \<in># K" for k
    using that t by (auto simp: K_def wt_def split: option.splits if_splits)
  ultimately show ?thesis by blast
qed (auto simp: broadcast_blocked intro: exI [of _ "{#}"])

end
