(* ===== verification/Chat_Net.thy ===== *)
theory Chat_Net
  imports Chat_Group
begin

section \<open>Connected processes of the chat room\<close>

text \<open>
  A network is a list of processes and a list of connections, each between the client of one process
  and a session of another. \<open>internal\<close> is a step that the event loops take without the users: a posted
  handler runs, a write completes, its handler runs, a read completes and its handler runs. \<open>external\<close>
  steps are the input of the users, a new connection and a write without a connection. Connections are
  not lost here; what a lost one does to a session is \<open>session\_read\_error\<close> of theory \<open>Chat\<close>.
\<close>

record link =
  cnode :: nat
  snode :: nat
  sptr :: nat
  up :: "string list"
  down :: "string list"

record net =
  nodes :: "group list"
  links :: "link list"

definition set_node :: "net \<Rightarrow> nat \<Rightarrow> group \<Rightarrow> net" where
  "set_node n a g = n\<lparr>nodes := (nodes n)[a := g]\<rparr>"

definition set_link :: "net \<Rightarrow> nat \<Rightarrow> link \<Rightarrow> net" where
  "set_link n i l = n\<lparr>links := (links n)[i := l]\<rparr>"

abbreviation client_of :: "net \<Rightarrow> nat \<Rightarrow> client option" where
  "client_of n a \<equiv> clnt (nodes n ! a)"

text \<open>What the operating system does for a write: the bytes of the buffer reach the connection.\<close>

definition client_written :: "client \<Rightarrow> client" where
  "client_written c = c\<lparr>cq := (cq c)\<lparr>wstate := Written\<rparr>\<rparr>"

definition session_written :: "nat \<Rightarrow> group \<Rightarrow> group" where
  "session_written p g = update_member p (\<lambda>s. s\<lparr>wstate := Written\<rparr>) g"

inductive internal :: "msg_t \<Rightarrow> net \<Rightarrow> net \<Rightarrow> bool" for junk where
  post: "a < length (nodes n) \<Longrightarrow> client_of n a = Some c \<Longrightarrow> posted c = xs @ m # ys \<Longrightarrow>
    internal junk n (set_node n a (client_on_post m ((nodes n ! a)\<lparr>clnt := Some (c\<lparr>posted := xs @ ys\<rparr>)\<rparr>)))"
| c_done: "a < length (nodes n) \<Longrightarrow> client_of n a = Some c \<Longrightarrow> wstate (cq c) = Written \<Longrightarrow>
    internal junk n (set_node n a (client_on_write (nodes n ! a)))"
| s_done: "b < length (nodes n) \<Longrightarrow> map_of (members (nodes n ! b)) p = Some s \<Longrightarrow> wstate s = Written \<Longrightarrow>
    internal junk n (set_node n b (session_on_write p (nodes n ! b)))"
| c_send: "i < length (links n) \<Longrightarrow> l = links n ! i \<Longrightarrow> a = cnode l \<Longrightarrow> client_of n a = Some c \<Longrightarrow>
    opened c \<Longrightarrow> wstate (cq c) = Writing \<Longrightarrow>
    internal junk n (set_link (set_node n a ((nodes n ! a)\<lparr>clnt := Some (client_written c)\<rparr>))
      i (l\<lparr>up := up l @ [wbuff (cq c)]\<rparr>))"
| s_send: "i < length (links n) \<Longrightarrow> l = links n ! i \<Longrightarrow> b = snode l \<Longrightarrow>
    map_of (members (nodes n ! b)) (sptr l) = Some s \<Longrightarrow> wstate s = Writing \<Longrightarrow>
    internal junk n (set_link (set_node n b (session_written (sptr l) (nodes n ! b)))
      i (l\<lparr>down := down l @ [wbuff s]\<rparr>))"
| s_read: "i < length (links n) \<Longrightarrow> l = links n ! i \<Longrightarrow> b = snode l \<Longrightarrow> up l = f # fs \<Longrightarrow>
    session_on_read junk f (nodes n ! b) = Some g \<Longrightarrow>
    internal junk n (set_link (set_node n b g) i (l\<lparr>up := fs\<rparr>))"
| c_read: "i < length (links n) \<Longrightarrow> l = links n ! i \<Longrightarrow> a = cnode l \<Longrightarrow> client_of n a = Some c \<Longrightarrow>
    opened c \<Longrightarrow> down l = f # fs \<Longrightarrow> client_on_read junk f (nodes n ! a) = Some g \<Longrightarrow>
    internal junk n (set_link (set_node n a g) i (l\<lparr>down := fs\<rparr>))"

inductive external :: "net \<Rightarrow> net \<Rightarrow> bool" where
  user: "a < length (nodes n) \<Longrightarrow> client_of n a = Some c \<Longrightarrow> live m \<Longrightarrow>
    external n (set_node n a ((nodes n ! a)\<lparr>clnt := Some (client_send m c)\<rparr>))"
| connect: "a < length (nodes n) \<Longrightarrow> b < length (nodes n) \<Longrightarrow> client_of n a = Some c \<Longrightarrow> opened c \<Longrightarrow>
    wstate (cq c) = Idle \<Longrightarrow> a \<notin> cnode ` set (links n) \<Longrightarrow> p \<notin> fst ` set (members (nodes n ! b)) \<Longrightarrow>
    external n ((set_node n b (on_accept p (nodes n ! b)))
      \<lparr>links := links n @ [\<lparr>cnode = a, snode = b, sptr = p, up = [], down = []\<rparr>]\<rparr>)"
| failed: "a < length (nodes n) \<Longrightarrow> client_of n a = Some c \<Longrightarrow> wstate (cq c) = Writing \<Longrightarrow>
    a \<notin> cnode ` set (links n) \<Longrightarrow> external n (set_node n a (client_close (nodes n ! a)))"

text \<open>The networks that arise from processes without messages and connections.\<close>

inductive reachable :: "msg_t \<Rightarrow> net \<Rightarrow> bool" for junk where
  start: "\<forall>g \<in> set gs. \<exists>j config c. g = new_group j config (map_option new_client c) \<Longrightarrow>
    reachable junk \<lparr>nodes = gs, links = []\<rparr>"
| inside: "reachable junk n \<Longrightarrow> internal junk n n' \<Longrightarrow> reachable junk n'"
| outside: "reachable junk n \<Longrightarrow> external n n' \<Longrightarrow> reachable junk n'"

subsection \<open>What the handlers keep\<close>

text \<open>The messages that a client or a session has still to put on its connection.\<close>

definition cwait :: "group \<Rightarrow> msg_t list" where
  "cwait g = (case clnt g of None \<Rightarrow> [] | Some c \<Rightarrow> waiting (cq c))"

definition mwait :: "group \<Rightarrow> nat \<Rightarrow> msg_t list" where
  "mwait g p = (case map_of (members g) p of None \<Rightarrow> [] | Some s \<Rightarrow> waiting s)"

definition appends :: "msg_t list \<Rightarrow> msg_t list \<Rightarrow> bool" where
  "appends xs ys \<longleftrightarrow> ys = xs \<or> (\<exists>m. ys = xs @ [m])"

definition same_shape :: "group \<Rightarrow> group \<Rightarrow> bool" where
  "same_shape g g' \<longleftrightarrow> map fst (members g') = map fst (members g) \<and> (clnt g' = None \<longleftrightarrow> clnt g = None)"

text \<open>A handler that may extend queues by a message and otherwise keeps them.\<close>

definition evolves :: "group \<Rightarrow> group \<Rightarrow> bool" where
  "evolves g g' \<longleftrightarrow> group_ok g' \<and> same_shape g g' \<and> appends (cwait g) (cwait g') \<and>
     (\<forall>p. appends (mwait g p) (mwait g' p))"

lemma appends_refl [simp]: "appends xs xs" and appends_snoc [simp]: "appends xs (xs @ [m])"
  by (simp_all add: appends_def)

lemma map_of_update:
  "map_of (map (\<lambda>(q, s). (q, F q s)) ms) p = map_option (F p) (map_of ms p)"
  by (induction ms) auto

lemma map_of_ok: "group_ok g \<Longrightarrow> map_of (members g) p = Some s \<Longrightarrow> q_ok s"
  using member_ok map_of_SomeD by metis

lemma evolves_refl: "group_ok g \<Longrightarrow> evolves g g"
  by (simp add: evolves_def same_shape_def)

lemma broadcast_evolves:
  assumes g: "group_ok g" and m: "live m"
  shows "evolves g (broadcast m g)"
proof (cases "blocked m g")
  case False
  let ?m = "forwarded m"
  have c: "cwait (broadcast m g) = cwait g"
    by (cases "clnt g") (simp_all add: cwait_def broadcast_passed [OF False] client_send_def)
  have s: "map fst (members (broadcast m g)) = map fst (members g)"
    by (simp add: broadcast_passed [OF False] case_prod_unfold)
  have w: "appends (mwait g p) (mwait (broadcast m g) p)" for p
  proof -
    have "map_of (members (broadcast m g)) p = map_option (session_send ?m) (map_of (members g) p)"
      by (simp add: broadcast_passed [OF False] map_of_update)
    then show ?thesis
      using map_of_ok [OF g, of p]
      by (cases "map_of (members g) p") (simp_all add: mwait_def session_send_def waiting_enqueue)
  qed
  have "clnt (broadcast m g) = None \<longleftrightarrow> clnt g = None" by (simp add: broadcast_passed [OF False])
  then show ?thesis using broadcast_ok [OF g m] c s w by (simp add: evolves_def same_shape_def)
qed (simp add: broadcast_blocked evolves_refl g)

lemma broadcast_cq:
  assumes "clnt g = Some c"
  shows "\<exists>c'. clnt (broadcast m g) = Some c' \<and> cq c' = cq c"
  using assms by (cases "blocked m g") (simp_all add: broadcast_blocked broadcast_passed client_send_def)

lemma client_on_post_evolves:
  assumes g: "group_ok g" and m: "live m" and c: "clnt g = Some c" and p: "posted c = xs @ m # ys"
  shows "evolves g (client_on_post m (g\<lparr>clnt := Some (c\<lparr>posted := xs @ ys\<rparr>)\<rparr>))"
proof -
  let ?g = "g\<lparr>clnt := Some (c\<lparr>posted := xs @ ys\<rparr>)\<rparr>"
  have k: "client_ok c" by (rule clnt_ok [OF g c])
  then have g1: "group_ok ?g" using p by (intro set_client_ok [OF g]) (simp add: client_ok_def)
  have e: "evolves ?g (broadcast m ?g)" by (rule broadcast_evolves [OF g1 m])
  obtain c' where c': "clnt (broadcast m ?g) = Some c'" "cq c' = cq c"
    using broadcast_cq [of ?g "c\<lparr>posted := xs @ ys\<rparr>" m] by auto
  have w: "cwait (client_on_post m ?g) = cwait g @ [m]"
    using k c c' by (simp add: cwait_def client_on_post_def waiting_enqueue client_ok_def)
  have "members (client_on_post m ?g) = members (broadcast m ?g)" by (simp add: client_on_post_def Let_def)
  then show ?thesis
    using e client_on_post_ok [OF g1 m] w c c'
    by (simp add: evolves_def same_shape_def mwait_def client_on_post_def Let_def)
qed

lemma client_on_write_evolves:
  assumes "group_ok g" "clnt g = Some c" "wstate (cq c) = Written"
  shows "evolves g (client_on_write g)"
  using client_on_write_ok [OF assms] assms clnt_ok [OF assms(1,2)]
  by (simp add: evolves_def same_shape_def cwait_def mwait_def client_on_write_def waiting_on_written client_ok_def)

lemma update_member_shape: "same_shape g (update_member p f g)"
  by (simp add: same_shape_def update_member_def case_prod_unfold)

lemma session_on_write_evolves:
  assumes "group_ok g" "map_of (members g) p = Some s" "wstate s = Written"
  shows "evolves g (session_on_write p g)"
proof -
  have "mwait (session_on_write p g) q = mwait g q" for q
    using assms map_of_ok [OF assms(1,2)] waiting_on_written [of s]
    by (auto simp: mwait_def session_on_write_def update_member_def
        map_of_update [of "\<lambda>q s. if q = p then on_written s else s"] split: option.splits)
  moreover have "cwait (session_on_write p g) = cwait g"
    by (simp add: cwait_def session_on_write_def update_member_def)
  ultimately show ?thesis
    using session_on_write_ok [OF assms] update_member_shape [of g p on_written]
    by (simp add: evolves_def session_on_write_def)
qed

lemma client_on_read_evolves:
  assumes g: "group_ok g" and m: "live m" and c: "clnt g = Some c"
    and r: "client_on_read junk (frame (serialize m)) g = Some g'"
  shows "evolves g g'"
proof -
  have rc: "receive junk (frame (serialize m)) = Some m" using m by (simp add: live_def receive_frame)
  let ?c = "c\<lparr>ccache := cache_add m (ccache c), shown := shown c @ [m]\<rparr>"
  let ?g = "g\<lparr>clnt := Some ?c\<rparr>"
  have "client_ok ?c" using clnt_ok [OF g c] by (simp add: client_ok_def cache_add_ok)
  then have g1: "group_ok ?g" by (rule set_client_ok [OF g])
  have e: "evolves ?g h \<Longrightarrow> evolves g h" for h
    using c by (simp add: evolves_def same_shape_def cwait_def mwait_def)
  have "evolves ?g (broadcast (m\<lparr>ttl := ttl m - 1\<rparr>) ?g)" if "0 < ttl m - 1"
    using that m by (intro broadcast_evolves g1 live_ttl) (auto simp: live_def msg_ok_def int32_def)
  then show ?thesis
    using r evolves_refl [OF g] evolves_refl [OF g1] e
    by (auto simp: client_on_read_def rc c Let_def split: if_splits)
qed
text \<open>The two halves of putting a buffer on the connection.\<close>

lemma client_written_keeps:
  assumes g: "group_ok g" and c: "clnt g = Some c" "wstate (cq c) = Writing"
  shows "group_ok (g\<lparr>clnt := Some (client_written c)\<rparr>)" "same_shape g (g\<lparr>clnt := Some (client_written c)\<rparr>)"
    "\<exists>m. live m \<and> wbuff (cq c) = frame (serialize m) \<and> cwait g = m # cwait (g\<lparr>clnt := Some (client_written c)\<rparr>)"
    "mwait (g\<lparr>clnt := Some (client_written c)\<rparr>) p = mwait g p"
proof -
  have q: "client_ok c" by (rule clnt_ok [OF g c(1)])
  then show "group_ok (g\<lparr>clnt := Some (client_written c)\<rparr>)"
    using c(2) by (intro set_client_ok [OF g]) (simp add: client_ok_def client_written_def written_ok)
  show "same_shape g (g\<lparr>clnt := Some (client_written c)\<rparr>)" using c by (simp add: same_shape_def)
  have "q_ok (cq c)" using q by (simp add: client_ok_def)
  from waiting_writing [OF this c(2)]
  show "\<exists>m. live m \<and> wbuff (cq c) = frame (serialize m) \<and> cwait g = m # cwait (g\<lparr>clnt := Some (client_written c)\<rparr>)"
    using c by (auto simp: cwait_def client_written_def waiting_def)
  show "mwait (g\<lparr>clnt := Some (client_written c)\<rparr>) p = mwait g p" by (simp add: mwait_def)
qed

lemma session_written_keeps:
  assumes g: "group_ok g" and s: "map_of (members g) p = Some s" "wstate s = Writing"
  shows "group_ok (session_written p g)" "same_shape g (session_written p g)"
    "\<exists>m. live m \<and> wbuff s = frame (serialize m) \<and> mwait g p = m # mwait (session_written p g) p"
    "p \<noteq> q \<Longrightarrow> mwait (session_written p g) q = mwait g q" "cwait (session_written p g) = cwait g"
proof -
  have d: "distinct (map fst (members g))" using g by (auto simp: group_ok_def strict_sorted_iff)
  show "group_ok (session_written p g)"
    unfolding session_written_def using d s member_ok [OF g] by (intro update_member_ok [OF g]) (auto simp: written_ok)
  show "same_shape g (session_written p g)" by (simp add: session_written_def update_member_shape)
  have u: "map_of (members (session_written p g)) q =
      map_option (\<lambda>s. if q = p then s\<lparr>wstate := Written\<rparr> else s) (map_of (members g) q)" for q
    by (simp add: session_written_def update_member_def map_of_update [of "\<lambda>q s. if q = p then s\<lparr>wstate := Written\<rparr> else s"])
  from waiting_writing [OF map_of_ok [OF g s(1)] s(2)]
  show "\<exists>m. live m \<and> wbuff s = frame (serialize m) \<and> mwait g p = m # mwait (session_written p g) p"
    using s by (auto simp: mwait_def u waiting_def)
  show "mwait (session_written p g) q = mwait g q" if "p \<noteq> q"
    using that by (auto simp: mwait_def u split: option.splits)
  show "cwait (session_written p g) = cwait g" by (simp add: cwait_def session_written_def update_member_def)
qed

subsection \<open>The invariant of the network\<close>

definition wire_ok :: "string list \<Rightarrow> bool" where
  "wire_ok fs \<longleftrightarrow> (\<forall>f \<in> set fs. \<exists>m. live m \<and> f = frame (serialize m))"

definition link_ok :: "group list \<Rightarrow> link \<Rightarrow> bool" where
  "link_ok gs l \<longleftrightarrow> cnode l < length gs \<and> snode l < length gs \<and> clnt (gs ! cnode l) \<noteq> None \<and>
     sptr l \<in> set (map fst (members (gs ! snode l))) \<and> wire_ok (up l) \<and> wire_ok (down l)"

definition net_ok :: "net \<Rightarrow> bool" where
  "net_ok n \<longleftrightarrow> (\<forall>g \<in> set (nodes n). group_ok g) \<and> (\<forall>l \<in> set (links n). link_ok (nodes n) l) \<and>
     distinct (map cnode (links n)) \<and> distinct (map (\<lambda>l. (snode l, sptr l)) (links n))"

lemma wire_ok_simps [simp]: "wire_ok []" "wire_ok (f # fs) \<longleftrightarrow> (\<exists>m. live m \<and> f = frame (serialize m)) \<and> wire_ok fs"
  "wire_ok (fs @ gs) \<longleftrightarrow> wire_ok fs \<and> wire_ok gs"
  by (auto simp: wire_ok_def)

lemma net_ok_node: "net_ok n \<Longrightarrow> a < length (nodes n) \<Longrightarrow> group_ok (nodes n ! a)"
  by (simp add: net_ok_def)

lemma net_ok_link: "net_ok n \<Longrightarrow> i < length (links n) \<Longrightarrow> link_ok (nodes n) (links n ! i)"
  by (simp add: net_ok_def)

lemma link_ok_shape:
  "link_ok gs l \<Longrightarrow> a < length gs \<Longrightarrow> same_shape (gs ! a) g \<Longrightarrow> link_ok (gs[a := g]) l"
  unfolding link_ok_def same_shape_def by (cases "a = cnode l"; cases "a = snode l") auto

lemma set_node_ok:
  assumes n: "net_ok n" "a < length (nodes n)" and g: "group_ok g" "same_shape (nodes n ! a) g"
  shows "net_ok (set_node n a g)"
  using n g(1) link_ok_shape [OF _ n(2) g(2)] set_update_subset_insert [of "nodes n" a g]
  by (auto simp: net_ok_def set_node_def)

lemma set_link_ok:
  assumes n: "net_ok n" "i < length (links n)"
    and l: "cnode l = cnode (links n ! i)" "snode l = snode (links n ! i)" "sptr l = sptr (links n ! i)"
      "wire_ok (up l)" "wire_ok (down l)"
  shows "net_ok (set_link n i l)"
proof -
  have "link_ok (nodes n) l" using net_ok_link [OF n] l by (simp add: link_ok_def)
  then have "\<forall>k \<in> set ((links n)[i := l]). link_ok (nodes n) k"
    using n(1) set_update_subset_insert [of "links n" i l] by (auto simp: net_ok_def)
  moreover have "map cnode ((links n)[i := l]) = map cnode (links n)"
    "map (\<lambda>l. (snode l, sptr l)) ((links n)[i := l]) = map (\<lambda>l. (snode l, sptr l)) (links n)"
    using n(2) l by (simp_all add: map_update list_update_same_conv)
  ultimately show ?thesis using n(1) by (simp add: net_ok_def set_link_def)
qed

lemma set_node_fields [simp]:
  "links (set_node n a g) = links n" "nodes (set_link n i l) = nodes n"
  "nodes (set_node n a g) = (nodes n)[a := g]" "links (set_link n i l) = (links n)[i := l]"
  by (simp_all add: set_node_def set_link_def)

lemma internal_ok:
  assumes "internal junk n n'" and n: "net_ok n"
  shows "net_ok n'"
  using assms(1)
proof cases
  case (post a c xs m ys)
  note g = net_ok_node [OF n post(2)]
  have "live m" using clnt_ok [OF g post(3)] post(4) by (simp add: client_ok_def)
  from client_on_post_evolves [OF g this post(3,4)]
  show ?thesis unfolding post(1) by (intro set_node_ok n post(2)) (simp_all add: evolves_def)
next
  case (c_done a c)
  from client_on_write_evolves [OF net_ok_node [OF n c_done(2)] c_done(3,4)]
  show ?thesis unfolding c_done(1) by (intro set_node_ok n c_done(2)) (simp_all add: evolves_def)
next
  case (s_done b p s)
  from session_on_write_evolves [OF net_ok_node [OF n s_done(2)] s_done(3,4)]
  show ?thesis unfolding s_done(1) by (intro set_node_ok n s_done(2)) (simp_all add: evolves_def)
next
  case (c_send i l a c)
  note l = net_ok_link [OF n c_send(2)]
  have a: "a < length (nodes n)" using l c_send by (simp add: link_ok_def)
  note k = client_written_keeps [OF net_ok_node [OF n a] c_send(5,7)]
  have "wire_ok [wbuff (cq c)]" using k(3) by auto
  then show ?thesis
    unfolding c_send(1) using l c_send k(1,2) by (intro set_link_ok set_node_ok n a) (auto simp: link_ok_def)
next
  case (s_send i l b s)
  note l = net_ok_link [OF n s_send(2)]
  have b: "b < length (nodes n)" using l s_send by (simp add: link_ok_def)
  note k = session_written_keeps [OF net_ok_node [OF n b] s_send(5,6)]
  have "wire_ok [wbuff s]" using k(3) by auto
  then show ?thesis
    unfolding s_send(1) using l s_send k(1,2) by (intro set_link_ok set_node_ok n b) (auto simp: link_ok_def)
next
  case (s_read i l b f fs g)
  note l = net_ok_link [OF n s_read(2)]
  have b: "b < length (nodes n)" using l s_read by (simp add: link_ok_def)
  obtain m where m: "live m" "f = frame (serialize m)" using l s_read by (auto simp: link_ok_def)
  note k = net_ok_node [OF n b]
  have "g = broadcast m (nodes n ! b)" using s_read(6) session_on_read_ok [OF k m(1)] m(2) by simp
  then have "evolves (nodes n ! b) g" using broadcast_evolves [OF k m(1)] by simp
  then show ?thesis
    unfolding s_read(1) using l s_read by (intro set_link_ok set_node_ok n b) (auto simp: link_ok_def evolves_def)
next
  case (c_read i l a c f fs g)
  note l = net_ok_link [OF n c_read(2)]
  have a: "a < length (nodes n)" using l c_read by (simp add: link_ok_def)
  obtain m where m: "live m" "f = frame (serialize m)" using l c_read by (auto simp: link_ok_def)
  have "evolves (nodes n ! a) g"
    using client_on_read_evolves [OF net_ok_node [OF n a] m(1) c_read(5)] c_read(8) m(2) by simp
  then show ?thesis
    unfolding c_read(1) using l c_read by (intro set_link_ok set_node_ok n a) (auto simp: link_ok_def evolves_def)
qed
lemma on_accept_keys:
  assumes "group_ok g" "p \<notin> fst ` set (members g)"
  shows "set (map fst (members (on_accept p g))) = insert p (set (map fst (members g)))"
    "clnt (on_accept p g) = clnt g"
proof -
  have "set (insert_member p empty_q (members g)) = insert (p, empty_q) (set (members g))"
    using sorted_insert_member [OF _ assms(2)] assms(1) by (auto simp: group_ok_def)
  then show "set (map fst (members (on_accept p g))) = insert p (set (map fst (members g)))"
    by (force simp: on_accept_def join_def fold_update_member update_member_def)
  show "clnt (on_accept p g) = clnt g"
    by (simp add: on_accept_def join_def fold_update_member update_member_def)
qed

lemma external_ok:
  assumes "external n n'" and n: "net_ok n"
  shows "net_ok n'"
  using assms(1)
proof cases
  case (user a c m)
  note g = net_ok_node [OF n user(2)]
  from client_member.ok_send [OF clnt_ok [OF g user(3)] user(4)]
  show ?thesis
    unfolding user(1) using user(3) by (intro set_node_ok n user(2) set_client_ok g) (simp_all add: same_shape_def)
next
  case (connect a b c p)
  note g = net_ok_node [OF n connect(3)]
  let ?g = "on_accept p (nodes n ! b)"
  note k = on_accept_keys [OF g connect(8)]
  have grow: "link_ok ((nodes n)[b := ?g]) l" if "link_ok (nodes n) l" for l
    using that connect(3) k unfolding link_ok_def by (cases "b = cnode l"; cases "b = snode l") auto
  have new: "link_ok ((nodes n)[b := ?g]) \<lparr>cnode = a, snode = b, sptr = p, up = [], down = []\<rparr>"
    using connect(2-4) k unfolding link_ok_def by (cases "a = b") auto
  have fresh: "(b, p) \<notin> (\<lambda>l. (snode l, sptr l)) ` set (links n)"
    using n connect(8) by (auto simp: net_ok_def link_ok_def)
  have "\<forall>h \<in> set ((nodes n)[b := ?g]). group_ok h"
    using n join_ok [OF g connect(8)] set_update_subset_insert [of "nodes n" b ?g] by (auto simp: net_ok_def)
  then show ?thesis
    unfolding connect(1) using n grow new fresh connect(7) by (auto simp: net_ok_def)
next
  case (failed a c)
  note g = net_ok_node [OF n failed(2)]
  have "client_ok (c\<lparr>opened := False\<rparr>)" using clnt_ok [OF g failed(3)] by (simp add: client_ok_def)
  then have "group_ok (client_close (nodes n ! a))"
    using set_client_ok [OF g] failed(3) by (simp add: client_close_def)
  then show ?thesis
    unfolding failed(1) using failed(3)
    by (intro set_node_ok n failed(2)) (simp_all add: same_shape_def client_close_def)
qed

lemma reachable_ok: "reachable junk n \<Longrightarrow> net_ok n"
proof (induction rule: reachable.induct)
  case (start gs)
  have "pred_option client_ok (map_option new_client c)" for c
    by (cases c) (simp_all add: new_client_ok)
  then have "\<forall>g \<in> set gs. group_ok g" using start new_group_ok by metis
  then show ?case by (simp add: net_ok_def)
qed (simp_all add: internal_ok external_ok)

subsection \<open>Every connection is a queue\<close>

definition no_msg :: msg_t where
  "no_msg = \<lparr>sender = \<lparr>ip = 0, port = 0\<rparr>, ttl = 0, msg_id = 0, text_of = []\<rparr>"

definition wire_msg :: "string \<Rightarrow> msg_t" where "wire_msg f = the (receive no_msg f)"

lemma wire_msg_frame [simp]: "live m \<Longrightarrow> wire_msg (frame (serialize m)) = m"
  by (simp add: wire_msg_def receive_frame live_def)

text \<open>What was sent in one direction of a connection and not yet handled at its other end.\<close>

definition abs_up :: "net \<Rightarrow> nat \<Rightarrow> msg_t list" where
  "abs_up n i = (let l = links n ! i in map wire_msg (up l) @ cwait (nodes n ! cnode l))"

definition abs_down :: "net \<Rightarrow> nat \<Rightarrow> msg_t list" where
  "abs_down n i = (let l = links n ! i in map wire_msg (down l) @ mwait (nodes n ! snode l) (sptr l))"

text \<open>A queue gains a message at its end, loses its head, or both.\<close>

definition queue_step :: "msg_t list \<Rightarrow> msg_t list \<Rightarrow> bool" where
  "queue_step xs ys \<longleftrightarrow> appends xs ys \<or> (xs \<noteq> [] \<and> appends (tl xs) ys)"

lemma queue_step_same [simp]: "queue_step xs xs"
  by (simp add: queue_step_def)

lemma queue_step_app:
  "appends ys zs \<Longrightarrow> queue_step (xs @ ys) (xs @ zs)" "appends ys zs \<Longrightarrow> queue_step (x # xs @ ys) (xs @ zs)"
  by (auto simp: queue_step_def appends_def)

lemma cwait_update: "evolves (gs ! a) g \<Longrightarrow> a < length gs \<Longrightarrow> appends (cwait (gs ! k)) (cwait (gs[a := g] ! k))"
  by (cases "a = k") (simp_all add: evolves_def)

lemma mwait_update: "evolves (gs ! a) g \<Longrightarrow> a < length gs \<Longrightarrow> appends (mwait (gs ! k) p) (mwait (gs[a := g] ! k) p)"
  by (cases "a = k") (simp_all add: evolves_def)

lemma node_queue_step:
  assumes "evolves (nodes n ! a) g" "a < length (nodes n)"
  shows "queue_step (abs_up n i) (abs_up (set_node n a g) i)" "queue_step (abs_down n i) (abs_down (set_node n a g) i)"
  using assms by (simp_all add: abs_up_def abs_down_def Let_def cwait_update mwait_update queue_step_app(1))

text \<open>A read takes the head of the wire; the handler may extend queues.\<close>

lemma read_queue_step:
  assumes e: "evolves (nodes n ! a) g" "a < length (nodes n)" and i: "j < length (links n)"
    and l: "cnode l = cnode (links n ! j)" "snode l = snode (links n ! j)" "sptr l = sptr (links n ! j)"
    and w: "up (links n ! j) = us @ up l" "length us \<le> 1" "down (links n ! j) = ds @ down l" "length ds \<le> 1"
  shows "queue_step (abs_up n i) (abs_up (set_link (set_node n a g) j l) i)"
    "queue_step (abs_down n i) (abs_down (set_link (set_node n a g) j l) i)"
proof -
  have short: "xs = [] \<or> (\<exists>x. xs = [x])" if "length xs \<le> 1" for xs :: "string list"
    using that by (cases xs) auto
  show "queue_step (abs_up n i) (abs_up (set_link (set_node n a g) j l) i)"
    using short [OF w(2)] cwait_update [OF e] i l(1) w(1)
    by (cases "i = j") (auto simp: abs_up_def Let_def queue_step_app)
  show "queue_step (abs_down n i) (abs_down (set_link (set_node n a g) j l) i)"
    using short [OF w(4)] mwait_update [OF e] i l(2,3) w(3)
    by (cases "i = j") (auto simp: abs_down_def Let_def queue_step_app)
qed

lemma internal_queue_step:
  assumes s: "internal junk n n'" and n: "net_ok n" and i: "i < length (links n)"
  shows "queue_step (abs_up n i) (abs_up n' i) \<and> queue_step (abs_down n i) (abs_down n' i)"
  using s
proof cases
  case (post a c xs m ys)
  note g = net_ok_node [OF n post(2)]
  have "live m" using clnt_ok [OF g post(3)] post(4) by (simp add: client_ok_def)
  from node_queue_step [OF client_on_post_evolves [OF g this post(3,4)] post(2)]
  show ?thesis unfolding post(1) by simp
next
  case (c_done a c)
  from node_queue_step [OF client_on_write_evolves [OF net_ok_node [OF n c_done(2)] c_done(3,4)] c_done(2)]
  show ?thesis unfolding c_done(1) by simp
next
  case (s_done b p s)
  from node_queue_step [OF session_on_write_evolves [OF net_ok_node [OF n s_done(2)] s_done(3,4)] s_done(2)]
  show ?thesis unfolding s_done(1) by simp
next
  case (c_send j l a c)
  have a: "a < length (nodes n)" using net_ok_link [OF n c_send(2)] c_send by (simp add: link_ok_def)
  note k = client_written_keeps [OF net_ok_node [OF n a] c_send(5,7)]
  have d: "cnode (links n ! i) \<noteq> a" if "i \<noteq> j"
    using n that i c_send(2-4) by (auto simp: net_ok_def distinct_conv_nth)
  have "abs_up n' i = abs_up n i"
    unfolding c_send(1) using k(3) d a c_send(2-4)
    by (cases "i = j") (auto simp: abs_up_def Let_def)
  moreover have "abs_down n' i = abs_down n i"
    unfolding c_send(1) using k(4) a c_send(2-4) i
    by (cases "i = j"; cases "snode (links n ! i) = a") (auto simp: abs_down_def Let_def)
  ultimately show ?thesis by simp
next
  case (s_send j l b s)
  have b: "b < length (nodes n)" using net_ok_link [OF n s_send(2)] s_send by (simp add: link_ok_def)
  note k = session_written_keeps [OF net_ok_node [OF n b] s_send(5,6)]
  have d: "\<not> (snode (links n ! i) = b \<and> sptr (links n ! i) = sptr l)" if "i \<noteq> j"
    using n that i s_send(2-4) by (auto simp: net_ok_def distinct_conv_nth)
  have "abs_down n' i = abs_down n i"
    unfolding s_send(1) using k(3,4) d b s_send(2-4) i
    by (cases "i = j"; cases "snode (links n ! i) = b") (auto simp: abs_down_def Let_def)
  moreover have "abs_up n' i = abs_up n i"
    unfolding s_send(1) using k(5) b s_send(2-4) i
    by (cases "i = j"; cases "cnode (links n ! i) = b") (auto simp: abs_up_def Let_def)
  ultimately show ?thesis by simp
next
  case (s_read j l b f fs g)
  note l = net_ok_link [OF n s_read(2)]
  have b: "b < length (nodes n)" using l s_read by (simp add: link_ok_def)
  obtain m where m: "live m" "f = frame (serialize m)" using l s_read by (auto simp: link_ok_def)
  note k = net_ok_node [OF n b]
  have "g = broadcast m (nodes n ! b)" using s_read(6) session_on_read_ok [OF k m(1)] m(2) by simp
  then have e: "evolves (nodes n ! b) g" using broadcast_evolves [OF k m(1)] by simp
  show ?thesis
    unfolding s_read(1) using read_queue_step [OF e b s_read(2), of "l\<lparr>up := fs\<rparr>" "[f]" "[]"] s_read by simp
next
  case (c_read j l a c f fs g)
  note l = net_ok_link [OF n c_read(2)]
  have a: "a < length (nodes n)" using l c_read by (simp add: link_ok_def)
  obtain m where m: "live m" "f = frame (serialize m)" using l c_read by (auto simp: link_ok_def)
  have e: "evolves (nodes n ! a) g"
    using client_on_read_evolves [OF net_ok_node [OF n a] m(1) c_read(5)] c_read(8) m(2) by simp
  show ?thesis
    unfolding c_read(1) using read_queue_step [OF e a c_read(2), of "l\<lparr>down := fs\<rparr>" "[]" "[f]"] c_read by simp
qed

end
