(* ===== verification/Chat_Flood.thy ===== *)
theory Chat_Flood
  imports Chat_Net
begin

section \<open>The flood of a message ends\<close>

text \<open>
  Every internal step of a network lowers the multiset of the weights of its messages: a message that
  is handled is replaced by messages with a smaller time to live, and a message that is moved on loses
  rank. The properties of the chat room stand at the end.
\<close>

definition link_weight :: "link \<Rightarrow> weight multiset" where
  "link_weight l = image_mset (\<lambda>f. wt 0 (wire_msg f)) (mset (up l @ down l))"

definition net_weight :: "net \<Rightarrow> weight multiset" where
  "net_weight n = (\<Sum>g \<leftarrow> nodes n. group_weight g) + (\<Sum>l \<leftarrow> links n. link_weight l)"

definition lighter :: "(weight \<times> weight) set" where "lighter = less_than <*lex*> less_than"

lemma wf_lighter: "wf (mult lighter)"
  by (simp add: lighter_def wf_mult wf_lex_prod)

lemma lighter_ttl: "fst k < nat (ttl m) \<Longrightarrow> (k, wt r m) \<in> lighter"
  by (cases k) (simp add: lighter_def wt_def)

lemma lighter_rank: "i < j \<Longrightarrow> (wt i m, wt j m) \<in> lighter"
  by (simp add: lighter_def wt_def)

lemma lighter_replace: "\<forall>k \<in># K. (k, w) \<in> lighter \<Longrightarrow> (R + K, R + {#w#}) \<in> mult lighter"
  by (rule one_step_implies_mult) auto

subsection \<open>Weights of a changed list\<close>

lemma sum_split:
  fixes f :: "'a \<Rightarrow> 'b :: comm_monoid_add"
  assumes "i < length xs"
  obtains R where "(\<Sum>x \<leftarrow> xs. f x) = R + f (xs ! i)" "\<And>y. (\<Sum>x \<leftarrow> xs[i := y]. f x) = R + f y"
proof
  let ?R = "(\<Sum>x \<leftarrow> take i xs. f x) + (\<Sum>x \<leftarrow> drop (Suc i) xs. f x)"
  show "(\<Sum>x \<leftarrow> xs. f x) = ?R + f (xs ! i)"
    by (subst id_take_nth_drop [OF assms]) (simp add: ac_simps)
  show "(\<Sum>x \<leftarrow> xs[i := y]. f x) = ?R + f y" for y
    by (simp add: upd_conv_take_nth_drop [OF assms] ac_simps)
qed

lemma node_weight_split:
  assumes "a < length (nodes n)"
  obtains R where "net_weight n = R + group_weight (nodes n ! a)"
    "\<And>g. net_weight (set_node n a g) = R + group_weight g"
proof -
  obtain R where "(\<Sum>g \<leftarrow> nodes n. group_weight g) = R + group_weight (nodes n ! a)"
    "\<And>g. (\<Sum>x \<leftarrow> (nodes n)[a := g]. group_weight x) = R + group_weight g"
    using sum_split [OF assms] by metis
  then show ?thesis by (intro that [of "R + (\<Sum>l \<leftarrow> links n. link_weight l)"]) (simp_all add: net_weight_def ac_simps)
qed

lemma link_weight_split:
  assumes "a < length (nodes n)" "i < length (links n)"
  obtains R where "net_weight n = R + group_weight (nodes n ! a) + link_weight (links n ! i)"
    "\<And>g l. net_weight (set_link (set_node n a g) i l) = R + group_weight g + link_weight l"
proof -
  obtain R where "(\<Sum>g \<leftarrow> nodes n. group_weight g) = R + group_weight (nodes n ! a)"
    "\<And>g. (\<Sum>x \<leftarrow> (nodes n)[a := g]. group_weight x) = R + group_weight g"
    using sum_split [OF assms(1)] by metis
  moreover obtain S where "(\<Sum>l \<leftarrow> links n. link_weight l) = S + link_weight (links n ! i)"
    "\<And>l. (\<Sum>x \<leftarrow> (links n)[i := l]. link_weight x) = S + link_weight l"
    using sum_split [OF assms(2)] by metis
  ultimately show ?thesis by (intro that [of "R + S"]) (simp_all add: net_weight_def ac_simps)
qed

lemma member_weight_split:
  assumes "distinct (map fst ms)" "map_of ms p = Some s"
  shows "\<exists>R. (\<Sum>x \<leftarrow> ms. queue_weight (snd x)) = R + queue_weight s \<and>
    (\<forall>f. (\<Sum>x \<leftarrow> map (\<lambda>(q, s). (q, if q = p then f s else s)) ms. queue_weight (snd x)) = R + queue_weight (f s))"
  using assms
proof (induction ms)
  case (Cons x ms)
  obtain q t where x: "x = (q, t)" by (cases x)
  show ?case
  proof (cases "q = p")
    case True
    then have "map (\<lambda>(q, s). (q, if q = p then f s else s)) ms = ms" for f
      using Cons.prems(1) by (force simp: x intro!: map_idI)
    then show ?thesis using True Cons.prems(2) by (auto simp: x add.commute simp del: map_map)
  next
    case False
    then show ?thesis using Cons x by (auto simp: ac_simps)
  qed
qed simp

lemma update_member_weight:
  assumes g: "group_ok g" and s: "map_of (members g) p = Some s"
  obtains R where "group_weight g = R + queue_weight s"
    "\<And>f. group_weight (update_member p f g) = R + queue_weight (f s)"
proof -
  have "distinct (map fst (members g))" using g by (auto simp: group_ok_def strict_sorted_iff)
  from member_weight_split [OF this s] obtain R where
    "(\<Sum>x \<leftarrow> members g. queue_weight (snd x)) = R + queue_weight s"
    "\<forall>f. (\<Sum>x \<leftarrow> map (\<lambda>(q, s). (q, if q = p then f s else s)) (members g). queue_weight (snd x)) = R + queue_weight (f s)"
    by blast
  then show ?thesis
    by (intro that [of "R + (case clnt g of None \<Rightarrow> {#} | Some c \<Rightarrow> client_weight c)"])
      (simp_all add: group_weight_def update_member_def ac_simps del: map_map)
qed

lemma client_weight_split:
  assumes "clnt g = Some c"
  obtains R where "group_weight g = R + client_weight c"
    "\<And>c'. group_weight (g\<lparr>clnt := Some c'\<rparr>) = R + client_weight c'"
  using assms by (simp add: group_weight_def)

subsection \<open>What the handlers do to the weight\<close>

lemma post_weight:
  assumes g: "group_ok g" and m: "live m" and c: "clnt g = Some c" and p: "posted c = xs @ m # ys"
  obtains R K where "group_weight g = R + {#wt 3 m#}" "\<forall>k \<in># K. (k, wt 3 m) \<in> lighter"
    "group_weight (client_on_post m (g\<lparr>clnt := Some (c\<lparr>posted := xs @ ys\<rparr>)\<rparr>)) = R + K"
proof -
  let ?g = "g\<lparr>clnt := Some (c\<lparr>posted := xs @ ys\<rparr>)\<rparr>"
  have k: "client_ok c" by (rule clnt_ok [OF g c])
  then have g1: "group_ok ?g" using p by (intro set_client_ok [OF g]) (simp add: client_ok_def)
  have gw: "group_weight g = group_weight ?g + {#wt 3 m#}"
    using c p by (simp add: group_weight_def client_weight_def)
  obtain K where K: "group_weight (broadcast m ?g) = group_weight ?g + K" "\<forall>k \<in># K. fst k < nat (ttl m)"
    using broadcast_weight [OF g1 m] by blast
  obtain c' where c': "clnt (broadcast m ?g) = Some c'" "cq c' = cq c"
    using broadcast_cq [of ?g "c\<lparr>posted := xs @ ys\<rparr>" m] by auto
  have "q_ok (cq c)" using k by (simp add: client_ok_def)
  then have "group_weight (client_on_post m ?g) = group_weight (broadcast m ?g) + {#wt 2 m#}"
    using c' by (simp add: client_on_post_def Let_def group_weight_def client_weight_def queue_weight_enqueue)
  then have "group_weight (client_on_post m ?g) = group_weight ?g + (K + {#wt 2 m#})" by (simp add: K(1))
  moreover have "\<forall>k \<in># K + {#wt 2 m#}. (k, wt 3 m) \<in> lighter"
    using K(2) lighter_ttl lighter_rank [of 2 3 m] by auto
  ultimately show ?thesis using that gw by blast
qed

lemma client_on_read_weight:
  assumes g: "group_ok g" and m: "live m" and c: "clnt g = Some c"
    and r: "client_on_read junk (frame (serialize m)) g = Some g'"
  obtains K where "group_weight g' = group_weight g + K" "\<forall>k \<in># K. fst k < nat (ttl m)"
proof -
  have rc: "receive junk (frame (serialize m)) = Some m" using m by (simp add: live_def receive_frame)
  let ?c = "c\<lparr>ccache := cache_add m (ccache c), shown := shown c @ [m]\<rparr>"
  let ?g = "g\<lparr>clnt := Some ?c\<rparr>"
  let ?m = "m\<lparr>ttl := ttl m - 1\<rparr>"
  have "client_ok ?c" using clnt_ok [OF g c] by (simp add: client_ok_def cache_add_ok)
  then have g1: "group_ok ?g" by (rule set_client_ok [OF g])
  have gw: "group_weight ?g = group_weight g" using c by (simp add: group_weight_def client_weight_def)
  consider "g' = g" | "g' = ?g" | "0 < ttl m - 1" "g' = broadcast ?m ?g"
    using r by (auto simp: client_on_read_def rc c Let_def split: if_splits)
  then show ?thesis
  proof cases
    case 3
    then have "live ?m" using m by (intro live_ttl) (auto simp: live_def msg_ok_def int32_def)
    from broadcast_weight [OF g1 this] obtain K where
      "group_weight g' = group_weight g + K" "\<forall>k \<in># K. fst k < nat (ttl ?m)"
      using 3 gw by auto
    moreover have "nat (ttl ?m) \<le> nat (ttl m)" by simp
    ultimately show ?thesis using that [of K] by (metis less_le_trans)
  qed (use that [of "{#}"] gw in auto)
qed
lemma written_weight:
  assumes "q_ok q" "wstate q = Writing"
  obtains m R where "live m" "wbuff q = frame (serialize m)" "queue_weight q = R + {#wt 2 m#}"
    "queue_weight (q\<lparr>wstate := Written\<rparr>) = R + {#wt 1 m#}"
  using queue_weight_written [OF assms] by blast

lemma internal_lighter:
  assumes s: "internal junk n n'" and n: "net_ok n"
  shows "(net_weight n', net_weight n) \<in> mult lighter"
  using s
proof cases
  case (post a c xs m ys)
  note g = net_ok_node [OF n post(2)]
  have "live m" using clnt_ok [OF g post(3)] post(4) by (simp add: client_ok_def)
  from post_weight [OF g this post(3,4)] obtain R K where
    w: "group_weight (nodes n ! a) = R + {#wt 3 m#}" "\<forall>k \<in># K. (k, wt 3 m) \<in> lighter"
      "group_weight (client_on_post m ((nodes n ! a)\<lparr>clnt := Some (c\<lparr>posted := xs @ ys\<rparr>)\<rparr>)) = R + K" by blast
  obtain S where "net_weight n = S + group_weight (nodes n ! a)"
    "\<And>g. net_weight (set_node n a g) = S + group_weight g" 
    using node_weight_split [OF post(2)] by metis
  then show ?thesis
    unfolding post(1) using lighter_replace [OF w(2), of "S + R"] w(1,3) by (simp add: add.assoc)
next
  case (c_done a c)
  note g = net_ok_node [OF n c_done(2)]
  have q: "q_ok (cq c)" using clnt_ok [OF g c_done(3)] by (simp add: client_ok_def)
  obtain R where "group_weight (nodes n ! a) = R + client_weight c"
    "\<And>c'. group_weight ((nodes n ! a)\<lparr>clnt := Some c'\<rparr>) = R + client_weight c'"
    using client_weight_split [OF c_done(3)] by metis
  then have w: "group_weight (nodes n ! a) = group_weight (client_on_write (nodes n ! a)) + {#wt 1 (hd (pending (cq c)))#}"
    using queue_weight_on_written [OF q c_done(4)] c_done(3)
    by (simp add: client_on_write_def client_weight_def)
  obtain S where "net_weight n = S + group_weight (nodes n ! a)"
    "\<And>g. net_weight (set_node n a g) = S + group_weight g"
    using node_weight_split [OF c_done(2)] by metis
  then show ?thesis
    unfolding c_done(1) using lighter_replace [of "{#}"] w by (simp add: add.assoc [symmetric])
next
  case (s_done b p s)
  note g = net_ok_node [OF n s_done(2)]
  obtain R where "group_weight (nodes n ! b) = R + queue_weight s"
    "\<And>f. group_weight (update_member p f (nodes n ! b)) = R + queue_weight (f s)"
    using update_member_weight [OF g s_done(3)] by metis
  then have w: "group_weight (nodes n ! b) = group_weight (session_on_write p (nodes n ! b)) + {#wt 1 (hd (pending s))#}"
    using queue_weight_on_written [OF map_of_ok [OF g s_done(3)] s_done(4)] by (simp add: session_on_write_def)
  obtain S where "net_weight n = S + group_weight (nodes n ! b)"
    "\<And>g. net_weight (set_node n b g) = S + group_weight g"
    using node_weight_split [OF s_done(2)] by metis
  then show ?thesis
    unfolding s_done(1) using lighter_replace [of "{#}"] w by (simp add: add.assoc [symmetric])
next
  case (c_send i l a c)
  have a: "a < length (nodes n)" using net_ok_link [OF n c_send(2)] c_send by (simp add: link_ok_def)
  note g = net_ok_node [OF n a]
  have q: "q_ok (cq c)" using clnt_ok [OF g c_send(5)] by (simp add: client_ok_def)
  obtain m Q where m: "live m" "wbuff (cq c) = frame (serialize m)" "queue_weight (cq c) = Q + {#wt 2 m#}"
    "queue_weight ((cq c)\<lparr>wstate := Written\<rparr>) = Q + {#wt 1 m#}"
    using written_weight [OF q c_send(7)] by metis
  obtain R where R: "group_weight (nodes n ! a) = R + client_weight c"
    "\<And>c'. group_weight ((nodes n ! a)\<lparr>clnt := Some c'\<rparr>) = R + client_weight c'"
    using client_weight_split [OF c_send(5)] by metis
  obtain S where "net_weight n = S + group_weight (nodes n ! a) + link_weight (links n ! i)"
    "\<And>g l. net_weight (set_link (set_node n a g) i l) = S + group_weight g + link_weight l"
    using link_weight_split [OF a c_send(2)] by metis
  moreover have "link_weight (l\<lparr>up := up l @ [wbuff (cq c)]\<rparr>) = link_weight l + {#wt 0 m#}"
    using m(1,2) by (simp add: link_weight_def)
  ultimately show ?thesis
    unfolding c_send(1)
    using lighter_replace [of "{#wt 1 m#} + {#wt 0 m#}" "wt 2 m" "S + (R + Q + image_mset (wt 3) (mset (posted c))) + link_weight l"]
      lighter_rank [of 1 2 m] lighter_rank [of 0 2 m] R m(3,4) c_send(3)
    by (simp add: client_weight_def client_written_def ac_simps)
next
  case (s_send i l b s)
  have b: "b < length (nodes n)" using net_ok_link [OF n s_send(2)] s_send by (simp add: link_ok_def)
  note g = net_ok_node [OF n b]
  obtain m Q where m: "live m" "wbuff s = frame (serialize m)" "queue_weight s = Q + {#wt 2 m#}"
    "queue_weight (s\<lparr>wstate := Written\<rparr>) = Q + {#wt 1 m#}"
    using written_weight [OF map_of_ok [OF g s_send(5)] s_send(6)] by metis
  obtain R where R: "group_weight (nodes n ! b) = R + queue_weight s"
    "\<And>f. group_weight (update_member (sptr l) f (nodes n ! b)) = R + queue_weight (f s)"
    using update_member_weight [OF g s_send(5)] by metis
  obtain S where "net_weight n = S + group_weight (nodes n ! b) + link_weight (links n ! i)"
    "\<And>g l. net_weight (set_link (set_node n b g) i l) = S + group_weight g + link_weight l"
    using link_weight_split [OF b s_send(2)] by metis
  moreover have "link_weight (l\<lparr>down := down l @ [wbuff s]\<rparr>) = link_weight l + {#wt 0 m#}"
    using m(1,2) by (simp add: link_weight_def)
  ultimately show ?thesis
    unfolding s_send(1)
    using lighter_replace [of "{#wt 1 m#} + {#wt 0 m#}" "wt 2 m" "S + (R + Q) + link_weight l"]
      lighter_rank [of 1 2 m] lighter_rank [of 0 2 m] R m(3,4) s_send(3)
    by (simp add: session_written_def ac_simps add_mset_commute)
next
  case (s_read i l b f fs g)
  note l = net_ok_link [OF n s_read(2)]
  have b: "b < length (nodes n)" using l s_read by (simp add: link_ok_def)
  obtain m where m: "live m" "f = frame (serialize m)" using l s_read by (auto simp: link_ok_def)
  note k = net_ok_node [OF n b]
  have "g = broadcast m (nodes n ! b)" using s_read(6) session_on_read_ok [OF k m(1)] m(2) by simp
  then obtain K where K: "group_weight g = group_weight (nodes n ! b) + K" "\<forall>k \<in># K. fst k < nat (ttl m)"
    using broadcast_weight [OF k m(1)] by auto
  obtain S where "net_weight n = S + group_weight (nodes n ! b) + link_weight (links n ! i)"
    "\<And>g l. net_weight (set_link (set_node n b g) i l) = S + group_weight g + link_weight l"
    using link_weight_split [OF b s_read(2)] by metis
  moreover have "link_weight l = link_weight (l\<lparr>up := fs\<rparr>) + {#wt 0 m#}"
    using s_read(5) m by (simp add: link_weight_def)
  ultimately show ?thesis
    unfolding s_read(1) using lighter_replace [of K "wt 0 m" "S + group_weight (nodes n ! b) + link_weight (l\<lparr>up := fs\<rparr>)"]
      lighter_ttl K s_read(3) by (simp add: ac_simps)
next
  case (c_read i l a c f fs g)
  note l = net_ok_link [OF n c_read(2)]
  have a: "a < length (nodes n)" using l c_read by (simp add: link_ok_def)
  obtain m where m: "live m" "f = frame (serialize m)" using l c_read by (auto simp: link_ok_def)
  have r: "client_on_read junk (frame (serialize m)) (nodes n ! a) = Some g" using c_read(8) m(2) by simp
  obtain K where K: "group_weight g = group_weight (nodes n ! a) + K" "\<forall>k \<in># K. fst k < nat (ttl m)"
    using client_on_read_weight [OF net_ok_node [OF n a] m(1) c_read(5) r] by metis
  obtain S where "net_weight n = S + group_weight (nodes n ! a) + link_weight (links n ! i)"
    "\<And>g l. net_weight (set_link (set_node n a g) i l) = S + group_weight g + link_weight l"
    using link_weight_split [OF a c_read(2)] by metis
  moreover have "link_weight l = link_weight (l\<lparr>down := fs\<rparr>) + {#wt 0 m#}"
    using c_read(7) m by (simp add: link_weight_def)
  ultimately show ?thesis
    unfolding c_read(1) using lighter_replace [of K "wt 0 m" "S + group_weight (nodes n ! a) + link_weight (l\<lparr>down := fs\<rparr>)"]
      lighter_ttl K c_read(3) by (simp add: ac_simps)
qed
subsection \<open>Users\<close>

text \<open>The messages of the input loop carry the user's address and increasing numbers.\<close>

lemma input_loop_ids:
  assumes "0 \<le> i" "i + int (length lines) < 2 ^ 31"
  shows "sorted_wrt (<) (map msg_id (input_loop a nick i tp lines)) \<and>
    (\<forall>m \<in> set (input_loop a nick i tp lines). i \<le> msg_id m \<and> sender m = a \<and> ttl m = DEFAULT_TTL)"
  using assms
proof (induction a nick i tp lines rule: input_loop.induct)
  case (2 a nick i tp line cur touched rest)
  have w: "wrap32 (i + 1) = i + 1" using 2(3,4) by (intro wrap32_small) auto
  have p: "0 \<le> i + 1" "i + 1 + int (length rest) < 2 ^ 31" using 2(3,4) by auto
  show ?case
  proof (cases "within 500 cur tp")
    case True
    then show ?thesis using 2(1) [OF refl True] p by (auto simp: w)
  next
    case False
    then show ?thesis using 2(2) [OF refl False] p by (auto simp: w new_msg_def)
  qed
qed simp

text \<open>
  A message of the user reaches the peer twice: the broadcast posts a second copy to the client itself,
  which puts it behind the first.
\<close>

lemma user_message_twice:
  assumes g: "group_ok g" and c: "clnt g = Some c" "posted c = []" and m: "live m" "\<not> blocked m g"
  shows "\<exists>c'. clnt (client_on_post m g) = Some c' \<and> posted c' = [forwarded m] \<and>
    cwait (client_on_post (forwarded m) ((client_on_post m g)\<lparr>clnt := Some (c'\<lparr>posted := []\<rparr>)\<rparr>)) =
      cwait g @ [m, forwarded m]"
proof -
  have q: "q_ok (cq c)" using clnt_ok [OF g c(1)] by (simp add: client_ok_def)
  let ?m = "forwarded m"
  define c' where "c' = (client_send ?m c)\<lparr>cq := enqueue m (cq c)\<rparr>"
  have c': "clnt (client_on_post m g) = Some c'"
    using c by (simp add: client_on_post_def broadcast_passed [OF m(2)] Let_def client_send_def c'_def)
  have p: "posted c' = [?m]" using c by (simp add: c'_def client_send_def)
  let ?g = "(client_on_post m g)\<lparr>clnt := Some (c'\<lparr>posted := []\<rparr>)\<rparr>"
  obtain d where d: "clnt (broadcast ?m ?g) = Some d" "cq d = cq c'"
    using broadcast_cq [of ?g "c'\<lparr>posted := []\<rparr>" ?m] by auto
  have "cwait (client_on_post ?m ?g) = waiting (enqueue ?m (enqueue m (cq c)))"
    using d by (simp add: cwait_def client_on_post_def Let_def c'_def)
  also have "\<dots> = cwait g @ [m, ?m]"
    using c q m by (simp add: waiting_enqueue enqueue_ok cwait_def)
  finally show ?thesis using c' p by blast
qed

subsection \<open>Properties\<close>

text \<open>C32: A message whose text has at most 975 characters, none of them 0 or a line end, and whose port is not
  negative is read from its frame unchanged: the numbers, the shifted letters and the end of the text.
\<close>
theorem message_roundtrip:
  assumes "msg_ok m"
  shows "receive junk (frame (serialize m)) = Some m"
  using assms by (rule receive_frame)

definition sample_msg :: msg_t where
  "sample_msg = new_msg \<lparr>ip = ip_of_bytes 127 0 0 1, port = 8000\<rparr> ''ann: Hi Zoe!'' 0"

lemma control_chars: "NUL = CHR 0x00" "NL = CHR 0x0A"
  by (simp_all add: NUL_def NL_def char_of_def bit_0)

lemma sample_msg_live: "live sample_msg"
  by (simp add: sample_msg_def live_def msg_ok_def int32_def new_msg_def DEFAULT_TTL_def ip_of_bytes_def s32_def
      u32_def control_chars)

theorem message_roundtrip_witness: "receive no_msg (frame (serialize sample_msg)) = Some sample_msg"
  using message_roundtrip [of sample_msg no_msg] sample_msg_live by (simp add: live_def)

text \<open>C30: No network of chat processes takes infinitely many steps without new input: every message that was
  sent stops being forwarded, whatever the connections (cycles included) and the order of the steps.
\<close>
theorem flood_terminates: "wf {(n', n). reachable junk n \<and> internal junk n n'}"
proof (rule wf_subset [OF wf_inv_image [OF wf_lighter, of net_weight]])
  show "{(n', n). reachable junk n \<and> internal junk n n'} \<subseteq> inv_image (mult lighter) net_weight"
    using internal_lighter reachable_ok by (auto simp: inv_image_def)
qed















end
