(* ===== verification/Threads.thy ===== *)
theory Threads
  imports C_Text
begin

section \<open>The thread exercises (practice-1/practice 1-1)\<close>

text \<open>
  The threads of tasks 1 to 4 are lists of instructions, one for every call of \<open>printf\<close> or of the thread
  library, with the loops over constant bounds unrolled. \<open>exec t s\<close> runs the next instruction of thread
  \<open>t\<close>: it blocks, goes on, or is undefined when a mutex is used before its initialisation. Condition
  variables may wake up spuriously; every barrier is used once. The main function is the thread whose
  number is the number of the other threads.
\<close>

subsection \<open>The thread library\<close>

datatype instr =
    Lock | Unlock | Print string | Arrive | Pass | WaitFlag | Sleep | SetFlag | Broadcast
  | InitMutex | InitBarrier nat | Create nat | Join nat

record tstate =
  rest :: "nat \<Rightarrow> instr list"
  created :: "nat \<Rightarrow> bool"
  owner :: "nat option"
  inited :: bool
  limit :: nat
  arrived :: nat
  sleeping :: "nat \<Rightarrow> bool"
  flag :: bool
  out :: "(nat \<times> string) list"

datatype outcome = Blocked | Undefined | Next tstate

definition goto :: "nat \<Rightarrow> instr list \<Rightarrow> tstate \<Rightarrow> tstate" where
  "goto t r s = s\<lparr>rest := (rest s)(t := r)\<rparr>"

text \<open>
  \<open>WaitFlag\<close> is \<open>while (!flag) pthread\_cond\_wait(...)\<close>: with the flag unset the thread gives the mutex
  back, sleeps until it is woken, takes the mutex and tests the flag again.
\<close>

fun exec_instr :: "nat \<Rightarrow> instr \<Rightarrow> instr list \<Rightarrow> tstate \<Rightarrow> outcome" where
  "exec_instr t Lock r s =
     (if \<not> inited s then Undefined
      else if owner s = None then Next (goto t r s\<lparr>owner := Some t\<rparr>) else Blocked)"
| "exec_instr t Unlock r s = (if owner s = Some t then Next (goto t r s\<lparr>owner := None\<rparr>) else Undefined)"
| "exec_instr t (Print w) r s = Next (goto t r s\<lparr>out := out s @ [(t, w)]\<rparr>)"
| "exec_instr t Arrive r s = Next (goto t r s\<lparr>arrived := arrived s + 1\<rparr>)"
| "exec_instr t Pass r s = (if limit s \<le> arrived s then Next (goto t r s) else Blocked)"
| "exec_instr t WaitFlag r s =
     (if flag s then Next (goto t r s)
      else Next (goto t (Sleep # Lock # WaitFlag # r) s\<lparr>owner := None, sleeping := (sleeping s)(t := True)\<rparr>))"
| "exec_instr t Sleep r s = (if sleeping s t then Blocked else Next (goto t r s))"
| "exec_instr t SetFlag r s = Next (goto t r s\<lparr>flag := True\<rparr>)"
| "exec_instr t Broadcast r s = Next (goto t r s\<lparr>sleeping := (\<lambda>_. False)\<rparr>)"
| "exec_instr t InitMutex r s = Next (goto t r s\<lparr>inited := True\<rparr>)"
| "exec_instr t (InitBarrier n) r s = Next (goto t r s\<lparr>limit := n\<rparr>)"
| "exec_instr t (Create u) r s = Next (goto t r s\<lparr>created := (created s)(u := True)\<rparr>)"
| "exec_instr t (Join u) r s = (if rest s u = [] then Next (goto t r s) else Blocked)"

definition exec :: "nat \<Rightarrow> tstate \<Rightarrow> outcome" where
  "exec t s =
     (if \<not> created s t then Blocked
      else case rest s t of [] \<Rightarrow> Blocked | i # r \<Rightarrow> exec_instr t i r s)"

definition spurious :: "nat \<Rightarrow> tstate \<Rightarrow> tstate" where
  "spurious t s = s\<lparr>sleeping := (sleeping s)(t := False)\<rparr>"

inductive thread_step :: "tstate \<Rightarrow> tstate \<Rightarrow> bool" where
  run: "exec t s = Next s' \<Longrightarrow> thread_step s s'"
| wake: "sleeping s t \<Longrightarrow> thread_step s (spurious t s)"

definition boot :: "nat \<Rightarrow> (nat \<Rightarrow> instr list) \<Rightarrow> tstate" where
  "boot main prog =
     \<lparr>rest = prog, created = (\<lambda>t. t = main), owner = None, inited = False, limit = 0, arrived = 0,
      sleeping = (\<lambda>_. False), flag = False, out = []\<rparr>"

inductive runs :: "tstate \<Rightarrow> tstate \<Rightarrow> bool" for s where
  here: "runs s s"
| more: "runs s s' \<Longrightarrow> thread_step s' s'' \<Longrightarrow> runs s s''"

subsection \<open>The programs\<close>

definition MAXTHREAD :: nat where "MAXTHREAD = 10"

definition greeting :: "nat \<Rightarrow> string" where "greeting n = ''This is thread '' @ show_nat n @ ''!'' @ [NL]"

definition hello_world :: "string list" where
  "hello_world = [''H'', ''e'', ''l'', ''l'', ''o'', ''W'', ''o'', ''r'', ''l'', ''d'', ''!'']"

definition apple :: "string list" where "apple = [''A'', ''p'', ''p'', ''l'', ''e'', ''?'']"

definition printf_all :: "string list \<Rightarrow> instr list" where "printf_all ws = map Print ws"

definition text1 :: "nat \<Rightarrow> string list" where
  "text1 n = greeting n # concat (replicate 20 hello_world)"

definition text2 :: "string list" where
  "text2 = greeting 2 # concat (replicate 20 apple)"

definition task1_thread :: "nat \<Rightarrow> instr list" where "task1_thread t = printf_all (text1 t)"

definition task1 :: "nat \<Rightarrow> instr list" where
  "task1 t = (if t < MAXTHREAD then task1_thread t
     else if t = MAXTHREAD then map Create [0..<MAXTHREAD] @ map Join [0..<MAXTHREAD] else [])"

text \<open>Task 2 initialises the mutex after the threads were created.\<close>

definition task2_thread :: "nat \<Rightarrow> instr list" where
  "task2_thread t = Lock # printf_all (if t = 0 then text1 1 else text2) @ [Unlock]"

definition task2 :: "nat \<Rightarrow> instr list" where
  "task2 t = (if t < 2 then task2_thread t
     else if t = 2 then [Create 0, Create 1, InitMutex] @ [Join 0, Join 1] else [])"

definition task3_thread :: "nat \<Rightarrow> instr list" where
  "task3_thread t = Arrive # Pass # Lock # printf_all (if t = 0 then text1 1 else text2) @ [Unlock]"

definition task3 :: "nat \<Rightarrow> instr list" where
  "task3 t = (if t < 2 then task3_thread t
     else if t = 2 then [InitBarrier 3, InitMutex, Create 0, Create 1, Arrive, Pass] @ [Join 0, Join 1] else [])"

definition task4_thread :: "nat \<Rightarrow> instr list" where
  "task4_thread t =
     Lock # (if t \<noteq> MAXTHREAD - 1 then [WaitFlag] else []) @ printf_all (text1 t) @
     (if t = MAXTHREAD - 1 then [SetFlag] else []) @ Unlock #
     (if t = MAXTHREAD - 1 then [Broadcast] else [])"

definition task4 :: "nat \<Rightarrow> instr list" where
  "task4 t = (if t < MAXTHREAD then task4_thread t
     else if t = MAXTHREAD then InitMutex # map Create [0..<MAXTHREAD] @ map Join [0..<MAXTHREAD] else [])"

end
