(* ===== verification/Threads_Correct.thy ===== *)
theory Threads_Correct
  imports Threads
begin

section \<open>Critical sections of the thread exercises\<close>

text \<open>
  The contract \<open>critical\_sections\<close> of threads that print inside one section protected by the mutex,
  some of which wait for a flag that others set before they leave theirs. It is interpreted on tasks 3
  and 4. The output consists of whole texts and at most one unfinished one, a waiting thread prints after
  a thread that sets the flag, and the threads of task 4 never deadlock.
\<close>

inductive_cases thread_stepE: "thread_step s s'"

definition main_instrs :: "instr set" where
  "main_instrs = {InitMutex, Arrive, Pass} \<union> range InitBarrier \<union> range Create \<union> range Join"

text \<open>The complete texts of the threads \<open>ds\<close>, one after the other.\<close>

definition sections :: "(nat \<Rightarrow> string list) \<Rightarrow> nat list \<Rightarrow> (nat \<times> string) list" where
  "sections wds ds = concat (map (\<lambda>t. map (Pair t) (wds t)) ds)"

lemma sections_snoc [simp]: "sections wds (ds @ [t]) = sections wds ds @ map (Pair t) (wds t)"
  and sections_Nil [simp]: "sections wds [] = []"
  by (simp_all add: sections_def)

lemma goto_simps [simp]:
  "rest (goto t r s) = (rest s)(t := r)" "created (goto t r s) = created s" "owner (goto t r s) = owner s"
  "inited (goto t r s) = inited s" "sleeping (goto t r s) = sleeping s" "flag (goto t r s) = flag s"
  "out (goto t r s) = out s" "limit (goto t r s) = limit s" "arrived (goto t r s) = arrived s"
  by (simp_all add: goto_def)

lemma exec_head: "created s t \<Longrightarrow> rest s t = i # r \<Longrightarrow> exec t s = exec_instr t i r s"
  by (simp add: exec_def)

lemma exec_next:
  assumes "exec t s = Next s'"
  obtains i r where "created s t" "rest s t = i # r" "exec_instr t i r s = Next s'"
  using assms by (cases "rest s t") (auto simp: exec_def split: if_splits)

locale critical_sections =
  fixes N :: nat
    and prog :: "nat \<Rightarrow> instr list"
    and pre :: "nat \<Rightarrow> instr list"
    and mid :: "nat \<Rightarrow> instr list"
    and post :: "nat \<Rightarrow> instr list"
    and fin :: "nat \<Rightarrow> instr list"
    and wds :: "nat \<Rightarrow> string list"
  assumes thread: "t < N \<Longrightarrow> prog t = pre t @ Lock # mid t @ map Print (wds t) @ post t @ Unlock # fin t"
    and pre: "t < N \<Longrightarrow> set (pre t) \<subseteq> {Arrive, Pass}"
    and mid: "mid t = [] \<or> mid t = [WaitFlag] \<and> post t = []"
    and post: "set (post t) \<subseteq> {SetFlag}"
    and fin: "set (fin t) \<subseteq> {Broadcast}"
    and main: "set (prog N) \<subseteq> main_instrs"
    and others: "N < t \<Longrightarrow> prog t = []"
begin

definition body :: "nat \<Rightarrow> nat \<Rightarrow> instr list" where
  "body t k = map Print (drop k (wds t)) @ post t @ Unlock # fin t"

definition outside :: "nat \<Rightarrow> instr list \<Rightarrow> bool" where
  "outside t r \<longleftrightarrow> (\<exists>p. set p \<subseteq> {Arrive, Pass, Sleep} \<and> r = p @ Lock # mid t @ body t 0)"

text \<open>Inside the section, with \<open>k\<close> texts printed.\<close>

definition inside :: "nat \<Rightarrow> nat \<Rightarrow> tstate \<Rightarrow> bool" where
  "inside t k s \<longleftrightarrow>
     (k = 0 \<and> mid t = [WaitFlag] \<and> rest s t = WaitFlag # body t 0) \<or>
     ((mid t \<noteq> [] \<longrightarrow> flag s) \<and> k \<le> length (wds t) \<and>
       (rest s t = body t k \<or> k = length (wds t) \<and> (\<exists>p q. post t = p @ q \<and> rest s t = q @ Unlock # fin t)))"

definition ordered :: "nat list \<Rightarrow> bool" where
  "ordered ds \<longleftrightarrow> (\<forall>i < length ds. mid (ds ! i) \<noteq> [] \<longrightarrow> (\<exists>j < i. post (ds ! j) \<noteq> []))"

definition sect :: "nat list \<Rightarrow> tstate \<Rightarrow> bool" where
  "sect ds s \<longleftrightarrow>
     distinct ds \<and> set ds \<subseteq> {..<N} \<and> ordered ds \<and> set (rest s N) \<subseteq> main_instrs \<and>
     (\<forall>t > N. rest s t = []) \<and> (\<forall>t \<in> set ds. set (rest s t) \<subseteq> {Broadcast}) \<and>
     (\<forall>t < N. t \<notin> set ds \<longrightarrow> owner s \<noteq> Some t \<longrightarrow> outside t (rest s t)) \<and>
     (flag s \<longrightarrow> (\<exists>u \<in> set ds. post u \<noteq> []) \<or> (\<exists>u. owner s = Some u \<and> post u \<noteq> [])) \<and>
     (case owner s of
        None \<Rightarrow> out s = sections wds ds
      | Some t \<Rightarrow> t < N \<and> t \<notin> set ds \<and>
          (\<exists>k. inside t k s \<and> out s = sections wds ds @ map (Pair t) (take k (wds t))))"

lemma ordered_snoc: "ordered (ds @ [t]) \<longleftrightarrow> ordered ds \<and> (mid t \<noteq> [] \<longrightarrow> (\<exists>u \<in> set ds. post u \<noteq> []))"
proof -
  have "(\<exists>j < i. post ((ds @ [t]) ! j) \<noteq> []) \<longleftrightarrow> (\<exists>j < i. post (ds ! j) \<noteq> [])" if "i \<le> length ds" for i
    using that by (intro ex_cong) (simp add: nth_append)
  then have "ordered (ds @ [t]) \<longleftrightarrow> (mid t \<noteq> [] \<longrightarrow> (\<exists>j < length ds. post (ds ! j) \<noteq> [])) \<and> ordered ds"
    unfolding ordered_def length_append_singleton All_less_Suc by (simp add: nth_append)
  moreover have "(\<exists>j < length ds. post (ds ! j) \<noteq> []) \<longleftrightarrow> (\<exists>u \<in> set ds. post u \<noteq> [])"
    by (metis in_set_conv_nth)
  ultimately show ?thesis by blast
qed

lemma boot_sect: "sect [] (boot N prog)"
proof -
  have "outside t (prog t)" if "t < N" for t
    unfolding outside_def using that pre [OF that]
    by (intro exI [of _ "pre t"]) (auto simp: thread body_def)
  then show ?thesis using main others by (simp add: sect_def boot_def ordered_def)
qed

lemma head_cases:
  assumes "r = i # r'" "outside t r"
  shows "(i \<in> {Arrive, Pass, Sleep} \<and> outside t r') \<or> (i = Lock \<and> r' = mid t @ body t 0)"
proof -
  obtain p where p: "set p \<subseteq> {Arrive, Pass, Sleep}" "r = p @ Lock # mid t @ body t 0"
    using assms(2) by (auto simp: outside_def)
  show ?thesis
  proof (cases p)
    case (Cons j p')
    then show ?thesis using p assms(1) unfolding outside_def by auto
  qed (use p assms(1) in auto)
qed

text \<open>A step of a thread that does not hold the mutex and does not take it.\<close>

lemma sect_other:
  assumes s: "sect ds s" and t: "owner s \<noteq> Some t"
    and r: "t < N \<Longrightarrow> t \<notin> set ds \<Longrightarrow> outside t r" "t \<in> set ds \<Longrightarrow> set r \<subseteq> {Broadcast}"
      "t = N \<Longrightarrow> set r \<subseteq> main_instrs" "N < t \<Longrightarrow> r = []"
    and s': "rest s' = (rest s)(t := r)" "owner s' = owner s" "flag s' = flag s" "out s' = out s"
  shows "sect ds s'"
proof -
  have "inside u k s' = inside u k s" if "owner s = Some u" for u k
    using that t s' by (auto simp: inside_def)
  then show ?thesis using s r s' t unfolding sect_def by (auto split: option.splits)
qed

lemma sect_lock:
  assumes s: "sect ds s" and t: "t < N" "t \<notin> set ds" "owner s = None"
    and s': "rest s' = (rest s)(t := mid t @ body t 0)" "owner s' = Some t" "flag s' = flag s" "out s' = out s"
  shows "sect ds s'"
proof -
  have "inside t 0 s'" using mid [of t] s' by (auto simp: inside_def)
  then show ?thesis using s s' t unfolding sect_def by (auto intro!: exI [of _ 0])
qed

lemma tail_head:
  assumes "set q \<subseteq> {SetFlag}" "i # r = q @ Unlock # x"
  shows "(i = SetFlag \<and> (\<exists>q'. q = SetFlag # q' \<and> r = q' @ Unlock # x)) \<or> (i = Unlock \<and> r = x)"
  using assms by (cases q) auto

text \<open>What a thread inside the section does next.\<close>

lemma inside_head:
  assumes "inside t k s" "rest s t = i # r"
  shows "(i = WaitFlag \<and> k = 0 \<and> mid t = [WaitFlag] \<and> r = body t 0) \<or>
    ((mid t \<noteq> [] \<longrightarrow> flag s) \<and>
      ((k < length (wds t) \<and> i = Print (wds t ! k) \<and> r = body t (Suc k)) \<or>
       (k = length (wds t) \<and> i = SetFlag \<and> (\<exists>p q. post t = p @ SetFlag # q \<and> r = q @ Unlock # fin t)) \<or>
       (k = length (wds t) \<and> i = Unlock \<and> r = fin t)))"
proof -
  have p: "set (post t) \<subseteq> {SetFlag}" by (rule post)
  have q: ?thesis if m: "mid t \<noteq> [] \<longrightarrow> flag s" and k: "k = length (wds t)" and q: "post t = p @ q" "i # r = q @ Unlock # fin t"
    for p q
    using tail_head [of q i r] m k q p by auto
  consider "k = 0" "mid t = [WaitFlag]" "rest s t = WaitFlag # body t 0"
    | "mid t \<noteq> [] \<longrightarrow> flag s" "k < length (wds t)" "rest s t = body t k"
    | "mid t \<noteq> [] \<longrightarrow> flag s" "k = length (wds t)" "rest s t = body t k"
    | p q where "mid t \<noteq> [] \<longrightarrow> flag s" "k = length (wds t)" "post t = p @ q" "rest s t = q @ Unlock # fin t"
    using assms(1) by (auto simp: inside_def le_less)
  then show ?thesis
  proof cases
    case 2
    then show ?thesis using assms(2) by (auto simp: body_def Cons_nth_drop_Suc [symmetric])
  next
    case 3
    then show ?thesis using assms(2) q [of "[]" "post t"] by (simp add: body_def)
  next
    case 4
    then show ?thesis using assms(2) q [of p q] by simp
  qed (use assms(2) in simp)
qed

lemma sect_owner:
  assumes s: "sect ds s" and t: "owner s = Some t"
    and s': "rest s' = (rest s)(t := r)" "owner s' = Some t" "flag s' \<Longrightarrow> flag s \<or> post t \<noteq> []"
      "out s' = sections wds ds @ map (Pair t) (take k (wds t))" "inside t k s'"
  shows "sect ds s'"
proof -
  have "t < N" "t \<notin> set ds" using s t by (auto simp: sect_def)
  then show ?thesis using s t s' unfolding sect_def by auto
qed

lemma sect_wait:
  assumes s: "sect ds s" and t: "owner s = Some t" and r: "rest s t = WaitFlag # r"
    and s': "rest s' = (rest s)(t := Sleep # Lock # WaitFlag # r)" "owner s' = None" "flag s' = flag s"
      "out s' = out s" "\<not> flag s"
  shows "sect ds s'"
proof -
  obtain k where k: "inside t k s" "out s = sections wds ds @ map (Pair t) (take k (wds t))" "t < N" "t \<notin> set ds"
    using s t by (auto simp: sect_def)
  have "k = 0 \<and> mid t = [WaitFlag] \<and> r = body t 0" using inside_head [OF k(1) r] by auto
  then have "k = 0" "outside t (Sleep # Lock # WaitFlag # r)"
    unfolding outside_def by (auto intro!: exI [of _ "[Sleep]"])
  then show ?thesis using s t s' k unfolding sect_def by auto
qed

lemma sect_unlock:
  assumes s: "sect ds s" and t: "owner s = Some t" and r: "rest s t = Unlock # r"
    and s': "rest s' = (rest s)(t := r)" "owner s' = None" "flag s' = flag s" "out s' = out s"
  shows "sect (ds @ [t]) s'"
proof -
  obtain k where k: "inside t k s" "out s = sections wds ds @ map (Pair t) (take k (wds t))" "t < N" "t \<notin> set ds"
    using s t by (auto simp: sect_def)
  have "r = fin t \<and> k = length (wds t) \<and> (mid t \<noteq> [] \<longrightarrow> flag s)" using inside_head [OF k(1) r] by auto
  moreover have "mid t \<noteq> [] \<longrightarrow> post t = []" using mid [of t] by auto
  ultimately show ?thesis
    using s s' t k fin [of t] unfolding sect_def by (auto simp: ordered_snoc)
qed

lemma exec_inside:
  assumes s: "sect ds s" and t: "owner s = Some t" and e: "exec t s = Next s'"
  shows "\<exists>ds'. sect ds' s'"
proof -
  obtain k where k: "inside t k s" "out s = sections wds ds @ map (Pair t) (take k (wds t))"
    using s t by (auto simp: sect_def)
  obtain i r where c: "created s t" and r: "rest s t = i # r" and e: "exec_instr t i r s = Next s'"
    using exec_next [OF e] .
  from inside_head [OF k(1) r] consider
      "i = WaitFlag" "k = 0" "mid t = [WaitFlag]" "r = body t 0"
    | "mid t \<noteq> [] \<longrightarrow> flag s" "k < length (wds t)" "i = Print (wds t ! k)" "r = body t (Suc k)"
    | p q where "mid t \<noteq> [] \<longrightarrow> flag s" "k = length (wds t)" "i = SetFlag" "post t = p @ SetFlag # q" "r = q @ Unlock # fin t"
    | "i = Unlock" by blast
  then show ?thesis
  proof cases
    case 1
    show ?thesis
    proof (cases "flag s")
      case True
      have "sect ds s'"
        using e k 1 True by (intro sect_owner [OF s t, of _ r 0]) (auto simp: inside_def t)
      then show ?thesis ..
    next
      case False
      have "sect ds s'" using e r 1 False by (intro sect_wait [OF s t, of r]) auto
      then show ?thesis ..
    qed
  next
    case 2
    have "sect ds s'"
      using e k 2 by (intro sect_owner [OF s t, of _ r "Suc k"]) (auto simp: inside_def t take_Suc_conv_app_nth)
    then show ?thesis ..
  next
    case 3
    have "post t = (p @ [SetFlag]) @ q" using 3 by simp
    then have "inside t k (goto t r s\<lparr>flag := True\<rparr>)" using 3 unfolding inside_def by fastforce
    then have "sect ds s'"
      using e k 3 by (intro sect_owner [OF s t, of _ r k]) (auto simp: t)
    then show ?thesis ..
  next
    case 4
    have "sect (ds @ [t]) s'"
      using e r t 4 by (intro sect_unlock [OF s t, of r]) auto
    then show ?thesis ..
  qed
qed

lemma exec_outside:
  assumes s: "sect ds s" and t: "owner s \<noteq> Some t" and e: "exec t s = Next s'"
  shows "\<exists>ds'. sect ds' s'"
proof -
  obtain i r where c: "created s t" and r: "rest s t = i # r" and e: "exec_instr t i r s = Next s'"
    using exec_next [OF e] .
  show ?thesis
  proof (cases "i = Lock")
    case True
    have "\<not> N < t" "t \<noteq> N" "t \<notin> set ds" using s r True by (auto simp: sect_def main_instrs_def)
    then have n: "t < N" "t \<notin> set ds" "outside t (rest s t)" using s t by (auto simp: sect_def)
    then have "r = mid t @ body t 0" using head_cases [OF r n(3)] True by auto
    then have "sect ds s'"
      using e True by (intro sect_lock [OF s n(1,2)]) (auto split: if_splits)
    then show ?thesis ..
  next
    case False
    have ok: "t < N \<Longrightarrow> t \<notin> set ds \<Longrightarrow> i \<in> {Arrive, Pass, Sleep} \<and> outside t r"
      using head_cases [OF r] s t False by (auto simp: sect_def r)
    have "t \<in> set ds \<Longrightarrow> set (rest s t) \<subseteq> {Broadcast}" "t = N \<Longrightarrow> set (rest s t) \<subseteq> main_instrs"
      "N < t \<Longrightarrow> rest s t = []" using s unfolding sect_def by blast+
    then have dn: "t \<in> set ds \<Longrightarrow> i = Broadcast \<and> set r \<subseteq> {Broadcast}"
      "t = N \<Longrightarrow> i \<in> main_instrs \<and> set r \<subseteq> main_instrs" "\<not> N < t" unfolding r by auto
    then have i: "i \<in> {Arrive, Pass, Sleep, Broadcast} \<union> main_instrs"
      using ok by (cases "t < N"; cases "t = N"; cases "t \<in> set ds") auto
    have "rest s' = (rest s)(t := r) \<and> owner s' = owner s \<and> flag s' = flag s \<and> out s' = out s"
      using e i by (auto simp: main_instrs_def split: if_splits)
    then have "sect ds s'" using ok dn by (intro sect_other [OF s t]) auto
    then show ?thesis ..
  qed
qed

lemma runs_sect: "runs (boot N prog) s \<Longrightarrow> \<exists>ds. sect ds s"
proof (induction rule: runs.induct)
  case here
  show ?case using boot_sect by blast
next
  case (more s s')
  then obtain ds where ds: "sect ds s" by blast
  from more.hyps(2) show ?case
  proof cases
    case (run t)
    then show ?thesis using exec_inside [OF ds] exec_outside [OF ds] by blast
  next
    case (wake t)
    then have "sect ds s'" using ds by (simp add: sect_def inside_def spurious_def cong: option.case_cong)
    then show ?thesis ..
  qed
qed

text \<open>
  The output at any time, and the order of the texts: before a thread that waits for the flag there is
  one that sets it.
\<close>

lemma output_sections:
  assumes "runs (boot N prog) s"
  shows "\<exists>ds t k. distinct ds \<and> set ds \<subseteq> {..<N} \<and> ordered ds \<and>
    (out s = sections wds ds \<or>
     t < N \<and> t \<notin> set ds \<and> (mid t \<noteq> [] \<longrightarrow> k = 0 \<or> (\<exists>u \<in> set ds. post u \<noteq> [])) \<and>
       out s = sections wds ds @ map (Pair t) (take k (wds t)))"
proof -
  obtain ds where ds: "sect ds s" using runs_sect [OF assms] by blast
  show ?thesis
  proof (cases "owner s")
    case None
    then show ?thesis using ds by (auto simp: sect_def)
  next
    case (Some t)
    then obtain k where k: "inside t k s" "out s = sections wds ds @ map (Pair t) (take k (wds t))"
      "t < N" "t \<notin> set ds" using ds by (auto simp: sect_def)
    moreover have "\<exists>u \<in> set ds. post u \<noteq> []" if "mid t \<noteq> []" "k \<noteq> 0"
    proof -
      have "flag s" "post t = []" using k(1) that mid [of t] by (auto simp: inside_def)
      then show ?thesis using ds Some by (auto simp: sect_def)
    qed
    moreover have "distinct ds" "set ds \<subseteq> {..<N}" "ordered ds" using ds unfolding sect_def by blast+
    ultimately show ?thesis by (intro exI [of _ ds] exI [of _ t] exI [of _ k]) auto
  qed
qed

end

text \<open>Tasks 3 and 4 keep the contract.\<close>

definition last_thread :: nat where "last_thread = MAXTHREAD - 1"

lemma task4_parts:
  "t < MAXTHREAD \<Longrightarrow> task4 t = [] @ Lock # (if t \<noteq> last_thread then [WaitFlag] else []) @ map Print (text1 t) @
     (if t = last_thread then [SetFlag] else []) @ Unlock # (if t = last_thread then [Broadcast] else [])"
  by (simp add: task4_def task4_thread_def printf_all_def last_thread_def)

interpretation t3: critical_sections 2 task3 "\<lambda>_. [Arrive, Pass]" "\<lambda>_. []" "\<lambda>_. []" "\<lambda>_. []"
    "\<lambda>t. if t = 0 then text1 1 else text2"
  by unfold_locales (auto simp: task3_def task3_thread_def printf_all_def main_instrs_def)

interpretation t4: critical_sections MAXTHREAD task4 "\<lambda>_. []" "\<lambda>t. if t \<noteq> last_thread then [WaitFlag] else []"
    "\<lambda>t. if t = last_thread then [SetFlag] else []" "\<lambda>t. if t = last_thread then [Broadcast] else []" text1
  by unfold_locales (auto simp: task4_parts, auto simp: task4_def main_instrs_def)

subsection \<open>Task 4 does not deadlock\<close>

text \<open>The main function created a part of the threads; nobody sleeps once the flag was broadcast.\<close>

definition main_ok :: "nat \<Rightarrow> tstate \<Rightarrow> bool" where
  "main_ok j s \<longleftrightarrow> rest s MAXTHREAD = drop j (task4 MAXTHREAD) \<and> created s MAXTHREAD \<and> (0 < j \<longrightarrow> inited s) \<and>
     (\<forall>t < MAXTHREAD. created s t \<longleftrightarrow> Suc t < j)"

definition flag_ok :: "nat \<Rightarrow> tstate \<Rightarrow> bool" where
  "flag_ok n s \<longleftrightarrow> rest s last_thread = drop n (task4 last_thread) \<and>
     (SetFlag \<notin> set (rest s last_thread) \<longrightarrow> flag s) \<and>
     (\<forall>t. sleeping s t \<longrightarrow> t < last_thread \<and> (flag s \<longrightarrow> Broadcast \<in> set (rest s last_thread))) \<and>
     (\<forall>t. set (rest s t) \<subseteq> insert Sleep (set (task4 t)))"

lemma task4_main: "task4 MAXTHREAD = InitMutex # map Create [0..<MAXTHREAD] @ map Join [0..<MAXTHREAD]"
  by (simp add: task4_def)

lemma task4_last: "task4 last_thread = Lock # map Print (text1 last_thread) @ [SetFlag, Unlock, Broadcast]"
  by (simp add: task4_parts last_thread_def MAXTHREAD_def)

lemma length_task4_main: "length (task4 MAXTHREAD) = 21"
  unfolding task4_main by (simp add: MAXTHREAD_def)

lemma task4_nth_main:
  "j < 21 \<Longrightarrow> task4 MAXTHREAD ! j = (if j = 0 then InitMutex else if j \<le> 10 then Create (j - 1) else Join (j - 11))"
  unfolding task4_main by (cases j) (auto simp: MAXTHREAD_def nth_append)

lemma exec_main:
  assumes m: "main_ok j s" and e: "exec MAXTHREAD s = Next s'"
  shows "main_ok (Suc j) s'"
proof -
  obtain i r where r: "rest s MAXTHREAD = i # r" and e: "exec_instr MAXTHREAD i r s = Next s'"
    using exec_next [OF e] .
  have j: "j < 21"
  proof (rule ccontr)
    assume "\<not> j < 21"
    then have "drop j (task4 MAXTHREAD) = []" by (simp add: length_task4_main)
    then show False using m r by (simp add: main_ok_def)
  qed
  then have "i = task4 MAXTHREAD ! j" "r = drop (Suc j) (task4 MAXTHREAD)"
    using m r by (auto simp: main_ok_def Cons_nth_drop_Suc [symmetric] length_task4_main)
  then have i: "i = (if j = 0 then InitMutex else if j \<le> 10 then Create (j - 1) else Join (j - 11))"
    and r: "r = drop (Suc j) (task4 MAXTHREAD)" using j by (simp_all add: task4_nth_main)
  consider "j = 0" | "0 < j" "j \<le> 10" | "10 < j" by linarith
  then show ?thesis
  proof cases
    case 2
    then show ?thesis using m e by (auto simp: i r main_ok_def less_Suc_eq)
  next
    case 3
    then show ?thesis using m e by (auto simp: i r main_ok_def MAXTHREAD_def split: if_splits)
  qed (use m e in \<open>auto simp: i r main_ok_def\<close>)
qed

lemma exec_main_other:
  assumes m: "main_ok j s" and f: "flag_ok n s" and t: "t \<noteq> MAXTHREAD" and e: "exec t s = Next s'"
  shows "main_ok j s'"
proof -
  obtain i r where r: "rest s t = i # r" and e: "exec_instr t i r s = Next s'" using exec_next [OF e] .
  have "set (task4 t) \<inter> (range Create \<union> {InitMutex}) = {}"
    using t by (auto simp: task4_def task4_thread_def printf_all_def)
  moreover have "set (rest s t) \<subseteq> insert Sleep (set (task4 t))" using f unfolding flag_ok_def by blast
  then have "i \<in> insert Sleep (set (task4 t))" by (simp add: r)
  ultimately have "i \<notin> range Create" "i \<noteq> InitMutex" by auto
  then have "rest s' MAXTHREAD = rest s MAXTHREAD \<and> created s' = created s \<and> inited s' = inited s"
    using e t by (cases i) (auto split: if_splits)
  then show ?thesis using m by (simp add: main_ok_def)
qed
lemma task4_instrs:
  "WaitFlag \<in> set (task4 t) \<Longrightarrow> Lock \<in> set (task4 t) \<and> t < last_thread"
  "SetFlag \<in> set (task4 t) \<or> Broadcast \<in> set (task4 t) \<Longrightarrow> t = last_thread"
  "Arrive \<notin> set (task4 t)" "Pass \<notin> set (task4 t)" "InitBarrier k \<notin> set (task4 t)" "Sleep \<notin> set (task4 t)"
  by (auto simp: task4_def task4_thread_def printf_all_def last_thread_def split: if_splits)

lemma last_broadcast: "drop n (task4 last_thread) = i # r \<Longrightarrow> last (i # r) = Broadcast"
  using last_drop [of n "task4 last_thread"] by (cases "n < length (task4 last_thread)") (simp_all add: task4_last)

lemma rest_shrinks:
  assumes f: "\<forall>t. set (rest s t) \<subseteq> insert Sleep (set (task4 t))" and e: "exec t s = Next s'"
  shows "set (rest s' u) \<subseteq> insert Sleep (set (task4 u))"
proof -
  obtain i r where r: "rest s t = i # r" and e: "exec_instr t i r s = Next s'" using exec_next [OF e] .
  have "set (rest s t) \<subseteq> insert Sleep (set (task4 t))" using f by blast
  then have i: "i \<in> insert Sleep (set (task4 t))" "set r \<subseteq> insert Sleep (set (task4 t))" by (simp_all add: r)
  have "rest s' = (rest s)(t := r) \<or> i = WaitFlag \<and> rest s' = (rest s)(t := Sleep # Lock # WaitFlag # r)"
    using e by (cases i) (auto split: if_splits)
  moreover have "set (rest s u) \<subseteq> insert Sleep (set (task4 u))" using f by blast
  ultimately show ?thesis using i task4_instrs(1) [of t] by (cases "u = t") auto
qed

lemma exec_flag:
  assumes f: "flag_ok n s" and e: "exec t s = Next s'"
  shows "\<exists>n'. flag_ok n' s'"
proof -
  note sh = rest_shrinks [OF _ e]
  have f4: "\<forall>t. set (rest s t) \<subseteq> insert Sleep (set (task4 t))" using f by (simp add: flag_ok_def)
  obtain i r where r: "rest s t = i # r" and e: "exec_instr t i r s = Next s'" using exec_next [OF e] .
  have "set (rest s t) \<subseteq> insert Sleep (set (task4 t))" using f4 by blast
  then have i: "i \<in> insert Sleep (set (task4 t))" by (simp add: r)
  show ?thesis
  proof (cases "t = last_thread")
    case True
    have d: "drop n (task4 last_thread) = i # r" using f r True by (simp add: flag_ok_def)
    have b: "i \<noteq> Broadcast \<Longrightarrow> Broadcast \<in> set r"
      using last_broadcast [OF d] last_in_set [of r] by (cases "r = []") auto
    have "drop (Suc n) (task4 last_thread) = r" using d by (metis drop_Suc list.sel(3) tl_drop)
    moreover have "i \<noteq> WaitFlag" using i task4_instrs(1) [of t] True by auto
    then have "rest s' = (rest s)(t := r) \<and> flag s' = (flag s \<or> i = SetFlag) \<and>
        sleeping s' = (if i = Broadcast then (\<lambda>_. False) else sleeping s)"
      using e by (cases i) (auto split: if_splits)
    ultimately have "flag_ok (Suc n) s'"
      using f sh [OF f4] True b r unfolding flag_ok_def by auto
    then show ?thesis ..
  next
    case False
    then have "i \<noteq> SetFlag" "i \<noteq> Broadcast" using i task4_instrs(2) [of t] by auto
    moreover have "i = WaitFlag \<Longrightarrow> t < last_thread" using i task4_instrs(1) [of t] by auto
    ultimately have "rest s' last_thread = rest s last_thread \<and> flag s' = flag s \<and>
        (\<forall>u. sleeping s' u \<longrightarrow> sleeping s u \<or> u = t \<and> t < last_thread \<and> \<not> flag s)"
      using e False by (cases i) (auto split: if_splits)
    then have "flag_ok n s'" using f sh [OF f4] unfolding flag_ok_def by auto
    then show ?thesis ..
  qed
qed

definition task4_ok :: "tstate \<Rightarrow> bool" where
  "task4_ok s \<longleftrightarrow> (\<exists>ds. t4.sect ds s) \<and> (\<exists>j. main_ok j s) \<and> (\<exists>n. flag_ok n s)"

lemma runs_task4_ok: "runs (boot MAXTHREAD task4) s \<Longrightarrow> task4_ok s"
proof (induction rule: runs.induct)
  case here
  have "main_ok 0 (boot MAXTHREAD task4)" "flag_ok 0 (boot MAXTHREAD task4)"
    by (auto simp: main_ok_def flag_ok_def boot_def task4_last)
  then show ?case using t4.boot_sect by (auto simp: task4_ok_def)
next
  case (more s s')
  then obtain j n where m: "main_ok j s" and f: "flag_ok n s" by (auto simp: task4_ok_def)
  have "\<exists>ds. t4.sect ds s'" using t4.runs_sect runs.more more.hyps by blast
  moreover from more.hyps(2) have "(\<exists>j. main_ok j s') \<and> (\<exists>n. flag_ok n s')"
  proof cases
    case (run t)
    then show ?thesis
      using exec_flag [OF f run] exec_main_other [OF m f _ run] exec_main [OF m] by (cases "t = MAXTHREAD") auto
  next
    case (wake t)
    then have "main_ok j s'" using m by (simp add: main_ok_def spurious_def)
    moreover have "flag_ok n s'" using f wake unfolding flag_ok_def spurious_def by auto
    ultimately show ?thesis by blast
  qed
  ultimately show ?case by (simp add: task4_ok_def)
qed
lemma sect_heads:
  assumes "t4.sect ds s" "rest s t = i # r" "owner s \<noteq> Some t"
  shows "(t = MAXTHREAD \<and> i \<in> main_instrs) \<or> (t \<in> set ds \<and> i = Broadcast) \<or>
    (t < MAXTHREAD \<and> t \<notin> set ds \<and> i \<in> {Arrive, Pass, Sleep, Lock})"
proof -
  consider "t = MAXTHREAD" | "MAXTHREAD < t" | "t \<in> set ds" | "t < MAXTHREAD" "t \<notin> set ds" by linarith
  then show ?thesis
  proof cases
    case 1
    have "set (rest s MAXTHREAD) \<subseteq> main_instrs" using assms(1) unfolding t4.sect_def by blast
    then show ?thesis using assms(2) 1 by auto
  next
    case 2
    then show ?thesis using assms(1,2) unfolding t4.sect_def by auto
  next
    case 3
    then have "set (rest s t) \<subseteq> {Broadcast}" using assms(1) unfolding t4.sect_def by blast
    then show ?thesis using assms(2) 3 by auto
  next
    case 4
    then have "t4.outside t (rest s t)" using assms(1,3) unfolding t4.sect_def by blast
    then show ?thesis using t4.head_cases [OF assms(2)] 4 by auto
  qed
qed

lemma task4_never_undefined:
  assumes s: "task4_ok s"
  shows "exec t s \<noteq> Undefined"
proof
  assume e: "exec t s = Undefined"
  obtain ds j where ds: "t4.sect ds s" and m: "main_ok j s" using s by (auto simp: task4_ok_def)
  obtain i r where c: "created s t" and r: "rest s t = i # r" and i: "exec_instr t i r s = Undefined"
    using e by (cases "rest s t") (auto simp: exec_def split: if_splits)
  have "i = Lock \<and> \<not> inited s \<or> i = Unlock \<and> owner s \<noteq> Some t" using i by (cases i) (auto split: if_splits)
  then show False
  proof
    assume l: "i = Lock \<and> \<not> inited s"
    have "owner s \<noteq> Some t"
    proof
      assume o: "owner s = Some t"
      then obtain k where "t4.inside t k s" using ds by (auto simp: t4.sect_def)
      from t4.inside_head [OF this r] l show False by auto
    qed
    then have "t < MAXTHREAD" using sect_heads [OF ds r] l by (auto simp: main_instrs_def)
    then have "inited s" using m c by (auto simp: main_ok_def)
    then show False using l by simp
  next
    assume "i = Unlock \<and> owner s \<noteq> Some t"
    then show False using sect_heads [OF ds r] by (auto simp: main_instrs_def)
  qed
qed

lemma task4_progress:
  assumes s: "task4_ok s" and stuck: "\<And>t s'. exec t s \<noteq> Next s'"
  shows "rest s t = []"
proof -
  obtain ds j n where ds: "t4.sect ds s" and m: "main_ok j s" and f: "flag_ok n s"
    using s by (auto simp: task4_ok_def)
  have halt: "exec_instr t i r s = Blocked" if "created s t" "rest s t = i # r" for t i r
    using that stuck [of t] task4_never_undefined [OF s, of t] by (cases "exec t s") (auto simp: exec_head)
  have j: "11 \<le> j"
  proof (rule ccontr)
    assume "\<not> 11 \<le> j"
    then have "rest s MAXTHREAD = (if j = 0 then InitMutex else Create (j - 1)) # drop (Suc j) (task4 MAXTHREAD)"
      using m task4_nth_main [of j] by (simp add: main_ok_def Cons_nth_drop_Suc [symmetric] length_task4_main)
    from halt [OF _ this] m show False by (auto simp: main_ok_def split: if_splits)
  qed
  then have c: "created s t \<and> inited s" if "t < MAXTHREAD" for t
    using m that by (auto simp: main_ok_def MAXTHREAD_def)
  have o: "owner s = None"
  proof (cases "owner s")
    case (Some t)
    then obtain k where k: "t4.inside t k s" "t < MAXTHREAD" using ds by (auto simp: t4.sect_def)
    then obtain i r where r: "rest s t = i # r"
      by (cases "rest s t") (auto simp: t4.inside_def t4.body_def)
    have "exec_instr t i r s = Blocked" using halt [OF _ r] c k(2) by simp
    then show ?thesis using t4.inside_head [OF k(1) r] Some by (auto split: if_splits)
  qed simp
  have f4: "set (rest s t) \<subseteq> insert Sleep (set (task4 t))" for t using f unfolding flag_ok_def by blast
  have waits: "sleeping s t" if t: "t < MAXTHREAD" "t \<notin> set ds" for t
  proof -
    have "t4.outside t (rest s t)" using ds t o unfolding t4.sect_def by auto
    then obtain i r where r: "rest s t = i # r" by (cases "rest s t") (auto simp: t4.outside_def)
    have b: "exec_instr t i r s = Blocked" using halt [OF _ r] c t(1) by simp
    have "i \<in> insert Sleep (set (task4 t))" using f4 [of t] r by simp
    then have "i \<noteq> Arrive" "i \<noteq> Pass" using task4_instrs by auto
    then have "i = Sleep \<or> i = Lock" using sect_heads [OF ds r] o t by auto
    then show ?thesis using b o c t(1) by (auto split: if_splits)
  qed
  have over: "rest s t = []" if t: "t \<in> set ds" for t
  proof (rule ccontr)
    assume "rest s t \<noteq> []"
    then obtain i r where r: "rest s t = i # r" by (cases "rest s t") auto
    have tM: "t < MAXTHREAD" using ds t by (auto simp: t4.sect_def)
    have "i = Broadcast" using sect_heads [OF ds r] t o tM by auto
    then show False using halt [OF _ r] c tM by simp
  qed
  have last: "last_thread < MAXTHREAD" by (simp add: last_thread_def MAXTHREAD_def)
  have "\<not> sleeping s last_thread" using f by (auto simp: flag_ok_def)
  then have "last_thread \<in> set ds" using waits [OF last] by blast
  then have z: "rest s last_thread = []" by (rule over)
  then have "flag s" using f by (simp add: flag_ok_def)
  then have "\<not> sleeping s t" for t using f z by (auto simp: flag_ok_def)
  then have all: "rest s t = []" if "t < MAXTHREAD" for t using waits [OF that] over by blast
  have "rest s MAXTHREAD = []"
  proof (rule ccontr)
    assume "rest s MAXTHREAD \<noteq> []"
    then have j21: "j < 21" using m by (auto simp: main_ok_def length_task4_main)
    then have "rest s MAXTHREAD = Join (j - 11) # drop (Suc j) (task4 MAXTHREAD)"
      using m j by (simp add: main_ok_def Cons_nth_drop_Suc [symmetric] length_task4_main task4_nth_main)
    from halt [OF _ this] all [of "j - 11"] m j21 show False by (auto simp: main_ok_def MAXTHREAD_def)
  qed
  moreover have "rest s t = []" if "MAXTHREAD < t" using ds that by (simp add: t4.sect_def)
  ultimately show ?thesis using all by (cases "t < MAXTHREAD"; cases "t = MAXTHREAD") auto
qed

subsection \<open>Task 4 ends\<close>

text \<open>
  The instructions a thread has still to run, a wait counted with the sleep it may cause. A thread woken
  before the flag is set may sleep again.
\<close>

definition work :: "bool \<Rightarrow> bool \<Rightarrow> instr list \<Rightarrow> nat" where
  "work f sl r = length r +
     (if WaitFlag \<in> set r \<and> \<not> f \<and> \<not> (sl \<and> hd r = Sleep) then 3 else 0)"

definition all_work :: "tstate \<Rightarrow> nat" where
  "all_work s = (\<Sum>t \<le> MAXTHREAD. work (flag s) (sleeping s t) (rest s t))"

lemma drop_snoc_last: "drop n (xs @ [b]) = b # r \<Longrightarrow> b \<notin> set xs \<Longrightarrow> r = []"
  using set_drop_subset [of n xs] by (cases "drop n xs"; cases "n - length xs") auto

lemma exec_work:
  assumes s: "task4_ok s" and e: "exec t s = Next s'"
  shows "all_work s' < all_work s"
proof -
  obtain n ds where f: "flag_ok n s" and ds: "t4.sect ds s" using s by (auto simp: task4_ok_def)
  obtain i r where r: "rest s t = i # r" and e: "exec_instr t i r s = Next s'" using exec_next [OF e] .
  have tM: "t \<in> {..MAXTHREAD}" using ds r by (auto simp: t4.sect_def not_less [symmetric])
  have bc: "flag s" if "i = Broadcast"
  proof -
    have "set (rest s t) \<subseteq> insert Sleep (set (task4 t))" using f unfolding flag_ok_def by blast
    then have t: "t = last_thread" using that r task4_instrs(2) [of t] by auto
    have "drop n ((Lock # map Print (text1 last_thread) @ [SetFlag, Unlock]) @ [Broadcast]) = Broadcast # r"
      using f r t that by (simp add: flag_ok_def task4_last)
    then have "r = []" by (rule drop_snoc_last) auto
    then show ?thesis using f r t that by (simp add: flag_ok_def)
  qed
  let ?w = "\<lambda>s t. work (flag s) (sleeping s t) (rest s t)"
  have le: "?w s' u \<le> ?w s u" if "u \<noteq> t" for u
  proof -
    have "rest s' u = rest s u \<and> (flag s \<longrightarrow> flag s') \<and> (flag s \<or> sleeping s' u = sleeping s u)"
      using e bc that by (cases i) (auto split: if_splits)
    then show ?thesis by (auto simp: work_def)
  qed
  have less: "?w s' t < ?w s t"
  proof -
    have "(rest s' t = r \<and> (flag s \<longrightarrow> flag s') \<and> (i = Sleep \<longrightarrow> \<not> sleeping s t)) \<or>
        (i = WaitFlag \<and> \<not> flag s \<and> rest s' t = Sleep # Lock # WaitFlag # r \<and> sleeping s' t \<and> \<not> flag s')"
      using e by (cases i) (auto split: if_splits)
    then show ?thesis by (auto simp: work_def r)
  qed
  have "?w s' u \<le> ?w s u" for u using le less by (cases "u = t") auto
  then show ?thesis
    unfolding all_work_def using less tM by (intro sum_strict_mono_ex1) auto
qed

subsection \<open>Properties\<close>

text \<open>C33: In task 4 the output at any time consists of the complete texts of different threads one after the
  other and a part of one more; the first text is that of thread 9, and no other thread prints before
  that text is complete.\<close>
theorem task4_order:
  assumes "runs (boot MAXTHREAD task4) s"
  shows "\<exists>ds t k. distinct ds \<and> set ds \<subseteq> {..<MAXTHREAD} \<and>
    out s = sections text1 ds @ map (Pair t) (take k (text1 t)) \<and>
    (ds \<noteq> [] \<longrightarrow> hd ds = MAXTHREAD - 1 \<and> t \<notin> set ds) \<and> (ds = [] \<longrightarrow> t = MAXTHREAD - 1)"
proof -
  obtain ds t k where ds: "distinct ds" "set ds \<subseteq> {..<MAXTHREAD}" "t4.ordered ds" and
    o: "out s = sections text1 ds \<or> t < MAXTHREAD \<and> t \<notin> set ds \<and>
      (t \<noteq> last_thread \<longrightarrow> k = 0 \<or> last_thread \<in> set ds) \<and> out s = sections text1 ds @ map (Pair t) (take k (text1 t))"
    using t4.output_sections [OF assms] by (auto split: if_splits)
  have first: "hd ds = last_thread" if "ds \<noteq> []"
    using ds(3) that unfolding t4.ordered_def by (cases ds) (force split: if_splits)+
  have free: "\<exists>t. t \<notin> set ds" using ds(2) by (intro exI [of _ MAXTHREAD]) auto
  show ?thesis
  proof (cases "out s = sections text1 ds")
    case True
    moreover obtain u where "u \<notin> set ds" "ds = [] \<longrightarrow> u = last_thread"
      using free by (cases "ds = []") auto
    ultimately show ?thesis
      using ds(1,2) first by (intro exI [of _ ds] exI [of _ u] exI [of _ 0]) (auto simp: last_thread_def)
  next
    case False
    then have t: "t \<notin> set ds" "t \<noteq> last_thread \<longrightarrow> k = 0 \<or> last_thread \<in> set ds"
      "out s = sections text1 ds @ map (Pair t) (take k (text1 t))" using o by auto
    moreover have "k \<noteq> 0" using t(3) False by auto
    ultimately have "ds = [] \<longrightarrow> t = last_thread" by auto
    then show ?thesis using ds(1,2) first t by (intro exI [of _ ds] exI [of _ t] exI [of _ k]) (auto simp: last_thread_def)
  qed
qed

theorem task4_order_witness:
  "\<exists>ds t k. out (boot MAXTHREAD task4) = sections text1 ds @ map (Pair t) (take k (text1 t)) \<and>
    (ds = [] \<longrightarrow> t = MAXTHREAD - 1)"
  using task4_order [OF runs.here] by blast

text \<open>C34: Task 4 neither deadlocks nor uses a mutex wrongly: from any state of any run, spurious wake-ups
  included, the threads stop after finitely many further instructions, and when none can go on, all of
  them and the main function have returned.\<close>
theorem task4_completes:
  "wf {(s', s). runs (boot MAXTHREAD task4) s \<and> (\<exists>t. exec t s = Next s')} \<and>
   (\<forall>s. runs (boot MAXTHREAD task4) s \<longrightarrow> (\<forall>t. exec t s \<noteq> Undefined) \<and>
      ((\<forall>t s'. exec t s \<noteq> Next s') \<longrightarrow> (\<forall>t. rest s t = [])))"
proof (intro conjI allI impI)
  have "{(s', s). runs (boot MAXTHREAD task4) s \<and> (\<exists>t. exec t s = Next s')} \<subseteq> measure all_work"
    using exec_work runs_task4_ok by auto
  then show "wf {(s', s). runs (boot MAXTHREAD task4) s \<and> (\<exists>t. exec t s = Next s')}"
    by (rule wf_subset [OF wf_measure])
qed (use runs_task4_ok task4_never_undefined task4_progress in blast)+

theorem task4_completes_witness: "\<forall>t. exec t (boot MAXTHREAD task4) \<noteq> Undefined"
  using task4_completes runs.here by blast

text \<open>In task 3 the two texts never interleave.\<close>

lemma task3_sections:
  assumes "runs (boot 2 task3) s"
  defines "text \<equiv> (\<lambda>t :: nat. if t = 0 then text1 1 else text2)"
  shows "\<exists>ds t k. distinct ds \<and> set ds \<subseteq> {..<2} \<and>
    (out s = sections text ds \<or> t < 2 \<and> t \<notin> set ds \<and> out s = sections text ds @ map (Pair t) (take k (text t)))"
  using t3.output_sections [OF assms(1)] unfolding text_def by blast

text \<open>In task 2 a created thread can reach the mutex before its initialisation.\<close>

lemma task2_race:
  "\<exists>s. runs (boot 2 task2) s \<and> exec 0 s = Undefined"
proof -
  let ?s = "boot 2 task2"
  have e: "exec 2 ?s = Next (goto 2 [Create 1, InitMutex, Join 0, Join 1] ?s\<lparr>created := (created ?s)(0 := True)\<rparr>)"
    (is "_ = Next ?s1") by (simp add: exec_def boot_def task2_def)
  have "runs ?s ?s1" by (rule runs.more [OF runs.here thread_step.run [OF e]])
  moreover have "exec 0 ?s1 = Undefined" by (simp add: exec_def boot_def task2_def task2_thread_def)
  ultimately show ?thesis by blast
qed

end
