(* ===== verification/Sys_Files.thy ===== *)
theory Sys_Files
  imports Complex_Main C_Text
begin

section \<open>Mapped files and system calls (practice-3/task1 to task4)\<close>

text \<open>
  The exercises on \<open>mmap\<close>. A file is its list of bytes. A shared mapping shows the bytes of the file and, up to the
  end of the last page, zeros that belong to no file; a read or write behind that page is a fault, which ends
  the program: \<open>None\<close>. A write in the mapping changes the file where the file has a byte. Processes that run at the
  same time are step relations, in which a call of \<open>printf\<close> or \<open>sprintf\<close> is one step and \<open>sleep\<close> orders nothing.
  Calls that may fail for a reason outside the file answer as the record \<open>kernel\<close> says; \<open>read\<close> and \<open>write\<close>
  transfer all bytes there are.
\<close>

subsection \<open>Files and mappings\<close>

definition PAGE :: nat where "PAGE = 4096"
definition ZERO :: char where "ZERO = char_of (0 :: nat)"

record kernel =
  open_ok :: bool
  stat_ok :: bool
  mmap_ok :: bool
  msync_ok :: bool

definition map_file :: "string \<Rightarrow> string" where
  "map_file content = content @ replicate ((PAGE - length content mod PAGE) mod PAGE) ZERO"

text \<open>The file behind a mapping of it.\<close>

definition sync_file :: "string \<Rightarrow> string \<Rightarrow> string" where
  "sync_file content m = take (length content) m"

text \<open>\<open>printf\<close> of a mapping as a string reads up to the first zero.\<close>

definition show_map :: "string \<Rightarrow> string option" where
  "show_map m = (if ZERO \<in> set m then Some (takeWhile (\<lambda>c. c \<noteq> ZERO) m) else None)"

definition poke :: "nat \<Rightarrow> char \<Rightarrow> string \<Rightarrow> string option" where
  "poke i c m = (if i < length m then Some (m[i := c]) else None)"

text \<open>\<open>open\<close>, \<open>stat\<close> and \<open>mmap\<close> of the whole file: a message, or the mapping. A mapping is never empty.\<close>

definition open_map :: "kernel \<Rightarrow> string \<Rightarrow> string \<Rightarrow> string + string" where
  "open_map k path content =
     (if \<not> open_ok k then Inl (''fail on open '' @ path @ [NL])
      else if \<not> stat_ok k then Inl (''fail on stat '' @ path @ [NL])
      else if \<not> mmap_ok k \<or> content = [] then Inl (''fail on mmap '' @ path @ [NL])
      else Inr (map_file content))"

subsection \<open>Task 1: changing a file\<close>

record exited =
  exit_value :: int
  stdout_text :: string
  stderr_text :: string
  file_after :: string

definition task1_main :: "kernel \<Rightarrow> string \<Rightarrow> string \<Rightarrow> exited option" where
  "task1_main k path content =
     (case open_map k path content of
        Inl e \<Rightarrow> Some \<lparr>exit_value = -1, stdout_text = [], stderr_text = e, file_after = content\<rparr>
      | Inr m \<Rightarrow>
          (case show_map m of
             None \<Rightarrow> None
           | Some before \<Rightarrow>
               (let text1 = ''--- The file before modification:'' @ NL # NL # before @ [NL, NL]
                in case poke 0 (CHR ''l'') m of
                     None \<Rightarrow> None
                   | Some m \<Rightarrow>
                       if \<not> msync_ok k
                       then Some \<lparr>exit_value = -1, stdout_text = text1, stderr_text = ''fail on msync '' @ path @ [NL],
                              file_after = sync_file content m\<rparr>
                       else (case show_map m of
                               None \<Rightarrow> None
                             | Some after \<Rightarrow>
                                 Some \<lparr>exit_value = 0,
                                   stdout_text = text1 @ ''--- The file after modification:'' @ NL # NL # after @ [NL],
                                   stderr_text = [], file_after = sync_file content m\<rparr>))))"

subsection \<open>Task 2: a message through a mapping\<close>

text \<open>
  The program a maps the file and prints the mapping ten times; meanwhile the program b maps the same file
  and writes two bytes into it. Both see the same pages. \<open>b_pc\<close> is the next statement of b, 4 its end.
\<close>

record proverb_state =
  pages :: string
  repeat_time :: nat
  printed :: "string list"
  b_pc :: nat

definition a_start :: "kernel \<Rightarrow> string \<Rightarrow> string \<Rightarrow> string + proverb_state" where
  "a_start k path content =
     (case open_map k path content of
        Inl e \<Rightarrow> Inl e
      | Inr m \<Rightarrow> Inr \<lparr>pages = m, repeat_time = 10, printed = [], b_pc = 0\<rparr>)"

definition a_print :: "proverb_state \<Rightarrow> proverb_state option" where
  "a_print s =
     (if repeat_time s = 0 then None
      else map_option (\<lambda>t. s\<lparr>repeat_time := repeat_time s - 1, printed := printed s @ [t]\<rparr>) (show_map (pages s)))"

definition b_main :: "kernel \<Rightarrow> string \<Rightarrow> string \<Rightarrow> proverb_state \<Rightarrow> proverb_state option" where
  "b_main k path content s =
     (if b_pc s = 0
      then (case open_map k path (sync_file content (pages s)) of
              Inl e \<Rightarrow> Some (s\<lparr>b_pc := 4\<rparr>)
            | Inr m \<Rightarrow> Some (s\<lparr>b_pc := 1\<rparr>))
      else if b_pc s = 1 then map_option (\<lambda>m. s\<lparr>pages := m, b_pc := 2\<rparr>) (poke 42 (CHR ''!'') (pages s))
      else if b_pc s = 2 then map_option (\<lambda>m. s\<lparr>pages := m, b_pc := 3\<rparr>) (poke 43 ZERO (pages s))
      else if b_pc s = 3 then Some (s\<lparr>b_pc := 4\<rparr>)
      else None)"

inductive task2_reach :: "kernel \<Rightarrow> string \<Rightarrow> string \<Rightarrow> proverb_state \<Rightarrow> bool" for k path content where
  boot: "a_start k path content = Inr s \<Longrightarrow> task2_reach k path content s"
| reader: "task2_reach k path content s \<Longrightarrow> a_print s = Some s' \<Longrightarrow> task2_reach k path content s'"
| writer: "task2_reach k path content s \<Longrightarrow> b_main k path content s = Some s' \<Longrightarrow> task2_reach k path content s'"

subsection \<open>Task 3: parent and child\<close>

record family_state =
  message :: string
  parent_pc :: nat
  child_pc :: nat
  parent_got :: "string option"
  child_got :: "string option"

definition FATHER :: string where "FATHER = ''hi, this is father''"
definition SON :: string where "SON = ''hi, dad, this is son''"

definition task3_boot :: family_state where
  "task3_boot = \<lparr>message = [], parent_pc = 0, child_pc = 0, parent_got = None, child_got = None\<rparr>"

definition task3_parent :: "family_state \<Rightarrow> family_state option" where
  "task3_parent s =
     (if parent_pc s = 0 then Some (s\<lparr>message := FATHER, parent_pc := 1\<rparr>)
      else if parent_pc s = 1 then Some (s\<lparr>parent_got := Some (message s), parent_pc := 2\<rparr>)
      else None)"

definition task3_child :: "family_state \<Rightarrow> family_state option" where
  "task3_child s =
     (if child_pc s = 0 then Some (s\<lparr>child_got := Some (message s), child_pc := 1\<rparr>)
      else if child_pc s = 1 then Some (s\<lparr>message := SON, child_pc := 2\<rparr>)
      else None)"

inductive task3_reach :: "family_state \<Rightarrow> bool" where
  boot: "task3_reach task3_boot"
| parent: "task3_reach s \<Longrightarrow> task3_parent s = Some s' \<Longrightarrow> task3_reach s'"
| child: "task3_reach s \<Longrightarrow> task3_child s = Some s' \<Longrightarrow> task3_reach s'"

subsection \<open>Task 4: system calls and mappings compared\<close>

definition FILE_SIZE :: nat where "FILE_SIZE = 67108864"
definition try_step :: "nat list" where "try_step = [128, 256, 512, 1024, 2048, 4096, 8192]"

text \<open>\<open>write\<close> at an offset; what lies between the end of the file and the offset becomes zero.\<close>

definition write_at :: "nat \<Rightarrow> string \<Rightarrow> string \<Rightarrow> string" where
  "write_at off chunk content =
     take off (content @ replicate (off - length content) ZERO) @ chunk @ drop (off + length chunk) content"

text \<open>The bytes from \<open>i\<close> on in an array or a mapping, and a copy into them, if they lie inside.\<close>

definition piece :: "nat \<Rightarrow> nat \<Rightarrow> string \<Rightarrow> string option" where
  "piece i n m = (if i + n \<le> length m then Some (take n (drop i m)) else None)"

definition put_piece :: "nat \<Rightarrow> string \<Rightarrow> string \<Rightarrow> string option" where
  "put_piece i chunk m =
     (if i + length chunk \<le> length m then Some (take i m @ chunk @ drop (i + length chunk) m) else None)"

text \<open>\<open>for (i = lo; i < hi; i += step)\<close>, where a round may fault; without a step it does not end.\<close>

function for_step :: "nat \<Rightarrow> nat \<Rightarrow> nat \<Rightarrow> (nat \<Rightarrow> 's \<Rightarrow> 's option) \<Rightarrow> 's \<Rightarrow> 's option" where
  "for_step i hi st f s =
     (if hi \<le> i then Some s else if st = 0 then None
      else case f i s of None \<Rightarrow> None | Some s \<Rightarrow> for_step (i + st) hi st f s)"
  by pat_completeness auto
termination by (relation "measure (\<lambda>(i, hi, st, f, s). hi - i)") auto

declare for_step.simps [simp del]

text \<open>A reading of the clock in seconds and microseconds.\<close>

type_synonym timeval = "int \<times> int"

definition dur :: "timeval \<Rightarrow> timeval \<Rightarrow> rat" where
  "dur start stop = of_int (fst stop - fst start) + of_int (snd stop - snd start) / 1000000"

text \<open>
  The state of the programs: the array \<open>c\<close>, the file and the number of readings of the clock so far; the answer
  of a test is the measured time, or -1.
\<close>

record speed_state =
  array_c :: string
  disk :: string
  ticks :: nat

type_synonym test = "speed_state \<Rightarrow> (rat \<times> speed_state) option"

definition gen_main :: "string \<Rightarrow> string" where
  "gen_main content = write_at 0 (replicate FILE_SIZE (CHR ''#'')) content"

text \<open>A test on an open file: the clock is read before and after each of the two phases.\<close>

definition timed :: "(nat \<Rightarrow> timeval) \<Rightarrow> (speed_state \<Rightarrow> speed_state option) \<Rightarrow> test" where
  "timed now f s =
     (case f s of None \<Rightarrow> None
      | Some s' \<Rightarrow> Some (dur (now (ticks s + 1)) (now (ticks s + 2)), s'\<lparr>ticks := ticks s + 4\<rparr>))"

definition failed_test :: test where
  "failed_test s = Some (-1, s\<lparr>ticks := ticks s + 1\<rparr>)"

definition syscall_read_test :: "kernel \<Rightarrow> (nat \<Rightarrow> timeval) \<Rightarrow> nat \<Rightarrow> test" where
  "syscall_read_test k now st s =
     (if \<not> open_ok k then failed_test s
      else timed now
        (\<lambda>s. map_option (\<lambda>(off, a). s\<lparr>array_c := a\<rparr>)
           (for_step 0 FILE_SIZE st
              (\<lambda>i (off, a). let chunk = take st (drop off (disk s))
                            in map_option (Pair (off + length chunk)) (put_piece i chunk a)) (0, array_c s))) s)"

definition mmap_read_test :: "kernel \<Rightarrow> (nat \<Rightarrow> timeval) \<Rightarrow> nat \<Rightarrow> test" where
  "mmap_read_test k now st s =
     (case open_map k [] (disk s) of
        Inl _ \<Rightarrow> failed_test s
      | Inr m \<Rightarrow>
          timed now
            (\<lambda>s. map_option (\<lambda>a. s\<lparr>array_c := a\<rparr>)
               (for_step 0 FILE_SIZE st
                  (\<lambda>i a. case piece i st m of None \<Rightarrow> None | Some chunk \<Rightarrow> put_piece i chunk a) (array_c s))) s)"

definition syscall_write_test :: "kernel \<Rightarrow> (nat \<Rightarrow> timeval) \<Rightarrow> nat \<Rightarrow> test" where
  "syscall_write_test k now st s =
     (if \<not> open_ok k then failed_test s
      else timed now
        (\<lambda>s. map_option (\<lambda>(off, content). s\<lparr>disk := content\<rparr>)
           (for_step 0 FILE_SIZE st
              (\<lambda>i (off, content). map_option (\<lambda>chunk. (off + length chunk, write_at off chunk content)) (piece i st (array_c s)))
              (0, disk s))) s)"

definition mmap_write_test :: "kernel \<Rightarrow> (nat \<Rightarrow> timeval) \<Rightarrow> nat \<Rightarrow> test" where
  "mmap_write_test k now st s =
     (case open_map k [] (disk s) of
        Inl _ \<Rightarrow> failed_test s
      | Inr m \<Rightarrow>
          timed now
            (\<lambda>s. map_option (\<lambda>m. s\<lparr>disk := sync_file (disk s) m\<rparr>)
               (for_step 0 FILE_SIZE st
                  (\<lambda>i m. case piece i st (array_c s) of None \<Rightarrow> None | Some chunk \<Rightarrow> put_piece i chunk m) m)) s)"

text \<open>The loop over the steps: what is printed is the list of steps with the two times.\<close>

fun run_steps :: "(nat \<Rightarrow> test) \<Rightarrow> (nat \<Rightarrow> test) \<Rightarrow> nat list \<Rightarrow> speed_state \<Rightarrow> ((nat \<times> rat \<times> rat) list \<times> speed_state) option" where
  "run_steps f g [] s = Some ([], s)"
| "run_steps f g (st # sts) s =
     (case f st s of
        None \<Rightarrow> None
      | Some (x, s) \<Rightarrow>
          (case g st s of
             None \<Rightarrow> None
           | Some (y, s) \<Rightarrow> map_option (\<lambda>(rows, s). ((st, x, y) # rows, s)) (run_steps f g sts s)))"

definition read_main :: "kernel \<Rightarrow> (nat \<Rightarrow> timeval) \<Rightarrow> string \<Rightarrow> ((nat \<times> rat \<times> rat) list \<times> speed_state) option" where
  "read_main k now content =
     run_steps (syscall_read_test k now) (mmap_read_test k now) (rev try_step)
       \<lparr>array_c = replicate FILE_SIZE (CHR ''#''), disk = content, ticks = 0\<rparr>"

definition write_main :: "kernel \<Rightarrow> (nat \<Rightarrow> timeval) \<Rightarrow> string \<Rightarrow> ((nat \<times> rat \<times> rat) list \<times> speed_state) option" where
  "write_main k now content =
     run_steps (syscall_write_test k now) (mmap_write_test k now) (rev try_step)
       \<lparr>array_c = replicate FILE_SIZE (CHR ''%''), disk = content, ticks = 0\<rparr>"

end
