(* ===== verification/Sys_Files_Correct.thy ===== *)
theory Sys_Files_Correct
  imports Sys_Files
begin

section \<open>Mapped files: properties\<close>

text \<open>
  What the programs of practice-3 do to the files they map, in which order two processes see each other's
  writes, and that system calls and mappings transfer the same bytes.
\<close>

subsection \<open>Mappings\<close>

lemma map_file_app: "map_file content = content @ replicate ((PAGE - length content mod PAGE) mod PAGE) ZERO"
  by (simp add: map_file_def)

lemma page_tail:
  assumes "length content mod PAGE \<noteq> 0"
  shows "(PAGE - length content mod PAGE) mod PAGE = PAGE - length content mod PAGE"
    "0 < PAGE - length content mod PAGE"
  using assms by (auto simp: PAGE_def)

lemma show_map_text:
  assumes "ZERO \<notin> set t" "0 < n"
  shows "show_map (t @ replicate n ZERO) = Some t"
proof -
  have "takeWhile (\<lambda>c. c \<noteq> ZERO) (replicate n ZERO) = []" using assms(2) by (cases n) auto
  then show ?thesis using assms by (auto simp: show_map_def takeWhile_append)
qed

lemma sync_map_file [simp]: "sync_file content (map_file content) = content"
  by (simp add: sync_file_def map_file_def)

lemma no_zero_l: "CHR ''l'' \<noteq> ZERO" "CHR ''!'' \<noteq> ZERO"
  by (simp_all add: ZERO_def char_of_def bit_0)

subsection \<open>Task 1\<close>

text \<open>A file of text that does not fill its last page is printed, its first byte becomes an l, the rest stays.\<close>

lemma task1_changes_first:
  assumes "open_ok k" "stat_ok k" "mmap_ok k" "msync_ok k" and "content \<noteq> []" "ZERO \<notin> set content" "length content mod PAGE \<noteq> 0"
  shows "\<exists>text. task1_main k path content =
    Some \<lparr>exit_value = 0, stdout_text = text, stderr_text = [], file_after = CHR ''l'' # tl content\<rparr> \<and>
    text = ''--- The file before modification:'' @ NL # NL # content @ [NL, NL] @
      ''--- The file after modification:'' @ NL # NL # CHR ''l'' # tl content @ [NL]"
proof -
  obtain x xs where c: "content = x # xs" using assms(5) by (cases content) auto
  define n where "n = PAGE - length content mod PAGE"
  have m: "map_file content = content @ replicate n ZERO" "0 < n"
    using page_tail [OF assms(7)] by (simp_all add: map_file_def n_def)
  have s: "show_map (content @ replicate n ZERO) = Some content" "show_map (CHR ''l'' # xs @ replicate n ZERO) = Some (CHR ''l'' # xs)"
    using show_map_text [OF assms(6) m(2)] show_map_text [of "CHR ''l'' # xs", OF _ m(2)] assms(6) no_zero_l by (auto simp: c)
  have p: "poke 0 (CHR ''l'') (content @ replicate n ZERO) = Some (CHR ''l'' # xs @ replicate n ZERO)"
    by (simp add: poke_def c)
  have y: "sync_file content (CHR ''l'' # xs @ replicate n ZERO) = CHR ''l'' # xs" by (simp add: sync_file_def c)
  show ?thesis
    using assms(1-5) by (simp add: task1_main_def open_map_def m(1) s p y Let_def) (simp add: c)
qed

text \<open>A file of text that fills its last page is read past the end of the mapping.\<close>

lemma task1_full_page:
  assumes "open_ok k" "stat_ok k" "mmap_ok k" "content \<noteq> []" "ZERO \<notin> set content" "length content mod PAGE = 0"
  shows "task1_main k path content = None"
  using assms by (simp add: task1_main_def open_map_def map_file_def show_map_def)

subsection \<open>Task 2\<close>

definition task2_inv :: "string \<Rightarrow> proverb_state \<Rightarrow> bool" where
  "task2_inv text s \<longleftrightarrow>
     (\<exists>i j. printed s = replicate i text @ replicate j (text @ ''!'') \<and> i + j + repeat_time s = 10 \<and>
       pages s \<in> {map_file text, (map_file text)[42 := CHR ''!'']} \<and> (pages s = map_file text \<longrightarrow> j = 0)) \<and>
     (b_pc s \<le> 1 \<longrightarrow> pages s = map_file text)"

lemma task2_pages:
  assumes "length text = 42" "ZERO \<notin> set text"
  shows "show_map (map_file text) = Some text" "show_map ((map_file text)[42 := CHR ''!'']) = Some (text @ ''!'')"
    "(map_file text)[42 := CHR ''!'', 43 := ZERO] = (map_file text)[42 := CHR ''!'']"
    "42 < length (map_file text)" "43 < length (map_file text)" "sync_file text ((map_file text)[42 := CHR ''!'']) = text"
    "(map_file text)[43 := ZERO] = map_file text"
proof -
  define n where "n = PAGE - 43"
  have "(PAGE - length text mod PAGE) mod PAGE = Suc n" by (simp add: assms(1) PAGE_def n_def)
  then have m: "map_file text = text @ ZERO # replicate n ZERO" by (simp add: map_file_def)
  have n: "0 < n" by (simp add: n_def PAGE_def)
  have u: "(map_file text)[42 := CHR ''!''] = (text @ ''!'') @ replicate n ZERO" using assms(1) by (simp add: m list_update_append)
  show "show_map (map_file text) = Some text" using show_map_text [OF assms(2), of "Suc n"] by (simp add: m)
  show "show_map ((map_file text)[42 := CHR ''!'']) = Some (text @ ''!'')"
    unfolding u by (rule show_map_text [OF _ n]) (use assms(2) no_zero_l in auto)
  have "(replicate n ZERO)[0 := ZERO] = replicate n ZERO" using n by (cases n) auto
  then show "(map_file text)[42 := CHR ''!'', 43 := ZERO] = (map_file text)[42 := CHR ''!'']"
    unfolding u using assms(1) by (simp add: list_update_append)
  show "(map_file text)[43 := ZERO] = map_file text"
    using assms(1) \<open>(replicate n ZERO)[0 := ZERO] = replicate n ZERO\<close> by (simp add: m list_update_append)
  show "42 < length (map_file text)" "43 < length (map_file text)" using assms(1) n by (simp_all add: m)
  show "sync_file text ((map_file text)[42 := CHR ''!'']) = text"
    using assms(1) by (simp add: sync_file_def take_update_cancel map_file_def list_update_append)
qed

lemma replicate_snoc: "replicate i x @ [x] = replicate (Suc i) x"
  by (simp add: replicate_append_same)

lemma task2_invE:
  assumes "task2_inv text s"
  obtains i j where "printed s = replicate i text @ replicate j (text @ ''!'')" "i + j + repeat_time s = 10"
    "pages s \<in> {map_file text, (map_file text)[42 := CHR ''!'']}" "pages s = map_file text \<longrightarrow> j = 0" "b_pc s \<le> 1 \<longrightarrow> pages s = map_file text"
  using assms unfolding task2_inv_def by (elim exE conjE) (rule that; assumption)

lemma task2_reach_inv:
  assumes t: "length text = 42" "ZERO \<notin> set text"
  shows "task2_reach k path text s \<Longrightarrow> task2_inv text s"
proof (induction rule: task2_reach.induct)
  case (boot s)
  then show ?case by (auto simp: task2_inv_def a_start_def open_map_def split: if_splits)
next
  case (reader s s')
  note p = task2_pages [OF t]
  obtain i j where s: "printed s = replicate i text @ replicate j (text @ ''!'')" "i + j + repeat_time s = 10"
    "pages s \<in> {map_file text, (map_file text)[42 := CHR ''!'']}" "pages s = map_file text \<longrightarrow> j = 0" "b_pc s \<le> 1 \<longrightarrow> pages s = map_file text"
    by (rule task2_invE [OF reader.IH])
  have r: "repeat_time s \<noteq> 0" using reader.hyps(2) by (auto simp: a_print_def split: if_splits)
  have one: "Suc i + 0 + (repeat_time s - 1) = 10" if "j = 0" using s(2) r that by simp
  have two: "i + Suc j + (repeat_time s - 1) = 10" using s(2) r by simp
  show ?case
  proof (cases "pages s = map_file text")
    case True
    then have "s' = s\<lparr>repeat_time := repeat_time s - 1, printed := replicate (Suc i) text\<rparr>"
      using reader.hyps(2) s(1,4) p(1) r by (simp add: a_print_def replicate_snoc)
    then show ?thesis unfolding task2_inv_def using s(3-5) one True by (intro conjI exI [of _ "Suc i"] exI [of _ 0]) simp_all
  next
    case False
    then have u: "pages s = (map_file text)[42 := CHR ''!'']" using s(3) by simp
    then have "s' = s\<lparr>repeat_time := repeat_time s - 1, printed := replicate i text @ replicate (Suc j) (text @ ''!'')\<rparr>"
      using reader.hyps(2) s(1) p(2) r by (simp add: a_print_def replicate_snoc)
    then show ?thesis unfolding task2_inv_def using s(5) two False u by (intro conjI exI [of _ i] exI [of _ "Suc j"]) simp_all
  qed
next
  case (writer s s')
  note p = task2_pages [OF t]
  obtain i j where s: "printed s = replicate i text @ replicate j (text @ ''!'')" "i + j + repeat_time s = 10"
    "pages s \<in> {map_file text, (map_file text)[42 := CHR ''!'']}" "pages s = map_file text \<longrightarrow> j = 0" "b_pc s \<le> 1 \<longrightarrow> pages s = map_file text"
    by (rule task2_invE [OF writer.IH])
  have k: "printed s' = printed s" "repeat_time s' = repeat_time s" "pages s' \<in> {map_file text, (map_file text)[42 := CHR ''!'']}"
    "pages s' = map_file text \<longrightarrow> pages s = map_file text" "b_pc s' \<le> 1 \<longrightarrow> pages s' = map_file text"
    using writer.hyps(2) s(3,5) p(3-5,7) by (auto simp: b_main_def poke_def split: if_splits sum.splits)
  show ?case unfolding task2_inv_def using s(1,2,4) k by (intro conjI exI [of _ i] exI [of _ j]) simp_all
qed

subsection \<open>Task 3\<close>

lemma task3_outcomes:
  "task3_reach s \<Longrightarrow>
    (\<forall>t. child_got s = Some t \<longrightarrow> t \<in> {[], FATHER}) \<and> (\<forall>t. parent_got s = Some t \<longrightarrow> t \<in> {FATHER, SON}) \<and>
    (parent_pc s = 0 \<longrightarrow> message s \<in> {[], SON}) \<and> (0 < parent_pc s \<longrightarrow> message s \<in> {FATHER, SON}) \<and>
    (child_pc s < 2 \<longrightarrow> message s = (if parent_pc s = 0 then [] else FATHER))"
  by (induction rule: task3_reach.induct)
    (auto simp: task3_boot_def task3_parent_def task3_child_def split: if_splits)

subsection \<open>Task 4\<close>

lemma for_step_rule:
  assumes "0 < st"
    and f: "\<And>i s. i + st \<le> hi \<Longrightarrow> P i s \<Longrightarrow> \<exists>s'. f i s = Some s' \<and> P (i + st) s'"
  shows "hi = lo + n * st \<Longrightarrow> P lo s \<Longrightarrow> \<exists>s'. for_step lo hi st f s = Some s' \<and> P hi s'"
proof (induction n arbitrary: lo s)
  case 0
  then show ?case by (simp add: for_step.simps [of lo])
next
  case (Suc n)
  then obtain s1 where s1: "f lo s = Some s1" "P (lo + st) s1" using f [of lo s] by auto
  have "hi = (lo + st) + n * st" "\<not> hi \<le> lo" using Suc.prems(1) assms(1) by simp_all
  then show ?case using Suc.IH [OF _ s1(2)] s1(1) assms(1) by (simp add: for_step.simps [of lo])
qed

lemma try_step_divides:
  assumes "st \<in> set try_step"
  obtains n where "0 < st" "FILE_SIZE = 0 + n * st"
proof -
  have "0 < st \<and> FILE_SIZE mod st = 0" using assms by (auto simp: try_step_def FILE_SIZE_def)
  then have "0 < st" "FILE_SIZE = 0 + (FILE_SIZE div st) * st" by auto
  then show thesis by (rule that)
qed

lemma piece_take: "i + n \<le> length m \<Longrightarrow> piece i n m = Some (take n (drop i m))"
  by (simp add: piece_def)

lemma put_piece_prefix:
  assumes "i + n \<le> length x" "i + n \<le> length y"
  shows "put_piece i (take n (drop i x)) (take i x @ drop i y) = Some (take (i + n) x @ drop (i + n) y)"
  using assms by (simp add: put_piece_def take_add add.commute)

lemma write_at_prefix:
  assumes "i + n \<le> length x"
  shows "write_at i (take n (drop i x)) (take i x @ drop i y) = take (i + n) x @ drop (i + n) y"
  using assms by (simp add: write_at_def take_add add.commute)

lemma read_loops:
  assumes st: "st \<in> set try_step" and c: "length c = FILE_SIZE" and m: "FILE_SIZE \<le> length m"
  shows "for_step 0 FILE_SIZE st
      (\<lambda>i (off, a). let chunk = take st (drop off m) in map_option (Pair (off + length chunk)) (put_piece i chunk a)) (0, c) =
      Some (FILE_SIZE, take FILE_SIZE m)" (is ?syscall)
    and "for_step 0 FILE_SIZE st (\<lambda>i a. case piece i st m of None \<Rightarrow> None | Some chunk \<Rightarrow> put_piece i chunk a) c =
      Some (take FILE_SIZE m)" (is ?mmap)
proof -
  obtain n where n: "0 < st" "FILE_SIZE = 0 + n * st" by (rule try_step_divides [OF st])
  let ?P = "\<lambda>i (off, a). off = i \<and> a = take i m @ drop i c"
  have "\<exists>s'. for_step 0 FILE_SIZE st
      (\<lambda>i (off, a). let chunk = take st (drop off m) in map_option (Pair (off + length chunk)) (put_piece i chunk a)) (0, c) =
      Some s' \<and> ?P FILE_SIZE s'"
    by (rule for_step_rule [OF n(1) _ n(2)]) (use c m in \<open>auto simp: put_piece_prefix Let_def\<close>)
  then show ?syscall using c by auto
  let ?Q = "\<lambda>i a. a = take i m @ drop i c"
  have "\<exists>s'. for_step 0 FILE_SIZE st (\<lambda>i a. case piece i st m of None \<Rightarrow> None | Some chunk \<Rightarrow> put_piece i chunk a) c =
      Some s' \<and> ?Q FILE_SIZE s'"
    by (rule for_step_rule [OF n(1) _ n(2)]) (use c m in \<open>auto simp: put_piece_prefix piece_take\<close>)
  then show ?mmap using c by auto
qed

lemma write_loops:
  assumes st: "st \<in> set try_step" and c: "length c = FILE_SIZE"
  shows "for_step 0 FILE_SIZE st
      (\<lambda>i (off, content). map_option (\<lambda>chunk. (off + length chunk, write_at off chunk content)) (piece i st c)) (0, m) =
      Some (FILE_SIZE, c @ drop FILE_SIZE m)" (is ?syscall)
    and "FILE_SIZE \<le> length m \<Longrightarrow>
      for_step 0 FILE_SIZE st (\<lambda>i m. case piece i st c of None \<Rightarrow> None | Some chunk \<Rightarrow> put_piece i chunk m) m =
      Some (c @ drop FILE_SIZE m)"
proof -
  obtain n where n: "0 < st" "FILE_SIZE = 0 + n * st" by (rule try_step_divides [OF st])
  let ?P = "\<lambda>i (off, a). off = i \<and> a = take i c @ drop i m"
  have "\<exists>s'. for_step 0 FILE_SIZE st
      (\<lambda>i (off, content). map_option (\<lambda>chunk. (off + length chunk, write_at off chunk content)) (piece i st c)) (0, m) =
      Some s' \<and> ?P FILE_SIZE s'"
    by (rule for_step_rule [OF n(1) _ n(2)]) (use c in \<open>auto simp: write_at_prefix piece_take\<close>)
  then show ?syscall using c by auto
  assume m: "FILE_SIZE \<le> length m"
  let ?Q = "\<lambda>i a. a = take i c @ drop i m"
  have "\<exists>s'. for_step 0 FILE_SIZE st (\<lambda>i m. case piece i st c of None \<Rightarrow> None | Some chunk \<Rightarrow> put_piece i chunk m) m =
      Some s' \<and> ?Q FILE_SIZE s'"
    by (rule for_step_rule [OF n(1) _ n(2)]) (use c m in \<open>auto simp: put_piece_prefix piece_take\<close>)
  then show "for_step 0 FILE_SIZE st (\<lambda>i m. case piece i st c of None \<Rightarrow> None | Some chunk \<Rightarrow> put_piece i chunk m) m =
      Some (c @ drop FILE_SIZE m)" using c by auto
qed

lemma open_map_Inr:
  assumes "open_ok k" "stat_ok k" "mmap_ok k" "FILE_SIZE \<le> length m"
  shows "open_map k path m = Inr (map_file m)" "FILE_SIZE \<le> length (map_file m)"
    "take FILE_SIZE (map_file m) = take FILE_SIZE m"
    "sync_file m (c @ drop FILE_SIZE (map_file m)) = take (length m) (c @ drop FILE_SIZE m @ drop (length m) (map_file m))"
  using assms by (auto simp: open_map_def map_file_def sync_file_def FILE_SIZE_def)

lemma sync_written:
  assumes "length c = FILE_SIZE" "FILE_SIZE \<le> length m"
  shows "sync_file m (c @ drop FILE_SIZE (map_file m)) = c @ drop FILE_SIZE m"
  using assms by (simp add: sync_file_def map_file_def)

lemma syscall_write_result:
  assumes "st \<in> set try_step" "open_ok k" "length (array_c s) = FILE_SIZE"
  shows "syscall_write_test k now st s =
    Some (dur (now (ticks s + 1)) (now (ticks s + 2)), s\<lparr>disk := array_c s @ drop FILE_SIZE (disk s), ticks := ticks s + 4\<rparr>)"
  using write_loops(1) [OF assms(1,3), of "disk s"] assms(2) by (simp add: syscall_write_test_def timed_def)

lemma mmap_write_result:
  assumes "st \<in> set try_step" "open_ok k" "stat_ok k" "mmap_ok k" "length (array_c s) = FILE_SIZE" "FILE_SIZE \<le> length (disk s)"
  shows "mmap_write_test k now st s =
    Some (dur (now (ticks s + 1)) (now (ticks s + 2)), s\<lparr>disk := array_c s @ drop FILE_SIZE (disk s), ticks := ticks s + 4\<rparr>)"
proof -
  note o = open_map_Inr(1,2) [OF assms(2-4,6)]
  show ?thesis
    using write_loops(2) [OF assms(1,5) o(2)] sync_written [OF assms(5,6)] by (simp add: mmap_write_test_def timed_def o(1))
qed

lemma syscall_read_result:
  assumes "st \<in> set try_step" "open_ok k" "length (array_c s) = FILE_SIZE" "FILE_SIZE \<le> length (disk s)"
  shows "syscall_read_test k now st s =
    Some (dur (now (ticks s + 1)) (now (ticks s + 2)), s\<lparr>array_c := take FILE_SIZE (disk s), ticks := ticks s + 4\<rparr>)"
  using read_loops(1) [OF assms(1,3,4)] assms(2) by (simp add: syscall_read_test_def timed_def)

lemma mmap_read_result:
  assumes "st \<in> set try_step" "open_ok k" "stat_ok k" "mmap_ok k" "length (array_c s) = FILE_SIZE" "FILE_SIZE \<le> length (disk s)"
  shows "mmap_read_test k now st s =
    Some (dur (now (ticks s + 1)) (now (ticks s + 2)), s\<lparr>array_c := take FILE_SIZE (disk s), ticks := ticks s + 4\<rparr>)"
proof -
  note o = open_map_Inr(1-3) [OF assms(2-4,6)]
  show ?thesis
    using read_loops(2) [OF assms(1,5) o(2)] by (simp add: mmap_read_test_def timed_def o(1,3))
qed

text \<open>The main programs: whatever the file held, it ends with the written array in front; reading gives it back.\<close>

lemma write_steps:
  assumes "open_ok k" "stat_ok k" "mmap_ok k"
  shows "set sts \<subseteq> set try_step \<Longrightarrow> length (array_c s) = FILE_SIZE \<Longrightarrow>
    \<exists>rows n. run_steps (syscall_write_test k now) (mmap_write_test k now) sts s =
      Some (rows, s\<lparr>disk := (if sts = [] then disk s else array_c s @ drop FILE_SIZE (disk s)), ticks := n\<rparr>) \<and> map fst rows = sts"
proof (induction sts arbitrary: s)
  case Nil
  show ?case by (simp add: exI [of _ "ticks s"])
next
  case (Cons st sts)
  let ?d = "array_c s @ drop FILE_SIZE (disk s)"
  have st: "st \<in> set try_step" using Cons.prems(1) by simp
  note c = Cons.prems(2)
  have d: "FILE_SIZE \<le> length ?d" "drop FILE_SIZE ?d = drop FILE_SIZE (disk s)" using c by simp_all
  let ?s = "s\<lparr>disk := ?d, ticks := ticks s + 8\<rparr>"
  obtain rows n where r: "run_steps (syscall_write_test k now) (mmap_write_test k now) sts ?s =
      Some (rows, ?s\<lparr>disk := (if sts = [] then disk ?s else array_c ?s @ drop FILE_SIZE (disk ?s)), ticks := n\<rparr>)" "map fst rows = sts"
    using Cons.IH [of ?s] Cons.prems by auto
  have "mmap_write_test k now st (s\<lparr>disk := ?d, ticks := ticks s + 4\<rparr>) =
      Some (dur (now (ticks s + 5)) (now (ticks s + 6)), ?s)"
    using mmap_write_result [OF st assms, of "s\<lparr>disk := ?d, ticks := ticks s + 4\<rparr>" now] c d by (simp add: add.commute)
  then show ?case
    using syscall_write_result [OF st assms(1) c, of now] r d(2) by (auto split: if_splits)
qed

lemma write_main_result:
  assumes "open_ok k" "stat_ok k" "mmap_ok k"
  shows "\<exists>rows s. write_main k now content = Some (rows, s) \<and> map fst rows = rev try_step \<and>
    disk s = replicate FILE_SIZE (CHR ''%'') @ drop FILE_SIZE content"
proof -
  have "rev try_step \<noteq> []" by (simp add: try_step_def)
  then show ?thesis
    using write_steps [OF assms, of "rev try_step" "\<lparr>array_c = replicate FILE_SIZE (CHR ''%''), disk = content, ticks = 0\<rparr>" now]
    by (auto simp: write_main_def)
qed

subsection \<open>Properties\<close>

text \<open>C39: task 4. With every step of the list the test by system calls and the test through a mapping do the same to
  a file that is long enough: the write tests put the array in front of the file, the read tests fill the array
  with the first bytes of the file; no access leaves the array or the mapping.\<close>

theorem task4_tests_agree:
  assumes "st \<in> set try_step" "open_ok k" "stat_ok k" "mmap_ok k" "length (array_c s) = FILE_SIZE" "FILE_SIZE \<le> length (disk s)"
  shows "syscall_write_test k now st s = mmap_write_test k now st s \<and> syscall_read_test k now st s = mmap_read_test k now st s \<and>
    (\<exists>t. mmap_write_test k now st s = Some (t, s\<lparr>disk := array_c s @ drop FILE_SIZE (disk s), ticks := ticks s + 4\<rparr>)) \<and>
    (\<exists>t. mmap_read_test k now st s = Some (t, s\<lparr>array_c := take FILE_SIZE (disk s), ticks := ticks s + 4\<rparr>))"
  using syscall_write_result [OF assms(1,2,5)] mmap_write_result [OF assms] syscall_read_result [OF assms(1,2,5,6)]
    mmap_read_result [OF assms] by simp

theorem task4_tests_agree_witness:
  "mmap_write_test \<lparr>open_ok = True, stat_ok = True, mmap_ok = True, msync_ok = True\<rparr> (\<lambda>n. (int n, 0)) 512
    \<lparr>array_c = replicate FILE_SIZE (CHR ''%''), disk = replicate FILE_SIZE (CHR ''#''), ticks = 0\<rparr> =
   syscall_write_test \<lparr>open_ok = True, stat_ok = True, mmap_ok = True, msync_ok = True\<rparr> (\<lambda>n. (int n, 0)) 512
    \<lparr>array_c = replicate FILE_SIZE (CHR ''%''), disk = replicate FILE_SIZE (CHR ''#''), ticks = 0\<rparr>"
  by (rule task4_tests_agree [THEN conjunct1, symmetric]) (simp_all add: try_step_def)

text \<open>C40: task 2. The message of b lies behind the last byte of the proverb, in the rest of its page: whatever the order of the
  steps, a prints the proverb some times and then the proverb with an exclamation mark, ten times in all and
  without a fault, and the file never changes.\<close>

theorem task2_message:
  assumes "length text = 42" "ZERO \<notin> set text" and "task2_reach k path text s"
  shows "(\<exists>i j. printed s = replicate i text @ replicate j (text @ ''!'') \<and> i + j + repeat_time s = 10 \<and> (b_pc s \<le> 1 \<longrightarrow> j = 0)) \<and>
    sync_file text (pages s) = text \<and> (a_print s = None \<longleftrightarrow> repeat_time s = 0) \<and> (b_main k path text s = None \<longleftrightarrow> 4 \<le> b_pc s)"
proof -
  note p = task2_pages [OF assms(1,2)]
  obtain i j where s: "printed s = replicate i text @ replicate j (text @ ''!'')" "i + j + repeat_time s = 10"
    "pages s \<in> {map_file text, (map_file text)[42 := CHR ''!'']}" "pages s = map_file text \<longrightarrow> j = 0" "b_pc s \<le> 1 \<longrightarrow> pages s = map_file text"
    by (rule task2_invE [OF task2_reach_inv [OF assms]])
  then have m: "show_map (pages s) \<noteq> None" "42 < length (pages s)" "43 < length (pages s)" "sync_file text (pages s) = text"
    using p by auto
  then have "a_print s = None \<longleftrightarrow> repeat_time s = 0" "b_main k path text s = None \<longleftrightarrow> 4 \<le> b_pc s"
    by (auto simp: a_print_def b_main_def poke_def split: sum.splits)
  then show ?thesis using m(4) s by (intro conjI exI [of _ i] exI [of _ j]) simp_all
qed

theorem task2_message_witness:
  "\<exists>s. task2_reach \<lparr>open_ok = True, stat_ok = True, mmap_ok = True, msync_ok = True\<rparr> ''proverb.txt''
      ''All work and no play makes Jack a dull boy'' s \<and> printed s = [] \<and> b_pc s = 3 \<and>
    sync_file ''All work and no play makes Jack a dull boy'' (pages s) = ''All work and no play makes Jack a dull boy''"
proof -
  let ?t = "''All work and no play makes Jack a dull boy''" and ?p = "''proverb.txt''"
  let ?k = "\<lparr>open_ok = True, stat_ok = True, mmap_ok = True, msync_ok = True\<rparr>"
  have t: "length ?t = 42" "ZERO \<notin> set ?t" by (simp_all add: ZERO_def char_of_def bit_0)
  define m where "m = map_file ?t"
  have l: "42 < length m" "43 < length m" "sync_file ?t m = ?t" using task2_pages(4,5) [OF t] by (simp_all add: m_def)
  have o: "open_map ?k ?p ?t = Inr m" by (simp add: open_map_def m_def)
  define s0 where "s0 = \<lparr>pages = m, repeat_time = 10, printed = [], b_pc = 0\<rparr>"
  have "a_start ?k ?p ?t = Inr s0" by (simp add: a_start_def o s0_def)
  moreover have "b_main ?k ?p ?t s0 = Some (s0\<lparr>b_pc := 1\<rparr>)" by (simp add: b_main_def s0_def l(3) o)
  moreover have "b_main ?k ?p ?t (s0\<lparr>b_pc := 1\<rparr>) = Some (s0\<lparr>pages := m[42 := CHR ''!''], b_pc := 2\<rparr>)"
    using l(1) by (simp add: b_main_def s0_def poke_def)
  moreover have "b_main ?k ?p ?t (s0\<lparr>pages := m[42 := CHR ''!''], b_pc := 2\<rparr>) =
      Some (s0\<lparr>pages := m[42 := CHR ''!'', 43 := ZERO], b_pc := 3\<rparr>)"
    using l(2) by (simp add: b_main_def s0_def poke_def)
  moreover define s3 where "s3 = s0\<lparr>pages := m[42 := CHR ''!'', 43 := ZERO], b_pc := 3\<rparr>"
  ultimately have r: "task2_reach ?k ?p ?t s3"
    unfolding s3_def by (elim task2_reach.boot [THEN task2_reach.writer, THEN task2_reach.writer, THEN task2_reach.writer])
  have "sync_file ?t (pages s3) = ?t" by (rule task2_message [OF t r, THEN conjunct2, THEN conjunct1])
  moreover have "printed s3 = []" "b_pc s3 = 3" by (simp_all add: s3_def s0_def)
  ultimately show ?thesis by (intro exI [of _ s3] conjI r)
qed

end
