(* ===== verification/Sys_Lock.thy ===== *)
theory Sys_Lock
  imports Sys_Files
begin

section \<open>Two processes and a locked file (practice-3/task5/main.c)\<close>

text \<open>
  The parent and the child share one open file with one offset, also through the duplicated descriptor. A
  step is one system call; the calls of \<open>sleep\<close> order nothing. The parent's \<open>flock\<close> is set to zero, the
  child's is a local variable that nothing initialises: its value is the argument of the start. The file is
  opened, \<open>fork\<close> and \<open>write\<close> succeed. Locks are locks on ranges of bytes for writing, the only kind that is set.
\<close>

subsection \<open>Locks of fcntl\<close>

definition F_RDLCK :: int where "F_RDLCK = 0"
definition F_WRLCK :: int where "F_WRLCK = 1"
definition F_UNLCK :: int where "F_UNLCK = 2"

record flock =
  l_type :: int
  l_whence :: int
  l_start :: int
  l_len :: int

text \<open>The first byte and the byte behind the last one, if there is a last one.\<close>

type_synonym region = "int \<times> int option"

definition lock_region :: "nat \<Rightarrow> nat \<Rightarrow> flock \<Rightarrow> region option" where
  "lock_region off n fl =
     (if l_whence fl \<notin> {0, 1, 2} then None
      else let base = (if l_whence fl = 0 then 0 else if l_whence fl = 1 then int off else int n); pos = base + l_start fl;
               r = (if l_len fl < 0 then (pos + l_len fl, Some pos)
                    else (pos, if l_len fl = 0 then None else Some (pos + l_len fl)))
           in if fst r < 0 then None else Some r)"

definition before_end :: "int \<Rightarrow> int option \<Rightarrow> bool" where
  "before_end i e = (case e of None \<Rightarrow> True | Some e \<Rightarrow> i < e)"

definition overlap :: "region \<Rightarrow> region \<Rightarrow> bool" where
  "overlap r q \<longleftrightarrow> before_end (fst r) (snd q) \<and> before_end (fst q) (snd r)"

definition covers_region :: "region \<Rightarrow> region \<Rightarrow> bool" where
  "covers_region r q \<longleftrightarrow> fst r \<le> fst q \<and> (case (snd r, snd q) of (None, _) \<Rightarrow> True | (Some _, None) \<Rightarrow> False | (Some a, Some b) \<Rightarrow> b \<le> a)"

datatype lock_result = Lk_Wait | Lk_Fail | Lk_Done "region option"

text \<open>\<open>fcntl\<close> with \<open>F_SETLKW\<close>: \<open>own\<close> and \<open>other\<close> are what the two processes hold. A lock that is not given back
  as a whole stays; what is left of it still overlaps a lock on the whole file.\<close>

definition set_lock_wait :: "nat \<Rightarrow> nat \<Rightarrow> flock \<Rightarrow> region option \<Rightarrow> region option \<Rightarrow> lock_result" where
  "set_lock_wait off n fl own other =
     (case lock_region off n fl of
        None \<Rightarrow> Lk_Fail
      | Some r \<Rightarrow>
          if l_type fl = F_UNLCK
          then Lk_Done (case own of None \<Rightarrow> None | Some q \<Rightarrow> if covers_region r q then None else own)
          else (case other of
                  None \<Rightarrow> Lk_Done (Some r)
                | Some q \<Rightarrow> if overlap r q then Lk_Wait else Lk_Done (Some r)))"

text \<open>\<open>fcntl\<close> with \<open>F_GETLK\<close>: the lock that is in the way, or the argument with the type \<open>F_UNLCK\<close>.\<close>

definition whole_file :: "int \<Rightarrow> flock" where
  "whole_file t = \<lparr>l_type = t, l_whence = 0, l_start = 0, l_len = 0\<rparr>"

definition get_lock :: "nat \<Rightarrow> nat \<Rightarrow> flock \<Rightarrow> region option \<Rightarrow> flock option" where
  "get_lock off n fl other =
     (if l_type fl \<notin> {F_RDLCK, F_WRLCK} then None
      else case lock_region off n fl of
             None \<Rightarrow> None
           | Some r \<Rightarrow>
               (case other of
                  None \<Rightarrow> Some (fl\<lparr>l_type := F_UNLCK\<rparr>)
                | Some q \<Rightarrow> if overlap r q then Some (whole_file F_WRLCK) else Some (fl\<lparr>l_type := F_UNLCK\<rparr>)))"

subsection \<open>The two processes\<close>

record lock_state =
  shared_file :: string
  shared_off :: nat
  pc_parent :: nat
  pc_child :: nat
  child_fl :: flock
  parent_lock :: "region option"
  child_lock :: "region option"
  parent_str :: string
  parent_printed :: "string option"
  child_code :: "int option"

definition HELLO :: string where "HELLO = ''hello fcntl!''"

definition task5_boot :: "flock \<Rightarrow> lock_state" where
  "task5_boot fl =
     \<lparr>shared_file = write_at 0 HELLO [], shared_off = length HELLO, pc_parent = 0, pc_child = 0, child_fl = fl,
      parent_lock = None, child_lock = None, parent_str = [], parent_printed = None, child_code = None\<rparr>"

definition append_char :: "string \<Rightarrow> lock_state \<Rightarrow> lock_state" where
  "append_char c s = s\<lparr>shared_file := write_at (shared_off s) c (shared_file s), shared_off := shared_off s + length c\<rparr>"

definition task5_parent :: "lock_state \<Rightarrow> lock_state option" where
  "task5_parent s =
     (let lk = (\<lambda>t. set_lock_wait (shared_off s) (length (shared_file s)) (whole_file t) (parent_lock s) (child_lock s));
          locked = (\<lambda>r. case r of Lk_Wait \<Rightarrow> None
                         | Lk_Fail \<Rightarrow> Some (s\<lparr>parent_lock := None, pc_parent := 6\<rparr>)
                         | Lk_Done l \<Rightarrow> Some (s\<lparr>parent_lock := l, pc_parent := pc_parent s + 1\<rparr>))
      in if pc_parent s = 0 then locked (lk F_WRLCK)
         else if pc_parent s = 1 then Some ((append_char ''b'' s)\<lparr>pc_parent := 2\<rparr>)
         else if pc_parent s = 2 then locked (lk F_UNLCK)
         else if pc_parent s = 3 then Some (s\<lparr>shared_off := 0, pc_parent := 4\<rparr>)
         else if pc_parent s = 4
         then (let str = take 1024 (drop (shared_off s) (shared_file s))
               in Some (s\<lparr>parent_str := str, shared_off := shared_off s + length str, pc_parent := 5\<rparr>))
         else if pc_parent s = 5
         then Some (s\<lparr>parent_printed := Some (takeWhile (\<lambda>c. c \<noteq> ZERO) (parent_str s)), parent_lock := None, pc_parent := 6\<rparr>)
         else None)"

definition child_exit :: "int \<Rightarrow> lock_state \<Rightarrow> lock_state" where
  "child_exit c s = s\<lparr>child_code := Some c, child_lock := None, pc_child := 5\<rparr>"

text \<open>The child asks for the lock in its way, sets its own, writes, and gives it back; 4 is its end.\<close>

definition task5_child :: "lock_state \<Rightarrow> lock_state option" where
  "task5_child s =
     (let n = length (shared_file s);
          locked = (\<lambda>fl r. case r of Lk_Wait \<Rightarrow> None
                            | Lk_Fail \<Rightarrow> Some (child_exit (-1) s)
                            | Lk_Done l \<Rightarrow> Some (s\<lparr>child_fl := fl, child_lock := l, pc_child := pc_child s + 1\<rparr>))
      in if pc_child s = 0
         then (case get_lock (shared_off s) n (child_fl s) (parent_lock s) of
                 None \<Rightarrow> Some (child_exit (-1) s)
               | Some fl \<Rightarrow> Some (s\<lparr>child_fl := fl, pc_child := (if l_type fl = F_UNLCK then 1 else 4)\<rparr>))
         else if pc_child s = 1
         then (let fl = (child_fl s)\<lparr>l_type := F_WRLCK\<rparr>
               in locked fl (set_lock_wait (shared_off s) n fl (child_lock s) (parent_lock s)))
         else if pc_child s = 2 then Some ((append_char ''a'' s)\<lparr>pc_child := 3\<rparr>)
         else if pc_child s = 3
         then (let fl = (child_fl s)\<lparr>l_type := F_UNLCK\<rparr>
               in locked fl (set_lock_wait (shared_off s) n fl (child_lock s) (parent_lock s)))
         else if pc_child s = 4 then Some (child_exit 0 s)
         else None)"

inductive task5_reach :: "flock \<Rightarrow> lock_state \<Rightarrow> bool" for fl where
  boot: "task5_reach fl (task5_boot fl)"
| parent: "task5_reach fl s \<Longrightarrow> task5_parent s = Some s' \<Longrightarrow> task5_reach fl s'"
| child: "task5_reach fl s \<Longrightarrow> task5_child s = Some s' \<Longrightarrow> task5_reach fl s'"

text \<open>A given order of steps, true for the parent.\<close>

fun task5_run :: "bool list \<Rightarrow> lock_state \<Rightarrow> lock_state option" where
  "task5_run [] s = Some s"
| "task5_run (b # bs) s = (case (if b then task5_parent s else task5_child s) of None \<Rightarrow> None | Some s \<Rightarrow> task5_run bs s)"

end
