(* ===== verification/Sys_Lock_Correct.thy ===== *)
theory Sys_Lock_Correct
  imports Sys_Lock
begin

section \<open>The locked file: properties\<close>

text \<open>
  Whatever the order of the calls and whatever the child's uninitialised lock holds, the locks exclude each
  other, and there are four texts that the parent can print; only one of them is the intended one.
\<close>

lemma whole_region [simp]: "lock_region off n (whole_file t) = Some (0, None)" "l_type (whole_file t) = t"
  by (simp_all add: lock_region_def whole_file_def Let_def)

lemma lock_region_end: "lock_region off n fl = Some r \<Longrightarrow> before_end 0 (snd r) \<and> 0 \<le> fst r"
  by (auto simp: lock_region_def before_end_def Let_def split: if_splits)

text \<open>Nobody can take the whole file while the other holds some bytes of it, and no bytes while the other holds it all.\<close>

lemma set_lock_whole:
  "set_lock_wait off n (whole_file F_WRLCK) own other =
    (case other of None \<Rightarrow> Lk_Done (Some (0, None)) | Some q \<Rightarrow> if before_end 0 (snd q) then Lk_Wait else Lk_Done (Some (0, None)))"
  "set_lock_wait off n (whole_file F_UNLCK) (Some (0, None)) other = Lk_Done None"
  by (auto simp: set_lock_wait_def overlap_def before_end_def covers_region_def F_WRLCK_def F_UNLCK_def split: option.splits)

lemma set_lock_free:
  assumes "set_lock_wait off n (fl\<lparr>l_type := F_WRLCK\<rparr>) own other = Lk_Done l" "other \<in> {None, Some (0, None)}"
  shows "other = None \<and> (\<exists>r. l = Some r \<and> before_end 0 (snd r))"
proof -
  obtain a b where r: "lock_region off n (fl\<lparr>l_type := F_WRLCK\<rparr>) = Some (a, b)"
    using assms(1) by (auto simp: set_lock_wait_def split: option.splits)
  note e = lock_region_end [OF r]
  have "F_WRLCK \<noteq> F_UNLCK" by (simp add: F_WRLCK_def F_UNLCK_def)
  then show ?thesis
    using assms e by (cases other) (auto simp: set_lock_wait_def r overlap_def before_end_def split: if_splits option.splits)
qed

lemma set_lock_back:
  assumes "set_lock_wait off n (fl\<lparr>l_type := F_UNLCK\<rparr>) own other = Lk_Done l"
  shows "l \<in> {None, own}"
  using assms by (auto simp: set_lock_wait_def split: option.splits if_splits)

text \<open>The texts that the file and the parent's array can hold.\<close>

definition HELLO_b :: string where "HELLO_b = ''hello fcntl!b''"
definition HELLO_a :: string where "HELLO_a = ''hello fcntl!a''"
definition HELLO_ab :: string where "HELLO_ab = ''hello fcntl!ab''"
definition HELLO_ba :: string where "HELLO_ba = ''hello fcntl!ba''"
definition AELLO_b :: string where "AELLO_b = ''aello fcntl!b''"
definition ELLO_b :: string where "ELLO_b = ''ello fcntl!b''"

lemmas text_defs = HELLO_def HELLO_b_def HELLO_a_def HELLO_ab_def HELLO_ba_def AELLO_b_def ELLO_b_def

lemma text_writes:
  "write_at 0 HELLO [] = HELLO" "write_at 12 ''b'' HELLO = HELLO_b" "write_at 12 ''a'' HELLO = HELLO_a" "write_at 13 ''b'' HELLO_a = HELLO_ab"
  "write_at 13 ''a'' HELLO_b = HELLO_ba" "write_at 0 ''a'' HELLO_b = AELLO_b"
  by (simp_all add: text_defs write_at_def)

lemma text_lengths: "length HELLO = 12" "length HELLO_b = 13" "length HELLO_ab = 14" "length HELLO_ba = 14" "length AELLO_b = 13" "length ELLO_b = 12"
  "drop 1 AELLO_b = ELLO_b"
  by (simp_all add: text_defs)

lemma text_prints:
  "takeWhile (\<lambda>c. c \<noteq> ZERO) HELLO_b = HELLO_b" "takeWhile (\<lambda>c. c \<noteq> ZERO) HELLO_ab = HELLO_ab"
  "takeWhile (\<lambda>c. c \<noteq> ZERO) HELLO_ba = HELLO_ba" "takeWhile (\<lambda>c. c \<noteq> ZERO) ELLO_b = ELLO_b"
  by (simp_all add: text_defs ZERO_def char_of_def bit_0)

text \<open>The file, the offset and what the parent has read, by the parent's position and whether the child has written.\<close>

definition views :: "nat \<Rightarrow> bool \<Rightarrow> (string \<times> nat \<times> string) set" where
  "views p w =
     (if p \<le> 1 then (if w then {(HELLO_a, 13, [])} else {(HELLO, 12, [])})
      else if p \<le> 3 then (if w then {(HELLO_ab, 14, []), (HELLO_ba, 14, [])} else {(HELLO_b, 13, [])})
      else if p = 4 then (if w then {(HELLO_ab, 0, []), (HELLO_ba, 0, []), (AELLO_b, 1, [])} else {(HELLO_b, 0, [])})
      else if w then {(HELLO_ab, 14, HELLO_ab), (HELLO_ba, 14, HELLO_ba), (AELLO_b, 13, ELLO_b), (HELLO_ba, 14, HELLO_b)}
      else {(HELLO_b, 13, HELLO_b)})"

definition locks_ok :: "lock_state \<Rightarrow> bool" where
  "locks_ok s \<longleftrightarrow>
     parent_lock s = (if pc_parent s \<in> {1, 2} then Some (0, None) else None) \<and>
     (case child_lock s of None \<Rightarrow> pc_child s \<notin> {2, 3}
      | Some r \<Rightarrow> before_end 0 (snd r) \<and> pc_child s \<in> {2, 3, 4} \<and> pc_parent s \<notin> {1, 2})"

definition task5_inv :: "lock_state \<Rightarrow> bool" where
  "task5_inv s \<longleftrightarrow> locks_ok s \<and>
     (\<exists>w. (w \<longrightarrow> 3 \<le> pc_child s) \<and> (pc_child s = 3 \<longrightarrow> w) \<and> (shared_file s, shared_off s, parent_str s) \<in> views (pc_parent s) w) \<and>
     (\<forall>t. parent_printed s = Some t \<longrightarrow> pc_parent s = 6 \<and> t = takeWhile (\<lambda>c. c \<noteq> ZERO) (parent_str s))"

lemma append_fields [simp]:
  "pc_parent (append_char c s) = pc_parent s" "pc_child (append_char c s) = pc_child s" "child_fl (append_char c s) = child_fl s"
  "parent_lock (append_char c s) = parent_lock s" "child_lock (append_char c s) = child_lock s" "parent_str (append_char c s) = parent_str s"
  "parent_printed (append_char c s) = parent_printed s"
  by (simp_all add: append_char_def)

text \<open>The two writes and the reading, on the views.\<close>

lemma views_b:
  assumes "(f, off, str) \<in> views 1 w"
  shows "(write_at off ''b'' f, off + 1, str) \<in> views 2 w"
  using assms by (auto simp: views_def text_writes split: if_splits)

lemma views_a:
  assumes "(f, off, str) \<in> views p False"
  shows "(write_at off ''a'' f, off + 1, str) \<in> views p True"
  using assms by (auto simp: views_def text_writes split: if_splits)

lemma views_next: "views 0 w = views 1 w" "views 2 w = views 3 w" "views 5 w = views 6 w"
  by (simp_all add: views_def)

lemma views_seek: "(f, off, str) \<in> views 3 w \<Longrightarrow> (f, 0, str) \<in> views 4 w"
  by (auto simp: views_def split: if_splits)

lemma views_read:
  "(f, off, str) \<in> views 4 w \<Longrightarrow> (f, off + length (take 1024 (drop off f)), take 1024 (drop off f)) \<in> views 5 w"
  by (auto simp: views_def text_lengths simp flip: One_nat_def split: if_splits)

lemma views_printed:
  assumes "(f, off, str) \<in> views 6 w"
  shows "takeWhile (\<lambda>c. c \<noteq> ZERO) str \<in> {HELLO_ba, HELLO_ab, HELLO_b, ELLO_b}"
  using assms by (auto simp: views_def text_prints split: if_splits)

subsection \<open>The invariant\<close>

lemma inv_intro:
  assumes "locks_ok s" "w \<longrightarrow> 3 \<le> pc_child s" "pc_child s = 3 \<longrightarrow> w"
    "(shared_file s, shared_off s, parent_str s) \<in> views (pc_parent s) w"
    "\<forall>t. parent_printed s = Some t \<longrightarrow> pc_parent s = 6 \<and> t = takeWhile (\<lambda>c. c \<noteq> ZERO) (parent_str s)"
  shows "task5_inv s"
  using assms unfolding task5_inv_def by blast

lemma boot_inv: "task5_inv (task5_boot fl)"
  by (rule inv_intro [where w = False]) (simp_all add: task5_boot_def locks_ok_def views_def text_writes text_lengths)

lemma parent_inv:
  assumes "task5_inv s" "task5_parent s = Some s'"
  shows "task5_inv s'"
proof -
  from assms(1) obtain w where lk: "locks_ok s" and w: "w \<longrightarrow> 3 \<le> pc_child s" "pc_child s = 3 \<longrightarrow> w"
    and v: "(shared_file s, shared_off s, parent_str s) \<in> views (pc_parent s) w"
    and p: "\<forall>t. parent_printed s = Some t \<longrightarrow> pc_parent s = 6 \<and> t = takeWhile (\<lambda>c. c \<noteq> ZERO) (parent_str s)"
    unfolding task5_inv_def by blast
  have np: "parent_printed s = None" if "pc_parent s \<noteq> 6" using p that by (cases "parent_printed s") auto
  have pc: "pc_parent s \<le> 5" using assms(2) by (auto simp: task5_parent_def Let_def split: if_splits)
  then consider "pc_parent s = 0" | "pc_parent s = 1" | "pc_parent s = 2" | "pc_parent s = 3" | "pc_parent s = 4" | "pc_parent s = 5"
    by linarith
  then show ?thesis
  proof cases
    case 1
    then have "child_lock s = None \<and> s' = s\<lparr>parent_lock := Some (0, None), pc_parent := 1\<rparr>"
      using assms(2) lk by (auto simp: task5_parent_def Let_def set_lock_whole locks_ok_def split: option.splits if_splits)
    then show ?thesis using w v lk np 1 views_next by (intro inv_intro [where w = w]) (auto simp: locks_ok_def split: option.splits)
  next
    case 2
    then have "s' = (append_char ''b'' s)\<lparr>pc_parent := 2\<rparr>" using assms(2) by (simp add: task5_parent_def)
    then show ?thesis
      using w lk np 2 views_b [of "shared_file s" "shared_off s" "parent_str s" w] v
      by (intro inv_intro [where w = w]) (auto simp: locks_ok_def append_char_def split: option.splits)
  next
    case 3
    then have "s' = s\<lparr>parent_lock := None, pc_parent := 3\<rparr>"
      using assms(2) lk by (auto simp: task5_parent_def Let_def set_lock_whole locks_ok_def)
    then show ?thesis using w v lk np 3 views_next by (intro inv_intro [where w = w]) (auto simp: locks_ok_def split: option.splits)
  next
    case 4
    then have "s' = s\<lparr>shared_off := 0, pc_parent := 4\<rparr>" using assms(2) by (simp add: task5_parent_def)
    then show ?thesis
      using w lk np 4 views_seek [of "shared_file s" "shared_off s" "parent_str s" w] v
      by (intro inv_intro [where w = w]) (auto simp: locks_ok_def split: option.splits)
  next
    case 5
    let ?r = "take 1024 (drop (shared_off s) (shared_file s))"
    have "s' = s\<lparr>parent_str := ?r, shared_off := shared_off s + length ?r, pc_parent := 5\<rparr>"
      using assms(2) 5 by (simp add: task5_parent_def Let_def)
    then show ?thesis
      using w lk np 5 views_read [of "shared_file s" "shared_off s" "parent_str s" w] v
      by (intro inv_intro [where w = w]) (auto simp: locks_ok_def split: option.splits)
  next
    case 6
    then have "s' = s\<lparr>parent_printed := Some (takeWhile (\<lambda>c. c \<noteq> ZERO) (parent_str s)), parent_lock := None, pc_parent := 6\<rparr>"
      using assms(2) by (simp add: task5_parent_def)
    then show ?thesis using w v lk 6 views_next by (intro inv_intro [where w = w]) (auto simp: locks_ok_def split: option.splits)
  qed
qed

lemma child_inv:
  assumes "task5_inv s" "task5_child s = Some s'"
  shows "task5_inv s'"
proof -
  from assms(1) obtain w where lk: "locks_ok s" and w: "w \<longrightarrow> 3 \<le> pc_child s" "pc_child s = 3 \<longrightarrow> w"
    and v: "(shared_file s, shared_off s, parent_str s) \<in> views (pc_parent s) w"
    and p: "\<forall>t. parent_printed s = Some t \<longrightarrow> pc_parent s = 6 \<and> t = takeWhile (\<lambda>c. c \<noteq> ZERO) (parent_str s)"
    unfolding task5_inv_def by blast
  have ex: "task5_inv (child_exit c s)" for c
    using lk w v p by (intro inv_intro [where w = w]) (auto simp: child_exit_def locks_ok_def split: option.splits)
  have pc: "pc_child s \<le> 4" using assms(2) by (auto simp: task5_child_def Let_def split: if_splits)
  then consider "pc_child s = 0" | "pc_child s = 1" | "pc_child s = 2" | "pc_child s = 3" | "pc_child s = 4" by linarith
  then show ?thesis
  proof cases
    case 1
    then have c: "child_lock s = None" "\<not> w" using lk w by (auto simp: locks_ok_def split: option.splits)
    from 1 assms(2) consider "s' = child_exit (-1) s" | fl n where "s' = s\<lparr>child_fl := fl, pc_child := n\<rparr>" "n = 1 \<or> n = 4"
      by (auto simp: task5_child_def Let_def split: option.splits if_splits)
    then show ?thesis
    proof cases
      case 2
      then show ?thesis using lk v p c by (intro inv_intro [where w = w]) (auto simp: locks_ok_def)
    qed (use ex in simp)
  next
    case 2
    then have c: "child_lock s = None" "\<not> w" using lk w by (auto simp: locks_ok_def split: option.splits)
    have o: "parent_lock s \<in> {None, Some (0, None)}" using lk by (auto simp: locks_ok_def)
    let ?fl = "(child_fl s)\<lparr>l_type := F_WRLCK\<rparr>"
    from 2 assms(2) consider "s' = child_exit (-1) s"
      | l where "set_lock_wait (shared_off s) (length (shared_file s)) ?fl (child_lock s) (parent_lock s) = Lk_Done l"
        "s' = s\<lparr>child_fl := ?fl, child_lock := l, pc_child := 2\<rparr>"
      by (auto simp: task5_child_def Let_def split: lock_result.splits)
    then show ?thesis
    proof cases
      case (2 l)
      obtain r where "l = Some r" "before_end 0 (snd r)" "parent_lock s = None" using set_lock_free [OF 2(1) o] by blast
      then show ?thesis using lk v p c 2(2) by (intro inv_intro [where w = w]) (auto simp: locks_ok_def split: if_splits)
    qed (use ex in simp)
  next
    case 3
    then have "s' = (append_char ''a'' s)\<lparr>pc_child := 3\<rparr>" "\<not> w" using assms(2) w by (simp_all add: task5_child_def Let_def)
    then show ?thesis
      using lk p 3 views_a [of "shared_file s" "shared_off s" "parent_str s" "pc_parent s"] v
      by (intro inv_intro [where w = True]) (auto simp: locks_ok_def append_char_def split: option.splits)
  next
    case 4
    let ?fl = "(child_fl s)\<lparr>l_type := F_UNLCK\<rparr>"
    from 4 assms(2) consider "s' = child_exit (-1) s"
      | l where "set_lock_wait (shared_off s) (length (shared_file s)) ?fl (child_lock s) (parent_lock s) = Lk_Done l"
        "s' = s\<lparr>child_fl := ?fl, child_lock := l, pc_child := 4\<rparr>"
      by (auto simp: task5_child_def Let_def split: lock_result.splits)
    then show ?thesis
    proof cases
      case (2 l)
      have "l \<in> {None, child_lock s}" by (rule set_lock_back [OF 2(1)])
      then show ?thesis using lk v p w 4 2(2) by (intro inv_intro [where w = w]) (auto simp: locks_ok_def split: option.splits)
    qed (use ex in simp)
  next
    case 5
    then have "s' = child_exit 0 s" using assms(2) by (simp add: task5_child_def Let_def)
    then show ?thesis using ex by simp
  qed
qed

lemma reach_inv: "task5_reach fl s \<Longrightarrow> task5_inv s"
  by (induction rule: task5_reach.induct) (auto intro: boot_inv parent_inv child_inv)

lemma task5_run_reach: "task5_reach fl s \<Longrightarrow> task5_run bs s = Some s' \<Longrightarrow> task5_reach fl s'"
  by (induction bs arbitrary: s) (auto split: option.splits if_splits intro: task5_reach.intros)

subsection \<open>Properties\<close>

text \<open>C38: task 5. Whatever the order of the calls and whatever the child's uninitialised lock holds: while the parent is between
  its lock and its unlock, the child holds no lock and is not about to write or to give one back, and the
  parent prints one of four texts, of which only the first is the intended one.\<close>

theorem task5_outcomes:
  assumes "task5_reach fl s"
  shows "(pc_parent s \<in> {1, 2} \<longrightarrow> child_lock s = None \<and> pc_child s \<notin> {2, 3}) \<and>
    (\<forall>t. parent_printed s = Some t \<longrightarrow>
      t \<in> {''hello fcntl!ba'', ''hello fcntl!ab'', ''hello fcntl!b'', ''ello fcntl!b''})"
proof -
  have inv: "task5_inv s" by (rule reach_inv [OF assms])
  then have "pc_parent s \<in> {1, 2} \<longrightarrow> child_lock s = None \<and> pc_child s \<notin> {2, 3}"
    by (auto simp: task5_inv_def locks_ok_def split: option.splits)
  moreover have "t \<in> {HELLO_ba, HELLO_ab, HELLO_b, ELLO_b}" if "parent_printed s = Some t" for t
    using inv that views_printed unfolding task5_inv_def by metis
  ultimately show ?thesis unfolding text_defs by blast
qed

text \<open>Every one of the four texts is printed in some order of the calls. The last needs the child to write between the
  parent's \<open>lseek\<close> and \<open>read\<close>, which no lock prevents: then the a overwrites the first character of the file.\<close>

lemma task5_orders:
  "map_option parent_printed
     (task5_run [True, True, True, False, False, False, False, False, True, True, True] (task5_boot (whole_file 0))) =
     Some (Some ''hello fcntl!ba'')"
  "map_option parent_printed
     (task5_run [False, False, False, False, False, True, True, True, True, True, True] (task5_boot (whole_file 0))) =
     Some (Some ''hello fcntl!ab'')"
  "map_option parent_printed (task5_run [True, False, False, True, True, True, True, True] (task5_boot (whole_file 0))) =
     Some (Some ''hello fcntl!b'')"
  "map_option (\<lambda>s. (parent_printed s, shared_file s))
     (task5_run [True, True, True, False, False, True, False, True, True] (task5_boot (whole_file 0))) =
     Some (Some ''ello fcntl!b'', ''aello fcntl!b'')"
  by code_simp+

text \<open>With a type that is no lock in the uninitialised variable the child fails and writes nothing.\<close>

lemma task5_uninitialised:
  assumes "l_type fl \<notin> {F_RDLCK, F_WRLCK}"
  shows "task5_child (task5_boot fl) = Some (child_exit (-1) (task5_boot fl))"
  using assms by (simp add: task5_child_def task5_boot_def get_lock_def Let_def)

theorem task5_outcomes_witness:
  "\<exists>s. task5_run [True, True, True, False, False, False, False, False, True, True, True] (task5_boot (whole_file 0)) = Some s \<and>
    parent_printed s = Some ''hello fcntl!ba'' \<and> ''hello fcntl!ba'' \<in> {''hello fcntl!ba'', ''hello fcntl!ab'', ''hello fcntl!b'', ''ello fcntl!b''}"
proof -
  obtain s where s: "task5_run [True, True, True, False, False, False, False, False, True, True, True] (task5_boot (whole_file 0)) = Some s"
    "parent_printed s = Some ''hello fcntl!ba''" using task5_orders(1) by auto
  have "task5_reach (whole_file 0) s" by (rule task5_run_reach [OF task5_reach.boot s(1)])
  from task5_outcomes [OF this] s show ?thesis by blast
qed

end
