(* ===== verification/Spec2Isabelle.thy ===== *)
theory Spec2Isabelle
  imports Buddy_Correct Buddy_Tests Malloc_Correct MDriver_Main_Correct Coroutine_Correct Timing_Correct Driverlib_Correct Keibot_Correct MM_Advance_Correct MM_Basic Trace_Convert Chat_Flood Threads_Correct Sys_Files_Correct Sys_Lock_Correct
begin

text \<open>
  A verification of the course practices OS2023-Practices: programs in C (and C++ in practice-4) on
  threads, coroutines, memory management, a file system in user space and a chat room. Every component
  has a theory with its state and its operations in the order of the source, theories with its invariant
  and its lemmas, and a theory \<open>..._Correct\<close> whose properties are numbered C1, C2, ... .

  \<^bold>\<open>Conventions\<close> (C_Prelude, C_Text, Mem). Integers of the C code are natural or integer numbers with the
  wrap-around of their type written out (\<open>u32\<close>, \<open>add64\<close>, \<open>s32\<close>, \<open>wrap32\<close>), pointers of buddy.c are \<open>64 word\<close>;
  the simulated heap is a function from addresses to bytes. A function that the C code may leave by undefined
  behaviour, by an assertion or by a loop without end returns an option, a datatype of outcomes or takes fuel.
  Text is a list of characters; \<open>scan_number\<close>, \<open>show_int\<close> and their companions are the conversions of the
  C library, and reading what was shown is a lemma of C_Text.

  \<^bold>\<open>Buddy page allocator\<close> (practice-2/practice_2-1/buddy.c). Buddy holds the metadata array, the doubly linked
  free lists inside it and \<open>init_page\<close>, \<open>alloc_pages\<close>, \<open>return_pages\<close>, \<open>query_ranks\<close>, \<open>query_page_counts\<close>. The search
  loop of \<open>alloc_pages\<close> and the merging loop of \<open>return_pages\<close> step an 8-bit rank and are partial functions, shown to return.
  Buddy_Lists and Buddy_Index show that the list macros work as operations on lists and that ranks and
  pages convert exactly, Buddy_Blocks is the abstract allocator on a tiling of the pages by blocks whose size is a
  power of two, Buddy_Refine relates the array to a tiling (\<open>repr\<close>) and shows that every operation simulates the abstract one,
  Buddy_Spec states what is observable, Buddy_Correct has the properties: functional correctness on every
  branch (a block comes from the smallest free block that holds it), the invariant over all histories, that the free
  blocks do not depend on the history, tiling and page balance, and the pointer check that accepts a far pointer.
  Buddy_Tests has the test program main.c, phase by phase, and shows that all its checks hold.

  \<^bold>\<open>Malloc laboratory\<close> (practice-2/practice_2-2). Memlib is the simulated memory system of memlib.c. MM_Spec is
  the interface between the driver and an allocator: the record \<open>mm_package\<close> of entry points and the
  locale \<open>malloc_contract\<close> of the laws that the driver checks. MDriver (ranges of payloads, reading and
  writing of the random data), MDriver_Trace (reading traces), MDriver_Valid (the correctness replay),
  MDriver_Eval (utilisation and speed replays), MDriver_Score (all traces, performance index) and MDriver_Main
  (options, files, libc run, alarm, tables, submission) model mdriver.c; the client's lemmas are proved in the
  locale. Malloc_Correct and MDriver_Main_Correct have the properties, up to the whole program on every
  package that keeps the contract, and what a timeout leaves. MM_Naive, the MM_Advance theories and MM_Basic model the
  allocators mm-naive.c, mm-advance.c and mm-basic.c. The first two are shown to keep the contract, by
  interpretations on their definitions; the third is shown to hang. For mm-advance.c the theories
  MM_Advance_Inv (geometry of blocks and border words), MM_Advance_Lists (the lists of free blocks in the heap),
  MM_Advance_Rep (the heap represents a list of blocks), MM_Advance_Ops (place, coalesce, find) and
  MM_Advance_Contract lead to MM_Advance_Correct; a search gets as much fuel as the heap can hold blocks, and
  the lemmas show that it ends before. The C function \<open>memcpy\<close> or \<open>memmove\<close> that realloc uses is an argument.

  \<^bold>\<open>Recorded traces\<close> (practice-2/practice_2-2/traces). Get_Trace has the allocator and the buffered log of get-trace.c,
  which records the requests of another program; the process id, the environment and the answers of \<open>open\<close> are the
  record \<open>trace_env\<close>, writes to the file are complete. Get_Trace_Correct shows that the file is one line for each request and
  that blocks lie apart. Trace_Convert is the Perl script convert-exec-trace-to-rep; it shows that what the script makes of
  a recorded program is read by the driver as the same requests, and this theory joins the chain to mm-advance.c.

  \<^bold>\<open>Timing package\<close> (clock.c, fcyc.c, fsecs.c, ftimer.c). Timing, Timing_Correct: the cycle counter kept in two
  halves, the compensated counter, the sampler that stops when the best samples agree. The hardware
  counter is an argument. \<^bold>\<open>Result submission\<close> (driverlib.c). Driverlib, Driverlib_Correct: URL encoding,
  buffered reading under short reads and interrupts, the request and the answer; the network is an argument.

  \<^bold>\<open>Coroutines\<close> (practice-1/coroutine/coroutine.c). Coroutine models the scheduler as a step relation on any
  number of threads; a routine is a tree of the calls it makes. Coroutine_Inv has the invariant and the
  array list of the scheduler as an interpretation of the locale \<open>growable\<close>; Coroutine_Correct shows the invariant for
  all reachable states, the order of resumption, the stability of results and that \<open>co_waitall\<close> returns.

  \<^bold>\<open>Thread exercises\<close> (practice-1/practice 1-1). Threads gives the threads of tasks 1 to 4 as lists of instructions
  over mutex, barrier and condition variable; Threads_Correct shows that the texts of tasks 3 and 4 do not mix
  (locale \<open>critical_sections\<close>), that thread 9 of task 4 prints first, and that task 4 ends.

  \<^bold>\<open>File system of the chat bot\<close> (practice-3/fuse/keibot.c). Keibot has the list of files and every operation that FUSE
  calls, Keibot_Inv the invariant and the interpretation of the locale \<open>file_store\<close>, Keibot_Correct the refinement
  of a map from paths to files and the content laws.

  \<^bold>\<open>System call exercises\<close> (practice-3/task1 to task5). Sys_Files models files with shared mappings, including the zeros
  of the last page behind the end of a file; Sys_Files_Correct shows what the programs print and leave in the files,
  for tasks 2 and 3 in every order of the steps, and that in task 4 system calls and mappings transfer the same bytes.
  Sys_Lock has the two processes of task 5 with their locks on ranges of bytes; Sys_Lock_Correct shows that the locks exclude each
  other and which texts the parent can print.

  \<^bold>\<open>Chat room\<close> (practice-4). Chat has messages with their text format and cipher, caches, the group with its members,
  the send queues and all handlers of sessions and clients. Chat_Correct shows the round trip of messages and the
  laws of queues (locale \<open>group_member\<close>, interpreted for sessions and the client), Chat_Group the invariant
  of a process, Chat_Net the networks of connected processes and that every connection is a first-in
  first-out queue, Chat_Flood that a message is forwarded only finitely often.

  \<^bold>\<open>Not modelled.\<close> practice-2/practice_2-2/mm.c is a version of mm-advance.c under work that no compiler accepts: a
  declaration is the body of an \<open>if\<close> in \<open>mm_init\<close>. In mdriver.c the messages on the progress of a run
  and the text of \<open>usage\<close> only print; an alarm outside \<open>run_tests\<close> jumps through an unset buffer and is not covered. Log output
  and terminal colours only print. The test program of the coroutines calls what is
  modelled. practice-3/task6 and practice-1/practice 1-1/task5 print and test what the kernel does
  (interfaces, affinity). In practice-4 handlers run one at a time, as with one thread; boost and its sockets
  are the steps of Chat_Net. The optional clocks for other processors and the branches of the sources that the
  configuration leaves out (\<open>EMBEDDED_META\<close>, \<open>DEBUG\<close>, \<open>KEEP_SAMPLES\<close>, Alpha and Sparc) are not modelled.
\<close>

section \<open>A property of several components\<close>






end
